(* ===== verification/Redpine_Prelude.thy ===== *)
theory Redpine_Prelude
  imports Main "HOL-Library.Word" "HOL-Library.Monad_Syntax"
begin

text \<open>
  Shared vocabulary of the development: the machine integers of the Rust code, the
  outcome type of code that may abort, saturating arithmetic, and the generic lemmas on
  wrapping 32-bit sequence numbers and on lists that every component uses.
\<close>

unbundle bit_operations_syntax

section \<open>Machine integers\<close>

type_synonym u8 = "8 word"
type_synonym u16 = "16 word"
type_synonym u32 = "32 word"
type_synonym u64 = "64 word"
type_synonym bytes = "8 word list"

text \<open>
  A computation that may abort (a failed \<^verbatim>\<open>assert!\<close>, an out-of-range slice, an
  \<^verbatim>\<open>expect\<close> on \<^verbatim>\<open>None\<close>, or a raw-pointer access outside its buffer) has type
  \<open>'a rust\<close>: \<open>None\<close> is the abort. Rust's own \<^verbatim>\<open>Option\<close> results are a second,
  inner \<open>option\<close>. Sizes of type \<^verbatim>\<open>usize\<close> are \<open>nat\<close>; every other integer has
  the width it has in the source, and its operators wrap as they do in a release build.
\<close>

type_synonym 'a rust = "'a option"

definition rust_assert :: "bool \<Rightarrow> unit rust" where
  "rust_assert b = (if b then Some () else None)"

lemma rust_assert_simps [simp]:
  "rust_assert True = Some ()" "rust_assert False = None"
  by (simp_all add: rust_assert_def)

lemma rust_assert_bind_Some [simp]:
  "(rust_assert b \<bind> f = Some y) \<longleftrightarrow> (b \<and> f () = Some y)"
  by (cases b) simp_all

definition saturating_add :: "'a::len word \<Rightarrow> 'a word \<Rightarrow> 'a word" where
  "saturating_add a b = (if a + b < a then - 1 else a + b)"

definition saturating_sub :: "'a::len word \<Rightarrow> 'a word \<Rightarrow> 'a word" where
  "saturating_sub a b = (if b \<le> a then a - b else 0)"

text \<open>Facts that turn word operations into arithmetic on their values.\<close>

named_theorems word_value

lemma saturating_add_value [word_value]:
  "unat (saturating_add a b) = min (unat a + unat b) (2 ^ LENGTH('a) - 1)" for a b :: "'a::len word"
proof (cases "unat a + unat b < 2 ^ LENGTH('a)")
  case True
  then have "unat (a + b) = unat a + unat b"
    by (simp add: unat_add_lem [THEN iffD1])
  with True show ?thesis
    by (simp add: saturating_add_def word_less_nat_alt)
next
  case False
  have "unat b < 2 ^ LENGTH('a)" and "unat a < 2 ^ LENGTH('a)"
    by (rule unsigned_less)+
  with False have "unat (a + b) = unat a + unat b - 2 ^ LENGTH('a)"
    unfolding unat_word_ariths by (subst mod_if) (subst mod_less, arith, simp)
  with False \<open>unat b < 2 ^ LENGTH('a)\<close> have "a + b < a"
    unfolding word_less_nat_alt by arith
  with False show ?thesis
    by (simp add: saturating_add_def unsigned_minus_1_eq_mask mask_eq_exp_minus_1)
qed

lemma saturating_sub_value [word_value]:
  "unat (saturating_sub a b) = unat a - unat b"
  by (auto simp: saturating_sub_def word_le_nat_alt unat_sub)

lemma word_xor_left_self [simp]: "a XOR (a XOR b) = b" for a b :: "'a::len word"
  by (simp flip: xor.assoc)

lemma word_xor_inject [simp]:
  "a XOR c = b XOR c \<longleftrightarrow> a = b" "c XOR a = c XOR b \<longleftrightarrow> a = b" for a b c :: "'a::len word"
  by (metis word_xor_left_self xor.commute)+

lemma unat_u8_less [simp]: "unat (x :: u8) < 256"
proof -
  have "unat x < 2 ^ LENGTH(8)" by (rule unsigned_less)
  then show ?thesis by simp
qed

section \<open>Wrapping sequence numbers\<close>

text \<open>
  Fragment and segment identifiers are \<open>u32\<close> values that wrap. The code compares them
  by their distance \<^verbatim>\<open>id.wrapping_sub(base)\<close> from a window base; \<open>seq_delta\<close> is
  the value of that distance.
\<close>

definition seq_delta :: "u32 \<Rightarrow> u32 \<Rightarrow> nat" where
  "seq_delta base x = unat (x - base)"

lemma seq_delta_self [simp]: "seq_delta b b = 0"
  by (simp add: seq_delta_def)

lemma seq_delta_less: "seq_delta b x < 4294967296"
  using unsigned_less [of "x - b"] by (simp add: seq_delta_def)

lemma seq_delta_eq_0 [simp]: "seq_delta b x = 0 \<longleftrightarrow> x = b"
  by (simp add: seq_delta_def unat_eq_0)

lemma seq_delta_inject: "seq_delta b x = seq_delta b y \<longleftrightarrow> x = y"
  by (simp add: seq_delta_def word_unat_eq_iff [symmetric])

lemma seq_delta_add:
  assumes "seq_delta b x + k < 4294967296"
  shows "seq_delta b (x + word_of_nat k) = seq_delta b x + k"
proof -
  have "x + word_of_nat k - b = (x - b) + word_of_nat k"
    by (simp add: algebra_simps)
  moreover have "unat (word_of_nat k :: u32) = k"
    using assms by (simp add: unat_of_nat)
  ultimately show ?thesis
    using assms unat_add_lem [of "x - b" "word_of_nat k"] by (simp only: seq_delta_def) simp
qed

lemma seq_delta_Suc:
  assumes "seq_delta b x + 1 < 4294967296"
  shows "seq_delta b (x + 1) = seq_delta b x + 1"
  using seq_delta_add [of b x 1] assms by simp

lemma seq_delta_rebase:
  assumes "seq_delta b n \<le> seq_delta b m"
  shows "seq_delta n m = seq_delta b m - seq_delta b n"
proof -
  have "n - b \<le> m - b"
    using assms by (simp add: seq_delta_def word_le_nat_alt)
  then have "unat ((m - b) - (n - b)) = unat (m - b) - unat (n - b)"
    by (rule unat_sub)
  then show ?thesis
    by (simp add: seq_delta_def)
qed

lemma seq_delta_of_nat [simp]:
  "seq_delta b (b + word_of_nat k) = k mod 4294967296"
  by (simp add: seq_delta_def unat_of_nat)

lemma seq_delta_plus: "b + word_of_nat (seq_delta b x) = x"
  by (simp add: seq_delta_def)

lemmas seq_delta_simps = seq_delta_Suc seq_delta_rebase seq_delta_add

text \<open>
  Identifiers of unbounded indices: the distance from index \<open>k\<close> to index \<open>n\<close> is exact
  if \<open>n\<close> is ahead by less than a full turn, and huge if it is behind.
\<close>

lemma seq_delta_index:
  assumes "k \<le> n" and "n < k + 4294967296"
  shows "seq_delta (b + word_of_nat k) (b + word_of_nat n) = n - k"
proof -
  have "b + word_of_nat n = b + word_of_nat k + word_of_nat (n - k)"
    using assms(1) by (simp add: of_nat_diff)
  with assms show ?thesis
    using seq_delta_of_nat [of "b + word_of_nat k" "n - k"] by simp
qed

lemma seq_delta_index_behind:
  assumes "n < k" and "k < n + 4294967296"
  shows "seq_delta (b + word_of_nat k) (b + word_of_nat n) = 4294967296 + n - k"
proof -
  have "b + word_of_nat k + word_of_nat (4294967296 + n - k) = b + (word_of_nat (4294967296 + n) :: u32)"
    using assms by (simp add: of_nat_diff)
  also have "\<dots> = b + word_of_nat n"
    by simp
  finally have "seq_delta (b + word_of_nat k) (b + word_of_nat n) = (4294967296 + n - k) mod 4294967296"
    using seq_delta_of_nat [of "b + word_of_nat k" "4294967296 + n - k"] by (simp only:)
  with assms show ?thesis
    by auto
qed

lemma mod_eq_close:
  assumes "a mod m = b mod m" and "a < b + m" and "b < a + m"
  shows "a = (b :: nat)"
  using assms
proof (induction a b rule: linorder_wlog)
  case (le a b)
  then have "m dvd b - a" by (metis mod_eq_dvd_iff_nat)
  with le show ?case by (auto dest: dvd_imp_le)
qed simp

lemma seq_index_inject:
  assumes "a < b + 4294967296" and "b < a + 4294967296"
  shows "x + word_of_nat a = (x + word_of_nat b :: u32) \<longleftrightarrow> a = b"
proof
  assume "x + word_of_nat a = (x + word_of_nat b :: u32)"
  then have "unat (word_of_nat a :: u32) = unat (word_of_nat b :: u32)"
    by simp
  then have "a mod 4294967296 = b mod 4294967296"
    by (simp add: unat_of_nat)
  then show "a = b"
    using assms by (rule mod_eq_close)
qed simp

lemma unat_minus_one_less: "x \<noteq> 0 \<Longrightarrow> unat (x - 1) < unat x" for x :: "'a::len word"
  by (metis diff_less less_numeral_extra(1) unat_eq_zero unat_minus_one not_gr0)

section \<open>Parity of a bit field\<close>

text \<open>
  The exclusive or of the lowest \<open>n\<close> bits, which the code computes by folding the word
  in halves.
\<close>

fun xor_bits :: "'a::len word \<Rightarrow> nat \<Rightarrow> bool" where
  "xor_bits x 0 = False"
| "xor_bits x (Suc n) = (bit x n \<noteq> xor_bits x n)"

lemma xor_bits_xor: "xor_bits (x XOR y) n = (xor_bits x n \<noteq> xor_bits y n)"
  by (induction n) (auto simp: bit_xor_iff)

lemma xor_bits_split: "xor_bits x (n + k) = (xor_bits x n \<noteq> xor_bits (drop_bit n x) k)"
  by (induction k) (auto simp: bit_drop_bit_eq)

lemma xor_bits_fold: "xor_bits (x XOR drop_bit n x) n = xor_bits x (n + n)"
  by (simp add: xor_bits_xor xor_bits_split)

lemma xor_fold_step: "n + n = m \<Longrightarrow> xor_bits (x XOR drop_bit n x) n = xor_bits x m"
  by (auto simp: xor_bits_fold)

lemma xor_bits_one: "x AND 1 = 1 \<longleftrightarrow> xor_bits x 1" for x :: "'a::len word"
  by (simp add: and_one_eq mod2_eq_if bit_0)

lemma xor_bits_card: "xor_bits x n = odd (card {j. j < n \<and> bit x j})"
proof (induction n)
  case (Suc n)
  have "{j. j < Suc n \<and> bit x j} = (if bit x n then insert n {j. j < n \<and> bit x j} else {j. j < n \<and> bit x j})"
    by (auto simp: less_Suc_eq)
  with Suc show ?case by simp
qed simp

lemma xor_bits_cong: "(\<And>j. j < n \<Longrightarrow> bit x j = bit y j) \<Longrightarrow> xor_bits x n = xor_bits y n"
  by (induction n) auto

lemma xor_bits_high:
  "(\<And>j. m \<le> j \<Longrightarrow> j < m + k \<Longrightarrow> \<not> bit x j) \<Longrightarrow> xor_bits x (m + k) = xor_bits x m"
  by (induction k) auto

end
