(* ===== verification/Frame.thy ===== *)
theory Frame
  imports Redpine_Prelude
begin

text \<open>
  The frame types of the wire protocol (\<^verbatim>\<open>src/frame/mod.rs\<close>): one record per
  struct, one datatype per enum. Byte slices that the Rust structs borrow are byte lists.
\<close>

datatype FrameType =
    HandshakeAlpha
  | HandshakeAlphaAck
  | HandshakeBeta
  | HandshakeBetaAck
  | Close
  | CloseAck
  | StreamSegment
  | StreamAckType
  | StreamSegmentAck
  | StreamSyncType

record ConnectionParams =
  packet_size_in_max :: u32
  packet_size_out_max :: u32

datatype HandshakeErrorKind = HsCapacity | HsParameter

record Datagram =
  dg_id :: u32
  dg_unrel :: bool
  dg_first :: bool
  dg_last :: bool
  dg_data :: bytes

record HandshakeAlphaFrame =
  ha_protocol_id :: u16
  ha_client_nonce :: u32

record HandshakeAlphaAckFrame =
  haa_server_params :: ConnectionParams
  haa_client_nonce :: u32
  haa_server_nonce :: u32
  haa_server_timestamp :: u32
  haa_server_mac :: u64

record HandshakeBetaFrame =
  hb_client_params :: ConnectionParams
  hb_client_nonce :: u32
  hb_server_nonce :: u32
  hb_server_timestamp :: u32
  hb_server_mac :: u64

record HandshakeBetaAckFrame =
  hba_error :: "HandshakeErrorKind option"
  hba_client_nonce :: u32

record CloseFrame =
  cl_remote_nonce :: u32

record CloseAckFrame =
  cla_remote_nonce :: u32

record StreamSegmentHeader =
  ssh_id :: u32
  ssh_nonce :: bool

record StreamAck =
  sa_segment_id :: u32
  sa_segment_history :: u8
  sa_segment_checksum :: bool
  sa_rel_fragment_id :: "u32 option"

record StreamSync =
  ss_next_segment_id :: u32

end
