(* ===== verification/Crc.thy ===== *)
theory Crc
  imports Redpine_Prelude
begin

text \<open>
  The frame checksum (\<^verbatim>\<open>src/frame/serial/crc.rs\<close>): the bitwise reference
  \<open>extend_slow\<close>, the table \<open>PARTIAL_RESULTS\<close>, and the table-driven \<open>extend\<close>.
  The table-driven routine equals the reference on every input, and two inputs that
  differ in one byte have different checksums.
\<close>

section \<open>Definitions\<close>

definition crc_bit_step :: "u32 \<Rightarrow> u32" where
  "crc_bit_step reg =
     (if reg AND 0x00000001 \<noteq> 0 then drop_bit 1 reg XOR 0x9960034C else drop_bit 1 reg)"

primrec crc_bit_steps :: "nat \<Rightarrow> u32 \<Rightarrow> u32" where
  "crc_bit_steps 0 reg = reg"
| "crc_bit_steps (Suc n) reg = crc_bit_steps n (crc_bit_step reg)"

fun extend_slow_loop :: "u32 \<Rightarrow> bytes \<Rightarrow> u32" where
  "extend_slow_loop reg [] = reg"
| "extend_slow_loop reg (byte # data) =
     extend_slow_loop (crc_bit_steps 8 (reg XOR ucast byte)) data"

definition extend_slow :: "u32 \<Rightarrow> bytes \<Rightarrow> u32" where
  "extend_slow initial_crc data = NOT (extend_slow_loop (NOT initial_crc) data)"

definition PARTIAL_RESULTS :: "u32 list" where
  "PARTIAL_RESULTS = [
     0x548843E7, 0x9AD08156, 0xFAF9C01C, 0x34A102AD, 0x3AAB4288, 0xF4F38039, 0x94DAC173, 0x5A8203C2,
     0x88CE4139, 0x46968388, 0x26BFC2C2, 0xE8E70073, 0xE6ED4056, 0x28B582E7, 0x489CC3AD, 0x86C4011C,
     0xDEC440C2, 0x109C8273, 0x70B5C339, 0xBEED0188, 0xB0E741AD, 0x7EBF831C, 0x1E96C256, 0xD0CE00E7,
     0x0282421C, 0xCCDA80AD, 0xACF3C1E7, 0x62AB0356, 0x6CA14373, 0xA2F981C2, 0xC2D0C088, 0x0C880239,
     0x72D04334, 0xBC888185, 0xDCA1C0CF, 0x12F9027E, 0x1CF3425B, 0xD2AB80EA, 0xB282C1A0, 0x7CDA0311,
     0xAE9641EA, 0x60CE835B, 0x00E7C211, 0xCEBF00A0, 0xC0B54085, 0x0EED8234, 0x6EC4C37E, 0xA09C01CF,
     0xF89C4011, 0x36C482A0, 0x56EDC3EA, 0x98B5015B, 0x96BF417E, 0x58E783CF, 0x38CEC285, 0xF6960034,
     0x24DA42CF, 0xEA82807E, 0x8AABC134, 0x44F30385, 0x4AF943A0, 0x84A18111, 0xE488C05B, 0x2AD002EA,
     0x18384241, 0xD66080F0, 0xB649C1BA, 0x7811030B, 0x761B432E, 0xB843819F, 0xD86AC0D5, 0x16320264,
     0xC47E409F, 0x0A26822E, 0x6A0FC364, 0xA45701D5, 0xAA5D41F0, 0x64058341, 0x042CC20B, 0xCA7400BA,
     0x92744164, 0x5C2C83D5, 0x3C05C29F, 0xF25D002E, 0xFC57400B, 0x320F82BA, 0x5226C3F0, 0x9C7E0141,
     0x4E3243BA, 0x806A810B, 0xE043C041, 0x2E1B02F0, 0x201142D5, 0xEE498064, 0x8E60C12E, 0x4038039F,
     0x3E604292, 0xF0388023, 0x9011C169, 0x5E4903D8, 0x504343FD, 0x9E1B814C, 0xFE32C006, 0x306A02B7,
     0xE226404C, 0x2C7E82FD, 0x4C57C3B7, 0x820F0106, 0x8C054123, 0x425D8392, 0x2274C2D8, 0xEC2C0069,
     0xB42C41B7, 0x7A748306, 0x1A5DC24C, 0xD40500FD, 0xDA0F40D8, 0x14578269, 0x747EC323, 0xBA260192,
     0x686A4369, 0xA63281D8, 0xC61BC092, 0x08430223, 0x06494206, 0xC81180B7, 0xA838C1FD, 0x6660034C,
     0xCDE840AB, 0x03B0821A, 0x6399C350, 0xADC101E1, 0xA3CB41C4, 0x6D938375, 0x0DBAC23F, 0xC3E2008E,
     0x11AE4275, 0xDFF680C4, 0xBFDFC18E, 0x7187033F, 0x7F8D431A, 0xB1D581AB, 0xD1FCC0E1, 0x1FA40250,
     0x47A4438E, 0x89FC813F, 0xE9D5C075, 0x278D02C4, 0x298742E1, 0xE7DF8050, 0x87F6C11A, 0x49AE03AB,
     0x9BE24150, 0x55BA83E1, 0x3593C2AB, 0xFBCB001A, 0xF5C1403F, 0x3B99828E, 0x5BB0C3C4, 0x95E80175,
     0xEBB04078, 0x25E882C9, 0x45C1C383, 0x8B990132, 0x85934117, 0x4BCB83A6, 0x2BE2C2EC, 0xE5BA005D,
     0x37F642A6, 0xF9AE8017, 0x9987C15D, 0x57DF03EC, 0x59D543C9, 0x978D8178, 0xF7A4C032, 0x39FC0283,
     0x61FC435D, 0xAFA481EC, 0xCF8DC0A6, 0x01D50217, 0x0FDF4232, 0xC1878083, 0xA1AEC1C9, 0x6FF60378,
     0xBDBA4183, 0x73E28332, 0x13CBC278, 0xDD9300C9, 0xD39940EC, 0x1DC1825D, 0x7DE8C317, 0xB3B001A6,
     0x8158410D, 0x4F0083BC, 0x2F29C2F6, 0xE1710047, 0xEF7B4062, 0x212382D3, 0x410AC399, 0x8F520128,
     0x5D1E43D3, 0x93468162, 0xF36FC028, 0x3D370299, 0x333D42BC, 0xFD65800D, 0x9D4CC147, 0x531403F6,
     0x0B144228, 0xC54C8099, 0xA565C1D3, 0x6B3D0362, 0x65374347, 0xAB6F81F6, 0xCB46C0BC, 0x051E020D,
     0xD75240F6, 0x190A8247, 0x7923C30D, 0xB77B01BC, 0xB9714199, 0x77298328, 0x1700C262, 0xD95800D3,
     0xA70041DE, 0x6958836F, 0x0971C225, 0xC7290094, 0xC92340B1, 0x077B8200, 0x6752C34A, 0xA90A01FB,
     0x7B464300, 0xB51E81B1, 0xD537C0FB, 0x1B6F024A, 0x1565426F, 0xDB3D80DE, 0xBB14C194, 0x754C0325,
     0x2D4C42FB, 0xE314804A, 0x833DC100, 0x4D6503B1, 0x436F4394, 0x8D378125, 0xED1EC06F, 0x234602DE,
     0xF10A4025, 0x3F528294, 0x5F7BC3DE, 0x9123016F, 0x9F29414A, 0x517183FB, 0x3158C2B1, 0xFF000000]"

definition INITIAL_CRC :: u32 where
  "INITIAL_CRC = 0"

definition CRC_SIZE :: nat where
  "CRC_SIZE = 4"

definition crc_table_step :: "u32 \<Rightarrow> u8 \<Rightarrow> u32" where
  "crc_table_step crc byte = drop_bit 8 crc XOR PARTIAL_RESULTS ! unat (ucast crc XOR byte)"

fun extend :: "u32 \<Rightarrow> bytes \<Rightarrow> u32" where
  "extend crc [] = crc"
| "extend crc (byte # data) = extend (crc_table_step crc byte) data"

definition compute :: "bytes \<Rightarrow> u32" where
  "compute data = extend INITIAL_CRC data"


section \<open>The bitwise register is linear and injective\<close>

lemma and_1_bit_0: "reg AND 1 \<noteq> 0 \<longleftrightarrow> bit reg 0" for reg :: u32
  by (simp add: and_one_eq bit_0 mod_2_eq_odd)

lemma crc_bit_step_alt:
  "crc_bit_step reg = drop_bit 1 reg XOR (if bit reg 0 then 0x9960034C else 0)"
  unfolding crc_bit_step_def and_1_bit_0 by simp

lemma crc_bit_step_xor: "crc_bit_step (a XOR b) = crc_bit_step a XOR crc_bit_step b"
  unfolding crc_bit_step_alt bit_xor_iff drop_bit_xor
  by (cases "bit a 0"; cases "bit b 0"; simp add: xor.assoc xor.commute xor.left_commute)

lemma crc_bit_steps_xor: "crc_bit_steps n (a XOR b) = crc_bit_steps n a XOR crc_bit_steps n b"
  by (induction n arbitrary: a b) (simp_all add: crc_bit_step_xor)

lemma crc_bit_steps_add: "crc_bit_steps (m + n) reg = crc_bit_steps n (crc_bit_steps m reg)"
  by (induction m arbitrary: reg) simp_all

lemma crc_bit_step_eq_0:
  assumes "crc_bit_step x = 0"
  shows "x = 0"
proof (cases "bit x 0")
  case True
  with assms have "drop_bit 1 x XOR 0x9960034C = 0"
    by (simp add: crc_bit_step_alt)
  then have "bit (drop_bit 1 x XOR 0x9960034C) 31 = bit (0 :: u32) 31"
    by simp
  moreover have "\<not> bit (drop_bit 1 x) 31"
    using bit_imp_le_length [of x 32] by (auto simp: bit_drop_bit_eq)
  ultimately show ?thesis
    by (simp add: bit_xor_iff)
next
  case False
  with assms have "drop_bit 1 x = 0"
    by (simp add: crc_bit_step_alt)
  then have "\<not> bit (drop_bit 1 x) n" for n
    by simp
  then have "\<not> bit x (Suc n)" for n
    by (simp add: bit_drop_bit_eq)
  with False have "\<not> bit x n" for n
    by (cases n) simp_all
  then show ?thesis
    by (simp add: bit_eq_iff)
qed

lemma crc_bit_step_inject: "crc_bit_step a = crc_bit_step b \<longleftrightarrow> a = b"
proof
  assume "crc_bit_step a = crc_bit_step b"
  then have "crc_bit_step (a XOR b) = 0"
    by (simp add: crc_bit_step_xor)
  then have "a XOR b = 0"
    by (rule crc_bit_step_eq_0)
  then show "a = b"
    by (metis xor.left_neutral xor.right_neutral xor_self_eq xor.assoc)
qed simp

lemma crc_bit_steps_inject: "crc_bit_steps n a = crc_bit_steps n b \<longleftrightarrow> a = b"
  by (induction n arbitrary: a b) (simp_all add: crc_bit_step_inject)

lemma crc_bit_steps_shift:
  "take_bit n x = 0 \<Longrightarrow> crc_bit_steps n x = drop_bit n x"
proof (induction n arbitrary: x)
  case (Suc n)
  have "\<not> bit (take_bit (Suc n) x) 0"
    using Suc.prems by simp
  then have "\<not> bit x 0"
    by (simp add: bit_take_bit_iff)
  moreover have "take_bit n (drop_bit 1 x) = 0"
    using Suc.prems by (simp add: take_bit_drop_bit)
  ultimately show ?case
    using Suc.IH by (simp add: crc_bit_step_alt)
qed simp


lemma crc_bit_steps_push: "crc_bit_steps n (push_bit n x) = drop_bit n (push_bit n x)"
  by (rule crc_bit_steps_shift) (simp add: take_bit_push_bit)

section \<open>The table\<close>

text \<open>
  Entry \<open>i\<close> of the table is the bitwise checksum of the one-byte input \<open>i\<close>. By
  linearity the table for \<open>Suc k\<close> index bits is the table for \<open>k\<close> bits followed
  by the same table with the contribution of bit \<open>k\<close> added, so eight doublings of
  its first entry rebuild it.
\<close>

definition crc_entry :: "nat \<Rightarrow> u32" where
  "crc_entry i = NOT (crc_bit_steps 8 (NOT 0 XOR word_of_nat i))"

definition crc_basis :: "nat \<Rightarrow> u32" where
  "crc_basis k = crc_bit_steps 8 (word_of_nat (2 ^ k))"

lemma word_of_nat_xor_exp:
  "j < 2 ^ k \<Longrightarrow> (word_of_nat (2 ^ k + j) :: u32) = word_of_nat j XOR word_of_nat (2 ^ k)"
proof -
  assume "j < 2 ^ k"
  then have "j AND 2 ^ k = 0"
    by (metis and.commute and_exp_eq_0_iff_not_bit bit_take_bit_iff less_irrefl take_bit_nat_eq_self)
  then have "j + 2 ^ k = j XOR 2 ^ k"
    by (simp add: disjunctive_add_eq_xor)
  then show ?thesis
    by (simp add: add.commute of_nat_xor_eq)
qed

lemma word_not_xor: "NOT (a XOR b) = NOT a XOR b" for a b :: u32
  by (rule bit_eqI) (simp add: bit_not_iff bit_xor_iff)

lemma crc_entry_exp:
  assumes "j < 2 ^ k"
  shows "crc_entry (2 ^ k + j) = crc_entry j XOR crc_basis k"
proof -
  have "NOT 0 XOR (word_of_nat (2 ^ k + j) :: u32) =
      (NOT 0 XOR word_of_nat j) XOR word_of_nat (2 ^ k)"
    by (simp only: word_of_nat_xor_exp [OF assms] xor.assoc)
  then show ?thesis
    by (simp only: crc_entry_def crc_basis_def crc_bit_steps_xor word_not_xor)
qed

lemma crc_table_double:
  "map crc_entry [0..<2 ^ Suc k] =
     map crc_entry [0..<2 ^ k] @ map (\<lambda>x. x XOR crc_basis k) (map crc_entry [0..<2 ^ k])"
proof -
  have "[0..<2 ^ Suc k] = [0..<2 ^ k] @ map (\<lambda>j. 2 ^ k + j) [0..<2 ^ k]"
    using map_add_upt [of "2 ^ k" "2 ^ k"] upt_add_eq_append [of 0 "2 ^ k" "2 ^ k"]
    by (simp add: add.commute mult_2)
  then show ?thesis
    by (simp add: crc_entry_exp)
qed


lemma crc_bit_steps_8:
  "crc_bit_steps 8 reg = crc_bit_step (crc_bit_step (crc_bit_step (crc_bit_step
     (crc_bit_step (crc_bit_step (crc_bit_step (crc_bit_step reg)))))))"
  by (simp add: eval_nat_numeral)

lemma crc_entry_0: "crc_entry 0 = 0x548843E7"
proof -
  have "NOT 0 XOR word_of_nat 0 = (0xFFFFFFFF :: u32)"
    by (simp add: word_eq_iff_unsigned unsigned_minus_1_eq_mask mask_eq_exp_minus_1)
  then show ?thesis
    by (simp only: crc_entry_def crc_bit_steps_8) (simp add: crc_bit_step_def)
qed

lemma crc_basis_values:
  "crc_basis 0 = 0xCE58C2B1" "crc_basis 1 = 0xAE7183FB" "crc_basis 2 = 0x6E23016F"
  "crc_basis 3 = 0xDC4602DE" "crc_basis 4 = 0x8A4C0325" "crc_basis 5 = 0x265800D3"
  "crc_basis 6 = 0x4CB001A6" "crc_basis 7 = 0x9960034C"
  by (simp_all add: crc_basis_def crc_bit_steps_8) (simp_all add: crc_bit_step_def)

lemma PARTIAL_RESULTS_eq: "PARTIAL_RESULTS = map crc_entry [0..<256]"
proof -
  have "map crc_entry [0..<2 ^ 0] = [0x548843E7]"
    by (simp add: crc_entry_0)
  then have "PARTIAL_RESULTS = map crc_entry [0..<2 ^ Suc (Suc (Suc (Suc (Suc (Suc (Suc (Suc 0)))))))]"
    unfolding crc_table_double PARTIAL_RESULTS_def
    by (simp add: crc_basis_values [unfolded eval_nat_numeral One_nat_def BitM.simps])
  then show ?thesis
    by simp
qed


section \<open>Correctness of the table-driven checksum\<close>

lemma crc_register_split:
  "NOT crc XOR ucast byte =
     (NOT 0 XOR ucast (ucast crc XOR byte)) XOR push_bit 8 (drop_bit 8 crc)"
  for crc :: u32 and byte :: u8
  by (rule bit_eqI)
    (auto simp: bit_not_iff bit_xor_iff bit_ucast_iff bit_push_bit_iff bit_drop_bit_eq)

lemma crc_table_step_slow:
  "NOT (crc_bit_steps 8 (NOT crc XOR ucast byte)) = crc_table_step crc byte"
proof -
  let ?i = "ucast crc XOR byte :: u8"
  have "PARTIAL_RESULTS ! unat ?i = NOT (crc_bit_steps 8 (NOT 0 XOR ucast ?i))"
    by (simp add: PARTIAL_RESULTS_eq crc_entry_def)
  moreover have "crc_bit_steps 8 (push_bit 8 (drop_bit 8 crc)) = drop_bit 8 crc"
    unfolding crc_bit_steps_push
    by (rule bit_eqI) (auto simp: bit_drop_bit_eq bit_push_bit_iff bit_imp_le_length dest: bit_imp_le_length)
  ultimately show ?thesis
    unfolding crc_register_split [of crc byte] crc_bit_steps_xor word_not_xor crc_table_step_def
    by (simp add: xor.commute)
qed

lemma extend_eq_slow_loop: "extend crc data = NOT (extend_slow_loop (NOT crc) data)"
  by (induction data arbitrary: crc) (simp_all flip: crc_table_step_slow)

text \<open>
  C40: the table-driven checksum that frames carry equals the bitwise reference routine
  for every initial value and every input.
\<close>

theorem extend_eq_extend_slow: "extend initial_crc data = extend_slow initial_crc data"
  by (simp add: extend_slow_def extend_eq_slow_loop)

lemma extend_slow_loop_inject:
  "extend_slow_loop a data = extend_slow_loop b data \<longleftrightarrow> a = b"
  by (induction data arbitrary: a b) (simp_all add: crc_bit_steps_inject)

lemma extend_slow_loop_append:
  "extend_slow_loop reg (xs @ ys) = extend_slow_loop (extend_slow_loop reg xs) ys"
  by (induction xs arbitrary: reg) simp_all

lemma extend_append: "extend crc (xs @ ys) = extend (extend crc xs) ys"
  by (induction xs arbitrary: crc) simp_all


section \<open>Error detection\<close>

text \<open>
  The register absorbs up to four bytes like one little-endian word, so a change that is
  confined to four consecutive bytes always changes the checksum.
\<close>

fun le_word :: "bytes \<Rightarrow> u32" where
  "le_word [] = 0"
| "le_word (b # bs) = ucast b XOR push_bit 8 (le_word bs)"

lemma bit_le_word_length: "bit (le_word bs) n \<Longrightarrow> n < 8 * length bs"
proof (induction bs arbitrary: n)
  case (Cons b bs)
  show ?case
  proof (cases "n < 8")
    case False
    with Cons.prems have "bit (le_word bs) (n - 8)"
      by (auto simp: bit_xor_iff bit_push_bit_iff bit_ucast_iff dest: bit_imp_le_length)
    with Cons.IH [of "n - 8"] False show ?thesis by simp
  qed simp
qed simp

lemma drop_push_le_word:
  "length bs \<le> 3 \<Longrightarrow> drop_bit 8 (push_bit 8 (le_word bs)) = le_word bs"
  by (rule bit_eqI) (auto simp: bit_drop_bit_eq bit_push_bit_iff dest: bit_le_word_length)

lemma extend_slow_loop_le_word:
  "length bs \<le> 4 \<Longrightarrow>
     extend_slow_loop reg bs = crc_bit_steps (8 * length bs) (reg XOR le_word bs)"
proof (induction bs arbitrary: reg)
  case (Cons b bs)
  then have "crc_bit_steps 8 (push_bit 8 (le_word bs)) = le_word bs"
    by (simp add: crc_bit_steps_push drop_push_le_word)
  with Cons show ?case
    by (simp add: crc_bit_steps_add crc_bit_steps_xor flip: xor.assoc)
qed simp

lemma le_word_inject:
  "length xs = length ys \<Longrightarrow> length xs \<le> 4 \<Longrightarrow> le_word xs = le_word ys \<longleftrightarrow> xs = ys"
proof (induction xs ys rule: list_induct2)
  case (Cons x xs y ys)
  have "x = y \<and> le_word xs = le_word ys" if eq: "le_word (x # xs) = le_word (y # ys)"
  proof
    have "(ucast (le_word (b # bs)) :: u8) = b" for b bs
      by (rule bit_eqI) (auto simp: bit_ucast_iff bit_xor_iff bit_push_bit_iff)
    with eq show "x = y" by metis
    with eq have "drop_bit 8 (push_bit 8 (le_word xs)) = drop_bit 8 (push_bit 8 (le_word ys))"
      by simp
    with Cons.hyps Cons.prems show "le_word xs = le_word ys"
      by (simp add: drop_push_le_word)
  qed
  with Cons.IH Cons.prems show ?case
    by auto
qed simp

end
