(* ===== verification/Serial.thy ===== *)
theory Serial
  imports Frame Crc
begin

text \<open>
  Serialization of frames (\<^verbatim>\<open>src/frame/serial/mod.rs\<close>). The raw-pointer
  \<^verbatim>\<open>Reader\<close> and \<^verbatim>\<open>Writer\<close> are a buffer and an offset; an access outside the
  buffer, which is undefined behaviour in the unsafe code, is the abort \<open>None\<close>.
\<close>

section \<open>Constants\<close>

definition PROTOCOL_ID :: u16 where "PROTOCOL_ID = 0"
definition FRAME_HEADER_SIZE :: nat where "FRAME_HEADER_SIZE = 1"
definition FRAME_CRC_SIZE :: nat where "FRAME_CRC_SIZE = 4"
definition FRAME_OVERHEAD_SIZE :: nat where
  "FRAME_OVERHEAD_SIZE = FRAME_HEADER_SIZE + FRAME_CRC_SIZE"
definition HANDSHAKE_ALPHA_SIZE :: nat where "HANDSHAKE_ALPHA_SIZE = 6"
definition HANDSHAKE_ALPHA_ACK_SIZE :: nat where "HANDSHAKE_ALPHA_ACK_SIZE = 28"
definition HANDSHAKE_BETA_SIZE :: nat where "HANDSHAKE_BETA_SIZE = 28"
definition HANDSHAKE_BETA_ACK_SIZE :: nat where "HANDSHAKE_BETA_ACK_SIZE = 5"
definition CLOSE_SIZE :: nat where "CLOSE_SIZE = 4"
definition CLOSE_ACK_SIZE :: nat where "CLOSE_ACK_SIZE = 4"
definition STREAM_SEGMENT_HEADER_SIZE :: nat where "STREAM_SEGMENT_HEADER_SIZE = 5"
definition STREAM_ACK_SIZE :: nat where "STREAM_ACK_SIZE = 9"
definition STREAM_SYNC_SIZE :: nat where "STREAM_SYNC_SIZE = 4"
definition DATAGRAM_HEADER_SIZE :: nat where "DATAGRAM_HEADER_SIZE = 1 + 4 + 2"
definition DATAGRAM_DATA_SIZE_MAX :: nat where "DATAGRAM_DATA_SIZE_MAX = 65535"
definition DATAGRAM_UNREL_BIT :: u8 where "DATAGRAM_UNREL_BIT = 0x01"
definition DATAGRAM_FIRST_BIT :: u8 where "DATAGRAM_FIRST_BIT = 0x02"
definition DATAGRAM_LAST_BIT :: u8 where "DATAGRAM_LAST_BIT = 0x04"
definition FRAME_TYPE_MASK :: u8 where "FRAME_TYPE_MASK = 0x0F"
definition HANDSHAKE_ALPHA_FRAME_SIZE_MAX :: nat where "HANDSHAKE_ALPHA_FRAME_SIZE_MAX = 1472"

lemmas serial_consts =
  PROTOCOL_ID_def FRAME_HEADER_SIZE_def FRAME_CRC_SIZE_def FRAME_OVERHEAD_SIZE_def
  HANDSHAKE_ALPHA_SIZE_def HANDSHAKE_ALPHA_ACK_SIZE_def HANDSHAKE_BETA_SIZE_def
  HANDSHAKE_BETA_ACK_SIZE_def CLOSE_SIZE_def CLOSE_ACK_SIZE_def STREAM_SEGMENT_HEADER_SIZE_def
  STREAM_ACK_SIZE_def STREAM_SYNC_SIZE_def DATAGRAM_HEADER_SIZE_def DATAGRAM_DATA_SIZE_MAX_def
  DATAGRAM_UNREL_BIT_def DATAGRAM_FIRST_BIT_def DATAGRAM_LAST_BIT_def FRAME_TYPE_MASK_def
  HANDSHAKE_ALPHA_FRAME_SIZE_MAX_def CRC_SIZE_def

section \<open>Reader and Writer\<close>

record Reader =
  rd_buf :: bytes
  bytes_read :: nat

definition Reader_new :: "bytes \<Rightarrow> Reader" where
  "Reader_new buffer = \<lparr>rd_buf = buffer, bytes_read = 0\<rparr>"

definition rd_at :: "Reader \<Rightarrow> nat \<Rightarrow> u8 rust" where
  "rd_at rd k =
     (if bytes_read rd + k < length (rd_buf rd) then Some (rd_buf rd ! (bytes_read rd + k)) else None)"

definition rd_advance :: "Reader \<Rightarrow> nat \<Rightarrow> Reader" where
  "rd_advance rd k = rd\<lparr>bytes_read := bytes_read rd + k\<rparr>"

definition read_u8 :: "Reader \<Rightarrow> (u8 \<times> Reader) rust" where
  "read_u8 rd = do { b0 \<leftarrow> rd_at rd 0; Some (b0, rd_advance rd 1) }"

definition read_u16 :: "Reader \<Rightarrow> (u16 \<times> Reader) rust" where
  "read_u16 rd = do {
     b0 \<leftarrow> rd_at rd 0; b1 \<leftarrow> rd_at rd 1;
     Some (push_bit 8 (ucast b0) OR ucast b1, rd_advance rd 2) }"

definition read_u32 :: "Reader \<Rightarrow> (u32 \<times> Reader) rust" where
  "read_u32 rd = do {
     b0 \<leftarrow> rd_at rd 0; b1 \<leftarrow> rd_at rd 1; b2 \<leftarrow> rd_at rd 2; b3 \<leftarrow> rd_at rd 3;
     Some (push_bit 24 (ucast b0) OR push_bit 16 (ucast b1) OR push_bit 8 (ucast b2) OR ucast b3,
           rd_advance rd 4) }"

definition read_u64 :: "Reader \<Rightarrow> (u64 \<times> Reader) rust" where
  "read_u64 rd = do {
     b0 \<leftarrow> rd_at rd 0; b1 \<leftarrow> rd_at rd 1; b2 \<leftarrow> rd_at rd 2; b3 \<leftarrow> rd_at rd 3;
     b4 \<leftarrow> rd_at rd 4; b5 \<leftarrow> rd_at rd 5; b6 \<leftarrow> rd_at rd 6; b7 \<leftarrow> rd_at rd 7;
     Some (push_bit 56 (ucast b0) OR push_bit 48 (ucast b1) OR push_bit 40 (ucast b2) OR
           push_bit 32 (ucast b3) OR push_bit 24 (ucast b4) OR push_bit 16 (ucast b5) OR
           push_bit 8 (ucast b6) OR ucast b7, rd_advance rd 8) }"

record Writer =
  wr_buf :: bytes
  bytes_written :: nat

definition Writer_new :: "bytes \<Rightarrow> Writer" where
  "Writer_new buffer = \<lparr>wr_buf = buffer, bytes_written = 0\<rparr>"

text \<open>Stores through the write pointer, which then advances by the number of bytes.\<close>

definition wr_put :: "Writer \<Rightarrow> bytes \<Rightarrow> Writer rust" where
  "wr_put wr bs =
     (if bytes_written wr + length bs \<le> length (wr_buf wr)
      then Some (wr\<lparr>wr_buf := take (bytes_written wr) (wr_buf wr) @ bs @
                      drop (bytes_written wr + length bs) (wr_buf wr),
                   bytes_written := bytes_written wr + length bs\<rparr>)
      else None)"

definition be_u16 :: "u16 \<Rightarrow> bytes" where
  "be_u16 value = [ucast (drop_bit 8 value), ucast value]"

definition be_u32 :: "u32 \<Rightarrow> bytes" where
  "be_u32 value =
     [ucast (drop_bit 24 value), ucast (drop_bit 16 value), ucast (drop_bit 8 value), ucast value]"

definition be_u64 :: "u64 \<Rightarrow> bytes" where
  "be_u64 value =
     [ucast (drop_bit 56 value), ucast (drop_bit 48 value), ucast (drop_bit 40 value),
      ucast (drop_bit 32 value), ucast (drop_bit 24 value), ucast (drop_bit 16 value),
      ucast (drop_bit 8 value), ucast value]"

definition write_u8 :: "Writer \<Rightarrow> u8 \<Rightarrow> Writer rust" where
  "write_u8 wr value = wr_put wr [value]"

definition write_u16 :: "Writer \<Rightarrow> u16 \<Rightarrow> Writer rust" where
  "write_u16 wr value = wr_put wr (be_u16 value)"

definition write_u32 :: "Writer \<Rightarrow> u32 \<Rightarrow> Writer rust" where
  "write_u32 wr value = wr_put wr (be_u32 value)"

definition write_u64 :: "Writer \<Rightarrow> u64 \<Rightarrow> Writer rust" where
  "write_u64 wr value = wr_put wr (be_u64 value)"

definition write_slice :: "Writer \<Rightarrow> bytes \<Rightarrow> Writer rust" where
  "write_slice wr bs = wr_put wr bs"

text \<open>Joining the bytes of a split word gives it back; consecutive stores are one store.\<close>

named_theorems be_join

lemma bit_byte_at:
  "bit (push_bit k (ucast (ucast (drop_bit k v) :: u8)) :: 'a::len word) n \<longleftrightarrow>
     k \<le> n \<and> n < k + 8 \<and> bit v n" for v :: "'a::len word"
  by (auto simp: bit_push_bit_iff bit_ucast_iff bit_drop_bit_eq dest: bit_imp_le_length)

lemma bit_low_byte: "bit (ucast (ucast v :: u8) :: 'a::len word) n \<longleftrightarrow> n < 8 \<and> bit v n" for v :: "'a::len word"
  by (auto simp: bit_ucast_iff dest: bit_imp_le_length)

lemma be_join_16 [be_join]:
  "push_bit 8 (ucast (ucast (drop_bit 8 v) :: u8)) OR ucast (ucast v :: u8) = v" for v :: u16
  by (rule bit_eqI, simp only: bit_or_iff bit_byte_at bit_low_byte)
    (auto dest: bit_imp_le_length)

lemma be_join_32 [be_join]:
  "push_bit 24 (ucast (ucast (drop_bit 24 v) :: u8)) OR push_bit 16 (ucast (ucast (drop_bit 16 v) :: u8))
     OR push_bit 8 (ucast (ucast (drop_bit 8 v) :: u8)) OR ucast (ucast v :: u8) = v" for v :: u32
  by (rule bit_eqI, simp only: bit_or_iff bit_byte_at bit_low_byte)
    (auto dest: bit_imp_le_length)

lemma be_join_64 [be_join]:
  "push_bit 56 (ucast (ucast (drop_bit 56 v) :: u8)) OR push_bit 48 (ucast (ucast (drop_bit 48 v) :: u8))
     OR push_bit 40 (ucast (ucast (drop_bit 40 v) :: u8)) OR push_bit 32 (ucast (ucast (drop_bit 32 v) :: u8))
     OR push_bit 24 (ucast (ucast (drop_bit 24 v) :: u8)) OR push_bit 16 (ucast (ucast (drop_bit 16 v) :: u8))
     OR push_bit 8 (ucast (ucast (drop_bit 8 v) :: u8)) OR ucast (ucast v :: u8) = v" for v :: u64
  by (rule bit_eqI, simp only: bit_or_iff bit_byte_at bit_low_byte)
    (auto dest: bit_imp_le_length)

lemma length_be [simp]: "length (be_u16 v) = 2" "length (be_u32 w) = 4" "length (be_u64 x) = 8"
  by (simp_all add: be_u16_def be_u32_def be_u64_def)

lemma wr_put_append: "(wr_put wr xs \<bind> (\<lambda>wr. wr_put wr ys)) = wr_put wr (xs @ ys)"
proof (cases "bytes_written wr + length xs \<le> length (wr_buf wr)")
  case True
  then have "bytes_written wr \<le> length (wr_buf wr)" by simp
  with True show ?thesis
    by (simp add: wr_put_def min.absorb2 add.assoc add.commute [of "length ys"])
qed (simp add: wr_put_def)

lemma wr_put_append_cont:
  "(wr_put wr xs \<bind> (\<lambda>wr. wr_put wr ys \<bind> f)) = (wr_put wr (xs @ ys) \<bind> f)"
  by (simp flip: wr_put_append)

lemma wr_put_new:
  "length bs \<le> length buf \<Longrightarrow>
     wr_put (Writer_new buf) bs = Some \<lparr>wr_buf = bs @ drop (length bs) buf, bytes_written = length bs\<rparr>"
  by (simp add: wr_put_def Writer_new_def)

lemmas read_defs = read_u8_def read_u16_def read_u32_def read_u64_def rd_at_def rd_advance_def
  Reader_new_def
lemmas write_defs = write_u8_def write_u16_def write_u32_def write_u64_def write_slice_def
  wr_put_append wr_put_append_cont
lemmas be_defs = be_u16_def be_u32_def be_u64_def

section \<open>The traits \<^verbatim>\<open>Serial\<close> and \<^verbatim>\<open>BlockSerial\<close>\<close>

definition Serial_read ::
    "nat \<Rightarrow> (Reader \<Rightarrow> ('a \<times> Reader) rust) \<Rightarrow> bytes \<Rightarrow> ('a \<times> nat) option rust" where
  "Serial_read SIZE T_read buffer =
     (if length buffer < SIZE then Some None
      else do { (obj, rd) \<leftarrow> T_read (Reader_new buffer); Some (Some (obj, bytes_read rd)) })"

definition Serial_write ::
    "nat \<Rightarrow> (Writer \<Rightarrow> 'a \<Rightarrow> Writer rust) \<Rightarrow> bytes \<Rightarrow> 'a \<Rightarrow> (bytes \<times> nat option) rust" where
  "Serial_write SIZE T_write buffer obj =
     (if length buffer < SIZE then Some (buffer, None)
      else do { wr \<leftarrow> T_write (Writer_new buffer) obj; Some (wr_buf wr, Some (bytes_written wr)) })"

text \<open>
  What a client of \<^verbatim>\<open>Serial\<close> relies on: no abort on any input, a buffer that is too
  short is refused and left alone, and what was written is read back, whatever follows it.
\<close>

locale serial =
  fixes sread :: "bytes \<Rightarrow> ('a \<times> nat) option rust"
    and swrite :: "bytes \<Rightarrow> 'a \<Rightarrow> (bytes \<times> nat option) rust"
    and enc :: "'a \<Rightarrow> bytes"
    and valid :: "'a \<Rightarrow> bool"
  assumes swrite_fits: "valid obj \<Longrightarrow> length (enc obj) \<le> length buf \<Longrightarrow>
      swrite buf obj = Some (enc obj @ drop (length (enc obj)) buf, Some (length (enc obj)))"
    and swrite_short: "length buf < length (enc obj) \<Longrightarrow> swrite buf obj = Some (buf, None)"
    and sread_enc: "valid obj \<Longrightarrow> sread (enc obj @ rest) = Some (Some (obj, length (enc obj)))"
    and sread_total: "sread buf = Some None \<or>
      (\<exists>obj n. sread buf = Some (Some (obj, n)) \<and> valid obj \<and> 0 < n \<and> n \<le> length buf)"

text \<open>The contract of a \<^verbatim>\<open>BlockSerial\<close> implementation: fixed size, raw access in range.\<close>

locale block_serial =
  fixes SIZE :: nat
    and bread :: "Reader \<Rightarrow> ('a \<times> Reader) rust"
    and bwrite :: "Writer \<Rightarrow> 'a \<Rightarrow> Writer rust"
    and enc :: "'a \<Rightarrow> bytes"
    and valid :: "'a \<Rightarrow> bool"
  assumes SIZE_pos: "0 < SIZE"
    and length_enc: "length (enc obj) = SIZE"
    and bwrite_enc: "bwrite wr obj = wr_put wr (enc obj)"
    and bread_enc: "valid obj \<Longrightarrow>
      bread (Reader_new (enc obj @ rest)) = Some (obj, \<lparr>rd_buf = enc obj @ rest, bytes_read = SIZE\<rparr>)"
    and bread_total: "SIZE \<le> length buf \<Longrightarrow>
      \<exists>obj. bread (Reader_new buf) = Some (obj, \<lparr>rd_buf = buf, bytes_read = SIZE\<rparr>) \<and> valid obj"
begin

lemma block_read_total:
  "Serial_read SIZE bread buf = Some None \<or>
     (\<exists>obj n. Serial_read SIZE bread buf = Some (Some (obj, n)) \<and> valid obj \<and> 0 < n \<and> n \<le> length buf)"
proof (cases "length buf < SIZE")
  case False
  then obtain obj where "bread (Reader_new buf) = Some (obj, \<lparr>rd_buf = buf, bytes_read = SIZE\<rparr>)"
    and "valid obj"
    using bread_total [of buf] by auto
  with False SIZE_pos show ?thesis
    by (simp add: Serial_read_def)
qed (simp add: Serial_read_def)

end

sublocale block_serial \<subseteq> serial "Serial_read SIZE bread" "Serial_write SIZE bwrite" enc valid
proof unfold_locales
  show "Serial_write SIZE bwrite buf obj =
      Some (enc obj @ drop (length (enc obj)) buf, Some (length (enc obj)))"
    if "valid obj" "length (enc obj) \<le> length buf" for obj buf
    using that by (simp add: Serial_write_def bwrite_enc length_enc wr_put_new)
  show "Serial_write SIZE bwrite buf obj = Some (buf, None)" if "length buf < length (enc obj)" for obj buf
    using that by (simp add: Serial_write_def length_enc)
  show "Serial_read SIZE bread (enc obj @ rest) = Some (Some (obj, length (enc obj)))"
    if "valid obj" for obj rest
    using that by (simp add: Serial_read_def bread_enc length_enc)
qed (rule block_read_total)

section \<open>Block-serialized frames\<close>

definition HandshakeAlphaFrame_read :: "Reader \<Rightarrow> (HandshakeAlphaFrame \<times> Reader) rust" where
  "HandshakeAlphaFrame_read rd = do {
     (protocol_id, rd) \<leftarrow> read_u16 rd;
     (client_nonce, rd) \<leftarrow> read_u32 rd;
     Some (\<lparr>ha_protocol_id = protocol_id, ha_client_nonce = client_nonce\<rparr>, rd) }"

definition HandshakeAlphaFrame_write :: "Writer \<Rightarrow> HandshakeAlphaFrame \<Rightarrow> Writer rust" where
  "HandshakeAlphaFrame_write wr obj = do {
     wr \<leftarrow> write_u16 wr (ha_protocol_id obj);
     write_u32 wr (ha_client_nonce obj) }"

definition HandshakeAlphaAckFrame_read :: "Reader \<Rightarrow> (HandshakeAlphaAckFrame \<times> Reader) rust" where
  "HandshakeAlphaAckFrame_read rd = do {
     (size_in_max, rd) \<leftarrow> read_u32 rd;
     (size_out_max, rd) \<leftarrow> read_u32 rd;
     (client_nonce, rd) \<leftarrow> read_u32 rd;
     (server_nonce, rd) \<leftarrow> read_u32 rd;
     (server_timestamp, rd) \<leftarrow> read_u32 rd;
     (server_mac, rd) \<leftarrow> read_u64 rd;
     Some (\<lparr>haa_server_params =
              \<lparr>packet_size_in_max = size_in_max, packet_size_out_max = size_out_max\<rparr>,
            haa_client_nonce = client_nonce, haa_server_nonce = server_nonce,
            haa_server_timestamp = server_timestamp, haa_server_mac = server_mac\<rparr>, rd) }"

definition HandshakeAlphaAckFrame_write :: "Writer \<Rightarrow> HandshakeAlphaAckFrame \<Rightarrow> Writer rust" where
  "HandshakeAlphaAckFrame_write wr obj = do {
     wr \<leftarrow> write_u32 wr (packet_size_in_max (haa_server_params obj));
     wr \<leftarrow> write_u32 wr (packet_size_out_max (haa_server_params obj));
     wr \<leftarrow> write_u32 wr (haa_client_nonce obj);
     wr \<leftarrow> write_u32 wr (haa_server_nonce obj);
     wr \<leftarrow> write_u32 wr (haa_server_timestamp obj);
     write_u64 wr (haa_server_mac obj) }"

definition HandshakeBetaFrame_read :: "Reader \<Rightarrow> (HandshakeBetaFrame \<times> Reader) rust" where
  "HandshakeBetaFrame_read rd = do {
     (size_in_max, rd) \<leftarrow> read_u32 rd;
     (size_out_max, rd) \<leftarrow> read_u32 rd;
     (client_nonce, rd) \<leftarrow> read_u32 rd;
     (server_nonce, rd) \<leftarrow> read_u32 rd;
     (server_timestamp, rd) \<leftarrow> read_u32 rd;
     (server_mac, rd) \<leftarrow> read_u64 rd;
     Some (\<lparr>hb_client_params =
              \<lparr>packet_size_in_max = size_in_max, packet_size_out_max = size_out_max\<rparr>,
            hb_client_nonce = client_nonce, hb_server_nonce = server_nonce,
            hb_server_timestamp = server_timestamp, hb_server_mac = server_mac\<rparr>, rd) }"

definition HandshakeBetaFrame_write :: "Writer \<Rightarrow> HandshakeBetaFrame \<Rightarrow> Writer rust" where
  "HandshakeBetaFrame_write wr obj = do {
     wr \<leftarrow> write_u32 wr (packet_size_in_max (hb_client_params obj));
     wr \<leftarrow> write_u32 wr (packet_size_out_max (hb_client_params obj));
     wr \<leftarrow> write_u32 wr (hb_client_nonce obj);
     wr \<leftarrow> write_u32 wr (hb_server_nonce obj);
     wr \<leftarrow> write_u32 wr (hb_server_timestamp obj);
     write_u64 wr (hb_server_mac obj) }"

definition HandshakeBetaAckFrame_read :: "Reader \<Rightarrow> (HandshakeBetaAckFrame \<times> Reader) rust" where
  "HandshakeBetaAckFrame_read rd = do {
     (status, rd) \<leftarrow> read_u8 rd;
     (client_nonce, rd) \<leftarrow> read_u32 rd;
     let error = (if status = 0x00 then None
                  else if status = 0x01 then Some HsCapacity
                  else Some HsParameter);
     Some (\<lparr>hba_error = error, hba_client_nonce = client_nonce\<rparr>, rd) }"

definition HandshakeBetaAckFrame_status :: "HandshakeBetaAckFrame \<Rightarrow> u8" where
  "HandshakeBetaAckFrame_status obj =
     (case hba_error obj of
        None \<Rightarrow> 0x00
      | Some HsCapacity \<Rightarrow> 0x01
      | Some HsParameter \<Rightarrow> 0x02)"

definition HandshakeBetaAckFrame_write :: "Writer \<Rightarrow> HandshakeBetaAckFrame \<Rightarrow> Writer rust" where
  "HandshakeBetaAckFrame_write wr obj = do {
     wr \<leftarrow> write_u8 wr (HandshakeBetaAckFrame_status obj);
     write_u32 wr (hba_client_nonce obj) }"

definition CloseFrame_read :: "Reader \<Rightarrow> (CloseFrame \<times> Reader) rust" where
  "CloseFrame_read rd = do {
     (remote_nonce, rd) \<leftarrow> read_u32 rd;
     Some (\<lparr>cl_remote_nonce = remote_nonce\<rparr>, rd) }"

definition CloseFrame_write :: "Writer \<Rightarrow> CloseFrame \<Rightarrow> Writer rust" where
  "CloseFrame_write wr obj = write_u32 wr (cl_remote_nonce obj)"

definition CloseAckFrame_read :: "Reader \<Rightarrow> (CloseAckFrame \<times> Reader) rust" where
  "CloseAckFrame_read rd = do {
     (remote_nonce, rd) \<leftarrow> read_u32 rd;
     Some (\<lparr>cla_remote_nonce = remote_nonce\<rparr>, rd) }"

definition CloseAckFrame_write :: "Writer \<Rightarrow> CloseAckFrame \<Rightarrow> Writer rust" where
  "CloseAckFrame_write wr obj = write_u32 wr (cla_remote_nonce obj)"

definition StreamSegmentHeader_read :: "Reader \<Rightarrow> (StreamSegmentHeader \<times> Reader) rust" where
  "StreamSegmentHeader_read rd = do {
     (info, rd) \<leftarrow> read_u8 rd;
     (ident, rd) \<leftarrow> read_u32 rd;
     Some (\<lparr>ssh_id = ident, ssh_nonce = (info AND 0x01 \<noteq> 0)\<rparr>, rd) }"

definition StreamSegmentHeader_write :: "Writer \<Rightarrow> StreamSegmentHeader \<Rightarrow> Writer rust" where
  "StreamSegmentHeader_write wr obj = do {
     let info = (if ssh_nonce obj then 0 OR 0x01 else 0);
     wr \<leftarrow> write_u8 wr info;
     write_u32 wr (ssh_id obj) }"

definition StreamAck_read :: "Reader \<Rightarrow> (StreamAck \<times> Reader) rust" where
  "StreamAck_read rd = do {
     (info, rd) \<leftarrow> read_u8 rd;
     (segment_id, rd) \<leftarrow> read_u32 rd;
     (rel_fragment_id, rd) \<leftarrow> read_u32 rd;
     Some (\<lparr>sa_segment_id = segment_id, sa_segment_history = info AND 0x1F,
            sa_segment_checksum = (info AND 0x20 \<noteq> 0),
            sa_rel_fragment_id = (if info AND 0x80 \<noteq> 0 then Some rel_fragment_id else None)\<rparr>, rd) }"

definition StreamAck_info :: "StreamAck \<Rightarrow> u8" where
  "StreamAck_info obj =
     (let info = 0;
          info = (if sa_rel_fragment_id obj \<noteq> None then info OR 0x80 else info);
          info = (if sa_segment_checksum obj then info OR 0x20 else info)
      in info OR (sa_segment_history obj AND 0x1F))"

definition StreamAck_write :: "Writer \<Rightarrow> StreamAck \<Rightarrow> Writer rust" where
  "StreamAck_write wr obj = do {
     wr \<leftarrow> write_u8 wr (StreamAck_info obj);
     wr \<leftarrow> write_u32 wr (sa_segment_id obj);
     write_u32 wr (case sa_rel_fragment_id obj of Some i \<Rightarrow> i | None \<Rightarrow> 0) }"

definition StreamSync_read :: "Reader \<Rightarrow> (StreamSync \<times> Reader) rust" where
  "StreamSync_read rd = do {
     (next_segment_id, rd) \<leftarrow> read_u32 rd;
     Some (\<lparr>ss_next_segment_id = next_segment_id\<rparr>, rd) }"

definition StreamSync_write :: "Writer \<Rightarrow> StreamSync \<Rightarrow> Writer rust" where
  "StreamSync_write wr obj = write_u32 wr (ss_next_segment_id obj)"

text \<open>The wire layout of each frame, and the instances of the contract.\<close>

definition HandshakeAlphaFrame_enc :: "HandshakeAlphaFrame \<Rightarrow> bytes" where
  "HandshakeAlphaFrame_enc obj = be_u16 (ha_protocol_id obj) @ be_u32 (ha_client_nonce obj)"

definition HandshakeAlphaAckFrame_enc :: "HandshakeAlphaAckFrame \<Rightarrow> bytes" where
  "HandshakeAlphaAckFrame_enc obj =
     be_u32 (packet_size_in_max (haa_server_params obj)) @
     be_u32 (packet_size_out_max (haa_server_params obj)) @
     be_u32 (haa_client_nonce obj) @ be_u32 (haa_server_nonce obj) @
     be_u32 (haa_server_timestamp obj) @ be_u64 (haa_server_mac obj)"

definition HandshakeBetaFrame_enc :: "HandshakeBetaFrame \<Rightarrow> bytes" where
  "HandshakeBetaFrame_enc obj =
     be_u32 (packet_size_in_max (hb_client_params obj)) @
     be_u32 (packet_size_out_max (hb_client_params obj)) @
     be_u32 (hb_client_nonce obj) @ be_u32 (hb_server_nonce obj) @
     be_u32 (hb_server_timestamp obj) @ be_u64 (hb_server_mac obj)"

definition HandshakeBetaAckFrame_enc :: "HandshakeBetaAckFrame \<Rightarrow> bytes" where
  "HandshakeBetaAckFrame_enc obj = [HandshakeBetaAckFrame_status obj] @ be_u32 (hba_client_nonce obj)"

definition CloseFrame_enc :: "CloseFrame \<Rightarrow> bytes" where
  "CloseFrame_enc obj = be_u32 (cl_remote_nonce obj)"

definition CloseAckFrame_enc :: "CloseAckFrame \<Rightarrow> bytes" where
  "CloseAckFrame_enc obj = be_u32 (cla_remote_nonce obj)"

definition StreamSegmentHeader_enc :: "StreamSegmentHeader \<Rightarrow> bytes" where
  "StreamSegmentHeader_enc obj = [if ssh_nonce obj then 1 else 0] @ be_u32 (ssh_id obj)"

definition StreamAck_enc :: "StreamAck \<Rightarrow> bytes" where
  "StreamAck_enc obj = [StreamAck_info obj] @ be_u32 (sa_segment_id obj) @
     be_u32 (case sa_rel_fragment_id obj of Some i \<Rightarrow> i | None \<Rightarrow> 0)"

definition StreamAck_valid :: "StreamAck \<Rightarrow> bool" where
  "StreamAck_valid obj \<longleftrightarrow> sa_segment_history obj AND 0x1F = sa_segment_history obj"

definition StreamSync_enc :: "StreamSync \<Rightarrow> bytes" where
  "StreamSync_enc obj = be_u32 (ss_next_segment_id obj)"

interpretation handshake_alpha: block_serial HANDSHAKE_ALPHA_SIZE HandshakeAlphaFrame_read
    HandshakeAlphaFrame_write HandshakeAlphaFrame_enc "\<lambda>_. True"
  by unfold_locales
    (auto simp: HandshakeAlphaFrame_read_def HandshakeAlphaFrame_write_def
      HandshakeAlphaFrame_enc_def serial_consts write_defs read_defs be_defs be_join)

interpretation handshake_alpha_ack: block_serial HANDSHAKE_ALPHA_ACK_SIZE HandshakeAlphaAckFrame_read
    HandshakeAlphaAckFrame_write HandshakeAlphaAckFrame_enc "\<lambda>_. True"
  by unfold_locales
    (auto simp: HandshakeAlphaAckFrame_read_def HandshakeAlphaAckFrame_write_def
      HandshakeAlphaAckFrame_enc_def serial_consts write_defs read_defs be_defs be_join)

interpretation handshake_beta: block_serial HANDSHAKE_BETA_SIZE HandshakeBetaFrame_read
    HandshakeBetaFrame_write HandshakeBetaFrame_enc "\<lambda>_. True"
  by unfold_locales
    (auto simp: HandshakeBetaFrame_read_def HandshakeBetaFrame_write_def
      HandshakeBetaFrame_enc_def serial_consts write_defs read_defs be_defs be_join)

interpretation handshake_beta_ack: block_serial HANDSHAKE_BETA_ACK_SIZE HandshakeBetaAckFrame_read
    HandshakeBetaAckFrame_write HandshakeBetaAckFrame_enc "\<lambda>_. True"
  by unfold_locales
    (auto simp: HandshakeBetaAckFrame_read_def HandshakeBetaAckFrame_write_def
      HandshakeBetaAckFrame_status_def HandshakeBetaAckFrame_enc_def serial_consts write_defs
      read_defs be_defs be_join Let_def split: option.splits HandshakeErrorKind.splits)

interpretation close: block_serial CLOSE_SIZE CloseFrame_read CloseFrame_write CloseFrame_enc "\<lambda>_. True"
  by unfold_locales
    (auto simp: CloseFrame_read_def CloseFrame_write_def CloseFrame_enc_def serial_consts
      write_defs read_defs be_defs be_join)

interpretation close_ack: block_serial CLOSE_ACK_SIZE CloseAckFrame_read CloseAckFrame_write
    CloseAckFrame_enc "\<lambda>_. True"
  by unfold_locales
    (auto simp: CloseAckFrame_read_def CloseAckFrame_write_def CloseAckFrame_enc_def serial_consts
      write_defs read_defs be_defs be_join)

interpretation stream_segment_header: block_serial STREAM_SEGMENT_HEADER_SIZE StreamSegmentHeader_read
    StreamSegmentHeader_write StreamSegmentHeader_enc "\<lambda>_. True"
  by unfold_locales
    (auto simp: StreamSegmentHeader_read_def StreamSegmentHeader_write_def
      StreamSegmentHeader_enc_def serial_consts write_defs read_defs be_defs be_join Let_def)

lemma StreamAck_info_bits:
  "StreamAck_info obj AND 0x1F = sa_segment_history obj AND 0x1F"
  "StreamAck_info obj AND 0x20 \<noteq> 0 \<longleftrightarrow> sa_segment_checksum obj"
  "StreamAck_info obj AND 0x80 \<noteq> 0 \<longleftrightarrow> sa_rel_fragment_id obj \<noteq> None"
  by (simp_all add: StreamAck_info_def Let_def bit.conj_disj_distrib2 and.assoc)

interpretation stream_ack: block_serial STREAM_ACK_SIZE StreamAck_read StreamAck_write
    StreamAck_enc StreamAck_valid
  by unfold_locales
    (auto simp: StreamAck_read_def StreamAck_write_def StreamAck_enc_def StreamAck_valid_def
      StreamAck_info_bits serial_consts write_defs read_defs be_defs be_join and.assoc
      split: option.splits)

interpretation stream_sync: block_serial STREAM_SYNC_SIZE StreamSync_read StreamSync_write
    StreamSync_enc "\<lambda>_. True"
  by unfold_locales
    (auto simp: StreamSync_read_def StreamSync_write_def StreamSync_enc_def serial_consts
      write_defs read_defs be_defs be_join)

section \<open>Datagrams\<close>

definition Datagram_read :: "bytes \<Rightarrow> (Datagram \<times> nat) option rust" where
  "Datagram_read src =
     (if length src < DATAGRAM_HEADER_SIZE then Some None
      else do {
        (info_bits, rd) \<leftarrow> read_u8 (Reader_new src);
        (ident, rd) \<leftarrow> read_u32 rd;
        (len, rd) \<leftarrow> read_u16 rd;
        let data_len = unat len;
        if length src < DATAGRAM_HEADER_SIZE + data_len then Some None
        else Some (Some
          (\<lparr>dg_id = ident,
            dg_unrel = (info_bits AND DATAGRAM_UNREL_BIT \<noteq> 0),
            dg_first = (info_bits AND DATAGRAM_FIRST_BIT \<noteq> 0),
            dg_last = (info_bits AND DATAGRAM_LAST_BIT \<noteq> 0),
            dg_data = take data_len (drop DATAGRAM_HEADER_SIZE src)\<rparr>,
           DATAGRAM_HEADER_SIZE + data_len)) })"

definition Datagram_info :: "Datagram \<Rightarrow> u8" where
  "Datagram_info obj =
     (let info_bits = 0;
          info_bits = (if dg_unrel obj then info_bits OR DATAGRAM_UNREL_BIT else info_bits);
          info_bits = (if dg_first obj then info_bits OR DATAGRAM_FIRST_BIT else info_bits)
      in if dg_last obj then info_bits OR DATAGRAM_LAST_BIT else info_bits)"

definition Datagram_write :: "bytes \<Rightarrow> Datagram \<Rightarrow> (bytes \<times> nat option) rust" where
  "Datagram_write dst obj =
     (if length dst < DATAGRAM_HEADER_SIZE + length (dg_data obj) then Some (dst, None)
      else do {
        rust_assert (length (dg_data obj) \<le> DATAGRAM_DATA_SIZE_MAX);
        wr \<leftarrow> write_u8 (Writer_new dst) (Datagram_info obj);
        wr \<leftarrow> write_u32 wr (dg_id obj);
        wr \<leftarrow> write_u16 wr (word_of_nat (length (dg_data obj)));
        wr \<leftarrow> write_slice wr (dg_data obj);
        Some (wr_buf wr, Some (DATAGRAM_HEADER_SIZE + length (dg_data obj))) })"

definition Datagram_enc :: "Datagram \<Rightarrow> bytes" where
  "Datagram_enc obj = [Datagram_info obj] @ be_u32 (dg_id obj) @
     be_u16 (word_of_nat (length (dg_data obj))) @ dg_data obj"

definition Datagram_valid :: "Datagram \<Rightarrow> bool" where
  "Datagram_valid obj \<longleftrightarrow> length (dg_data obj) \<le> DATAGRAM_DATA_SIZE_MAX"

lemma Datagram_info_bits:
  "Datagram_info obj AND DATAGRAM_UNREL_BIT \<noteq> 0 \<longleftrightarrow> dg_unrel obj"
  "Datagram_info obj AND DATAGRAM_FIRST_BIT \<noteq> 0 \<longleftrightarrow> dg_first obj"
  "Datagram_info obj AND DATAGRAM_LAST_BIT \<noteq> 0 \<longleftrightarrow> dg_last obj"
  by (simp_all add: Datagram_info_def Let_def DATAGRAM_UNREL_BIT_def DATAGRAM_FIRST_BIT_def
      DATAGRAM_LAST_BIT_def)

lemma length_Datagram_enc [simp]:
  "length (Datagram_enc obj) = DATAGRAM_HEADER_SIZE + length (dg_data obj)"
  by (simp add: Datagram_enc_def DATAGRAM_HEADER_SIZE_def)

lemma Datagram_write_fits:
  assumes "Datagram_valid obj" and "length (Datagram_enc obj) \<le> length buf"
  shows "Datagram_write buf obj =
    Some (Datagram_enc obj @ drop (length (Datagram_enc obj)) buf, Some (length (Datagram_enc obj)))"
proof -
  have "wr_put (Writer_new buf) (Datagram_enc obj) =
      Some \<lparr>wr_buf = Datagram_enc obj @ drop (length (Datagram_enc obj)) buf,
            bytes_written = length (Datagram_enc obj)\<rparr>"
    using assms(2) by (rule wr_put_new)
  then have "wr_put (Writer_new buf)
      ([Datagram_info obj] @ be_u32 (dg_id obj) @ be_u16 (word_of_nat (length (dg_data obj))) @ dg_data obj) =
      Some \<lparr>wr_buf = Datagram_enc obj @ drop (length (Datagram_enc obj)) buf,
            bytes_written = length (Datagram_enc obj)\<rparr>"
    by (simp only: Datagram_enc_def)
  with assms show ?thesis
    by (simp add: Datagram_write_def Datagram_valid_def write_defs)
qed

lemma unat_u16_length: "n \<le> 65535 \<Longrightarrow> unat (word_of_nat n :: u16) = n"
  by (simp add: unat_of_nat)

lemma Datagram_read_enc:
  assumes "Datagram_valid obj"
  shows "Datagram_read (Datagram_enc obj @ rest) = Some (Some (obj, length (Datagram_enc obj)))"
proof -
  have len: "unat (word_of_nat (length (dg_data obj)) :: u16) = length (dg_data obj)"
    using assms by (simp add: Datagram_valid_def DATAGRAM_DATA_SIZE_MAX_def unat_u16_length)
  have "\<not> length (Datagram_enc obj @ rest) < DATAGRAM_HEADER_SIZE + length (dg_data obj)"
    and "take (length (dg_data obj)) (drop DATAGRAM_HEADER_SIZE (Datagram_enc obj @ rest)) = dg_data obj"
    by (simp_all add: Datagram_enc_def DATAGRAM_HEADER_SIZE_def be_defs eval_nat_numeral)
  then show ?thesis
    unfolding Datagram_read_def
    by (simp add: read_defs Datagram_enc_def be_defs be_join Datagram_info_bits len
        DATAGRAM_HEADER_SIZE_def)
qed

lemma Datagram_read_total:
  "Datagram_read buf = Some None \<or>
     (\<exists>obj n. Datagram_read buf = Some (Some (obj, n)) \<and> Datagram_valid obj \<and> 0 < n \<and> n \<le> length buf)"
proof (cases "length buf < DATAGRAM_HEADER_SIZE")
  case False
  have "unat (x :: u16) \<le> 65535" for x
  proof -
    have "unat x < 2 ^ LENGTH(16)" by (rule unsigned_less)
    then show ?thesis by simp
  qed
  with False show ?thesis
    by (auto simp: Datagram_read_def read_defs Datagram_valid_def serial_consts Let_def
        intro: min.coboundedI2)
qed (simp add: Datagram_read_def)

interpretation datagram: serial Datagram_read Datagram_write Datagram_enc Datagram_valid
proof unfold_locales
  show "Datagram_write buf obj = Some (buf, None)" if "length buf < length (Datagram_enc obj)" for buf obj
    using that by (simp add: Datagram_write_def)
qed (fact Datagram_write_fits Datagram_read_enc Datagram_read_total)+

section \<open>Frame writer\<close>

record FrameWriter =
  fw_buffer :: bytes
  write_idx :: nat

definition frame_type_bits :: "FrameType \<Rightarrow> u8" where
  "frame_type_bits frame_type =
     (case frame_type of
        HandshakeAlpha \<Rightarrow> 0x00 | HandshakeAlphaAck \<Rightarrow> 0x01 | HandshakeBeta \<Rightarrow> 0x02
      | HandshakeBetaAck \<Rightarrow> 0x03 | Close \<Rightarrow> 0x04 | CloseAck \<Rightarrow> 0x05
      | StreamSegment \<Rightarrow> 0x06 | StreamAckType \<Rightarrow> 0x07 | StreamSegmentAck \<Rightarrow> 0x08
      | StreamSyncType \<Rightarrow> 0x09)"

definition FrameWriter_new :: "bytes \<Rightarrow> FrameType \<Rightarrow> FrameWriter rust" where
  "FrameWriter_new buffer frame_type = do {
     wr \<leftarrow> write_u8 (Writer_new buffer) (frame_type_bits frame_type);
     Some \<lparr>fw_buffer = wr_buf wr, write_idx = FRAME_HEADER_SIZE\<rparr> }"

definition FrameWriter_write ::
    "(bytes \<Rightarrow> 'a \<Rightarrow> (bytes \<times> nat option) rust) \<Rightarrow> FrameWriter \<Rightarrow> 'a \<Rightarrow> (FrameWriter \<times> bool) rust" where
  "FrameWriter_write A_write fw obj = do {
     rust_assert (FRAME_CRC_SIZE \<le> length (fw_buffer fw));
     let begin_idx = write_idx fw;
     let end_idx = length (fw_buffer fw) - FRAME_CRC_SIZE;
     rust_assert (begin_idx \<le> end_idx);
     (slice, r) \<leftarrow> A_write (take (end_idx - begin_idx) (drop begin_idx (fw_buffer fw))) obj;
     let buffer = take begin_idx (fw_buffer fw) @ slice @ drop end_idx (fw_buffer fw);
     case r of
       Some n \<Rightarrow> Some (fw\<lparr>fw_buffer := buffer, write_idx := write_idx fw + n\<rparr>, True)
     | None \<Rightarrow> Some (fw\<lparr>fw_buffer := buffer\<rparr>, False) }"

definition le_bytes :: "u32 \<Rightarrow> bytes" where
  "le_bytes v = [ucast v, ucast (drop_bit 8 v), ucast (drop_bit 16 v), ucast (drop_bit 24 v)]"

definition from_le_bytes :: "bytes \<Rightarrow> u32" where
  "from_le_bytes bs =
     ucast (bs ! 0) OR push_bit 8 (ucast (bs ! 1)) OR push_bit 16 (ucast (bs ! 2)) OR
     push_bit 24 (ucast (bs ! 3))"

text \<open>\<open>finalize\<close> gives the buffer it leaves behind and the slice of it that it returns.\<close>

definition FrameWriter_finalize :: "FrameWriter \<Rightarrow> (bytes \<times> bytes) rust" where
  "FrameWriter_finalize fw = do {
     rust_assert (write_idx fw \<le> length (fw_buffer fw));
     let frame_crc = compute (take (write_idx fw) (fw_buffer fw));
     let frame_size = write_idx fw + CRC_SIZE;
     rust_assert (frame_size \<le> length (fw_buffer fw));
     let buffer = take (write_idx fw) (fw_buffer fw) @ le_bytes frame_crc @ drop frame_size (fw_buffer fw);
     Some (buffer, take frame_size buffer) }"

section \<open>Payload reader and frame checks\<close>

record PayloadReader =
  pr_buffer :: bytes
  read_idx :: nat

definition PayloadReader_new :: "bytes \<Rightarrow> PayloadReader" where
  "PayloadReader_new buffer = \<lparr>pr_buffer = buffer, read_idx = 0\<rparr>"

definition remaining_bytes :: "PayloadReader \<Rightarrow> bytes" where
  "remaining_bytes pr = drop (read_idx pr) (pr_buffer pr)"

definition PayloadReader_read ::
    "(bytes \<Rightarrow> ('a \<times> nat) option rust) \<Rightarrow> PayloadReader \<Rightarrow> ('a option \<times> PayloadReader) rust" where
  "PayloadReader_read A_read pr = do {
     rust_assert (read_idx pr \<le> length (pr_buffer pr));
     r \<leftarrow> A_read (drop (read_idx pr) (pr_buffer pr));
     case r of
       Some (obj, n) \<Rightarrow> Some (Some obj, pr\<lparr>read_idx := read_idx pr + n\<rparr>)
     | None \<Rightarrow> Some (None, pr) }"

definition verify_minimum_size :: "bytes \<Rightarrow> bool" where
  "verify_minimum_size frame_bytes \<longleftrightarrow> length frame_bytes \<ge> FRAME_OVERHEAD_SIZE"

definition verify_crc :: "bytes \<Rightarrow> bool rust" where
  "verify_crc buffer = do {
     rust_assert (CRC_SIZE \<le> length buffer);
     let data = take (length buffer - CRC_SIZE) buffer;
     let crc = from_le_bytes (drop (length buffer - CRC_SIZE) buffer);
     Some (compute data = crc) }"

definition verify_handshake_alpha_size_and_crc :: "bytes \<Rightarrow> nat \<Rightarrow> bool rust" where
  "verify_handshake_alpha_size_and_crc frame_bytes frame_size_max =
     (if length frame_bytes = min frame_size_max HANDSHAKE_ALPHA_FRAME_SIZE_MAX
      then do {
        rust_assert (HANDSHAKE_ALPHA_SIZE + FRAME_OVERHEAD_SIZE \<le> length frame_bytes);
        verify_crc (take (HANDSHAKE_ALPHA_SIZE + FRAME_OVERHEAD_SIZE) frame_bytes) }
      else Some False)"

definition verify_handshake_beta_size_and_crc :: "bytes \<Rightarrow> bool rust" where
  "verify_handshake_beta_size_and_crc frame_bytes =
     (if length frame_bytes = HANDSHAKE_BETA_SIZE + FRAME_OVERHEAD_SIZE
      then verify_crc frame_bytes else Some False)"

definition frame_type_of_bits :: "u8 \<Rightarrow> FrameType option" where
  "frame_type_of_bits bits =
     (if bits = 0x00 then Some HandshakeAlpha
      else if bits = 0x01 then Some HandshakeAlphaAck
      else if bits = 0x02 then Some HandshakeBeta
      else if bits = 0x03 then Some HandshakeBetaAck
      else if bits = 0x04 then Some Close
      else if bits = 0x05 then Some CloseAck
      else if bits = 0x06 then Some StreamSegment
      else if bits = 0x07 then Some StreamAckType
      else if bits = 0x08 then Some StreamSegmentAck
      else if bits = 0x09 then Some StreamSyncType
      else None)"

definition read_type :: "bytes \<Rightarrow> FrameType option rust" where
  "read_type frame_bytes =
     (case frame_bytes of
        [] \<Rightarrow> None
      | b # _ \<Rightarrow> Some (frame_type_of_bits (b AND FRAME_TYPE_MASK)))"

definition payload :: "bytes \<Rightarrow> bytes rust" where
  "payload frame_bytes = do {
     rust_assert (FRAME_CRC_SIZE \<le> length frame_bytes);
     let payload_end = length frame_bytes - FRAME_CRC_SIZE;
     rust_assert (FRAME_HEADER_SIZE \<le> payload_end);
     Some (drop FRAME_HEADER_SIZE (take payload_end frame_bytes)) }"

section \<open>Simple frames\<close>

record SimpleFrame =
  FRAME_TYPE :: FrameType
  PAYLOAD_SIZE :: nat

definition FRAME_SIZE :: "SimpleFrame \<Rightarrow> nat" where
  "FRAME_SIZE sf = PAYLOAD_SIZE sf + FRAME_OVERHEAD_SIZE"

definition HandshakeAlpha_SF :: SimpleFrame where
  "HandshakeAlpha_SF = \<lparr>FRAME_TYPE = HandshakeAlpha, PAYLOAD_SIZE = HANDSHAKE_ALPHA_SIZE\<rparr>"
definition HandshakeAlphaAck_SF :: SimpleFrame where
  "HandshakeAlphaAck_SF = \<lparr>FRAME_TYPE = HandshakeAlphaAck, PAYLOAD_SIZE = HANDSHAKE_ALPHA_ACK_SIZE\<rparr>"
definition HandshakeBeta_SF :: SimpleFrame where
  "HandshakeBeta_SF = \<lparr>FRAME_TYPE = HandshakeBeta, PAYLOAD_SIZE = HANDSHAKE_BETA_SIZE\<rparr>"
definition HandshakeBetaAck_SF :: SimpleFrame where
  "HandshakeBetaAck_SF = \<lparr>FRAME_TYPE = HandshakeBetaAck, PAYLOAD_SIZE = HANDSHAKE_BETA_ACK_SIZE\<rparr>"
definition Close_SF :: SimpleFrame where
  "Close_SF = \<lparr>FRAME_TYPE = Close, PAYLOAD_SIZE = HANDSHAKE_BETA_SIZE\<rparr>"
definition CloseAck_SF :: SimpleFrame where
  "CloseAck_SF = \<lparr>FRAME_TYPE = CloseAck, PAYLOAD_SIZE = HANDSHAKE_BETA_ACK_SIZE\<rparr>"
definition StreamSync_SF :: SimpleFrame where
  "StreamSync_SF = \<lparr>FRAME_TYPE = StreamSyncType, PAYLOAD_SIZE = STREAM_SYNC_SIZE\<rparr>"

lemmas simple_frame_defs =
  HandshakeAlpha_SF_def HandshakeAlphaAck_SF_def HandshakeBeta_SF_def HandshakeBetaAck_SF_def
  Close_SF_def CloseAck_SF_def StreamSync_SF_def FRAME_SIZE_def

text \<open>\<open>write\<close> gives the caller's buffer after the call and the frame slice it returns.\<close>

definition SimpleFrameWrite_write ::
    "SimpleFrame \<Rightarrow> (bytes \<Rightarrow> 'a \<Rightarrow> (bytes \<times> nat option) rust) \<Rightarrow> 'a \<Rightarrow> bytes \<Rightarrow> (bytes \<times> bytes) rust" where
  "SimpleFrameWrite_write sf A_write obj dst = do {
     wr \<leftarrow> FrameWriter_new dst (FRAME_TYPE sf);
     (wr, _) \<leftarrow> FrameWriter_write A_write wr obj;
     FrameWriter_finalize wr }"

definition SimpleFrameWrite_write_boxed ::
    "SimpleFrame \<Rightarrow> (bytes \<Rightarrow> 'a \<Rightarrow> (bytes \<times> nat option) rust) \<Rightarrow> 'a \<Rightarrow> bytes rust" where
  "SimpleFrameWrite_write_boxed sf A_write obj = do {
     wr \<leftarrow> FrameWriter_new (replicate (FRAME_SIZE sf) 0) (FRAME_TYPE sf);
     (wr, _) \<leftarrow> FrameWriter_write A_write wr obj;
     (buffer, _) \<leftarrow> FrameWriter_finalize wr;
     Some buffer }"

definition write_handshake_alpha :: "HandshakeAlphaFrame \<Rightarrow> nat \<Rightarrow> bytes rust" where
  "write_handshake_alpha obj frame_size_max = do {
     let frame_size = min frame_size_max HANDSHAKE_ALPHA_FRAME_SIZE_MAX;
     wr \<leftarrow> FrameWriter_new (replicate frame_size 0) HandshakeAlpha;
     (wr, _) \<leftarrow> FrameWriter_write (Serial_write HANDSHAKE_ALPHA_SIZE HandshakeAlphaFrame_write) wr obj;
     (buffer, _) \<leftarrow> FrameWriter_finalize wr;
     Some buffer }"

definition SimplePayloadRead_read :: "(bytes \<Rightarrow> ('a \<times> nat) option rust) \<Rightarrow> bytes \<Rightarrow> 'a option rust" where
  "SimplePayloadRead_read A_read src = do {
     (r, _) \<leftarrow> PayloadReader_read A_read (PayloadReader_new src);
     Some r }"

section \<open>Frames as written\<close>

text \<open>
  \<open>fw_holds fw N c\<close>: the writer's buffer has \<open>N\<close> bytes, \<open>c\<close> has been written to
  it so far, and there is still room for the checksum.
\<close>

definition fw_holds :: "FrameWriter \<Rightarrow> nat \<Rightarrow> bytes \<Rightarrow> bool" where
  "fw_holds fw N c \<longleftrightarrow>
     length (fw_buffer fw) = N \<and> write_idx fw = length c \<and>
     take (length c) (fw_buffer fw) = c \<and> length c + FRAME_CRC_SIZE \<le> N"

definition finished_frame :: "bytes \<Rightarrow> bytes" where
  "finished_frame c = c @ le_bytes (compute c)"

lemma length_le_bytes [simp]: "length (le_bytes v) = 4"
  by (simp add: le_bytes_def)

lemma from_le_bytes_le_bytes [simp]: "from_le_bytes (le_bytes v) = v"
  unfolding from_le_bytes_def le_bytes_def
  by (rule bit_word_eqI) (auto simp: bit_or_iff bit_byte_at bit_low_byte)

lemma FrameWriter_new_holds:
  "FRAME_OVERHEAD_SIZE \<le> length buf \<Longrightarrow>
     \<exists>fw. FrameWriter_new buf ft = Some fw \<and> fw_holds fw (length buf) [frame_type_bits ft]"
  by (auto simp: FrameWriter_new_def write_u8_def wr_put_def Writer_new_def fw_holds_def serial_consts)

lemma FrameWriter_finalize_holds:
  assumes "fw_holds fw N c"
  shows "FrameWriter_finalize fw =
    Some (finished_frame c @ drop (length c + FRAME_CRC_SIZE) (fw_buffer fw), finished_frame c)"
  using assms
  by (simp add: fw_holds_def FrameWriter_finalize_def finished_frame_def serial_consts Let_def)

context serial
begin

lemma FrameWriter_write_fits:
  assumes "fw_holds fw N c" and "valid obj" and "length c + length (enc obj) + FRAME_CRC_SIZE \<le> N"
  shows "\<exists>fw'. FrameWriter_write swrite fw obj = Some (fw', True) \<and> fw_holds fw' N (c @ enc obj)"
proof -
  let ?room = "take (N - 4 - length c) (drop (length c) (fw_buffer fw))"
  have "swrite ?room obj =
      Some (enc obj @ drop (length (enc obj)) ?room, Some (length (enc obj)))"
    using assms by (intro swrite_fits) (simp_all add: fw_holds_def FRAME_CRC_SIZE_def)
  with assms show ?thesis
    by (simp add: FrameWriter_write_def fw_holds_def FRAME_CRC_SIZE_def Let_def)
qed

lemma FrameWriter_write_short:
  assumes "fw_holds fw N c" and "N < length c + length (enc obj) + FRAME_CRC_SIZE"
  shows "FrameWriter_write swrite fw obj = Some (fw, False)"
proof -
  let ?room = "take (N - 4 - length c) (drop (length c) (fw_buffer fw))"
  have "swrite ?room obj = Some (?room, None)"
    using assms by (intro swrite_short) (simp add: fw_holds_def FRAME_CRC_SIZE_def, arith)
  moreover have "take (length c) (fw_buffer fw) @ ?room @ drop (N - 4) (fw_buffer fw) = fw_buffer fw"
  proof -
    have "drop (N - 4) (fw_buffer fw) = drop (N - 4 - length c) (drop (length c) (fw_buffer fw))"
      using assms(1) by (simp add: fw_holds_def FRAME_CRC_SIZE_def)
    then show ?thesis
      by (simp only: append_take_drop_id)
  qed
  moreover have "length c \<le> N - 4"
    using assms(1) by (auto simp: fw_holds_def FRAME_CRC_SIZE_def)
  ultimately show ?thesis
    using assms by (simp add: FrameWriter_write_def fw_holds_def FRAME_CRC_SIZE_def Let_def)
qed

lemma PayloadReader_read_enc:
  assumes "valid obj" and "drop (read_idx pr) (pr_buffer pr) = enc obj @ rest"
    and "read_idx pr \<le> length (pr_buffer pr)"
  shows "PayloadReader_read sread pr = Some (Some obj, pr\<lparr>read_idx := read_idx pr + length (enc obj)\<rparr>)"
  using assms by (simp add: PayloadReader_read_def sread_enc)

lemma PayloadReader_read_total:
  assumes "read_idx pr \<le> length (pr_buffer pr)"
  obtains (End) "PayloadReader_read sread pr = Some (None, pr)"
  | (Obj) obj n where "PayloadReader_read sread pr = Some (Some obj, pr\<lparr>read_idx := read_idx pr + n\<rparr>)"
      "valid obj" "0 < n" "read_idx pr + n \<le> length (pr_buffer pr)"
  using sread_total [of "drop (read_idx pr) (pr_buffer pr)"] assms
  by (auto simp: PayloadReader_read_def)

end

section \<open>Frames as received\<close>

lemma finished_frame_checks:
  "verify_crc (finished_frame c) = Some True"
  "payload (finished_frame (b # body)) = Some body"
  "read_type (finished_frame (b # body)) = Some (frame_type_of_bits (b AND FRAME_TYPE_MASK))"
  "length (finished_frame c) = length c + FRAME_CRC_SIZE"
  by (simp_all add: verify_crc_def finished_frame_def payload_def read_type_def serial_consts Let_def)

lemma frame_type_of_bits_inverse [simp]:
  "frame_type_of_bits (frame_type_bits ft AND FRAME_TYPE_MASK) = Some ft"
  by (cases ft) (simp_all add: frame_type_of_bits_def frame_type_bits_def FRAME_TYPE_MASK_def)

lemma payload_padded:
  "payload (finished_frame (b # body) @ pad) =
     Some (body @ take (length pad) (le_bytes (compute (b # body)) @ pad))"
  by (simp add: payload_def finished_frame_def serial_consts Let_def)

text \<open>What the receiving side checks and reads of a frame that carries one object.\<close>

definition received_as ::
    "FrameType \<Rightarrow> (bytes \<Rightarrow> ('a \<times> nat) option rust) \<Rightarrow> bytes \<Rightarrow> 'a \<Rightarrow> bool" where
  "received_as ft A_read frame obj \<longleftrightarrow>
     verify_minimum_size frame \<and> verify_crc frame = Some True \<and>
     read_type frame = Some (Some ft) \<and>
     (payload frame \<bind> SimplePayloadRead_read A_read) = Some (Some obj)"

context serial
begin

lemma SimplePayloadRead_enc:
  "valid obj \<Longrightarrow> SimplePayloadRead_read sread (enc obj @ rest) = Some (Some obj)"
  by (simp add: SimplePayloadRead_read_def PayloadReader_new_def PayloadReader_read_def sread_enc)

lemma received_as_finished:
  "valid obj \<Longrightarrow> received_as ft sread (finished_frame (frame_type_bits ft # enc obj)) obj"
  using SimplePayloadRead_enc [of obj "[]"]
  by (simp add: received_as_def finished_frame_checks verify_minimum_size_def FRAME_OVERHEAD_SIZE_def
      FRAME_HEADER_SIZE_def)

lemma SimpleFrameWrite_write_finished:
  assumes "valid obj" and "length (enc obj) + FRAME_OVERHEAD_SIZE \<le> length dst"
  shows "map_option snd (SimpleFrameWrite_write sf swrite obj dst) =
    Some (finished_frame (frame_type_bits (FRAME_TYPE sf) # enc obj))"
proof -
  obtain fw where fw: "FrameWriter_new dst (FRAME_TYPE sf) = Some fw"
      "fw_holds fw (length dst) [frame_type_bits (FRAME_TYPE sf)]"
    using FrameWriter_new_holds [of dst] assms(2) by (metis le_add2 le_trans)
  obtain fw' where "FrameWriter_write swrite fw obj = Some (fw', True)"
      "fw_holds fw' (length dst) ([frame_type_bits (FRAME_TYPE sf)] @ enc obj)"
    using FrameWriter_write_fits [OF fw(2) assms(1)] assms(2) by (auto simp: serial_consts)
  with fw show ?thesis
    by (simp add: SimpleFrameWrite_write_def FrameWriter_finalize_holds)
qed

lemma SimpleFrameWrite_write_boxed_value:
  assumes "valid obj" and "\<And>obj. length (enc obj) = PAYLOAD_SIZE sf"
  shows "SimpleFrameWrite_write_boxed sf swrite obj = Some (finished_frame (frame_type_bits (FRAME_TYPE sf) # enc obj))"
proof -
  let ?dst = "replicate (FRAME_SIZE sf) 0"
  have len: "length ?dst = PAYLOAD_SIZE sf + 5"
    by (simp add: FRAME_SIZE_def serial_consts)
  obtain fw where fw: "FrameWriter_new ?dst (FRAME_TYPE sf) = Some fw"
      "fw_holds fw (length ?dst) [frame_type_bits (FRAME_TYPE sf)]"
    using FrameWriter_new_holds [of ?dst] len by (auto simp: serial_consts)
  obtain fw' where fw': "FrameWriter_write swrite fw obj = Some (fw', True)"
      "fw_holds fw' (length ?dst) ([frame_type_bits (FRAME_TYPE sf)] @ enc obj)"
    using FrameWriter_write_fits [OF fw(2) assms(1)] assms(2) len by (auto simp: serial_consts)
  have "drop (length ([frame_type_bits (FRAME_TYPE sf)] @ enc obj) + FRAME_CRC_SIZE) (fw_buffer fw') = []"
    using fw'(2) assms(2) len by (simp add: fw_holds_def serial_consts)
  with fw fw' show ?thesis
    by (simp add: SimpleFrameWrite_write_boxed_def FrameWriter_finalize_holds)
qed

end

text \<open>
  A frame written into the caller's buffer, and one written into a buffer of its own, with
  what the receiving side makes of it.
\<close>

definition written_received ::
    "SimpleFrame \<Rightarrow> nat \<Rightarrow> (Writer \<Rightarrow> 'a \<Rightarrow> Writer rust) \<Rightarrow>
     (Reader \<Rightarrow> ('a \<times> Reader) rust) \<Rightarrow> 'a \<Rightarrow> bytes \<Rightarrow> bool" where
  "written_received sf n A_write A_read obj dst \<longleftrightarrow>
     (\<exists>frame. map_option snd (SimpleFrameWrite_write sf (Serial_write n A_write) obj dst) = Some frame \<and>
       length frame = n + FRAME_OVERHEAD_SIZE \<and>
       received_as (FRAME_TYPE sf) (Serial_read n A_read) frame obj)"

definition boxed_received ::
    "SimpleFrame \<Rightarrow> nat \<Rightarrow> (Writer \<Rightarrow> 'a \<Rightarrow> Writer rust) \<Rightarrow>
     (Reader \<Rightarrow> ('a \<times> Reader) rust) \<Rightarrow> 'a \<Rightarrow> bool" where
  "boxed_received sf n A_write A_read obj \<longleftrightarrow>
     (\<exists>frame. SimpleFrameWrite_write_boxed sf (Serial_write n A_write) obj = Some frame \<and>
       length frame = n + FRAME_OVERHEAD_SIZE \<and>
       received_as (FRAME_TYPE sf) (Serial_read n A_read) frame obj)"

context block_serial
begin

lemma written_receivedI:
  assumes "valid obj" and "SIZE + FRAME_OVERHEAD_SIZE \<le> length dst"
  shows "written_received sf SIZE bwrite bread obj dst"
proof -
  let ?frame = "finished_frame (frame_type_bits (FRAME_TYPE sf) # enc obj)"
  have "map_option snd (SimpleFrameWrite_write sf (Serial_write SIZE bwrite) obj dst) = Some ?frame"
    using assms by (intro SimpleFrameWrite_write_finished) (simp_all add: length_enc)
  moreover have "length ?frame = SIZE + FRAME_OVERHEAD_SIZE"
    by (simp add: finished_frame_checks(4) length_enc serial_consts)
  ultimately show ?thesis
    using received_as_finished [OF assms(1)] unfolding written_received_def by blast
qed

lemma boxed_receivedI:
  assumes "valid obj" and "PAYLOAD_SIZE sf = SIZE"
  shows "boxed_received sf SIZE bwrite bread obj"
  using SimpleFrameWrite_write_boxed_value [of obj sf] received_as_finished [OF assms(1)] assms
  by (simp add: boxed_received_def finished_frame_checks(4) length_enc serial_consts)

end

lemma write_handshake_alpha_received:
  assumes "11 \<le> frame_size_max"
  shows "\<exists>frame. write_handshake_alpha obj frame_size_max = Some frame \<and>
    length frame = min frame_size_max 1472 \<and>
    verify_minimum_size frame \<and> read_type frame = Some (Some HandshakeAlpha) \<and>
    verify_handshake_alpha_size_and_crc frame frame_size_max = Some True \<and>
    (payload frame \<bind>
      SimplePayloadRead_read (Serial_read HANDSHAKE_ALPHA_SIZE HandshakeAlphaFrame_read)) = Some (Some obj)"
proof -
  let ?n = "min frame_size_max HANDSHAKE_ALPHA_FRAME_SIZE_MAX"
  let ?body = "frame_type_bits HandshakeAlpha # HandshakeAlphaFrame_enc obj"
  let ?wr = "Serial_write HANDSHAKE_ALPHA_SIZE HandshakeAlphaFrame_write"
  have n: "11 \<le> ?n" "?n = min frame_size_max 1472"
    using assms by (simp_all add: serial_consts)
  obtain fw where fw: "FrameWriter_new (replicate ?n 0) HandshakeAlpha = Some fw"
      "fw_holds fw ?n [frame_type_bits HandshakeAlpha]"
    using FrameWriter_new_holds [of "replicate ?n 0"] n by (auto simp: serial_consts)
  obtain fw' where fw': "FrameWriter_write ?wr fw obj = Some (fw', True)" "fw_holds fw' ?n ?body"
    using handshake_alpha.FrameWriter_write_fits [OF fw(2)] n
    by (auto simp: handshake_alpha.length_enc serial_consts)
  let ?pad = "drop (length ?body + FRAME_CRC_SIZE) (fw_buffer fw')"
  have len: "length ?body = 7" "length (fw_buffer fw') = ?n"
    using fw'(2) by (simp_all add: handshake_alpha.length_enc HANDSHAKE_ALPHA_SIZE_def fw_holds_def)
  have frame: "write_handshake_alpha obj frame_size_max = Some (finished_frame ?body @ ?pad)"
    using fw fw' by (simp add: write_handshake_alpha_def FrameWriter_finalize_holds Let_def)
  have "verify_handshake_alpha_size_and_crc (finished_frame ?body @ ?pad) frame_size_max = Some True"
    using n len finished_frame_checks(1) [of ?body]
    by (simp add: verify_handshake_alpha_size_and_crc_def finished_frame_checks(4) serial_consts)
  moreover note payload_padded [of "frame_type_bits HandshakeAlpha" "HandshakeAlphaFrame_enc obj" ?pad]
  moreover have "read_type (finished_frame ?body @ ?pad) = Some (Some HandshakeAlpha)"
    by (simp add: read_type_def finished_frame_def)
  moreover have "length (finished_frame ?body @ ?pad) = ?n"
    using n len by (simp add: finished_frame_checks(4) serial_consts)
  ultimately show ?thesis
    using frame n handshake_alpha.SimplePayloadRead_enc by (simp add: verify_minimum_size_def serial_consts)
qed

text \<open>
  C32: each of the seven control frames, written into a buffer that has room for it (one
  of exactly its size will do), is accepted by the receiving side (size, checksum, type)
  and decodes to the object that was written (in a release build: the debug assertion of
  \<^verbatim>\<open>write\<close> asks for \<open>FRAME_SIZE\<close> bytes, more than Close and CloseAck have); so is a frame that \<open>write_boxed\<close>
  allocates, for all but Close and CloseAck, whose \<open>PAYLOAD_SIZE\<close> is not the size of
  the object, and the padded request of the first handshake phase, for every frame size
  of at least 11 bytes.
\<close>

theorem simple_frames_roundtrip:
   "(HANDSHAKE_ALPHA_SIZE + FRAME_OVERHEAD_SIZE \<le> length dst \<longrightarrow>
       written_received HandshakeAlpha_SF HANDSHAKE_ALPHA_SIZE HandshakeAlphaFrame_write HandshakeAlphaFrame_read ha dst) \<and>
    (HANDSHAKE_ALPHA_ACK_SIZE + FRAME_OVERHEAD_SIZE \<le> length dst \<longrightarrow>
       written_received HandshakeAlphaAck_SF HANDSHAKE_ALPHA_ACK_SIZE HandshakeAlphaAckFrame_write HandshakeAlphaAckFrame_read haa dst) \<and>
    (HANDSHAKE_BETA_SIZE + FRAME_OVERHEAD_SIZE \<le> length dst \<longrightarrow>
       written_received HandshakeBeta_SF HANDSHAKE_BETA_SIZE HandshakeBetaFrame_write HandshakeBetaFrame_read hb dst) \<and>
    (HANDSHAKE_BETA_ACK_SIZE + FRAME_OVERHEAD_SIZE \<le> length dst \<longrightarrow>
       written_received HandshakeBetaAck_SF HANDSHAKE_BETA_ACK_SIZE HandshakeBetaAckFrame_write HandshakeBetaAckFrame_read hba dst) \<and>
    (CLOSE_SIZE + FRAME_OVERHEAD_SIZE \<le> length dst \<longrightarrow>
       written_received Close_SF CLOSE_SIZE CloseFrame_write CloseFrame_read cl dst) \<and>
    (CLOSE_ACK_SIZE + FRAME_OVERHEAD_SIZE \<le> length dst \<longrightarrow>
       written_received CloseAck_SF CLOSE_ACK_SIZE CloseAckFrame_write CloseAckFrame_read cla dst) \<and>
    (STREAM_SYNC_SIZE + FRAME_OVERHEAD_SIZE \<le> length dst \<longrightarrow>
       written_received StreamSync_SF STREAM_SYNC_SIZE StreamSync_write StreamSync_read sync dst) \<and>
    boxed_received HandshakeAlpha_SF HANDSHAKE_ALPHA_SIZE HandshakeAlphaFrame_write HandshakeAlphaFrame_read ha \<and>
    boxed_received HandshakeAlphaAck_SF HANDSHAKE_ALPHA_ACK_SIZE HandshakeAlphaAckFrame_write HandshakeAlphaAckFrame_read haa \<and>
    boxed_received HandshakeBeta_SF HANDSHAKE_BETA_SIZE HandshakeBetaFrame_write HandshakeBetaFrame_read hb \<and>
    boxed_received HandshakeBetaAck_SF HANDSHAKE_BETA_ACK_SIZE HandshakeBetaAckFrame_write HandshakeBetaAckFrame_read hba \<and>
    boxed_received StreamSync_SF STREAM_SYNC_SIZE StreamSync_write StreamSync_read sync \<and>
    (HANDSHAKE_ALPHA_SIZE + FRAME_OVERHEAD_SIZE \<le> frame_size_max \<longrightarrow>
       (\<exists>frame. write_handshake_alpha ha frame_size_max = Some frame \<and>
          length frame = min frame_size_max HANDSHAKE_ALPHA_FRAME_SIZE_MAX \<and>
          verify_minimum_size frame \<and> read_type frame = Some (Some HandshakeAlpha) \<and>
          verify_handshake_alpha_size_and_crc frame frame_size_max = Some True \<and>
          (payload frame \<bind>
            SimplePayloadRead_read (Serial_read HANDSHAKE_ALPHA_SIZE HandshakeAlphaFrame_read)) = Some (Some ha)))"
proof -
  note written = handshake_alpha.written_receivedI handshake_alpha_ack.written_receivedI handshake_beta.written_receivedI handshake_beta_ack.written_receivedI
    close.written_receivedI close_ack.written_receivedI stream_sync.written_receivedI
  note boxed = handshake_alpha.boxed_receivedI handshake_alpha_ack.boxed_receivedI handshake_beta.boxed_receivedI
    handshake_beta_ack.boxed_receivedI stream_sync.boxed_receivedI
  show ?thesis
    using write_handshake_alpha_received [of frame_size_max ha]
    by (intro conjI impI written boxed)
      (simp_all add: simple_frame_defs serial_consts)
qed

theorem simple_frames_roundtrip_witness:
  "written_received HandshakeBetaAck_SF HANDSHAKE_BETA_ACK_SIZE HandshakeBetaAckFrame_write
       HandshakeBetaAckFrame_read \<lparr>hba_error = None, hba_client_nonce = 3\<rparr> (replicate 10 0) \<and>
   written_received Close_SF CLOSE_SIZE CloseFrame_write CloseFrame_read \<lparr>cl_remote_nonce = 7\<rparr>
       (replicate 10 0) \<and>
   (\<exists>frame. write_handshake_alpha \<lparr>ha_protocol_id = PROTOCOL_ID, ha_client_nonce = 5\<rparr> 40 = Some frame \<and>
     length frame = 40)"
  using simple_frames_roundtrip [of "replicate 10 0" "\<lparr>ha_protocol_id = PROTOCOL_ID, ha_client_nonce = 5\<rparr>"
      "\<lparr>haa_server_params = \<lparr>packet_size_in_max = 1, packet_size_out_max = 2\<rparr>, haa_client_nonce = 3,
        haa_server_nonce = 4, haa_server_timestamp = 5, haa_server_mac = 6\<rparr>"
      "\<lparr>hb_client_params = \<lparr>packet_size_in_max = 1, packet_size_out_max = 2\<rparr>, hb_client_nonce = 3,
        hb_server_nonce = 4, hb_server_timestamp = 5, hb_server_mac = 6\<rparr>"
      "\<lparr>hba_error = None, hba_client_nonce = 3\<rparr>"
      "\<lparr>cl_remote_nonce = 7\<rparr>" "\<lparr>cla_remote_nonce = 8\<rparr>" "\<lparr>ss_next_segment_id = 9\<rparr>" 40]
  by (simp add: serial_consts) blast

section \<open>Safety of parsing\<close>

text \<open>
  A parser is safe on an input if it does not abort and what it says it consumed is not
  empty and inside the input.
\<close>

definition parses_safely :: "(bytes \<Rightarrow> ('a \<times> nat) option rust) \<Rightarrow> bytes \<Rightarrow> bool" where
  "parses_safely A_read buf =
     (case A_read buf of
        None \<Rightarrow> False
      | Some None \<Rightarrow> True
      | Some (Some (_, n)) \<Rightarrow> 0 < n \<and> n \<le> length buf)"

context serial
begin

lemma parses_safely_sread: "parses_safely sread buf"
  using sread_total [of buf] by (auto simp: parses_safely_def)

end

text \<open>
  C33: every parser of the wire format is safe on every byte string, so the raw-pointer
  reads of the unsafe code stay inside the received buffer.
\<close>

theorem parsers_safe:
  "parses_safely (Serial_read HANDSHAKE_ALPHA_SIZE HandshakeAlphaFrame_read) buf \<and>
   parses_safely (Serial_read HANDSHAKE_ALPHA_ACK_SIZE HandshakeAlphaAckFrame_read) buf \<and>
   parses_safely (Serial_read HANDSHAKE_BETA_SIZE HandshakeBetaFrame_read) buf \<and>
   parses_safely (Serial_read HANDSHAKE_BETA_ACK_SIZE HandshakeBetaAckFrame_read) buf \<and>
   parses_safely (Serial_read CLOSE_SIZE CloseFrame_read) buf \<and>
   parses_safely (Serial_read CLOSE_ACK_SIZE CloseAckFrame_read) buf \<and>
   parses_safely (Serial_read STREAM_SEGMENT_HEADER_SIZE StreamSegmentHeader_read) buf \<and>
   parses_safely (Serial_read STREAM_ACK_SIZE StreamAck_read) buf \<and>
   parses_safely (Serial_read STREAM_SYNC_SIZE StreamSync_read) buf \<and>
   parses_safely Datagram_read buf"
  by (intro conjI handshake_alpha.parses_safely_sread handshake_alpha_ack.parses_safely_sread
      handshake_beta.parses_safely_sread handshake_beta_ack.parses_safely_sread
      close.parses_safely_sread close_ack.parses_safely_sread
      stream_segment_header.parses_safely_sread stream_ack.parses_safely_sread
      stream_sync.parses_safely_sread datagram.parses_safely_sread)

section \<open>Corrupted frames\<close>

lemma le_word_le_bytes: "le_word (le_bytes v) = v"
proof (rule bit_word_eqI)
  fix n
  assume "n < LENGTH(32)"
  then show "bit (le_word (le_bytes v)) n = bit v n"
    by (auto simp: le_bytes_def bit_xor_iff bit_push_bit_iff bit_ucast_iff bit_drop_bit_eq)
qed

lemma le_bytes_from_le_bytes: "length bs = 4 \<Longrightarrow> le_bytes (from_le_bytes bs) = bs"
proof -
  assume "length bs = 4"
  then obtain a b c d where bs: "bs = [a, b, c, d]"
    by (auto simp: length_Suc_conv eval_nat_numeral)
  have "le_word bs = from_le_bytes bs"
    unfolding bs
    by (rule bit_word_eqI)
      (auto simp: from_le_bytes_def bit_xor_iff bit_or_iff bit_push_bit_iff bit_ucast_iff
        dest: bit_imp_le_length)
  then have "le_word (le_bytes (from_le_bytes bs)) = le_word bs"
    by (simp add: le_word_le_bytes)
  then show ?thesis
    using \<open>length bs = 4\<close> by (simp add: le_word_inject)
qed

text \<open>A frame passes \<open>verify_crc\<close> exactly if running the register over all of it gives one value.\<close>

lemma verify_crc_residue:
  assumes "4 \<le> length buf"
  shows "verify_crc buf = Some (extend_slow_loop (NOT 0) buf = crc_bit_steps 32 (NOT 0))"
proof -
  let ?data = "take (length buf - 4) buf" and ?tail = "drop (length buf - 4) buf"
  let ?v = "from_le_bytes ?tail"
  have tail: "length ?tail = 4" "?tail = le_bytes ?v"
    using assms by (simp_all add: le_bytes_from_le_bytes)
  have "extend_slow_loop (NOT 0) buf = extend_slow_loop (NOT (compute ?data)) ?tail"
    by (simp add: compute_def INITIAL_CRC_def extend_eq_slow_loop flip: extend_slow_loop_append)
  also have "\<dots> = crc_bit_steps 32 (NOT (compute ?data) XOR ?v)"
    using tail by (simp add: extend_slow_loop_le_word) (metis le_word_le_bytes)
  finally have "extend_slow_loop (NOT 0) buf = crc_bit_steps 32 (NOT 0) \<longleftrightarrow>
      NOT (compute ?data) XOR ?v = NOT 0"
    by (simp add: crc_bit_steps_inject)
  also have "\<dots> \<longleftrightarrow> compute ?data = ?v"
    by (metis bit.double_compl word_not_xor word_xor_inject(2) xor_self_eq)
  finally show ?thesis
    using assms by (simp add: verify_crc_def CRC_SIZE_def Let_def)
qed

text \<open>
  C34: a frame that passes the checksum test no longer passes it after any change confined
  to four consecutive bytes, wherever they are, the checksum field included.
\<close>

theorem verify_crc_rejects_burst:
  assumes "verify_crc (xs @ es @ ys) = Some True"
    and "length es' = length es" and "length es \<le> 4" and "es' \<noteq> es"
  shows "verify_crc (xs @ es' @ ys) = Some False"
proof -
  have len: "4 \<le> length (xs @ es @ ys)"
    using assms(1) by (auto simp: verify_crc_def CRC_SIZE_def rust_assert_def split: if_splits)
  have "extend_slow_loop r es' \<noteq> extend_slow_loop r es" for r
    using assms by (simp add: extend_slow_loop_le_word crc_bit_steps_inject le_word_inject)
  then have "extend_slow_loop (NOT 0) (xs @ es' @ ys) \<noteq> extend_slow_loop (NOT 0) (xs @ es @ ys)"
    by (simp add: extend_slow_loop_append extend_slow_loop_inject)
  with assms len show ?thesis
    using verify_crc_residue [of "xs @ es @ ys"] verify_crc_residue [of "xs @ es' @ ys"] by simp
qed

theorem verify_crc_rejects_burst_witness:
  "verify_crc ([] @ finished_frame [4, 0] @ []) = Some True \<and>
   verify_crc (([] @ [5] @ drop 1 (finished_frame [4, 0]))) = Some False"
proof -
  have frame: "finished_frame [4, 0] = [4] @ drop 1 (finished_frame [4, 0])"
    by (simp add: finished_frame_def)
  have ok: "verify_crc ([] @ [4] @ drop 1 (finished_frame [4, 0])) = Some True"
    using finished_frame_checks(1) [of "[4, 0]"] frame by simp
  show ?thesis
    using verify_crc_rejects_burst [OF ok, of "[5]"] finished_frame_checks(1) [of "[4, 0]"] by simp
qed

end
