(* ===== verification/Prio.thy ===== *)
theory Prio
  imports Redpine_Prelude
begin

text \<open>
  Channel prioritisation (\<^verbatim>\<open>src/endpoint/prio.rs\<close>): weighted counters decide which
  channel may put its next fragment into a segment. Every product the code forms is shown
  to stay below \<open>2 ^ 32\<close>, and two channels that both have data share the stream in
  proportion to their weights.
\<close>

section \<open>Configuration\<close>

definition CHANNEL_COUNT :: nat where "CHANNEL_COUNT = 4"
definition DATA_SIZE_MAX :: nat where "DATA_SIZE_MAX = 65535"
definition BURST_SIZE_MAX :: nat where "BURST_SIZE_MAX = DATA_SIZE_MAX * 255"
definition WEIGHT_MAX :: u32 where "WEIGHT_MAX = 256"

record PrioConfig =
  pc_weights :: "u32 list"
  pc_counter_max :: u32

definition prio_Config_new :: "u32 list \<Rightarrow> nat \<Rightarrow> PrioConfig rust" where
  "prio_Config_new weights burst_size = do {
     rust_assert (length weights = CHANNEL_COUNT);
     rust_assert (\<forall>w \<in> set weights. w \<noteq> 0 \<and> w \<le> WEIGHT_MAX);
     rust_assert (weights ! 0 * weights ! 1 * weights ! 2 \<le> WEIGHT_MAX div weights ! 3);
     rust_assert (burst_size \<noteq> 0);
     rust_assert (burst_size \<le> BURST_SIZE_MAX);
     let transformed_weights =
       [weights ! 1 * weights ! 2 * weights ! 3, weights ! 0 * weights ! 2 * weights ! 3,
        weights ! 0 * weights ! 1 * weights ! 3, weights ! 0 * weights ! 1 * weights ! 2];
     let total_product = weights ! 0 * weights ! 1 * weights ! 2 * weights ! 3;
     let counter_max = word_of_nat burst_size * total_product;
     Some \<lparr>pc_weights = transformed_weights, pc_counter_max = counter_max\<rparr> }"

section \<open>The scheduler\<close>

record Prio =
  pr_counters :: "u32 list"
  pr_weights :: "u32 list"
  pr_counter_max :: u32

definition Prio_new :: "PrioConfig \<Rightarrow> Prio" where
  "Prio_new config = \<lparr>pr_counters = [0, 0, 0, 0], pr_weights = pc_weights config,
     pr_counter_max = pc_counter_max config\<rparr>"

definition Prio_next :: "Prio \<Rightarrow> bool \<Rightarrow> bool \<Rightarrow> bool \<Rightarrow> bool \<Rightarrow> u8 option" where
  "Prio_next p ch0 ch1 ch2 ch3 =
     (let min_chan = None; min_val = 0; set = False;
          (min_chan, min_val, set) =
            (if ch0 \<and> (\<not> set \<or> pr_counters p ! 0 < min_val)
             then (Some 0, pr_counters p ! 0, True) else (min_chan, min_val, set));
          (min_chan, min_val, set) =
            (if ch1 \<and> (\<not> set \<or> pr_counters p ! 1 < min_val)
             then (Some 1, pr_counters p ! 1, True) else (min_chan, min_val, set));
          (min_chan, min_val, set) =
            (if ch2 \<and> (\<not> set \<or> pr_counters p ! 2 < min_val)
             then (Some 2, pr_counters p ! 2, True) else (min_chan, min_val, set))
      in if ch3 \<and> (\<not> set \<or> pr_counters p ! 3 < min_val) then Some 3 else min_chan)"

definition Prio_mark_sent :: "Prio \<Rightarrow> u8 \<Rightarrow> nat \<Rightarrow> Prio rust" where
  "Prio_mark_sent p channel_idx data_size =
     (if unat channel_idx < length (pr_weights p) \<and> unat channel_idx < length (pr_counters p) then
        let weight = pr_weights p ! unat channel_idx;
            weighted_size = word_of_nat data_size * weight;
            counter = pr_counters p ! unat channel_idx + weighted_size;
            p = p\<lparr>pr_counters := (pr_counters p)[unat channel_idx := counter]\<rparr>
        in if counter > pr_counter_max p
           then let excess = counter - pr_counter_max p
                in Some (p\<lparr>pr_counters := map (\<lambda>c. saturating_sub c excess) (pr_counters p)\<rparr>)
           else Some p
      else None)"

section \<open>No product overflows\<close>

text \<open>The weights of an accepted configuration, as numbers.\<close>

definition weight_product :: "u32 list \<Rightarrow> nat" where
  "weight_product weights =
     unat (weights ! 0) * unat (weights ! 1) * unat (weights ! 2) * unat (weights ! 3)"

lemma unat_mult_bound:
  assumes "unat a * unat b < 4294967296"
  shows "unat (a * b :: u32) = unat a * unat b"
  using assms by (simp add: unat_mult_lem [THEN iffD1])

lemma weights_product_bound:
  fixes a b c d :: u32
  assumes "a \<noteq> 0" "b \<noteq> 0" "c \<noteq> 0" "d \<noteq> 0" "a \<le> 256" "b \<le> 256" "c \<le> 256" "d \<le> 256"
    and "a * b * c \<le> 256 div d"
  shows "unat a * unat b * unat c * unat d \<le> 256"
proof -
  have le: "unat a \<le> 256" "unat b \<le> 256" "unat c \<le> 256" "unat d \<le> 256"
    using assms by (simp_all add: word_le_nat_alt)
  then have ab: "unat a * unat b \<le> 256 * 256"
    by (intro mult_le_mono)
  then have abc: "unat a * unat b * unat c \<le> 256 * 256 * 256"
    using le by (intro mult_le_mono)
  have "unat (a * b * c) = unat a * unat b * unat c"
    using ab abc by (simp add: unat_mult_bound)
  then have "unat a * unat b * unat c \<le> 256 div unat d"
    using assms(9) by (simp add: word_le_nat_alt unat_div)
  then have "unat a * unat b * unat c * unat d \<le> 256 div unat d * unat d"
    by (rule mult_le_mono1)
  also have "\<dots> \<le> 256"
    by (rule div_times_less_eq_dividend)
  finally show ?thesis .
qed

lemma unat_mult3_bound:
  fixes a b c :: u32
  assumes "unat a * unat b * unat c \<le> 256" and "c \<noteq> 0"
  shows "unat (a * b * c) = unat a * unat b * unat c"
proof -
  have "0 < unat c"
    using assms(2) by (simp add: unat_gt_0)
  then have "unat a * unat b \<le> 256"
    using assms(1) by (metis One_nat_def Suc_leI le_trans mult.right_neutral mult_le_mono2)
  then show ?thesis
    using assms(1) by (simp add: unat_mult_bound)
qed

lemma prio_Config_new_exact:
  assumes "prio_Config_new ws burst = Some c"
  shows "\<forall>i < 4. unat (pc_weights c ! i) * unat (ws ! i) = weight_product ws"
    and "unat (pc_counter_max c) = burst * weight_product ws"
    and "1 \<le> weight_product ws" "weight_product ws \<le> 256" "length (pc_weights c) = 4"
    and "1 \<le> burst" "burst \<le> BURST_SIZE_MAX"
proof -
  obtain a b d e where ws: "ws = [a, b, d, e]"
    using assms by (auto simp: prio_Config_new_def CHANNEL_COUNT_def eval_nat_numeral length_Suc_conv)
  have nz: "a \<noteq> 0" "b \<noteq> 0" "d \<noteq> 0" "e \<noteq> 0"
    and prod: "unat a * unat b * unat d * unat e \<le> 256"
    using assms weights_product_bound [of a b d e]
    by (auto simp: prio_Config_new_def ws WEIGHT_MAX_def Let_def)
  have pos: "0 < unat a" "0 < unat b" "0 < unat d" "0 < unat e"
    using nz by (simp_all add: unat_gt_0)
  have burst: "1 \<le> burst" "burst \<le> BURST_SIZE_MAX"
    using assms by (auto simp: prio_Config_new_def)
  have c: "pc_weights c = [b * d * e, a * d * e, a * b * e, a * b * d]"
      "pc_counter_max c = word_of_nat burst * (a * b * d * e)"
    using assms by (auto simp: prio_Config_new_def ws Let_def)
  have drop1: "x \<le> 256" if "x * y \<le> 256" "0 < y" for x y :: nat
    using that by (metis One_nat_def Suc_leI le_trans mult.right_neutral mult_le_mono2)
  have w: "unat (b * d * e) = unat b * unat d * unat e" "unat (a * d * e) = unat a * unat d * unat e"
    "unat (a * b * e) = unat a * unat b * unat e" "unat (a * b * d) = unat a * unat b * unat d"
    by (rule unat_mult3_bound; (rule nz)?; rule drop1 [of _ "unat a"] drop1 [of _ "unat b"]
        drop1 [of _ "unat d"] drop1 [of _ "unat e"]; use prod pos in \<open>simp add: ac_simps\<close>)+
  have tot: "unat (a * b * d * e) = unat a * unat b * unat d * unat e"
    using w(4) prod by (simp add: unat_mult_bound)
  have "burst * (unat a * unat b * unat d * unat e) \<le> BURST_SIZE_MAX * 256"
    using burst(2) prod by (rule mult_le_mono)
  moreover have "unat (word_of_nat burst :: u32) = burst"
    using burst(2) by (simp add: unat_of_nat BURST_SIZE_MAX_def DATA_SIZE_MAX_def)
  ultimately show "unat (pc_counter_max c) = burst * weight_product ws"
    using tot by (simp add: c ws weight_product_def unat_mult_bound BURST_SIZE_MAX_def DATA_SIZE_MAX_def)
  show "\<forall>i < 4. unat (pc_weights c ! i) * unat (ws ! i) = weight_product ws"
    by (simp add: All_less_Suc eval_nat_numeral c ws w weight_product_def)
  show "1 \<le> weight_product ws" "weight_product ws \<le> 256" "length (pc_weights c) = 4" "1 \<le> burst"
    "burst \<le> BURST_SIZE_MAX"
    using prod pos burst by (simp_all add: ws weight_product_def c)
qed

section \<open>Invariant\<close>

definition prio_inv :: "Prio \<Rightarrow> bool" where
  "prio_inv p \<longleftrightarrow>
     length (pr_counters p) = 4 \<and> length (pr_weights p) = 4 \<and>
     (\<forall>w \<in> set (pr_weights p). unat w \<le> 256) \<and>
     unat (pr_counter_max p) \<le> BURST_SIZE_MAX * 256 \<and>
     (\<forall>c \<in> set (pr_counters p). c \<le> pr_counter_max p)"

lemma Prio_new_inv:
  assumes "prio_Config_new ws burst = Some c"
  shows "prio_inv (Prio_new c)"
proof -
  note exact = prio_Config_new_exact [OF assms]
  have "unat w \<le> 256" if "w \<in> set (pc_weights c)" for w
  proof -
    obtain i where "i < 4" "w = pc_weights c ! i"
      using \<open>w \<in> set (pc_weights c)\<close> exact(5) by (metis in_set_conv_nth)
    with exact(1) have "unat w * unat (ws ! i) = weight_product ws"
      by blast
    with exact(3,4) show ?thesis
      by (metis One_nat_def Suc_leI le_trans less_eq_nat.simps(1) mult.right_neutral mult_0_right mult_le_mono2
          not_less_eq_eq not_gr0)
  qed
  moreover have "burst * weight_product ws \<le> BURST_SIZE_MAX * 256"
    using exact(4,7) by (intro mult_le_mono)
  ultimately show ?thesis
    by (simp add: prio_inv_def Prio_new_def exact)
qed

text \<open>
  The effect of \<^verbatim>\<open>mark_sent\<close> on numbers: the counter of the channel grows by the weighted
  size, and what exceeds the maximum is taken off every counter.
\<close>

lemma Prio_mark_sent_value:
  assumes inv: "prio_inv p" and i: "unat i < 4" and size: "sz \<le> DATA_SIZE_MAX"
  defines "c' \<equiv> unat (pr_counters p ! unat i) + sz * unat (pr_weights p ! unat i)"
  shows "\<exists>p'. Prio_mark_sent p i sz = Some p' \<and> prio_inv p' \<and>
    pr_weights p' = pr_weights p \<and> pr_counter_max p' = pr_counter_max p \<and>
    (\<forall>j < 4. unat (pr_counters p' ! j) =
      (if j = unat i then c' else unat (pr_counters p ! j)) - (c' - unat (pr_counter_max p)))"
proof -
  let ?w = "pr_weights p ! unat i" and ?c = "pr_counters p ! unat i" and ?m = "pr_counter_max p"
  have w: "unat ?w \<le> 256" and c: "unat ?c \<le> unat ?m" and m: "unat ?m \<le> BURST_SIZE_MAX * 256"
    and len: "length (pr_counters p) = 4" "length (pr_weights p) = 4"
    using inv i by (auto simp: prio_inv_def word_le_nat_alt)
  have "sz * unat ?w \<le> 65535 * 256"
    using w size by (intro mult_le_mono) (simp_all add: DATA_SIZE_MAX_def)
  moreover have "unat (word_of_nat sz :: u32) = sz"
    using size by (simp add: unat_of_nat DATA_SIZE_MAX_def)
  ultimately have "unat (word_of_nat sz * ?w) = sz * unat ?w"
    by (simp add: unat_mult_bound)
  moreover have "c' < 2 ^ 32"
    using c m \<open>sz * unat ?w \<le> 65535 * 256\<close> by (simp add: c'_def BURST_SIZE_MAX_def DATA_SIZE_MAX_def)
  ultimately have new: "unat (?c + word_of_nat sz * ?w) = c'"
    by (simp add: c'_def unat_add_lem [THEN iffD1])
  let ?n = "?c + word_of_nat sz * ?w"
  have mark: "Prio_mark_sent p i sz = Some (if ?m < ?n
      then p\<lparr>pr_counters := map (\<lambda>x. saturating_sub x (?n - ?m)) ((pr_counters p)[unat i := ?n])\<rparr>
      else p\<lparr>pr_counters := (pr_counters p)[unat i := ?n]\<rparr>)"
    using i len by (simp add: Prio_mark_sent_def Let_def)
  have bound: "\<forall>x \<in> set (pr_counters p). unat x \<le> unat ?m"
    using inv by (simp add: prio_inv_def word_le_nat_alt)
  show ?thesis
  proof (cases "?m < ?n")
    case True
    then have ex: "unat (?n - ?m) = c' - unat ?m"
      using new by (simp add: unat_sub)
    have "\<forall>x \<in> set ((pr_counters p)[unat i := ?n]). unat x - (c' - unat ?m) \<le> unat ?m"
      using bound new by (auto dest!: set_update_subset_insert [THEN subsetD] simp: le_diff_conv trans_le_add1)
    then show ?thesis
      using True inv i len new ex mark
      by (auto simp: prio_inv_def word_value word_le_nat_alt nth_list_update)
  next
    case False
    then have "c' \<le> unat ?m"
      using new by (simp add: word_le_nat_alt not_less)
    with False inv i len new mark show ?thesis
      by (auto simp: prio_inv_def word_le_nat_alt nth_list_update
          dest!: set_update_subset_insert [THEN subsetD])
  qed
qed

section \<open>The choice of a channel\<close>

text \<open>
  \<^verbatim>\<open>next\<close> returns no channel exactly if none is ready, and otherwise the ready
  channel with the smallest counter, the first of them where counters are equal.
\<close>

lemma Prio_next_minimal:
  "(case Prio_next p a b c d of
      None \<Rightarrow> \<not> a \<and> \<not> b \<and> \<not> c \<and> \<not> d
    | Some i \<Rightarrow> unat i < 4 \<and> [a, b, c, d] ! unat i \<and>
        (\<forall>j < 4. [a, b, c, d] ! j \<longrightarrow>
           pr_counters p ! unat i \<le> pr_counters p ! j \<and>
           (j < unat i \<longrightarrow> pr_counters p ! unat i < pr_counters p ! j)))"
proof -
  have "j < 4 \<longleftrightarrow> j = 0 \<or> j = 1 \<or> j = 2 \<or> j = 3" for j :: nat
    by arith
  then show ?thesis
    by (cases a; cases b; cases c; cases d)
      (simp_all add: Prio_next_def word_less_nat_alt word_le_nat_alt split: if_split)
qed

section \<open>Counters stay bounded\<close>

fun prio_marks :: "(u8 \<times> nat) list \<Rightarrow> Prio \<Rightarrow> Prio rust" where
  "prio_marks [] p = Some p"
| "prio_marks ((i, sz) # xs) p = Prio_mark_sent p i sz \<bind> prio_marks xs"

lemma prio_marks_inv:
  "prio_inv p \<Longrightarrow> \<forall>(i, sz) \<in> set xs. unat i < 4 \<and> sz \<le> DATA_SIZE_MAX \<Longrightarrow>
    \<exists>p'. prio_marks xs p = Some p' \<and> prio_inv p' \<and> pr_counter_max p' = pr_counter_max p"
proof (induction xs arbitrary: p)
  case (Cons x xs)
  obtain i sz where x: "x = (i, sz)" by fastforce
  then obtain p1 where "Prio_mark_sent p i sz = Some p1" "prio_inv p1" "pr_counter_max p1 = pr_counter_max p"
    using Prio_mark_sent_value [OF Cons.prems(1), of i sz] Cons.prems(2) by auto
  with Cons.IH [of p1] Cons.prems(2) x show ?case by auto
qed simp

text \<open>
  For every accepted configuration, no sequence of transmissions makes a counter wrap:
  after each of them every counter is at most the burst size times the product of the
  weights, which the 32-bit \<^verbatim>\<open>counter_max\<close> represents exactly.
\<close>

lemma prio_counters_bounded:
  assumes "prio_Config_new ws burst = Some c"
    and "\<forall>(i, sz) \<in> set xs. unat i < 4 \<and> sz \<le> DATA_SIZE_MAX"
  shows "\<exists>p'. prio_marks xs (Prio_new c) = Some p' \<and> unat (pr_counter_max p') = burst * weight_product ws \<and>
    (\<forall>x \<in> set (pr_counters p'). unat x \<le> burst * weight_product ws)"
proof -
  obtain p' where p': "prio_marks xs (Prio_new c) = Some p'" "prio_inv p'"
      "pr_counter_max p' = pr_counter_max (Prio_new c)"
    using prio_marks_inv [OF Prio_new_inv [OF assms(1)] assms(2)] by blast
  moreover have "unat (pr_counter_max p') = burst * weight_product ws"
    using p'(3) prio_Config_new_exact(2) [OF assms(1)] by (simp add: Prio_new_def)
  ultimately show ?thesis
    by (auto simp: prio_inv_def word_le_nat_alt)
qed

lemma demo_config:
  "prio_Config_new [4, 2, 1, 1] 10000 = Some \<lparr>pc_weights = [2, 4, 8, 8], pc_counter_max = 80000\<rparr>"
  by (simp add: prio_Config_new_def CHANNEL_COUNT_def WEIGHT_MAX_def BURST_SIZE_MAX_def DATA_SIZE_MAX_def)

lemma demo_counters_bounded:
  "\<exists>p'. prio_marks [(0, 65535), (1, 7)] (Prio_new \<lparr>pc_weights = [2, 4, 8, 8], pc_counter_max = 80000\<rparr>) = Some p' \<and>
    (\<forall>x \<in> set (pr_counters p'). unat x \<le> 80000)"
  using prio_counters_bounded [OF demo_config, of "[(0, 65535), (1, 7)]"]
  by (auto simp: DATA_SIZE_MAX_def weight_product_def)

section \<open>Fairness\<close>

text \<open>
  A period in which the first two channels, the ones in use, always have data: each fragment
  size in turn goes to the channel that \<^verbatim>\<open>next\<close> picks. \<open>sent0\<close> and \<open>sent1\<close> count bytes.
\<close>

fun prio_busy :: "nat list \<Rightarrow> Prio \<Rightarrow> nat \<Rightarrow> nat \<Rightarrow> (Prio \<times> nat \<times> nat) rust" where
  "prio_busy [] p sent0 sent1 = Some (p, sent0, sent1)"
| "prio_busy (sz # xs) p sent0 sent1 =
     (case Prio_next p True True False False of
        None \<Rightarrow> None
      | Some i \<Rightarrow> Prio_mark_sent p i sz \<bind>
          (\<lambda>p. if i = 0 then prio_busy xs p (sent0 + sz) sent1 else prio_busy xs p sent0 (sent1 + sz)))"

definition fair_inv :: "nat \<Rightarrow> Prio \<Rightarrow> nat \<Rightarrow> nat \<Rightarrow> bool" where
  "fair_inv D p sent0 sent1 \<longleftrightarrow>
     prio_inv p \<and>
     (\<exists>off. unat (pr_counters p ! 0) + off = sent0 * unat (pr_weights p ! 0) \<and>
            unat (pr_counters p ! 1) + off = sent1 * unat (pr_weights p ! 1)) \<and>
     unat (pr_counters p ! 0) \<le> unat (pr_counters p ! 1) + D \<and>
     unat (pr_counters p ! 1) \<le> unat (pr_counters p ! 0) + D"

lemma fair_step:
  fixes a b m s D :: nat
  assumes "a \<le> b" "b \<le> a + D" "s \<le> D" "2 * D \<le> m" "a \<le> m" "b \<le> m"
  defines "ex \<equiv> a + s - m"
  shows "ex \<le> b" "ex \<le> a + s" "a + s - ex \<le> b - ex + D" "b - ex \<le> a + s - ex + D"
  using assms by (auto simp: ex_def)

lemma prio_busy_fair:
  assumes "fair_inv D p sent0 sent1" and "\<forall>sz \<in> set xs. sz \<le> S" and "S \<le> DATA_SIZE_MAX"
    and "S * unat (pr_weights p ! 0) \<le> D" and "S * unat (pr_weights p ! 1) \<le> D"
    and "2 * D \<le> unat (pr_counter_max p)"
  shows "\<exists>p' n0 n1. prio_busy xs p sent0 sent1 = Some (p', n0, n1) \<and> fair_inv D p' n0 n1 \<and>
    pr_weights p' = pr_weights p \<and> n0 + n1 = sent0 + sent1 + sum_list xs"
  using assms
proof (induction xs arbitrary: p sent0 sent1)
  case (Cons sz xs)
  let ?c0 = "unat (pr_counters p ! 0)" and ?c1 = "unat (pr_counters p ! 1)"
  have inv: "prio_inv p" and cmax: "?c0 \<le> unat (pr_counter_max p)" "?c1 \<le> unat (pr_counter_max p)"
    using Cons.prems(1) by (auto simp: fair_inv_def prio_inv_def word_le_nat_alt)
  from Cons.prems(1) obtain off where off: "?c0 + off = sent0 * unat (pr_weights p ! 0)"
      "?c1 + off = sent1 * unat (pr_weights p ! 1)"
    by (auto simp: fair_inv_def)
  have size: "sz \<le> DATA_SIZE_MAX" "sz * unat (pr_weights p ! 0) \<le> D" "sz * unat (pr_weights p ! 1) \<le> D"
    using Cons.prems(2-5) by (auto intro: le_trans [OF mult_le_mono1])
  define i :: u8 where "i = (if ?c1 < ?c0 then 1 else 0)"
  have nxt: "Prio_next p True True False False = Some i"
    by (simp add: Prio_next_def word_less_nat_alt i_def)
  have i4: "unat i < 4" by (simp add: i_def)
  obtain p1 where p1: "Prio_mark_sent p i sz = Some p1" "prio_inv p1" "pr_weights p1 = pr_weights p"
      "pr_counter_max p1 = pr_counter_max p"
    and cnt: "\<forall>j < 4. unat (pr_counters p1 ! j) =
      (if j = unat i then unat (pr_counters p ! unat i) + sz * unat (pr_weights p ! unat i) else unat (pr_counters p ! j))
        - (unat (pr_counters p ! unat i) + sz * unat (pr_weights p ! unat i) - unat (pr_counter_max p))"
    using Prio_mark_sent_value [OF inv i4 size(1)] by blast
  define n0 n1 where "n0 = (if i = 0 then sent0 + sz else sent0)" and "n1 = (if i = 0 then sent1 else sent1 + sz)"
  define ex where
    "ex = unat (pr_counters p ! unat i) + sz * unat (pr_weights p ! unat i) - unat (pr_counter_max p)"
  have "fair_inv D p1 n0 n1"
  proof (cases "?c1 < ?c0")
    case True
    then have c: "unat (pr_counters p1 ! 0) = ?c0 - ex" "unat (pr_counters p1 ! 1) = ?c1 + sz * unat (pr_weights p ! 1) - ex"
      and ex: "ex = ?c1 + sz * unat (pr_weights p ! 1) - unat (pr_counter_max p)"
      using cnt by (simp_all add: i_def ex_def)
    from True Cons.prems(1) have "?c1 \<le> ?c0" "?c0 \<le> ?c1 + D"
      by (simp_all add: fair_inv_def)
    note step = fair_step [OF this size(3) Cons.prems(6) cmax(2,1), folded ex]
    have "unat (pr_counters p1 ! 0) + (off + ex) = n0 * unat (pr_weights p ! 0)"
      "unat (pr_counters p1 ! 1) + (off + ex) = n1 * unat (pr_weights p ! 1)"
      using True off step(1,2) unfolding c by (simp_all add: n0_def n1_def i_def distrib_right)
    with step(3,4) p1(2,3) show ?thesis
      unfolding fair_inv_def c by auto
  next
    case False
    then have c: "unat (pr_counters p1 ! 1) = ?c1 - ex" "unat (pr_counters p1 ! 0) = ?c0 + sz * unat (pr_weights p ! 0) - ex"
      and ex: "ex = ?c0 + sz * unat (pr_weights p ! 0) - unat (pr_counter_max p)"
      using cnt by (simp_all add: i_def ex_def)
    from False Cons.prems(1) have "?c0 \<le> ?c1" "?c1 \<le> ?c0 + D"
      by (simp_all add: fair_inv_def)
    note step = fair_step [OF this size(2) Cons.prems(6) cmax, folded ex]
    have "unat (pr_counters p1 ! 0) + (off + ex) = n0 * unat (pr_weights p ! 0)"
      "unat (pr_counters p1 ! 1) + (off + ex) = n1 * unat (pr_weights p ! 1)"
      using False off step(1,2) unfolding c by (simp_all add: n0_def n1_def i_def distrib_right)
    with step(3,4) p1(2,3) show ?thesis
      unfolding fair_inv_def c by auto
  qed
  moreover have "prio_busy (sz # xs) p sent0 sent1 = prio_busy xs p1 n0 n1"
    using nxt p1(1) by (simp add: n0_def n1_def)
  moreover have "n0 + n1 = sent0 + sent1 + sz"
    by (simp add: n0_def n1_def)
  ultimately show ?case
    using Cons.IH [of p1 n0 n1] Cons.prems(2-6) p1(3,4) by (auto simp: algebra_simps)
qed simp

text \<open>
  C28: while the unreliable and the reliable channel both have data, the bytes they send are
  in proportion to their weights: the weighted byte counts never differ by more than one
  fragment of the largest size, however long the period and however often the counters are
  cut back to their maximum, provided a burst holds two fragments.
\<close>

theorem prio_weighted_fairness:
  assumes cfg: "prio_Config_new [u, r, 1, 1] burst = Some c"
    and sizes: "\<forall>sz \<in> set xs. sz \<le> S" "S \<le> DATA_SIZE_MAX" and burst: "2 * S \<le> burst"
  shows "\<exists>p' n0 n1. prio_busy xs (Prio_new c) 0 0 = Some (p', n0, n1) \<and> n0 + n1 = sum_list xs \<and>
    n0 * unat r \<le> n1 * unat u + S * max (unat u) (unat r) \<and>
    n1 * unat u \<le> n0 * unat r + S * max (unat u) (unat r)"
proof -
  note exact = prio_Config_new_exact [OF cfg]
  have pos: "1 \<le> unat u" "1 \<le> unat r" and wp: "weight_product [u, r, 1, 1] = unat u * unat r"
    using exact(3) by (auto simp: weight_product_def Suc_le_eq)
  have "unat (pc_weights c ! 0) * unat u = unat r * unat u" "unat (pc_weights c ! 1) * unat r = unat u * unat r"
    using exact(1) [rule_format, of 0] exact(1) [rule_format, of 1] wp by (simp_all add: ac_simps)
  then have w: "unat (pc_weights c ! 0) = unat r" "unat (pc_weights c ! 1) = unat u"
    using pos by simp_all
  let ?D = "S * max (unat u) (unat r)"
  have "max (unat u) (unat r) \<le> unat u * unat r"
    using pos by (auto simp: max_def)
  then have "2 * S * max (unat u) (unat r) \<le> burst * (unat u * unat r)"
    using burst by (intro mult_le_mono)
  then have cm: "2 * ?D \<le> unat (pr_counter_max (Prio_new c))"
    using exact(2) wp by (simp add: Prio_new_def)
  have "fair_inv ?D (Prio_new c) 0 0"
    using Prio_new_inv [OF cfg] by (simp add: fair_inv_def) (simp add: Prio_new_def)
  from prio_busy_fair [OF this sizes _ _ cm] obtain p' n0 n1
    where run: "prio_busy xs (Prio_new c) 0 0 = Some (p', n0, n1)" "fair_inv ?D p' n0 n1"
      "pr_weights p' = pc_weights c" "n0 + n1 = sum_list xs"
    using w by (auto simp: Prio_new_def)
  from run(2,3) w obtain off where "unat (pr_counters p' ! 0) + off = n0 * unat r"
      "unat (pr_counters p' ! 1) + off = n1 * unat u"
      "unat (pr_counters p' ! 0) \<le> unat (pr_counters p' ! 1) + ?D"
      "unat (pr_counters p' ! 1) \<le> unat (pr_counters p' ! 0) + ?D"
    by (auto simp: fair_inv_def)
  then have "n0 * unat r \<le> n1 * unat u + ?D" "n1 * unat u \<le> n0 * unat r + ?D"
    by linarith+
  with run(1,4) show ?thesis
    by blast
qed

theorem prio_weighted_fairness_witness:
  "\<exists>p' n0 n1. prio_busy [1024, 1000, 5, 1024] (Prio_new \<lparr>pc_weights = [2, 4, 8, 8], pc_counter_max = 80000\<rparr>) 0 0 =
      Some (p', n0, n1) \<and> n0 + n1 = 3053 \<and> n0 * 2 \<le> n1 * 4 + 4096 \<and> n1 * 4 \<le> n0 * 2 + 4096"
  using prio_weighted_fairness [OF demo_config, of "[1024, 1000, 5, 1024]" 1024]
  by (simp add: DATA_SIZE_MAX_def del: prio_busy.simps)

end
