(* ===== verification/Cc.thy ===== *)
theory Cc
  imports Redpine_Prelude
begin

text \<open>
  Congestion control (\<^verbatim>\<open>src/endpoint/cc.rs\<close>): TCP-Reno-like additive increase and
  multiplicative decrease in 48.16 fixed-point arithmetic on 64-bit words.
\<close>

section \<open>State and operations\<close>

definition INITIAL_CWND_MSS :: u64 where "INITIAL_CWND_MSS = 10"

text \<open>The largest \<^verbatim>\<open>usize\<close> of a 64-bit target.\<close>

definition USIZE_MAX :: nat where "USIZE_MAX = 18446744073709551615"

datatype Mode =
    UnboundedSlowStart
  | ThresholdSlowStart u64
  | CongestionAvoidance

record AimdReno =
  cc_mode :: Mode
  cc_mss_q16 :: u64
  cc_cwnd_q16 :: u64
  cc_dropcnt_q16 :: u64

definition AimdReno_new :: "nat \<Rightarrow> AimdReno rust" where
  "AimdReno_new mss = do {
     rust_assert (mss \<le> 65535);
     Some \<lparr>cc_mode = UnboundedSlowStart,
           cc_mss_q16 = push_bit 16 (word_of_nat mss),
           cc_cwnd_q16 = push_bit 16 (INITIAL_CWND_MSS * word_of_nat mss),
           cc_dropcnt_q16 = 0\<rparr> }"

definition cc_handle_ack :: "AimdReno \<Rightarrow> AimdReno rust" where
  "cc_handle_ack cc =
     (let cc = (if cc_dropcnt_q16 cc > cc_mss_q16 cc
                then cc\<lparr>cc_dropcnt_q16 := cc_dropcnt_q16 cc - cc_mss_q16 cc\<rparr>
                else cc\<lparr>cc_dropcnt_q16 := 0\<rparr>)
      in case cc_mode cc of
           UnboundedSlowStart \<Rightarrow>
             Some (cc\<lparr>cc_cwnd_q16 := saturating_add (cc_cwnd_q16 cc) (cc_mss_q16 cc)\<rparr>)
         | ThresholdSlowStart ssthresh \<Rightarrow>
             let new_cwnd_q16 = saturating_add (cc_cwnd_q16 cc) (cc_mss_q16 cc)
             in if new_cwnd_q16 \<ge> ssthresh
                then Some (cc\<lparr>cc_cwnd_q16 := ssthresh, cc_mode := CongestionAvoidance\<rparr>)
                else Some (cc\<lparr>cc_cwnd_q16 := new_cwnd_q16\<rparr>)
         | CongestionAvoidance \<Rightarrow> do {
             let mss_q16 = cc_mss_q16 cc;
             let cwnd_q16 = cc_cwnd_q16 cc;
             rust_assert (cwnd_q16 \<noteq> 0);
             let cwnd_inv_q16 = (mss_q16 * mss_q16 + cwnd_q16 div 2) div cwnd_q16;
             Some (cc\<lparr>cc_cwnd_q16 := saturating_add cwnd_q16 cwnd_inv_q16\<rparr>) })"

definition cc_handle_timeout :: "AimdReno \<Rightarrow> AimdReno" where
  "cc_handle_timeout cc =
     (let cwnd_q16 = cc_cwnd_q16 cc;
          cwnd_min_q16 = INITIAL_CWND_MSS * cc_mss_q16 cc
      in cc\<lparr>cc_cwnd_q16 := cwnd_min_q16, cc_dropcnt_q16 := 0,
            cc_mode := ThresholdSlowStart (max (cwnd_q16 div 2) cwnd_min_q16)\<rparr>)"

definition cc_handle_drop :: "AimdReno \<Rightarrow> AimdReno" where
  "cc_handle_drop cc =
     (let cwnd_q16 = cc_cwnd_q16 cc;
          cwnd_min_q16 = INITIAL_CWND_MSS * cc_mss_q16 cc
      in if cc_dropcnt_q16 cc = 0
         then let new_cwnd_q16 = max (cwnd_q16 div 2) cwnd_min_q16
              in cc\<lparr>cc_cwnd_q16 := new_cwnd_q16, cc_dropcnt_q16 := new_cwnd_q16,
                    cc_mode := CongestionAvoidance\<rparr>
         else cc)"

definition cc_cwnd :: "AimdReno \<Rightarrow> nat" where
  "cc_cwnd cc =
     (let cwnd_int = unat (drop_bit 16 (cc_cwnd_q16 cc))
      in if cwnd_int \<le> USIZE_MAX then cwnd_int else USIZE_MAX)"

section \<open>Invariant\<close>

text \<open>
  \<open>cc_inv m cc\<close>: the segment size is \<open>m\<close>, the window is never below ten segments,
  and slow start stays below its threshold.
\<close>

definition cc_inv :: "nat \<Rightarrow> AimdReno \<Rightarrow> bool" where
  "cc_inv m cc \<longleftrightarrow>
     0 < m \<and> m \<le> 65535 \<and> unat (cc_mss_q16 cc) = m * 65536 \<and>
     10 * (m * 65536) \<le> unat (cc_cwnd_q16 cc) \<and>
     (\<forall>t. cc_mode cc = ThresholdSlowStart t \<longrightarrow> cc_cwnd_q16 cc \<le> t)"

lemma unat_u64_less: "unat (x :: u64) < 18446744073709551616"
  using unsigned_less [of x] by simp

lemma unat_push_q16:
  assumes "n < 281474976710656"
  shows "unat (push_bit 16 (word_of_nat n :: u64)) = n * 65536"
proof -
  have "push_bit 16 (word_of_nat n :: u64) = word_of_nat (n * 65536)"
    by (simp add: push_bit_eq_mult)
  then show ?thesis
    using assms by (simp only: unat_of_nat) simp
qed

lemma AimdReno_new_inv:
  assumes "AimdReno_new m = Some cc" and "0 < m"
  shows "cc_inv m cc"
proof -
  have m: "m \<le> 65535"
    using assms(1) by (simp add: AimdReno_new_def)
  have "unat (push_bit 16 (INITIAL_CWND_MSS * word_of_nat m)) = 10 * m * 65536"
    using unat_push_q16 [of "10 * m"] m by (simp add: INITIAL_CWND_MSS_def)
  moreover have "unat (push_bit 16 (word_of_nat m :: u64)) = m * 65536"
    using unat_push_q16 [of m] m by simp
  ultimately show ?thesis
    using assms m by (auto simp: AimdReno_new_def cc_inv_def)
qed

lemma cwnd_min_value:
  assumes "cc_inv m cc"
  shows "unat (INITIAL_CWND_MSS * cc_mss_q16 cc) = 10 * (m * 65536)"
proof -
  have "unat INITIAL_CWND_MSS * unat (cc_mss_q16 cc) < 2 ^ LENGTH(64)"
    using assms by (simp add: cc_inv_def INITIAL_CWND_MSS_def)
  then have "unat (INITIAL_CWND_MSS * cc_mss_q16 cc) = unat INITIAL_CWND_MSS * unat (cc_mss_q16 cc)"
    by (rule unat_mult_lem [THEN iffD1])
  then show ?thesis
    using assms by (simp add: cc_inv_def INITIAL_CWND_MSS_def)
qed

lemma unat_max: "unat (max a b) = max (unat a) (unat b)"
  by (simp add: max_def word_le_nat_alt)

lemma cc_handle_timeout_value:
  assumes "cc_inv m cc"
  shows "unat (cc_cwnd_q16 (cc_handle_timeout cc)) = 10 * (m * 65536)"
    and "cc_inv m (cc_handle_timeout cc)"
  using assms cwnd_min_value [OF assms]
  by (simp_all add: cc_handle_timeout_def cc_inv_def Let_def word_le_nat_alt unat_max)

lemma cc_handle_drop_value:
  assumes "cc_inv m cc" and "cc_dropcnt_q16 cc = 0"
  shows "unat (cc_cwnd_q16 (cc_handle_drop cc)) = max (unat (cc_cwnd_q16 cc) div 2) (10 * (m * 65536))"
    and "cc_dropcnt_q16 (cc_handle_drop cc) = cc_cwnd_q16 (cc_handle_drop cc)"
    and "cc_mode (cc_handle_drop cc) = CongestionAvoidance"
  using assms cwnd_min_value [OF assms(1)]
  by (simp_all add: cc_handle_drop_def Let_def unat_max unat_div)

lemma cc_handle_drop_inv:
  assumes "cc_inv m cc"
  shows "cc_inv m (cc_handle_drop cc)"
proof (cases "cc_dropcnt_q16 cc = 0")
  case True
  then show ?thesis
    using assms cc_handle_drop_value [OF assms True] by (simp add: cc_inv_def) (simp add: cc_handle_drop_def Let_def)
qed (use assms in \<open>simp add: cc_handle_drop_def\<close>)

text \<open>The congestion-avoidance increment is exact: the square and the sum fit in 64 bits.\<close>

lemma cwnd_inv_value:
  fixes mss cwnd :: u64
  assumes "unat mss = m * 65536" and "m \<le> 46340"
  shows "unat ((mss * mss + cwnd div 2) div cwnd) = ((m * 65536) * (m * 65536) + unat cwnd div 2) div unat cwnd"
proof -
  have "m * 65536 * (m * 65536) \<le> 46340 * 65536 * (46340 * 65536)"
    using assms(2) by (intro mult_le_mono) simp_all
  then have sq: "m * 65536 * (m * 65536) \<le> 9222993873574297600"
    by simp
  then have "unat (mss * mss) = m * 65536 * (m * 65536)"
    using assms(1) unat_mult_lem [of mss mss] by simp
  moreover have "unat cwnd div 2 \<le> 9223372036854775807"
    using unat_u64_less [of cwnd] by simp
  ultimately have "unat (mss * mss + cwnd div 2) = m * 65536 * (m * 65536) + unat cwnd div 2"
    using sq unat_add_lem [of "mss * mss" "cwnd div 2"] by (simp add: unat_div)
  then show ?thesis
    by (simp add: unat_div)
qed

text \<open>An acknowledgement never shrinks the window and grows it by at most one segment.\<close>

lemma cc_handle_ack_value:
  assumes inv: "cc_inv m cc" and m: "m \<le> 46340"
  shows "\<exists>cc'. cc_handle_ack cc = Some cc' \<and> cc_inv m cc' \<and>
    unat (cc_dropcnt_q16 cc') = unat (cc_dropcnt_q16 cc) - m * 65536 \<and>
    unat (cc_cwnd_q16 cc) \<le> unat (cc_cwnd_q16 cc') \<and>
    unat (cc_cwnd_q16 cc') \<le> unat (cc_cwnd_q16 cc) + m * 65536"
proof -
  let ?cwnd = "unat (cc_cwnd_q16 cc)"
  define cc1 where "cc1 = (if cc_dropcnt_q16 cc > cc_mss_q16 cc
      then cc\<lparr>cc_dropcnt_q16 := cc_dropcnt_q16 cc - cc_mss_q16 cc\<rparr> else cc\<lparr>cc_dropcnt_q16 := 0\<rparr>)"
  have mss: "unat (cc_mss_q16 cc) = m * 65536" and low: "10 * (m * 65536) \<le> ?cwnd" and pos: "0 < m"
    using inv by (simp_all add: cc_inv_def)
  have same: "cc_mode cc1 = cc_mode cc" "cc_cwnd_q16 cc1 = cc_cwnd_q16 cc" "cc_mss_q16 cc1 = cc_mss_q16 cc"
    by (simp_all add: cc1_def)
  have drop: "unat (cc_dropcnt_q16 cc1) = unat (cc_dropcnt_q16 cc) - m * 65536"
    using mss by (auto simp: cc1_def word_less_nat_alt unat_sub word_le_nat_alt)
  have sat: "?cwnd \<le> unat (saturating_add (cc_cwnd_q16 cc) x)"
      "unat (saturating_add (cc_cwnd_q16 cc) x) \<le> ?cwnd + unat x" for x
    using unat_u64_less [of "cc_cwnd_q16 cc"] by (simp_all add: word_value)
  show ?thesis
  proof (cases "cc_mode cc")
    case UnboundedSlowStart
    with inv same sat [of "cc_mss_q16 cc"] mss low drop show ?thesis
      by (simp add: cc_handle_ack_def flip: cc1_def) (simp add: cc_inv_def)
  next
    case (ThresholdSlowStart t)
    have le: "cc_cwnd_q16 cc \<le> t"
      using inv ThresholdSlowStart by (simp add: cc_inv_def)
    show ?thesis
    proof (cases "t \<le> saturating_add (cc_cwnd_q16 cc) (cc_mss_q16 cc)")
      case True
      with ThresholdSlowStart same le inv sat [of "cc_mss_q16 cc"] mss drop show ?thesis
        by (simp add: cc_handle_ack_def Let_def flip: cc1_def) (auto simp: cc_inv_def word_le_nat_alt)
    next
      case False
      with ThresholdSlowStart same inv sat [of "cc_mss_q16 cc"] mss drop low show ?thesis
        by (simp add: cc_handle_ack_def Let_def flip: cc1_def) (simp add: cc_inv_def)
    qed
  next
    case CongestionAvoidance
    let ?inc = "(cc_mss_q16 cc * cc_mss_q16 cc + cc_cwnd_q16 cc div 2) div cc_cwnd_q16 cc"
    have nz: "cc_cwnd_q16 cc \<noteq> 0"
      using low pos by auto
    have "unat ?inc = ((m * 65536) * (m * 65536) + ?cwnd div 2) div ?cwnd"
      by (rule cwnd_inv_value [OF mss m])
    also have "\<dots> \<le> (?cwnd * (m * 65536)) div ?cwnd"
    proof (rule div_le_mono)
      have "10 * ((m * 65536) * (m * 65536)) \<le> ?cwnd * (m * 65536)"
        using mult_le_mono1 [OF low, of "m * 65536"] by simp
      moreover have "?cwnd \<le> ?cwnd * (m * 65536)"
        using pos by simp
      ultimately show "(m * 65536) * (m * 65536) + ?cwnd div 2 \<le> ?cwnd * (m * 65536)"
        by linarith
    qed
    also have "\<dots> = m * 65536"
      using low pos by simp
    finally have inc: "unat ?inc \<le> m * 65536" .
    show ?thesis
      using CongestionAvoidance same nz sat [of ?inc] inc inv low mss drop
      by (simp add: cc_handle_ack_def Let_def flip: cc1_def) (auto simp: cc_inv_def)
  qed
qed

section \<open>Sequences of events\<close>

datatype CcEvent = CcAck | CcDrop | CcTimeout

fun cc_run :: "CcEvent list \<Rightarrow> AimdReno \<Rightarrow> AimdReno rust" where
  "cc_run [] cc = Some cc"
| "cc_run (CcAck # evs) cc = cc_handle_ack cc \<bind> cc_run evs"
| "cc_run (CcDrop # evs) cc = cc_run evs (cc_handle_drop cc)"
| "cc_run (CcTimeout # evs) cc = cc_run evs (cc_handle_timeout cc)"

lemma cc_run_inv:
  assumes "cc_inv m cc" and "m \<le> 46340"
  shows "\<exists>cc'. cc_run evs cc = Some cc' \<and> cc_inv m cc'"
  using assms(1)
proof (induction evs cc rule: cc_run.induct)
  case (2 evs cc)
  obtain cc1 where "cc_handle_ack cc = Some cc1" "cc_inv m cc1"
    using cc_handle_ack_value [OF 2(2) assms(2)] by blast
  with 2(1) show ?case by simp
qed (simp_all add: cc_handle_drop_inv cc_handle_timeout_value)

lemma cc_cwnd_value: "cc_cwnd cc = unat (cc_cwnd_q16 cc) div 65536"
  using unat_u64_less [of "cc_cwnd_q16 cc"]
  by (simp add: cc_cwnd_def USIZE_MAX_def drop_bit_eq_div unat_div Let_def)

text \<open>
  C29: for segment sizes up to 46340 bytes, any sequence of acknowledgements, drops and
  timeouts runs without dividing by zero, and the congestion window is never less than ten
  segments.
\<close>

theorem cc_window_floor:
  assumes "AimdReno_new m = Some cc" and "0 < m" and "m \<le> 46340"
  shows "\<exists>cc'. cc_run evs cc = Some cc' \<and> 10 * m \<le> cc_cwnd cc'"
proof -
  obtain cc' where run: "cc_run evs cc = Some cc'" and inv: "cc_inv m cc'"
    using cc_run_inv [OF AimdReno_new_inv [OF assms(1,2)] assms(3)] by blast
  have "10 * (m * 65536) div 65536 \<le> unat (cc_cwnd_q16 cc') div 65536"
    using inv by (intro div_le_mono) (simp add: cc_inv_def)
  with run show ?thesis
    by (simp add: cc_cwnd_value)
qed

theorem cc_window_floor_witness:
  "\<exists>cc'. cc_run [CcAck, CcDrop, CcAck, CcTimeout, CcAck] (the (AimdReno_new 1024)) = Some cc' \<and>
    10240 \<le> cc_cwnd cc'"
  using cc_window_floor [of 1024 "the (AimdReno_new 1024)" "[CcAck, CcDrop, CcAck, CcTimeout, CcAck]"]
  by (simp add: AimdReno_new_def del: cc_run.simps)

lemma cc_run_acks_dropcnt:
  assumes "cc_inv m cc" and "m \<le> 46340" and "cc_run (replicate k CcAck) cc = Some cc'"
  shows "unat (cc_dropcnt_q16 cc') = unat (cc_dropcnt_q16 cc) - k * (m * 65536)"
  using assms
proof (induction k arbitrary: cc)
  case (Suc k)
  obtain cc1 where "cc_handle_ack cc = Some cc1" "cc_inv m cc1"
      "unat (cc_dropcnt_q16 cc1) = unat (cc_dropcnt_q16 cc) - m * 65536"
    using cc_handle_ack_value [OF Suc.prems(1,2)] by blast
  with Suc.IH [of cc1] Suc.prems show ?case by simp
qed simp

text \<open>While the drop counter lasts, drops change nothing: only the acknowledgements count.\<close>

lemma cc_run_no_timeout:
  assumes "cc_inv m cc" and "m \<le> 46340" and "set later \<subseteq> {CcAck, CcDrop}"
    and "length (filter (\<lambda>e. e = CcAck) later) * (m * 65536) < unat (cc_dropcnt_q16 cc)"
  shows "\<exists>cc'. cc_run later cc = Some cc' \<and> cc_run (filter (\<lambda>e. e = CcAck) later) cc = Some cc' \<and>
    cc_handle_drop cc' = cc'"
  using assms(1,3,4)
proof (induction later arbitrary: cc)
  case Nil
  then show ?case by (auto simp: cc_handle_drop_def)
next
  case (Cons e later)
  show ?case
  proof (cases e)
    case CcAck
    obtain cc1 where "cc_handle_ack cc = Some cc1" "cc_inv m cc1"
        "unat (cc_dropcnt_q16 cc1) = unat (cc_dropcnt_q16 cc) - m * 65536"
      using cc_handle_ack_value [OF Cons.prems(1) assms(2)] by blast
    with CcAck Cons.IH [of cc1] Cons.prems show ?thesis by simp
  next
    case CcDrop
    moreover have "cc_handle_drop cc = cc"
      using Cons.prems(3) by (auto simp: cc_handle_drop_def)
    ultimately show ?thesis
      using Cons.IH [of cc] Cons.prems by simp
  qed (use Cons.prems in simp)
qed

text \<open>
  C30: a detected drop sets the window to its half or to ten segments, whichever is more.
  Then further drops change nothing while fewer segments than the new window holds have been
  acknowledged, however drops and acknowledgements are mixed and as long as no timeout
  comes between; and a drop counts again exactly when acknowledgements for the whole new
  window have come in.
\<close>

theorem cc_one_halving_per_window:
  assumes "AimdReno_new m = Some cc0" and "0 < m" and "m \<le> 46340"
    and "cc_run evs cc0 = Some cc" and "cc_dropcnt_q16 cc = 0"
    and "set later \<subseteq> {CcAck, CcDrop}"
    and "length (filter (\<lambda>e. e = CcAck) later) * (m * 65536) < unat (cc_cwnd_q16 (cc_handle_drop cc))"
  shows "unat (cc_cwnd_q16 (cc_handle_drop cc)) = max (unat (cc_cwnd_q16 cc) div 2) (10 * m * 65536) \<and>
    (\<exists>cc'. cc_run later (cc_handle_drop cc) = Some cc' \<and>
       cc_run (filter (\<lambda>e. e = CcAck) later) (cc_handle_drop cc) = Some cc' \<and> cc_handle_drop cc' = cc') \<and>
    (\<exists>cc'. cc_run (replicate k CcAck) (cc_handle_drop cc) = Some cc' \<and>
       (cc_dropcnt_q16 cc' = 0 \<longleftrightarrow> unat (cc_cwnd_q16 (cc_handle_drop cc)) \<le> k * (m * 65536)))"
proof -
  have inv: "cc_inv m cc"
    using cc_run_inv [OF AimdReno_new_inv [OF assms(1,2)] assms(3), of evs] assms(4) by simp
  note drop = cc_handle_drop_value [OF inv assms(5)]
  note inv' = cc_handle_drop_inv [OF inv]
  obtain cc' where run: "cc_run (replicate k CcAck) (cc_handle_drop cc) = Some cc'"
    using cc_run_inv [OF inv' assms(3)] by blast
  have "unat (cc_dropcnt_q16 cc') = unat (cc_cwnd_q16 (cc_handle_drop cc)) - k * (m * 65536)"
    using cc_run_acks_dropcnt [OF inv' assms(3) run] drop(2) by simp
  then have "cc_dropcnt_q16 cc' = 0 \<longleftrightarrow> unat (cc_cwnd_q16 (cc_handle_drop cc)) \<le> k * (m * 65536)"
    by (simp add: flip: unat_eq_0)
  moreover have "\<exists>cc'. cc_run later (cc_handle_drop cc) = Some cc' \<and>
      cc_run (filter (\<lambda>e. e = CcAck) later) (cc_handle_drop cc) = Some cc' \<and> cc_handle_drop cc' = cc'"
    using assms(7) drop(2) by (intro cc_run_no_timeout [OF inv' assms(3,6)]) simp
  ultimately show ?thesis
    using run drop(1) by (simp add: mult.assoc)
qed

lemma demo_cc:
  "AimdReno_new 1024 = Some (the (AimdReno_new 1024))" "cc_dropcnt_q16 (the (AimdReno_new 1024)) = 0"
  "unat (cc_cwnd_q16 (cc_handle_drop (the (AimdReno_new 1024)))) = 671088640"
  "cc_mode (cc_handle_drop (the (AimdReno_new 1024))) = CongestionAvoidance"
  by (simp_all add: AimdReno_new_def cc_handle_drop_def Let_def INITIAL_CWND_MSS_def max_def)

theorem cc_one_halving_per_window_witness:
  "\<exists>cc'. cc_run [CcAck, CcDrop, CcAck, CcDrop] (cc_handle_drop (the (AimdReno_new 1024))) = Some cc' \<and>
    cc_run [CcAck, CcAck] (cc_handle_drop (the (AimdReno_new 1024))) = Some cc' \<and>
    cc_handle_drop cc' = cc'"
proof -
  have "cc_run [] (the (AimdReno_new 1024)) = Some (the (AimdReno_new 1024))"
    by simp
  from cc_one_halving_per_window [OF demo_cc(1) _ _ this demo_cc(2), of "[CcAck, CcDrop, CcAck, CcDrop]"]
  show ?thesis
    unfolding demo_cc(3) by (simp del: cc_run.simps)
qed

lemma cc_ack_avoidance:
  assumes inv: "cc_inv m cc" and m: "m \<le> 46340" and mode: "cc_mode cc = CongestionAvoidance"
  shows "\<exists>cc'. cc_handle_ack cc = Some cc' \<and> cc_inv m cc' \<and> cc_mode cc' = CongestionAvoidance \<and>
    unat (cc_cwnd_q16 cc) \<le> unat (cc_cwnd_q16 cc') \<and>
    unat (cc_cwnd_q16 cc') \<le> unat (cc_cwnd_q16 cc) + (m * 65536) * (m * 65536) div unat (cc_cwnd_q16 cc) + 1"
proof -
  let ?c = "unat (cc_cwnd_q16 cc)" and ?q = "(m * 65536) * (m * 65536)"
  have nz: "0 < ?c" and mss: "unat (cc_mss_q16 cc) = m * 65536"
    using inv by (auto simp: cc_inv_def)
  obtain cc' where cc': "cc_handle_ack cc = Some cc'" "cc_inv m cc'" "?c \<le> unat (cc_cwnd_q16 cc')"
    using cc_handle_ack_value [OF inv m] by blast
  have "cc_mode cc' = CongestionAvoidance"
    using cc'(1) mode by (auto simp: cc_handle_ack_def Let_def split: if_splits)
  moreover have "unat (cc_cwnd_q16 cc') \<le> ?c + (?q + ?c div 2) div ?c"
    using cc'(1) mode cwnd_inv_value [OF mss m, of "cc_cwnd_q16 cc"]
    by (auto simp: cc_handle_ack_def Let_def word_value split: if_splits)
  moreover have "(?q + ?c div 2) div ?c \<le> (?q + ?c) div ?c"
    by (rule div_le_mono) simp
  moreover have "(?q + ?c) div ?c = ?q div ?c + 1"
    using nz by (rule div_add_self2 [OF less_imp_neq [symmetric]])
  ultimately show ?thesis
    using cc' by (intro exI [of _ cc']) linarith
qed

lemma cc_acks_avoidance:
  assumes "cc_inv m cc" and "m \<le> 46340" and "cc_mode cc = CongestionAvoidance"
    and "0 < w" "w \<le> unat (cc_cwnd_q16 cc)"
  shows "\<exists>cc'. cc_run (replicate k CcAck) cc = Some cc' \<and>
    unat (cc_cwnd_q16 cc') \<le> unat (cc_cwnd_q16 cc) + k * ((m * 65536) * (m * 65536) div w + 1)"
  using assms
proof (induction k arbitrary: cc)
  case (Suc k)
  let ?q = "(m * 65536) * (m * 65536)"
  obtain cc1 where cc1: "cc_handle_ack cc = Some cc1" "cc_inv m cc1" "cc_mode cc1 = CongestionAvoidance"
      "unat (cc_cwnd_q16 cc) \<le> unat (cc_cwnd_q16 cc1)"
      "unat (cc_cwnd_q16 cc1) \<le> unat (cc_cwnd_q16 cc) + ?q div unat (cc_cwnd_q16 cc) + 1"
    using cc_ack_avoidance [OF Suc.prems(1-3)] by blast
  moreover have "?q div unat (cc_cwnd_q16 cc) \<le> ?q div w"
    using Suc.prems(4,5) by (rule div_le_mono2)
  moreover obtain cc' where "cc_run (replicate k CcAck) cc1 = Some cc'"
      "unat (cc_cwnd_q16 cc') \<le> unat (cc_cwnd_q16 cc1) + k * (?q div w + 1)"
    using Suc.IH [OF cc1(2) Suc.prems(2) cc1(3) Suc.prems(4)] cc1(4) Suc.prems(5) by auto
  ultimately show ?case
    by (auto simp: algebra_simps)
qed simp

text \<open>
  Additive increase: in congestion avoidance, the acknowledgements of one window of
  segments grow the window by at most one segment (plus the rounding of each step, one unit
  of \<open>2 ^ -16\<close> bytes).
\<close>

lemma cc_additive_increase:
  assumes "AimdReno_new m = Some cc0" and "0 < m" and "m \<le> 46340"
    and "cc_run evs cc0 = Some cc" and "cc_mode cc = CongestionAvoidance"
    and "k * (m * 65536) \<le> unat (cc_cwnd_q16 cc)"
  shows "\<exists>cc'. cc_run (replicate k CcAck) cc = Some cc' \<and>
    unat (cc_cwnd_q16 cc') \<le> unat (cc_cwnd_q16 cc) + m * 65536 + k"
proof -
  let ?c = "unat (cc_cwnd_q16 cc)" and ?q = "(m * 65536) * (m * 65536)"
  have inv: "cc_inv m cc"
    using cc_run_inv [OF AimdReno_new_inv [OF assms(1,2)] assms(3), of evs] assms(4) by simp
  then have pos: "0 < ?c"
    by (auto simp: cc_inv_def)
  obtain cc' where run: "cc_run (replicate k CcAck) cc = Some cc'" "unat (cc_cwnd_q16 cc') \<le> ?c + k * (?q div ?c + 1)"
    using cc_acks_avoidance [OF inv assms(3,5) pos le_refl] by blast
  have "k * (?q div ?c * ?c) \<le> k * ?q"
    by (intro mult_le_mono2 div_times_less_eq_dividend)
  then have "k * (?q div ?c) \<le> k * ?q div ?c"
    using pos by (simp add: less_eq_div_iff_mult_less_eq mult.assoc)
  also have "\<dots> \<le> ?c * (m * 65536) div ?c"
    using mult_le_mono1 [OF assms(6), of "m * 65536"] by (intro div_le_mono) (simp add: ac_simps)
  also have "\<dots> = m * 65536"
    using pos by simp
  finally have "k * (?q div ?c + 1) \<le> m * 65536 + k"
    by (simp add: algebra_simps)
  with run show ?thesis
    by (intro exI [of _ cc']) simp
qed

lemma demo_additive_increase:
  "\<exists>cc'. cc_run (replicate 10 CcAck) (cc_handle_drop (the (AimdReno_new 1024))) = Some cc' \<and>
    unat (cc_cwnd_q16 cc') \<le> 671088640 + 1024 * 65536 + 10"
proof -
  have "cc_run [CcDrop] (the (AimdReno_new 1024)) = Some (cc_handle_drop (the (AimdReno_new 1024)))"
    by simp
  from cc_additive_increase [OF demo_cc(1) _ _ this demo_cc(4), of 10] show ?thesis
    unfolding demo_cc(3) by simp
qed

end
