(* ===== verification/Buffer.thy ===== *)
theory Buffer
  imports Redpine_Prelude
begin

text \<open>
  Shared parts of the packet buffers (\<^verbatim>\<open>src/buffer/mod.rs\<close>): the sequence-number
  window, fragments that share one reference-counted packet, and the cutting of a packet
  into fragments that both send buffers perform in \<^verbatim>\<open>push\<close>. Two interfaces follow:
  what the stream sender relies on from a send queue, and what makes a receive buffer put
  packets together again.
\<close>

section \<open>Windows and fragments\<close>

record Window =
  win_base_id :: u32
  win_size :: u32

definition Window_new :: "u32 \<Rightarrow> u32 \<Rightarrow> Window" where
  "Window_new base_id sz = \<lparr>win_base_id = base_id, win_size = sz\<rparr>"

definition Window_contains :: "Window \<Rightarrow> u32 \<Rightarrow> bool" where
  "Window_contains w x = (x - win_base_id w < win_size w)"

lemma Window_contains_iff: "Window_contains w x \<longleftrightarrow> seq_delta (win_base_id w) x < unat (win_size w)"
  by (simp add: Window_contains_def seq_delta_def word_less_nat_alt)

record FragmentRc =
  fr_first :: bool
  fr_last :: bool
  fr_data :: bytes
  fr_range :: "nat \<times> nat"

record FragmentRef =
  ref_first :: bool
  ref_last :: bool
  ref_data :: bytes

text \<open>\<^verbatim>\<open>&data[range]\<close>, and the borrowed view of a fragment.\<close>

definition fragment_data :: "FragmentRc \<Rightarrow> bytes" where
  "fragment_data rc = drop (fst (fr_range rc)) (take (snd (fr_range rc)) (fr_data rc))"

definition FragmentRef_from :: "FragmentRc \<Rightarrow> FragmentRef" where
  "FragmentRef_from rc =
     \<lparr>ref_first = fr_first rc, ref_last = fr_last rc, ref_data = fragment_data rc\<rparr>"

section \<open>Cutting a packet into fragments\<close>

text \<open>
  The loop of \<^verbatim>\<open>push\<close>. The constructors assert that the fragment size is positive;
  the extra guard makes the recursion total for the size they exclude.
\<close>

function fragment_loop :: "bytes \<Rightarrow> nat \<Rightarrow> nat \<Rightarrow> nat \<Rightarrow> bool \<Rightarrow> FragmentRc list" where
  "fragment_loop packet fragment_size bytes_remaining index first =
     (if bytes_remaining > fragment_size \<and> 0 < fragment_size
      then \<lparr>fr_first = first, fr_last = False, fr_data = packet,
             fr_range = (index, index + fragment_size)\<rparr>
           # fragment_loop packet fragment_size (bytes_remaining - fragment_size)
               (index + fragment_size) False
      else [\<lparr>fr_first = first, fr_last = True, fr_data = packet,
              fr_range = (index, length packet)\<rparr>])"
  by pat_completeness auto
termination
  by (relation "measure (\<lambda>(p, fs, rem, i, f). rem)") auto

declare fragment_loop.simps [simp del]

definition packet_fragments :: "nat \<Rightarrow> bytes \<Rightarrow> FragmentRc list" where
  "packet_fragments fragment_size packet =
     fragment_loop packet fragment_size (length packet) 0 True"

text \<open>Fragments of the right shape, as the receive buffers demand it.\<close>

definition fragment_is_valid :: "FragmentRef \<Rightarrow> nat \<Rightarrow> bool" where
  "fragment_is_valid fragment fragment_size =
     (if ref_last fragment \<and> length (ref_data fragment) > fragment_size then False
      else if \<not> ref_last fragment \<and> length (ref_data fragment) \<noteq> fragment_size then False
      else True)"

lemma fragment_is_valid_iff:
  "fragment_is_valid f n \<longleftrightarrow>
     (if ref_last f then length (ref_data f) \<le> n else length (ref_data f) = n)"
  by (auto simp: fragment_is_valid_def)

text \<open>
  \<open>good_cut n first p fs\<close>: the fragments \<open>fs\<close> are a correct cut of the bytes \<open>p\<close>
  into pieces of size \<open>n\<close>, the first of them marked by \<open>first\<close> and only the last
  marked as last.
\<close>

fun good_cut :: "nat \<Rightarrow> bool \<Rightarrow> bytes \<Rightarrow> FragmentRef list \<Rightarrow> bool" where
  "good_cut n first p [] \<longleftrightarrow> False"
| "good_cut n first p (f # fs) \<longleftrightarrow>
     ref_first f = first \<and>
     (if fs = [] then ref_last f \<and> ref_data f = p \<and> length p \<le> n
      else \<not> ref_last f \<and> length (ref_data f) = n \<and>
        (\<exists>rest. p = ref_data f @ rest \<and> good_cut n False rest fs))"

lemma fragment_loop_not_Nil [simp]: "fragment_loop packet n rem idx first \<noteq> []"
  by (subst fragment_loop.simps) simp

lemma packet_fragments_not_Nil [simp]: "packet_fragments n packet \<noteq> []"
  by (simp add: packet_fragments_def)

lemma fragment_loop_good_cut:
  assumes "0 < n" and "rem = length packet - idx" and "idx \<le> length packet"
  shows "good_cut n first (drop idx packet) (map FragmentRef_from (fragment_loop packet n rem idx first))"
  using assms
proof (induction packet n rem idx first rule: fragment_loop.induct)
  case (1 packet n rem idx first)
  show ?case
  proof (cases "n < rem")
    case True
    have "drop idx packet = take n (drop idx packet) @ drop (idx + n) packet"
      by (metis append_take_drop_id drop_drop add.commute)
    moreover have "good_cut n False (drop (idx + n) packet)
        (map FragmentRef_from (fragment_loop packet n (rem - n) (idx + n) False))"
      using True 1 by simp
    moreover have "FragmentRef_from \<lparr>fr_first = first, fr_last = False, fr_data = packet,
        fr_range = (idx, idx + n)\<rparr> = \<lparr>ref_first = first, ref_last = False, ref_data = take n (drop idx packet)\<rparr>"
      by (simp add: FragmentRef_from_def fragment_data_def drop_take)
    ultimately show ?thesis
      using True 1 by (subst fragment_loop.simps) auto
  next
    case False
    with 1 show ?thesis
      by (subst fragment_loop.simps) (simp add: FragmentRef_from_def fragment_data_def)
  qed
qed

lemma packet_fragments_good_cut:
  "0 < n \<Longrightarrow> good_cut n True packet (map FragmentRef_from (packet_fragments n packet))"
  using fragment_loop_good_cut [of n "length packet" packet 0 True]
  by (simp add: packet_fragments_def)

section \<open>The interface of a send queue\<close>

text \<open>
  A send queue shows its next fragment with \<^verbatim>\<open>peek_sendable\<close> and hands it out with
  \<^verbatim>\<open>pop_sendable\<close>; under its invariant the two agree.
\<close>

locale send_queue =
  fixes peek :: "'q \<Rightarrow> (u32 \<times> FragmentRc) option"
    and pop :: "'q \<Rightarrow> ('q \<times> (u32 \<times> FragmentRc) option)"
    and todo :: "'q \<Rightarrow> nat"
    and invar :: "'q \<Rightarrow> bool"
  assumes pop_peek: "snd (pop q) = peek q"
    and pop_None: "peek q = None \<Longrightarrow> fst (pop q) = q"
    and pop_todo: "invar q \<Longrightarrow> peek q \<noteq> None \<Longrightarrow> todo (fst (pop q)) < todo q"
    and pop_invar: "invar q \<Longrightarrow> invar (fst (pop q))"
begin

text \<open>Emptying the queue terminates after at most \<open>todo\<close> pops.\<close>

lemma drain_terminates:
  "invar q \<Longrightarrow> \<exists>n \<le> todo q. peek (((\<lambda>q. fst (pop q)) ^^ n) q) = None"
proof (induction "todo q" arbitrary: q rule: less_induct)
  case less
  show ?case
  proof (cases "peek q")
    case (Some x)
    then obtain n where "n \<le> todo (fst (pop q))" "peek (((\<lambda>q. fst (pop q)) ^^ n) (fst (pop q))) = None"
      using less.hyps [of "fst (pop q)"] less.prems pop_todo pop_invar by blast
    moreover have "((\<lambda>q. fst (pop q)) ^^ Suc n) q = ((\<lambda>q. fst (pop q)) ^^ n) (fst (pop q))"
      by (simp add: funpow_Suc_right del: funpow.simps)
    ultimately show ?thesis
      using Some less.prems pop_todo [of q] by (intro exI [of _ "Suc n"]) (simp del: funpow.simps)
  qed (auto intro: exI [of _ 0])
qed

end

section \<open>The interface of a receive buffer\<close>

text \<open>Feeding fragments with consecutive identifiers, collecting the packets that come out.\<close>

fun feed ::
    "('rx \<Rightarrow> u32 \<Rightarrow> FragmentRef \<Rightarrow> 'rx \<times> bytes option) \<Rightarrow> 'rx \<Rightarrow> u32 \<Rightarrow> FragmentRef list \<Rightarrow> 'rx \<times> bytes list" where
  "feed receive rx i [] = (rx, [])"
| "feed receive rx i (f # fs) =
     (case receive rx i f of (rx, r) \<Rightarrow>
      case feed receive rx (i + 1) fs of (rx, ps) \<Rightarrow>
        (rx, (case r of None \<Rightarrow> ps | Some p \<Rightarrow> p # ps)))"

lemma feed_append:
  "feed receive rx i (xs @ ys) =
     (case feed receive rx i xs of (rx, ps) \<Rightarrow>
      case feed receive rx (i + word_of_nat (length xs)) ys of (rx, qs) \<Rightarrow> (rx, ps @ qs))"
  by (induction xs arbitrary: rx i)
    (simp_all add: algebra_simps split: prod.splits option.splits)

locale reassembler =
  fixes receive :: "'rx \<Rightarrow> u32 \<Rightarrow> FragmentRef \<Rightarrow> 'rx \<times> bytes option"
    and fsize :: "'rx \<Rightarrow> nat"
    and ready :: "'rx \<Rightarrow> u32 \<Rightarrow> bool"
    and building :: "'rx \<Rightarrow> u32 \<Rightarrow> bytes \<Rightarrow> bool"
  assumes start_more: "ready rx i \<Longrightarrow> ref_first f \<Longrightarrow> \<not> ref_last f \<Longrightarrow> length (ref_data f) = fsize rx \<Longrightarrow>
      \<exists>rx'. receive rx i f = (rx', None) \<and> building rx' (i + 1) (ref_data f) \<and> fsize rx' = fsize rx"
    and start_done: "ready rx i \<Longrightarrow> ref_first f \<Longrightarrow> ref_last f \<Longrightarrow> length (ref_data f) \<le> fsize rx \<Longrightarrow>
      \<exists>rx'. receive rx i f = (rx', Some (ref_data f)) \<and> ready rx' (i + 1) \<and> fsize rx' = fsize rx"
    and cont_more: "building rx i b \<Longrightarrow> \<not> ref_first f \<Longrightarrow> \<not> ref_last f \<Longrightarrow> length (ref_data f) = fsize rx \<Longrightarrow>
      \<exists>rx'. receive rx i f = (rx', None) \<and> building rx' (i + 1) (b @ ref_data f) \<and> fsize rx' = fsize rx"
    and cont_done: "building rx i b \<Longrightarrow> \<not> ref_first f \<Longrightarrow> ref_last f \<Longrightarrow> length (ref_data f) \<le> fsize rx \<Longrightarrow>
      \<exists>rx'. receive rx i f = (rx', Some (b @ ref_data f)) \<and> ready rx' (i + 1) \<and> fsize rx' = fsize rx"
begin

lemma feed_rest:
  assumes "good_cut (fsize rx) False p fs" and "building rx i b"
  shows "\<exists>rx'. feed receive rx i fs = (rx', [b @ p]) \<and>
    ready rx' (i + word_of_nat (length fs)) \<and> fsize rx' = fsize rx"
  using assms
proof (induction fs arbitrary: rx i b p)
  case (Cons f fs)
  show ?case
  proof (cases "fs = []")
    case True
    with Cons.prems cont_done [of rx i b f] show ?thesis by auto
  next
    case False
    with Cons.prems obtain rest where f: "\<not> ref_first f" "\<not> ref_last f" "length (ref_data f) = fsize rx"
      and p: "p = ref_data f @ rest" and cut: "good_cut (fsize rx) False rest fs"
      by auto
    from cont_more [OF Cons.prems(2) f] obtain rx1
      where rx1: "receive rx i f = (rx1, None)" "building rx1 (i + 1) (b @ ref_data f)" "fsize rx1 = fsize rx"
      by blast
    with Cons.IH [of rx1 rest "i + 1" "b @ ref_data f"] cut p show ?thesis
      by (auto simp: algebra_simps)
  qed
qed simp

text \<open>Feeding the fragments of one packet gives exactly that packet.\<close>

lemma feed_packet:
  assumes "good_cut (fsize rx) True p fs" and "ready rx i"
  shows "\<exists>rx'. feed receive rx i fs = (rx', [p]) \<and>
    ready rx' (i + word_of_nat (length fs)) \<and> fsize rx' = fsize rx"
proof (cases fs)
  case (Cons f fs')
  show ?thesis
  proof (cases "fs' = []")
    case True
    with assms Cons start_done [of rx i f] show ?thesis by auto
  next
    case False
    with assms Cons obtain rest where f: "ref_first f" "\<not> ref_last f" "length (ref_data f) = fsize rx"
      and p: "p = ref_data f @ rest" and cut: "good_cut (fsize rx) False rest fs'"
      by auto
    from start_more [OF assms(2) f] obtain rx1
      where rx1: "receive rx i f = (rx1, None)" "building rx1 (i + 1) (ref_data f)" "fsize rx1 = fsize rx"
      by blast
    with feed_rest [of rx1 rest fs' "i + 1" "ref_data f"] cut p Cons show ?thesis
      by (auto simp: algebra_simps)
  qed
qed (use assms in simp)

lemma feed_packets:
  assumes "ready rx i" and "0 < fsize rx"
  shows "\<exists>rx'. feed receive rx i
      (map FragmentRef_from (concat (map (packet_fragments (fsize rx)) packets))) = (rx', packets) \<and>
    fsize rx' = fsize rx"
  using assms
proof (induction packets arbitrary: rx i)
  case (Cons p packets)
  let ?fs = "map FragmentRef_from (packet_fragments (fsize rx) p)"
  obtain rx1 where rx1: "feed receive rx i ?fs = (rx1, [p])"
      "ready rx1 (i + word_of_nat (length ?fs))" "fsize rx1 = fsize rx"
    using feed_packet [OF packet_fragments_good_cut Cons.prems(1)] Cons.prems(2) by blast
  with Cons.IH [OF rx1(2)] Cons.prems(2) show ?case
    by (auto simp: feed_append)
qed simp

end

end
