(* ===== verification/Segment_Rx.thy ===== *)
theory Segment_Rx
  imports Buffer
begin

text \<open>
  The segment receiver (\<^verbatim>\<open>src/endpoint/segment_rx.rs\<close>): it delivers segments in order,
  holds back at most two that arrive early, gives up on a missing segment once a third
  later one is there, and keeps the history of arrivals and nonces that goes into
  acknowledgements. The callback of \<^verbatim>\<open>receive\<close> and \<^verbatim>\<open>sync\<close> is modelled by the list of
  the segments it is called with, in order.
\<close>

section \<open>State and operations\<close>

record Slot =
  sl_id :: u32
  sl_nonce :: bool
  sl_data :: bytes
  sl_len :: nat

record SegmentRx =
  srx_window :: Window
  srx_slot_0 :: Slot
  srx_slot_1 :: Slot
  srx_len :: u8
  srx_rx_history :: u32
  srx_nonce_history :: u32

abbreviation srx_base :: "SegmentRx \<Rightarrow> u32" where
  "srx_base rx \<equiv> win_base_id (srx_window rx)"

definition SegmentRx_new :: "u32 \<Rightarrow> u32 \<Rightarrow> nat \<Rightarrow> SegmentRx" where
  "SegmentRx_new window_base_id window_size segment_size_max =
     (let slot = \<lparr>sl_id = 0, sl_nonce = False, sl_data = replicate segment_size_max 0, sl_len = 0\<rparr>
      in \<lparr>srx_window = Window_new window_base_id window_size, srx_slot_0 = slot, srx_slot_1 = slot,
          srx_len = 0, srx_rx_history = 0, srx_nonce_history = 0\<rparr>)"

text \<open>Copying into \<^verbatim>\<open>slot.data[..data.len()]\<close> panics if the segment does not fit.\<close>

definition save_segment :: "Slot \<Rightarrow> u32 \<Rightarrow> bool \<Rightarrow> bytes \<Rightarrow> Slot rust" where
  "save_segment slot i nonce data = do {
     rust_assert (length data \<le> length (sl_data slot));
     Some \<lparr>sl_id = i, sl_nonce = nonce, sl_data = data @ drop (length data) (sl_data slot),
           sl_len = length data\<rparr> }"

definition slot_bytes :: "Slot \<Rightarrow> bytes" where
  "slot_bytes slot = take (sl_len slot) (sl_data slot)"

definition swap_slots :: "SegmentRx \<Rightarrow> SegmentRx" where
  "swap_slots rx = rx\<lparr>srx_slot_0 := srx_slot_1 rx, srx_slot_1 := srx_slot_0 rx\<rparr>"

definition swap_slots_if_backward :: "SegmentRx \<Rightarrow> SegmentRx" where
  "swap_slots_if_backward rx =
     (let slot_0_delta = sl_id (srx_slot_0 rx) - srx_base rx;
          slot_1_delta = sl_id (srx_slot_1 rx) - srx_base rx
      in if slot_0_delta > slot_1_delta then swap_slots rx else rx)"

definition push_history_ack :: "bool \<Rightarrow> SegmentRx \<Rightarrow> SegmentRx" where
  "push_history_ack nonce rx =
     rx\<lparr>srx_rx_history := push_bit 1 (srx_rx_history rx) OR 1,
        srx_nonce_history := push_bit 1 (srx_nonce_history rx) OR of_bool nonce\<rparr>"

definition push_history_skips :: "u32 \<Rightarrow> SegmentRx \<Rightarrow> SegmentRx" where
  "push_history_skips count rx =
     (if count < 32 then
        rx\<lparr>srx_rx_history := push_bit (unat count) (srx_rx_history rx),
           srx_nonce_history := push_bit (unat count) (srx_nonce_history rx)\<rparr>
      else rx\<lparr>srx_rx_history := 0, srx_nonce_history := 0\<rparr>)"

definition advance_window_past :: "u32 \<Rightarrow> SegmentRx \<Rightarrow> SegmentRx" where
  "advance_window_past new_base_id rx =
     rx\<lparr>srx_window := (srx_window rx)\<lparr>win_base_id := new_base_id + 1\<rparr>\<rparr>"

text \<open>The loop at the end of \<^verbatim>\<open>receive\<close>.\<close>

function deliver_ready :: "SegmentRx \<Rightarrow> SegmentRx \<times> bytes list" where
  "deliver_ready rx =
     (if srx_len rx > 0 \<and> sl_id (srx_slot_0 rx) = srx_base rx then
        let out = slot_bytes (srx_slot_0 rx);
            rx' = push_history_ack (sl_nonce (srx_slot_0 rx)) rx;
            rx' = advance_window_past (sl_id (srx_slot_0 rx)) rx';
            rx' = (if srx_len rx = 2 then swap_slots rx' else rx');
            rx' = rx'\<lparr>srx_len := srx_len rx - 1\<rparr>;
            (rx', outs) = deliver_ready rx'
        in (rx', out # outs)
      else (rx, []))"
  by pat_completeness auto
termination
  by (relation "measure (\<lambda>rx. unat (srx_len rx))")
    (auto simp: unat_minus_one_less)

declare deliver_ready.simps [simp del]

definition segment_rx_receive :: "SegmentRx \<Rightarrow> u32 \<Rightarrow> bool \<Rightarrow> bytes \<Rightarrow> (SegmentRx \<times> bytes list \<times> u8) rust" where
  "segment_rx_receive rx new_id new_nonce new_data =
     (if Window_contains (srx_window rx) new_id then
        (let finish = (\<lambda>rx outs. case deliver_ready rx of (rx, outs') \<Rightarrow> Some (rx, outs @ outs', srx_len rx))
         in if new_id = srx_base rx then
              let rx = push_history_ack new_nonce rx;
                  rx = advance_window_past new_id rx
              in finish rx [new_data]
            else if srx_len rx = 0 then do {
              slot \<leftarrow> save_segment (srx_slot_0 rx) new_id new_nonce new_data;
              let rx = rx\<lparr>srx_slot_0 := slot, srx_len := 1\<rparr>;
              Some (rx, [], srx_len rx) }
            else if srx_len rx = 1 then
              if sl_id (srx_slot_0 rx) \<noteq> new_id then do {
                slot \<leftarrow> save_segment (srx_slot_1 rx) new_id new_nonce new_data;
                let rx = rx\<lparr>srx_slot_1 := slot, srx_len := 2\<rparr>;
                let rx = swap_slots_if_backward rx;
                Some (rx, [], srx_len rx) }
              else Some (rx, [], srx_len rx)
            else if srx_len rx = 2 then
              if sl_id (srx_slot_0 rx) \<noteq> new_id \<and> sl_id (srx_slot_1 rx) \<noteq> new_id then
                let new_delta = new_id - srx_base rx;
                    slot_0_delta = sl_id (srx_slot_0 rx) - srx_base rx
                in if new_delta < slot_0_delta then
                     let rx = push_history_skips new_delta rx;
                         rx = push_history_ack new_nonce rx;
                         rx = advance_window_past new_id rx
                     in finish rx [new_data]
                   else do {
                     let out = slot_bytes (srx_slot_0 rx);
                     let rx = push_history_skips slot_0_delta rx;
                     let rx = push_history_ack (sl_nonce (srx_slot_0 rx)) rx;
                     let rx = advance_window_past (sl_id (srx_slot_0 rx)) rx;
                     slot \<leftarrow> save_segment (srx_slot_0 rx) new_id new_nonce new_data;
                     let rx = rx\<lparr>srx_slot_0 := slot\<rparr>;
                     let rx = swap_slots_if_backward rx;
                     finish rx [out] }
              else finish rx []
            else None)
      else Some (rx, [], srx_len rx))"

text \<open>Delivery of a buffered segment, skipping what is missing before it.\<close>

definition deliver_slot :: "Slot \<Rightarrow> SegmentRx \<Rightarrow> SegmentRx" where
  "deliver_slot slot rx =
     (let delta = sl_id slot - srx_base rx;
          rx = push_history_skips delta rx;
          rx = push_history_ack (sl_nonce slot) rx
      in advance_window_past (sl_id slot) rx)"

definition deliver_outstanding :: "SegmentRx \<Rightarrow> SegmentRx \<times> bytes list" where
  "deliver_outstanding rx =
     (if srx_len rx > 0 then
        let out_0 = slot_bytes (srx_slot_0 rx);
            rx = deliver_slot (srx_slot_0 rx) rx
        in if srx_len rx = 2 then
             let out_1 = slot_bytes (srx_slot_1 rx)
             in (deliver_slot (srx_slot_1 rx) rx, [out_0, out_1])
           else (rx, [out_0])
      else (rx, []))"

definition segment_rx_sync :: "SegmentRx \<Rightarrow> u32 \<Rightarrow> SegmentRx \<times> bytes list" where
  "segment_rx_sync rx next_segment_id =
     (let delta = next_segment_id - srx_base rx;
          min_delta = (if srx_len rx = 1 then sl_id (srx_slot_0 rx) - srx_base rx
                       else if srx_len rx = 2 then sl_id (srx_slot_1 rx) - srx_base rx
                       else srx_base rx)
      in if delta > min_delta \<and> delta \<le> win_size (srx_window rx) then
           let (rx, outs) = deliver_outstanding rx;
               rx = rx\<lparr>srx_len := 0\<rparr>;
               remaining_delta = next_segment_id - srx_base rx;
               rx = push_history_skips remaining_delta rx
           in (rx\<lparr>srx_window := (srx_window rx)\<lparr>win_base_id := next_segment_id\<rparr>\<rparr>, outs)
         else (rx, []))"

definition srx_next_expected_id :: "SegmentRx \<Rightarrow> u32" where
  "srx_next_expected_id rx = srx_base rx"

definition compute_checksum :: "u8 \<Rightarrow> u8 \<Rightarrow> bool" where
  "compute_checksum rx_history nonce_history =
     (let x = rx_history AND nonce_history;
          x = x XOR drop_bit 4 x;
          x = x XOR drop_bit 2 x;
          x = x XOR drop_bit 1 x
      in x AND 1 = 1)"

definition ACK_MASK :: u32 where "ACK_MASK = 0x1F"

definition next_ack_info :: "SegmentRx \<Rightarrow> u8 \<times> bool" where
  "next_ack_info rx =
     (let rx_history = ucast (srx_rx_history rx AND ACK_MASK);
          nonce_history = ucast (srx_nonce_history rx)
      in (rx_history, compute_checksum rx_history nonce_history))"

section \<open>Specification\<close>

text \<open>
  The same behaviour on unbounded segment indices: a base, a sorted list of at most two
  early segments, and the indices delivered.
\<close>

fun spec_drain :: "nat \<Rightarrow> nat list \<Rightarrow> nat \<times> nat list \<times> nat list" where
  "spec_drain B [] = (B, [], [])"
| "spec_drain B (m # ms) =
     (if m = B then case spec_drain (B + 1) ms of (B', buf, out) \<Rightarrow> (B', buf, m # out)
      else (B, m # ms, []))"

definition spec_receive :: "nat \<Rightarrow> nat \<Rightarrow> nat list \<Rightarrow> nat \<Rightarrow> nat \<times> nat list \<times> nat list" where
  "spec_receive w B buf n =
     (if B \<le> n \<and> n < B + w then
        if n = B then case spec_drain (B + 1) buf of (B', buf', out) \<Rightarrow> (B', buf', n # out)
        else if n \<in> set buf then (B, buf, [])
        else if length buf < 2 then (B, insort n buf, [])
        else case insort n buf of
               [] \<Rightarrow> (B, buf, [])
             | m # rest \<Rightarrow> (case spec_drain (m + 1) rest of (B', buf', out) \<Rightarrow> (B', buf', m # out))
      else (B, buf, []))"

text \<open>
  \<open>history_bits h B P\<close>: bit \<open>j\<close> of \<open>h\<close> says whether \<open>P\<close> holds of index
  \<open>B - 1 - j\<close>. The two histories describe the set \<open>D\<close> of indices delivered.
\<close>

definition history_bits :: "u32 \<Rightarrow> nat \<Rightarrow> (nat \<Rightarrow> bool) \<Rightarrow> bool" where
  "history_bits h B P \<longleftrightarrow> (\<forall>j < 32. bit h j = (j < B \<and> P (B - 1 - j)))"

definition history_of :: "(nat \<Rightarrow> bool) \<Rightarrow> nat \<Rightarrow> nat set \<Rightarrow> SegmentRx \<Rightarrow> bool" where
  "history_of nonce B D rx \<longleftrightarrow>
     history_bits (srx_rx_history rx) B (\<lambda>n. n \<in> D) \<and>
     history_bits (srx_nonce_history rx) B (\<lambda>n. n \<in> D \<and> nonce n)"

lemma history_bits_skip:
  assumes "history_bits h B P" and "B \<le> m" and "\<forall>n \<ge> B. \<not> P n"
  shows "history_bits (push_bit (m - B) h) m P"
  unfolding history_bits_def
proof (intro allI impI)
  fix j :: nat
  assume j: "j < 32"
  have "bit (push_bit (m - B) h) j \<longleftrightarrow> m - B \<le> j \<and> bit h (j - (m - B))"
    using j by (simp only: bit_push_bit_iff) simp
  also have "\<dots> \<longleftrightarrow> m - B \<le> j \<and> j - (m - B) < B \<and> P (B - 1 - (j - (m - B)))"
    using assms(1) j by (auto simp: history_bits_def)
  also have "\<dots> \<longleftrightarrow> j < m \<and> P (m - 1 - j)"
  proof (cases "m - B \<le> j")
    case True
    then have "B - 1 - (j - (m - B)) = m - 1 - j" "j - (m - B) < B \<longleftrightarrow> j < m"
      using assms(2) by auto
    with True show ?thesis by simp
  next
    case False
    with assms(3) have "\<not> P (m - 1 - j)" by simp
    with False show ?thesis by simp
  qed
  finally show "bit (push_bit (m - B) h) j \<longleftrightarrow> j < m \<and> P (m - 1 - j)" .
qed

lemma history_bits_forget:
  assumes "B + 32 \<le> m" and "\<forall>n \<ge> B. \<not> P n"
  shows "history_bits 0 m P"
  using assms by (auto simp: history_bits_def)

lemma history_bits_ack:
  assumes "history_bits h m P"
  shows "history_bits (push_bit 1 h OR of_bool x) (m + 1) (P(m := x))"
  unfolding history_bits_def
proof (intro allI impI)
  fix j :: nat
  assume j: "j < 32"
  show "bit (push_bit 1 h OR of_bool x) j \<longleftrightarrow> j < m + 1 \<and> (P(m := x)) (m + 1 - 1 - j)"
  proof (cases j)
    case 0
    then show ?thesis
      by (simp only: bit_or_iff bit_push_bit_iff) (simp add: bit_simps)
  next
    case (Suc i)
    with j assms have "bit h i \<longleftrightarrow> i < m \<and> P (m - 1 - i)"
      by (auto simp: history_bits_def)
    with Suc j show ?thesis
      by (simp only: bit_or_iff bit_push_bit_iff) (auto simp: bit_simps)
  qed
qed

text \<open>
  The sender's side of the relation: the identifier of index 0, what each segment holds,
  the nonce of each segment, the window size and the largest segment.
\<close>

record RxGhost =
  gh_start :: u32
  gh_sent :: "nat \<Rightarrow> bytes"
  gh_nonce :: "nat \<Rightarrow> bool"
  gh_window :: nat
  gh_size :: nat

abbreviation gh_id :: "RxGhost \<Rightarrow> nat \<Rightarrow> u32" where
  "gh_id g n \<equiv> gh_start g + word_of_nat n"

definition slot_holds :: "RxGhost \<Rightarrow> Slot \<Rightarrow> nat \<Rightarrow> bool" where
  "slot_holds g slot m \<longleftrightarrow>
     sl_id slot = gh_id g m \<and> slot_bytes slot = gh_sent g m \<and> sl_nonce slot = gh_nonce g m"

definition slots_hold :: "RxGhost \<Rightarrow> nat list \<Rightarrow> SegmentRx \<Rightarrow> bool" where
  "slots_hold g buf rx \<longleftrightarrow>
     length (sl_data (srx_slot_0 rx)) = gh_size g \<and> length (sl_data (srx_slot_1 rx)) = gh_size g \<and>
     srx_len rx = word_of_nat (length buf) \<and> length buf \<le> 2 \<and>
     (0 < length buf \<longrightarrow> slot_holds g (srx_slot_0 rx) (buf ! 0)) \<and>
     (1 < length buf \<longrightarrow> slot_holds g (srx_slot_1 rx) (buf ! 1))"

definition srx_core :: "RxGhost \<Rightarrow> nat \<Rightarrow> nat set \<Rightarrow> SegmentRx \<Rightarrow> bool" where
  "srx_core g B D rx \<longleftrightarrow>
     srx_base rx = gh_id g B \<and> unat (win_size (srx_window rx)) = gh_window g \<and>
     D \<subseteq> {..<B} \<and> history_of (gh_nonce g) B D rx"

definition srx_buf :: "RxGhost \<Rightarrow> nat \<Rightarrow> nat list \<Rightarrow> bool" where
  "srx_buf g B buf \<longleftrightarrow> sorted_wrt (<) buf \<and> (\<forall>m \<in> set buf. B \<le> m \<and> m < B + gh_window g)"

definition srx_rel :: "RxGhost \<Rightarrow> nat \<Rightarrow> nat list \<Rightarrow> nat set \<Rightarrow> SegmentRx \<Rightarrow> bool" where
  "srx_rel g B buf D rx \<longleftrightarrow> srx_core g B D rx \<and> slots_hold g buf rx \<and> srx_buf g B buf"

lemma srx_core_window: "srx_core g B D rx \<Longrightarrow> gh_window g < 4294967296"
  using seq_delta_less [of 0 "win_size (srx_window rx)"] by (auto simp: srx_core_def seq_delta_def)

text \<open>Delivering index \<open>m\<close> from base \<open>B\<close>, in terms of the histories.\<close>

lemma history_skips:
  assumes "history_of nonce B D rx" and "unat count = m - B" and "B \<le> m" and "D \<subseteq> {..<B}"
  shows "history_of nonce m D (push_history_skips count rx)"
proof -
  have "\<forall>n \<ge> B. n \<notin> D"
    using assms(4) by auto
  then show ?thesis
    using assms(1-3) history_bits_skip [of _ B _ m] history_bits_forget [of B m]
    by (auto simp: history_of_def push_history_skips_def word_less_nat_alt)
qed

lemma history_ack:
  assumes "history_of nonce m D rx" and "D \<subseteq> {..<m}"
  shows "history_of nonce (m + 1) (insert m D) (push_history_ack (nonce m) rx)"
proof -
  have "(\<lambda>n. n \<in> D)(m := True) = (\<lambda>n. n \<in> insert m D)"
    "(\<lambda>n. n \<in> D \<and> nonce n)(m := nonce m) = (\<lambda>n. n \<in> insert m D \<and> nonce n)"
    using assms(2) by (auto simp: fun_eq_iff)
  then show ?thesis
    using assms(1) history_bits_ack [of "srx_rx_history rx" m "\<lambda>n. n \<in> D" True]
      history_bits_ack [of "srx_nonce_history rx" m "\<lambda>n. n \<in> D \<and> nonce n" "nonce m"]
    by (simp add: history_of_def push_history_ack_def)
qed

named_theorems srx_frame

lemma push_history_frame [srx_frame]:
  "srx_window (push_history_ack x rx) = srx_window rx" "srx_window (push_history_skips c rx) = srx_window rx"
  "srx_slot_0 (push_history_ack x rx) = srx_slot_0 rx" "srx_slot_0 (push_history_skips c rx) = srx_slot_0 rx"
  "srx_slot_1 (push_history_ack x rx) = srx_slot_1 rx" "srx_slot_1 (push_history_skips c rx) = srx_slot_1 rx"
  "srx_len (push_history_ack x rx) = srx_len rx" "srx_len (push_history_skips c rx) = srx_len rx"
  by (simp_all add: push_history_ack_def push_history_skips_def)

lemma advance_window_frame [srx_frame]:
  "srx_slot_0 (advance_window_past i rx) = srx_slot_0 rx" "srx_slot_1 (advance_window_past i rx) = srx_slot_1 rx"
  "srx_len (advance_window_past i rx) = srx_len rx"
  by (simp_all add: advance_window_past_def)

text \<open>All of \<^verbatim>\<open>push_history_skips\<close>, \<^verbatim>\<open>push_history_ack\<close>, \<^verbatim>\<open>advance_window_past\<close>.\<close>

definition deliver_at :: "u32 \<Rightarrow> bool \<Rightarrow> SegmentRx \<Rightarrow> SegmentRx" where
  "deliver_at i nonce rx = advance_window_past i (push_history_ack nonce (push_history_skips (i - srx_base rx) rx))"

lemma deliver_at_frame [srx_frame]:
  "srx_slot_0 (deliver_at i x rx) = srx_slot_0 rx" "srx_slot_1 (deliver_at i x rx) = srx_slot_1 rx"
  "srx_len (deliver_at i x rx) = srx_len rx"
  by (simp_all add: deliver_at_def srx_frame)

lemma deliver_at_base:
  "deliver_at (srx_base rx) x rx = advance_window_past (srx_base rx) (push_history_ack x rx)"
  by (simp add: deliver_at_def push_history_skips_def)

lemma deliver_slot_at: "deliver_slot slot rx = deliver_at (sl_id slot) (sl_nonce slot) rx"
  by (simp add: deliver_slot_def deliver_at_def Let_def)

lemma srx_core_update [simp]:
  "srx_core g B D (srx_slot_0_update f rx) = srx_core g B D rx"
  "srx_core g B D (srx_slot_1_update f rx) = srx_core g B D rx"
  "srx_core g B D (srx_len_update h rx) = srx_core g B D rx"
  "srx_core g B D (swap_slots rx) = srx_core g B D rx"
  by (simp_all add: srx_core_def history_of_def swap_slots_def)

lemma srx_core_deliver:
  assumes core: "srx_core g B D rx" and m: "B \<le> m" "m < B + 4294967296"
  shows "srx_core g (m + 1) (insert m D) (deliver_at (gh_id g m) (gh_nonce g m) rx)"
proof -
  let ?c = "gh_id g m - srx_base rx"
  have "unat ?c = m - B"
    using core seq_delta_index [OF m] by (simp add: srx_core_def seq_delta_def)
  then have "history_of (gh_nonce g) m D (push_history_skips ?c rx)"
    using core m by (intro history_skips) (auto simp: srx_core_def)
  moreover have "D \<subseteq> {..<m}" "insert m D \<subseteq> {..<m + 1}"
    using core m by (auto simp: srx_core_def)
  ultimately have "history_of (gh_nonce g) (m + 1) (insert m D)
      (push_history_ack (gh_nonce g m) (push_history_skips ?c rx))"
    by (intro history_ack)
  with core \<open>insert m D \<subseteq> {..<m + 1}\<close> show ?thesis
    by (simp add: deliver_at_def srx_core_def advance_window_past_def srx_frame history_of_def algebra_simps)
qed

lemma slots_hold_cong:
  "srx_slot_0 rx' = srx_slot_0 rx \<Longrightarrow> srx_slot_1 rx' = srx_slot_1 rx \<Longrightarrow> srx_len rx' = srx_len rx \<Longrightarrow>
    slots_hold g buf rx' = slots_hold g buf rx"
  by (simp add: slots_hold_def)

text \<open>Removing the first buffered segment, as the loop does.\<close>

definition drop_first :: "SegmentRx \<Rightarrow> SegmentRx" where
  "drop_first rx = (if srx_len rx = 2 then swap_slots rx else rx)\<lparr>srx_len := srx_len rx - 1\<rparr>"

lemma slots_hold_tail: "slots_hold g (m # buf) rx \<Longrightarrow> slots_hold g buf (drop_first rx)"
  by (cases buf) (auto simp: slots_hold_def swap_slots_def drop_first_def)

lemma deliver_ready_step:
  assumes "srx_len rx \<noteq> 0" and "sl_id (srx_slot_0 rx) = srx_base rx"
  shows "deliver_ready rx =
    (case deliver_ready (drop_first (deliver_at (srx_base rx) (sl_nonce (srx_slot_0 rx)) rx)) of
       (rx', outs) \<Rightarrow> (rx', slot_bytes (srx_slot_0 rx) # outs))"
  using assms
  by (subst deliver_ready.simps)
    (simp add: deliver_at_base drop_first_def srx_frame Let_def word_neq_0_conv)

lemma deliver_ready_refines:
  assumes "srx_rel g B buf D rx" and "spec_drain B buf = (B', buf', out)"
  shows "\<exists>rx'. deliver_ready rx = (rx', map (gh_sent g) out) \<and> srx_rel g B' buf' (D \<union> set out) rx' \<and>
    (\<forall>m \<in> set buf'. B' < m)"
  using assms
proof (induction buf arbitrary: B D rx out)
  case Nil
  then have "srx_len rx = 0"
    by (simp add: srx_rel_def slots_hold_def)
  with Nil show ?case
    by (subst deliver_ready.simps) simp
next
  case (Cons m ms)
  have core: "srx_core g B D rx" and slots: "slots_hold g (m # ms) rx" and buf: "srx_buf g B (m # ms)"
    using Cons.prems(1) by (simp_all add: srx_rel_def)
  have m: "B \<le> m" "m < B + 4294967296"
    using buf srx_core_window [OF core] by (auto simp: srx_buf_def)
  have len: "srx_len rx \<noteq> 0" and s0: "slot_holds g (srx_slot_0 rx) m"
    using slots by (cases ms; auto simp: slots_hold_def)+
  have base: "srx_base rx = gh_id g B"
    using core by (simp add: srx_core_def)
  have eq: "sl_id (srx_slot_0 rx) = srx_base rx \<longleftrightarrow> m = B"
    using m s0 base seq_index_inject [of m B "gh_start g"] by (auto simp: slot_holds_def)
  show ?case
  proof (cases "m = B")
    case False
    then have "\<forall>x \<in> set (m # ms). B < x"
      using buf m(1) by (fastforce simp: srx_buf_def)
    with False Cons.prems eq len show ?thesis
      by (subst deliver_ready.simps) auto
  next
    case True
    obtain out1 where out: "out = m # out1" "spec_drain (B + 1) ms = (B', buf', out1)"
      using Cons.prems(2) True by (auto split: prod.splits)
    define rx1 where "rx1 = deliver_at (srx_base rx) (sl_nonce (srx_slot_0 rx)) rx"
    define rx2 where "rx2 = drop_first rx1"
    have "srx_core g (B + 1) (insert B D) rx1"
      using srx_core_deliver [OF core, of B] True s0 base by (simp add: rx1_def slot_holds_def)
    moreover have "slots_hold g ms rx2"
      unfolding rx2_def using slots slots_hold_cong [of rx1 rx]
      by (intro slots_hold_tail) (simp add: rx1_def srx_frame)
    moreover have "srx_buf g (B + 1) ms"
      using buf True by (auto simp: srx_buf_def Suc_le_eq)
    ultimately have "srx_rel g (B + 1) ms (insert B D) rx2"
      by (simp add: srx_rel_def rx2_def drop_first_def)
    from Cons.IH [OF this out(2)] obtain rx' where rx': "deliver_ready rx2 = (rx', map (gh_sent g) out1)"
        "srx_rel g B' buf' (insert B D \<union> set out1) rx'" "\<forall>m \<in> set buf'. B' < m"
      by blast
    have "deliver_ready rx = (rx', slot_bytes (srx_slot_0 rx) # map (gh_sent g) out1)"
      using rx'(1) deliver_ready_step [OF len] eq True by (simp add: rx2_def rx1_def)
    with rx' out True s0 show ?thesis
      by (simp add: slot_holds_def)
  qed
qed

lemma save_segment_holds:
  assumes "length (gh_sent g n) \<le> gh_size g" and "length (sl_data slot) = gh_size g"
  shows "\<exists>slot'. save_segment slot (gh_id g n) (gh_nonce g n) (gh_sent g n) = Some slot' \<and>
    slot_holds g slot' n \<and> length (sl_data slot') = gh_size g"
  using assms by (simp add: save_segment_def slot_holds_def slot_bytes_def)

lemma slots_hold_delta:
  assumes "srx_rel g B buf D rx" and "B \<le> n" and "n < B + gh_window g"
  shows "unat (gh_id g n - srx_base rx) = n - B"
  using assms srx_core_window [of g B D rx] seq_delta_index [of B n "gh_start g"]
  by (simp add: srx_rel_def srx_core_def seq_delta_def)

text \<open>\<^verbatim>\<open>swap_slots_if_backward\<close> sorts two buffered segments.\<close>

lemma swap_slots_sorts:
  assumes core: "srx_core g B D rx" and len: "srx_len rx = 2"
    and sz: "length (sl_data (srx_slot_0 rx)) = gh_size g" "length (sl_data (srx_slot_1 rx)) = gh_size g"
    and hold: "slot_holds g (srx_slot_0 rx) m" "slot_holds g (srx_slot_1 rx) k"
    and range: "B \<le> m" "m < B + gh_window g" "B \<le> k" "k < B + gh_window g" "m \<noteq> k"
  shows "slots_hold g (if m < k then [m, k] else [k, m]) (swap_slots_if_backward rx)"
    and "srx_core g B D (swap_slots_if_backward rx)"
proof -
  have "seq_delta (srx_base rx) (gh_id g m) = m - B" "seq_delta (srx_base rx) (gh_id g k) = k - B"
    using core srx_core_window [OF core] range by (auto simp: srx_core_def intro!: seq_delta_index)
  then have "sl_id (srx_slot_0 rx) - srx_base rx > sl_id (srx_slot_1 rx) - srx_base rx \<longleftrightarrow> k < m"
    using hold range by (simp add: slot_holds_def word_less_nat_alt seq_delta_def) linarith
  then show "slots_hold g (if m < k then [m, k] else [k, m]) (swap_slots_if_backward rx)"
    using len sz hold range(5)
    by (auto simp: swap_slots_if_backward_def swap_slots_def slots_hold_def)
  show "srx_core g B D (swap_slots_if_backward rx)"
    using core by (simp add: swap_slots_if_backward_def Let_def)
qed

lemma srx_window_test:
  assumes core: "srx_core g B D rx" and fresh: "n < B + 4294967296" "B + gh_window g \<le> n + 4294967296"
  shows "Window_contains (srx_window rx) (gh_id g n) \<longleftrightarrow> B \<le> n \<and> n < B + gh_window g"
proof (cases "B \<le> n")
  case True
  then show ?thesis
    using core seq_delta_index [OF True fresh(1)] by (auto simp: Window_contains_iff srx_core_def)
next
  case False
  show ?thesis
  proof (cases "B < n + 4294967296")
    case True
    then show ?thesis
      using False core fresh seq_delta_index_behind [of n B] by (simp add: Window_contains_iff srx_core_def)
  next
    case far: False
    then have "gh_window g = 0"
      using fresh(2) by simp
    then show ?thesis
      using core by (simp add: Window_contains_iff srx_core_def)
  qed
qed

section \<open>The receiver implements the specification\<close>

definition srx_state :: "RxGhost \<Rightarrow> nat \<Rightarrow> nat list \<Rightarrow> nat set \<Rightarrow> SegmentRx \<Rightarrow> bool" where
  "srx_state g B buf D rx \<longleftrightarrow> srx_rel g B buf D rx \<and> (\<forall>m \<in> set buf. B < m)"

text \<open>The outcome of \<^verbatim>\<open>receive\<close> that the specification asks for.\<close>

definition receives_to ::
    "RxGhost \<Rightarrow> (SegmentRx \<times> bytes list \<times> u8) rust \<Rightarrow> nat \<Rightarrow> nat list \<Rightarrow> nat set \<Rightarrow> nat list \<Rightarrow> bool" where
  "receives_to g r B buf D out \<longleftrightarrow>
     (\<exists>rx'. r = Some (rx', map (gh_sent g) out, word_of_nat (length buf)) \<and> srx_state g B buf D rx')"

lemma receives_to_finish:
  assumes "srx_core g (m + 1) (insert m D) rx" and "slots_hold g buf rx" and "srx_buf g (m + 1) buf"
    and "spec_drain (m + 1) buf = (B', buf', out)"
  shows "receives_to g (case deliver_ready rx of (rx, outs') \<Rightarrow> Some (rx, gh_sent g m # outs', srx_len rx))
     B' buf' (D \<union> set (m # out)) (m # out)"
proof -
  have "srx_rel g (m + 1) buf (insert m D) rx"
    using assms(1-3) by (simp add: srx_rel_def)
  from deliver_ready_refines [OF this assms(4)] show ?thesis
    by (auto simp: receives_to_def srx_state_def srx_rel_def slots_hold_def)
qed

lemma receives_to_keep:
  assumes "srx_core g B D rx" and "slots_hold g buf rx" and "srx_buf g B buf" and "\<forall>m \<in> set buf. B < m"
  shows "receives_to g (Some (rx, [], srx_len rx)) B buf D []"
  using assms by (simp add: receives_to_def srx_state_def srx_rel_def slots_hold_def)

lemma srx_state_parts:
  assumes "srx_state g B buf D rx"
  shows "srx_core g B D rx" "slots_hold g buf rx" "srx_buf g B buf" "\<forall>m \<in> set buf. B < m" "srx_base rx = gh_id g B"
    "length buf \<le> 2" "srx_len rx = word_of_nat (length buf)"
  using assms by (simp_all add: srx_state_def srx_rel_def srx_core_def slots_hold_def)

lemma receive_expected:
  assumes state: "srx_state g B buf D rx" and win: "Window_contains (srx_window rx) (gh_id g B)"
    and spec: "spec_drain (B + 1) buf = (B', buf', out)"
  shows "receives_to g (segment_rx_receive rx (gh_id g B) (gh_nonce g B) (gh_sent g B))
    B' buf' (D \<union> set (B # out)) (B # out)"
proof -
  note parts = srx_state_parts [OF state]
  define rx1 where "rx1 = deliver_at (gh_id g B) (gh_nonce g B) rx"
  have "srx_core g (B + 1) (insert B D) rx1"
    using srx_core_deliver [OF parts(1), of B] by (simp add: rx1_def)
  moreover have "slots_hold g buf rx1"
    using parts(2) slots_hold_cong [of rx1 rx] by (simp add: rx1_def srx_frame)
  moreover have "srx_buf g (B + 1) buf"
    using parts(3,4) by (auto simp: srx_buf_def Suc_le_eq)
  moreover have "segment_rx_receive rx (gh_id g B) (gh_nonce g B) (gh_sent g B) =
      (case deliver_ready rx1 of (rx, outs') \<Rightarrow> Some (rx, gh_sent g B # outs', srx_len rx))"
    using win parts(5) deliver_at_base [of rx "gh_nonce g B"]
    by (simp add: segment_rx_receive_def rx1_def Let_def)
  ultimately show ?thesis
    using receives_to_finish [OF _ _ _ spec] by simp
qed

lemma receive_first_early:
  assumes state: "srx_state g B [] D rx" and win: "Window_contains (srx_window rx) (gh_id g n)"
    and size: "length (gh_sent g n) \<le> gh_size g" and n: "B < n" "n < B + gh_window g"
  shows "receives_to g (segment_rx_receive rx (gh_id g n) (gh_nonce g n) (gh_sent g n)) B [n] D []"
proof -
  note parts = srx_state_parts [OF state]
  obtain slot' where slot: "save_segment (srx_slot_0 rx) (gh_id g n) (gh_nonce g n) (gh_sent g n) = Some slot'"
      "slot_holds g slot' n" "length (sl_data slot') = gh_size g"
    using save_segment_holds [OF size] parts(2) by (auto simp: slots_hold_def)
  have ne: "gh_id g n \<noteq> srx_base rx"
    using seq_index_inject [of n B "gh_start g"] n srx_core_window [OF parts(1)] parts(5) by auto
  have "segment_rx_receive rx (gh_id g n) (gh_nonce g n) (gh_sent g n) =
      Some (rx\<lparr>srx_slot_0 := slot', srx_len := 1\<rparr>, [], srx_len (rx\<lparr>srx_slot_0 := slot', srx_len := 1\<rparr>))"
    using win ne parts(7) slot(1) by (simp add: segment_rx_receive_def Let_def)
  moreover have "slots_hold g [n] (rx\<lparr>srx_slot_0 := slot', srx_len := 1\<rparr>)"
    using parts(2) slot by (simp add: slots_hold_def)
  moreover have "srx_buf g B [n]"
    using n by (simp add: srx_buf_def)
  ultimately show ?thesis
    using receives_to_keep [of g B D "rx\<lparr>srx_slot_0 := slot', srx_len := 1\<rparr>" "[n]"] parts(1) n(1) by simp
qed

lemma receive_second_early:
  assumes state: "srx_state g B [m] D rx" and win: "Window_contains (srx_window rx) (gh_id g n)"
    and size: "length (gh_sent g n) \<le> gh_size g" and n: "B < n" "n < B + gh_window g"
  shows "receives_to g (segment_rx_receive rx (gh_id g n) (gh_nonce g n) (gh_sent g n)) B
    (if n = m then [m] else insort n [m]) D []"
proof -
  note parts = srx_state_parts [OF state]
  have m: "B < m" "m < B + gh_window g" and s0: "slot_holds g (srx_slot_0 rx) m"
    using parts(2-4) by (auto simp: slots_hold_def srx_buf_def)
  note close = srx_core_window [OF parts(1)]
  have ne: "gh_id g n \<noteq> srx_base rx" and eq: "sl_id (srx_slot_0 rx) = gh_id g n \<longleftrightarrow> m = n"
    using seq_index_inject [of n B "gh_start g"] seq_index_inject [of m n "gh_start g"] n m close parts(5) s0
    by (auto simp: slot_holds_def)
  show ?thesis
  proof (cases "n = m")
    case True
    then show ?thesis
      using win ne eq parts receives_to_keep [OF parts(1-4)] by (simp add: segment_rx_receive_def Let_def)
  next
    case False
    obtain slot' where slot: "save_segment (srx_slot_1 rx) (gh_id g n) (gh_nonce g n) (gh_sent g n) = Some slot'"
        "slot_holds g slot' n" "length (sl_data slot') = gh_size g"
      using save_segment_holds [OF size] parts(2) by (auto simp: slots_hold_def)
    let ?rx1 = "rx\<lparr>srx_slot_1 := slot', srx_len := 2\<rparr>"
    have sorted: "(if m < n then [m, n] else [n, m]) = insort n [m]"
      using False by auto
    have pre: "srx_core g B D ?rx1" "srx_len ?rx1 = 2" "length (sl_data (srx_slot_0 ?rx1)) = gh_size g"
        "length (sl_data (srx_slot_1 ?rx1)) = gh_size g" "slot_holds g (srx_slot_0 ?rx1) m"
        "slot_holds g (srx_slot_1 ?rx1) n" "B \<le> m" "m < B + gh_window g" "B \<le> n" "n < B + gh_window g" "m \<noteq> n"
      using parts(1,2) slot s0 n m False by (simp_all add: slots_hold_def)
    note new = swap_slots_sorts [OF pre, unfolded sorted]
    have buf: "srx_buf g B (insort n [m])" "\<forall>x \<in> set (insort n [m]). B < x"
      using n m False by (auto simp: srx_buf_def)
    have "segment_rx_receive rx (gh_id g n) (gh_nonce g n) (gh_sent g n) =
        Some (swap_slots_if_backward ?rx1, [], srx_len (swap_slots_if_backward ?rx1))"
      using win ne parts(7) slot(1) False eq by (simp add: segment_rx_receive_def Let_def)
    with receives_to_keep [OF new(2,1) buf] False show ?thesis
      by (simp only: if_False)
  qed
qed

lemma receive_third_early:
  assumes state: "srx_state g B [m, k] D rx" and win: "Window_contains (srx_window rx) (gh_id g n)"
    and size: "length (gh_sent g n) \<le> gh_size g" and n: "B < n" "n < B + gh_window g" "n \<noteq> m" "n \<noteq> k"
    and spec: "spec_drain (min n m + 1) (tl (insort n [m, k])) = (B', buf', out)"
  shows "receives_to g (segment_rx_receive rx (gh_id g n) (gh_nonce g n) (gh_sent g n))
    B' buf' (D \<union> set (min n m # out)) (min n m # out)"
proof -
  note parts = srx_state_parts [OF state]
  have m: "B < m" "m < k" "k < B + gh_window g"
    and s: "slot_holds g (srx_slot_0 rx) m" "slot_holds g (srx_slot_1 rx) k"
    using parts(2-4) by (auto simp: slots_hold_def srx_buf_def)
  note close = srx_core_window [OF parts(1)]
  have ne: "gh_id g n \<noteq> srx_base rx" "sl_id (srx_slot_0 rx) \<noteq> gh_id g n" "sl_id (srx_slot_1 rx) \<noteq> gh_id g n"
    using seq_index_inject [of n B "gh_start g"] seq_index_inject [of m n "gh_start g"]
      seq_index_inject [of k n "gh_start g"] n m close parts(5) s
    by (auto simp: slot_holds_def)
  have rel: "srx_rel g B [m, k] D rx"
    using state by (simp add: srx_state_def)
  have lt: "gh_id g n - srx_base rx < sl_id (srx_slot_0 rx) - srx_base rx \<longleftrightarrow> n < m"
    using slots_hold_delta [OF rel, of n] slots_hold_delta [OF rel, of m] s(1) n m
    by (auto simp: word_less_nat_alt slot_holds_def)
  show ?thesis
  proof (cases "n < m")
    case True
    define rx1 where "rx1 = deliver_at (gh_id g n) (gh_nonce g n) rx"
    have "srx_core g (n + 1) (insert n D) rx1"
      using srx_core_deliver [OF parts(1), of n] n close by (simp add: rx1_def)
    moreover have "slots_hold g [m, k] rx1"
      using parts(2) slots_hold_cong [of rx1 rx] by (simp add: rx1_def srx_frame)
    moreover have "srx_buf g (n + 1) [m, k]"
      using m True n by (auto simp: srx_buf_def)
    moreover have "segment_rx_receive rx (gh_id g n) (gh_nonce g n) (gh_sent g n) =
        (case deliver_ready rx1 of (rx, outs') \<Rightarrow> Some (rx, gh_sent g n # outs', srx_len rx))"
      using win ne lt True parts(7)
      by (simp add: segment_rx_receive_def rx1_def deliver_at_def Let_def)
    ultimately show ?thesis
      using receives_to_finish [of g n D rx1 "[m, k]" B' buf' out] spec True m by simp
  next
    case False
    define rx1 where "rx1 = deliver_at (gh_id g m) (gh_nonce g m) rx"
    obtain slot' where slot: "save_segment (srx_slot_0 rx) (gh_id g n) (gh_nonce g n) (gh_sent g n) = Some slot'"
        "slot_holds g slot' n" "length (sl_data slot') = gh_size g"
      using save_segment_holds [OF size] parts(2) by (auto simp: slots_hold_def)
    let ?rx2 = "rx1\<lparr>srx_slot_0 := slot'\<rparr>"
    have "srx_core g (m + 1) (insert m D) ?rx2"
      using srx_core_deliver [OF parts(1), of m] m close by (simp add: rx1_def)
    moreover have "srx_len ?rx2 = 2" "length (sl_data (srx_slot_1 ?rx2)) = gh_size g" "slot_holds g (srx_slot_1 ?rx2) k"
      using parts(2) s by (simp_all add: rx1_def srx_frame slots_hold_def)
    ultimately have new: "slots_hold g (if n < k then [n, k] else [k, n]) (swap_slots_if_backward ?rx2)"
        "srx_core g (m + 1) (insert m D) (swap_slots_if_backward ?rx2)"
      using swap_slots_sorts [of g "m + 1" "insert m D" ?rx2 n k] slot n m False by simp_all
    have "srx_buf g (m + 1) (if n < k then [n, k] else [k, n])"
      using n m False by (auto simp: srx_buf_def)
    moreover have "tl (insort n [m, k]) = (if n < k then [n, k] else [k, n])" "min n m = m"
      using False n by auto
    moreover have "segment_rx_receive rx (gh_id g n) (gh_nonce g n) (gh_sent g n) =
        (case deliver_ready (swap_slots_if_backward ?rx2) of
           (rx, outs') \<Rightarrow> Some (rx, gh_sent g m # outs', srx_len rx))"
      using win ne lt False parts(7) slot(1) s(1)
      by (simp add: segment_rx_receive_def rx1_def deliver_at_def slot_holds_def Let_def srx_frame)
    ultimately show ?thesis
      using receives_to_finish [OF new(2,1)] spec by simp
  qed
qed

text \<open>
  Any segment whose index is not a full turn away: the receiver does what the specification
  says.
\<close>

definition rx_fresh :: "nat \<Rightarrow> nat \<Rightarrow> nat \<Rightarrow> bool" where
  "rx_fresh w B n \<longleftrightarrow> n < B + 4294967296 \<and> B + w < n + 4294967296"

lemma receive_refines:
  assumes state: "srx_state g B buf D rx" and fresh: "rx_fresh (gh_window g) B n"
    and size: "length (gh_sent g n) \<le> gh_size g"
    and spec: "spec_receive (gh_window g) B buf n = (B', buf', out)"
  shows "receives_to g (segment_rx_receive rx (gh_id g n) (gh_nonce g n) (gh_sent g n)) B' buf' (D \<union> set out) out"
proof -
  note parts = srx_state_parts [OF state]
  have win: "Window_contains (srx_window rx) (gh_id g n) \<longleftrightarrow> B \<le> n \<and> n < B + gh_window g"
    using srx_window_test [OF parts(1)] fresh by (simp add: rx_fresh_def)
  consider (out) "\<not> (B \<le> n \<and> n < B + gh_window g)" | (now) "n = B" "n < B + gh_window g"
    | (early) "B < n" "n < B + gh_window g"
    by linarith
  then show ?thesis
  proof cases
    case out
    then have "\<not> Window_contains (srx_window rx) (gh_id g n)"
      using win by blast
    then have "segment_rx_receive rx (gh_id g n) (gh_nonce g n) (gh_sent g n) = Some (rx, [], srx_len rx)"
      by (simp add: segment_rx_receive_def)
    moreover have "B' = B" "buf' = buf" "out = []"
      using out spec by (auto simp: spec_receive_def split: if_splits)
    ultimately show ?thesis
      using receives_to_keep [OF parts(1-4)] by simp
  next
    case now
    then show ?thesis
      using spec receive_expected [OF state] win by (auto simp: spec_receive_def split: prod.splits)
  next
    case early
    then have win': "Window_contains (srx_window rx) (gh_id g n)"
      using win by simp
    consider "buf = []" | m where "buf = [m]" | m k where "buf = [m, k]"
      using parts(6) by (cases buf rule: list.exhaust; cases "tl buf"; cases "tl (tl buf)") auto
    then show ?thesis
    proof cases
      case 1
      with early spec state receive_first_early [OF _ win' size early] show ?thesis
        by (simp add: spec_receive_def)
    next
      case (2 m)
      with early spec state receive_second_early [OF _ win' size early, of m D] show ?thesis
        by (auto simp: spec_receive_def split: if_splits)
    next
      case (3 m k)
      have mk: "m < k" "m \<noteq> B" "k \<noteq> B"
        using parts(3,4) 3 by (auto simp: srx_buf_def)
      show ?thesis
      proof (cases "n = m \<or> n = k")
        case True
        have "deliver_ready rx = (rx, [])"
          using parts(2,5,7) 3 mk seq_index_inject [of m B "gh_start g"] parts(3) srx_core_window [OF parts(1)]
          by (subst deliver_ready.simps) (auto simp: slots_hold_def slot_holds_def srx_buf_def)
        then have "segment_rx_receive rx (gh_id g n) (gh_nonce g n) (gh_sent g n) = Some (rx, [], srx_len rx)"
          using True win' parts(2,5,7) 3 early seq_index_inject [of n B "gh_start g"] srx_core_window [OF parts(1)]
          by (auto simp: segment_rx_receive_def slots_hold_def slot_holds_def Let_def)
        then show ?thesis
          using True 3 early spec receives_to_keep [OF parts(1-4)] by (auto simp: spec_receive_def)
      next
        case False
        have ins: "insort n [m, k] = min n m # tl (insort n [m, k])"
          by auto
        obtain out1 where "spec_drain (min n m + 1) (tl (insort n [m, k])) = (B', buf', out1)" "out = min n m # out1"
          using False 3 early spec by (subst (asm) spec_receive_def) (auto split: prod.splits if_splits)
        with receive_third_early [OF state [unfolded 3] win' size early] False show ?thesis
          by simp
      qed
    qed
  qed
qed

section \<open>Synchronisation\<close>

definition spec_sync :: "RxGhost \<Rightarrow> nat \<Rightarrow> nat list \<Rightarrow> nat \<Rightarrow> nat \<times> nat list \<times> nat list" where
  "spec_sync g B buf n =
     (let min_delta = (if buf = [] then unat (gh_id g B) else last buf - B)
      in if B \<le> n \<and> min_delta < n - B \<and> n - B \<le> gh_window g then (n, [], buf) else (B, buf, []))"

lemma srx_core_skip:
  assumes core: "srx_core g B D rx" and n: "B \<le> n" "n < B + 4294967296"
  shows "srx_core g n D (let rx = push_history_skips (gh_id g n - srx_base rx) rx
    in rx\<lparr>srx_window := (srx_window rx)\<lparr>win_base_id := gh_id g n\<rparr>\<rparr>)"
proof -
  let ?c = "gh_id g n - srx_base rx"
  have "unat ?c = n - B"
    using core seq_delta_index [OF n] by (simp add: srx_core_def seq_delta_def)
  then have "history_of (gh_nonce g) n D (push_history_skips ?c rx)"
    using core n by (intro history_skips) (auto simp: srx_core_def)
  with core n show ?thesis
    by (auto simp: srx_core_def srx_frame history_of_def Let_def)
qed

lemma sync_delta:
  assumes core: "srx_core g B D rx" and fresh: "rx_fresh (gh_window g) B n"
  shows "unat (gh_id g n - srx_base rx) \<le> gh_window g \<longleftrightarrow> B \<le> n \<and> n - B \<le> gh_window g"
    and "B \<le> n \<Longrightarrow> unat (gh_id g n - srx_base rx) = n - B"
proof -
  show eq: "B \<le> n \<Longrightarrow> unat (gh_id g n - srx_base rx) = n - B"
    using core fresh seq_delta_index [of B n "gh_start g"] by (simp add: srx_core_def rx_fresh_def seq_delta_def)
  have "unat (gh_id g n - srx_base rx) = 4294967296 + n - B" if "n < B" "B < n + 4294967296"
    using core seq_delta_index_behind [OF that, of "gh_start g"] by (simp add: srx_core_def seq_delta_def)
  with eq fresh show "unat (gh_id g n - srx_base rx) \<le> gh_window g \<longleftrightarrow> B \<le> n \<and> n - B \<le> gh_window g"
    by (cases "B \<le> n") (auto simp: rx_fresh_def)
qed

lemma sync_accepts:
  assumes core: "srx_core g B D rx" and slots: "slots_hold g buf rx" and buf: "srx_buf g B buf"
    and n: "B \<le> n" "n < B + 4294967296" "\<forall>m \<in> set buf. m < n"
  shows "\<exists>rx1. deliver_outstanding rx = (rx1, map (gh_sent g) buf) \<and>
    (\<exists>B1. B1 \<le> n \<and> n < B1 + 4294967296 \<and> srx_core g B1 (D \<union> set buf) rx1) \<and> slots_hold g buf rx1"
proof -
  note close = srx_core_window [OF core]
  have deliver: "srx_core g (m + 1) (insert m D') (deliver_slot slot rx')"
    if "srx_core g B' D' rx'" "slot_holds g slot m" "B' \<le> m" "m < B' + 4294967296" for B' m D' slot rx'
    using srx_core_deliver [OF that(1,3,4)] that(2) by (simp add: deliver_slot_at slot_holds_def)
  consider "buf = []" | m where "buf = [m]" | m k where "buf = [m, k]"
    using slots by (cases buf rule: list.exhaust; cases "tl buf"; cases "tl (tl buf)") (auto simp: slots_hold_def)
  then show ?thesis
  proof cases
    case 1
    with core slots n show ?thesis by (auto simp: slots_hold_def deliver_outstanding_def)
  next
    case (2 m)
    then have s: "slot_holds g (srx_slot_0 rx) m" "srx_len rx = 1"
      using slots by (simp_all add: slots_hold_def)
    have "srx_core g (m + 1) (insert m D) (deliver_slot (srx_slot_0 rx) rx)"
      using 2 s buf close by (intro deliver [OF core]) (auto simp: srx_buf_def)
    moreover have "deliver_outstanding rx = (deliver_slot (srx_slot_0 rx) rx, map (gh_sent g) buf)"
      using 2 s by (simp add: deliver_outstanding_def deliver_slot_at srx_frame slot_holds_def)
    moreover have "slots_hold g buf (deliver_slot (srx_slot_0 rx) rx)"
      using slots slots_hold_cong [of "deliver_slot (srx_slot_0 rx) rx" rx] by (simp add: deliver_slot_at srx_frame)
    moreover have "m + 1 \<le> n" "n < m + 1 + 4294967296"
      using n 2 buf by (auto simp: srx_buf_def)
    ultimately show ?thesis
      by (intro exI [of _ "deliver_slot (srx_slot_0 rx) rx"] conjI exI [of _ "m + 1"]) (simp_all add: 2)
  next
    case (3 m k)
    define rx1 where "rx1 = deliver_slot (srx_slot_0 rx) rx"
    have s: "slot_holds g (srx_slot_0 rx) m" "slot_holds g (srx_slot_1 rx1) k" "srx_len rx1 = 2" "srx_len rx = 2"
      using 3 slots by (simp_all add: slots_hold_def rx1_def deliver_slot_at srx_frame)
    have "srx_core g (m + 1) (insert m D) rx1"
      unfolding rx1_def using 3 s buf close by (intro deliver [OF core]) (auto simp: srx_buf_def)
    then have "srx_core g (k + 1) (insert k (insert m D)) (deliver_slot (srx_slot_1 rx1) rx1)"
      using 3 s buf close by (intro deliver) (auto simp: srx_buf_def)
    moreover have "slots_hold g buf (deliver_slot (srx_slot_1 rx1) rx1)"
      using slots slots_hold_cong [of "deliver_slot (srx_slot_1 rx1) rx1" rx]
      by (simp add: rx1_def deliver_slot_at srx_frame)
    moreover have "insert k (insert m D) = D \<union> set buf"
      using 3 by auto
    moreover have "k + 1 \<le> n" "n < k + 1 + 4294967296"
      using n 3 buf by (auto simp: srx_buf_def)
    moreover have "deliver_outstanding rx = (deliver_slot (srx_slot_1 rx1) rx1, map (gh_sent g) buf)"
      using 3 s by (simp add: deliver_outstanding_def slot_holds_def flip: rx1_def)
    ultimately show ?thesis
      by (intro exI [of _ "deliver_slot (srx_slot_1 rx1) rx1"] conjI exI [of _ "k + 1"]) simp_all
  qed
qed

lemma sync_refines:
  assumes state: "srx_state g B buf D rx" and fresh: "rx_fresh (gh_window g) B n"
    and spec: "spec_sync g B buf n = (B', buf', out)"
  shows "\<exists>rx'. segment_rx_sync rx (gh_id g n) = (rx', map (gh_sent g) out) \<and> srx_state g B' buf' (D \<union> set out) rx'"
proof -
  note parts = srx_state_parts [OF state]
  let ?min = "if srx_len rx = 1 then sl_id (srx_slot_0 rx) - srx_base rx
    else if srx_len rx = 2 then sl_id (srx_slot_1 rx) - srx_base rx else srx_base rx"
  have rel: "srx_rel g B buf D rx"
    using state by (simp add: srx_state_def)
  have min: "unat ?min = (if buf = [] then unat (gh_id g B) else last buf - B)"
    using parts(2,3,5,6) slots_hold_delta [OF rel, of "last buf"]
    by (cases buf; cases "tl buf") (auto simp: slots_hold_def slot_holds_def srx_buf_def)
  note delta = sync_delta [OF parts(1) fresh]
  let ?ok = "B \<le> n \<and> (if buf = [] then unat (gh_id g B) else last buf - B) < n - B \<and> n - B \<le> gh_window g"
  have ok: "(gh_id g n - srx_base rx > ?min \<and> gh_id g n - srx_base rx \<le> win_size (srx_window rx)) \<longleftrightarrow> ?ok"
    using delta parts(1) min by (auto simp: word_less_nat_alt word_le_nat_alt srx_core_def)
  show ?thesis
  proof (cases ?ok)
    case False
    then show ?thesis
      using spec state ok by (auto simp: spec_sync_def segment_rx_sync_def Let_def)
  next
    case True
    then have n: "B \<le> n" "n < B + 4294967296"
      using fresh by (auto simp: rx_fresh_def)
    have later: "\<forall>m \<in> set buf. m < n"
    proof
      fix m
      assume m: "m \<in> set buf"
      then have "m \<le> last buf"
        using parts(3) by (induction buf) (auto simp: srx_buf_def less_imp_le)
      with True m show "m < n"
        by (auto split: if_splits)
    qed
    obtain rx1 B1 where rx1: "deliver_outstanding rx = (rx1, map (gh_sent g) buf)"
      and core1: "B1 \<le> n" "n < B1 + 4294967296" "srx_core g B1 (D \<union> set buf) rx1" and slots1: "slots_hold g buf rx1"
      using sync_accepts [OF parts(1-3) n later] by blast
    let ?rx2 = "rx1\<lparr>srx_len := 0\<rparr>"
    let ?rx3 = "push_history_skips (gh_id g n - srx_base ?rx2) ?rx2"
    let ?rx4 = "?rx3\<lparr>srx_window := (srx_window ?rx3)\<lparr>win_base_id := gh_id g n\<rparr>\<rparr>"
    have "segment_rx_sync rx (gh_id g n) = (?rx4, map (gh_sent g) buf)"
      using True ok rx1 by (simp add: segment_rx_sync_def Let_def)
    moreover have "srx_core g n (D \<union> set buf) ?rx4"
      using srx_core_skip [of g B1 "D \<union> set buf" ?rx2 n] core1 by (simp add: Let_def)
    moreover have "slots_hold g [] ?rx4"
      using slots1 by (simp add: slots_hold_def srx_frame)
    moreover have "B' = n" "buf' = []" "out = buf"
      using spec True by (auto simp: spec_sync_def)
    ultimately show ?thesis
      by (auto simp: srx_state_def srx_rel_def srx_buf_def)
  qed
qed

section \<open>Runs of the receiver\<close>

datatype RxEvent = SegmentEv nat | SyncEv nat

fun rx_step :: "RxGhost \<Rightarrow> RxEvent \<Rightarrow> SegmentRx \<Rightarrow> (SegmentRx \<times> bytes list) rust" where
  "rx_step g (SegmentEv n) rx =
     map_option (\<lambda>(rx, outs, k). (rx, outs)) (segment_rx_receive rx (gh_id g n) (gh_nonce g n) (gh_sent g n))"
| "rx_step g (SyncEv n) rx = Some (segment_rx_sync rx (gh_id g n))"

fun rx_run :: "RxGhost \<Rightarrow> RxEvent list \<Rightarrow> SegmentRx \<Rightarrow> (SegmentRx \<times> bytes list) rust" where
  "rx_run g [] rx = Some (rx, [])"
| "rx_run g (e # evs) rx = do {
     (rx, outs) \<leftarrow> rx_step g e rx;
     (rx, outs') \<leftarrow> rx_run g evs rx;
     Some (rx, outs @ outs') }"

fun spec_step :: "RxGhost \<Rightarrow> RxEvent \<Rightarrow> nat \<Rightarrow> nat list \<Rightarrow> nat \<times> nat list \<times> nat list" where
  "spec_step g (SegmentEv n) B buf = spec_receive (gh_window g) B buf n"
| "spec_step g (SyncEv n) B buf = spec_sync g B buf n"

fun spec_run :: "RxGhost \<Rightarrow> RxEvent list \<Rightarrow> nat \<Rightarrow> nat list \<Rightarrow> nat \<times> nat list \<times> nat list" where
  "spec_run g [] B buf = (B, buf, [])"
| "spec_run g (e # evs) B buf =
     (case spec_step g e B buf of (B, buf, out) \<Rightarrow>
      case spec_run g evs B buf of (B, buf, out') \<Rightarrow> (B, buf, out @ out'))"

fun event_index :: "RxEvent \<Rightarrow> nat" where
  "event_index (SegmentEv n) = n"
| "event_index (SyncEv n) = n"

text \<open>No event arrives a full turn of the identifiers late or early.\<close>

fun fresh_run :: "RxGhost \<Rightarrow> RxEvent list \<Rightarrow> nat \<Rightarrow> nat list \<Rightarrow> bool" where
  "fresh_run g [] B buf = True"
| "fresh_run g (e # evs) B buf =
     (rx_fresh (gh_window g) B (event_index e) \<and>
      (case spec_step g e B buf of (B, buf, out) \<Rightarrow> fresh_run g evs B buf))"

lemma rx_step_refines:
  assumes "srx_state g B buf D rx" and "rx_fresh (gh_window g) B (event_index e)"
    and "\<forall>n. length (gh_sent g n) \<le> gh_size g" and "spec_step g e B buf = (B', buf', out)"
  shows "\<exists>rx'. rx_step g e rx = Some (rx', map (gh_sent g) out) \<and> srx_state g B' buf' (D \<union> set out) rx'"
proof (cases e)
  case (SegmentEv n)
  then show ?thesis
    using receive_refines [OF assms(1), of n B' buf' out] assms(2-4) by (auto simp: receives_to_def)
next
  case (SyncEv n)
  then show ?thesis
    using sync_refines [OF assms(1), of n B' buf' out] assms(2,4) by auto
qed

lemma rx_run_refines:
  assumes "srx_state g B buf D rx" and "fresh_run g evs B buf"
    and "\<forall>n. length (gh_sent g n) \<le> gh_size g" and "spec_run g evs B buf = (B', buf', out)"
  shows "\<exists>rx'. rx_run g evs rx = Some (rx', map (gh_sent g) out) \<and> srx_state g B' buf' (D \<union> set out) rx'"
  using assms
proof (induction evs arbitrary: B buf D rx out)
  case (Cons e evs)
  obtain B1 buf1 out1 where step: "spec_step g e B buf = (B1, buf1, out1)"
    by (metis prod.exhaust)
  obtain out2 where rest: "spec_run g evs B1 buf1 = (B', buf', out2)" "out = out1 @ out2"
    using Cons.prems(4) step by (auto split: prod.splits)
  obtain rx1 where rx1: "rx_step g e rx = Some (rx1, map (gh_sent g) out1)" "srx_state g B1 buf1 (D \<union> set out1) rx1"
    using rx_step_refines [OF Cons.prems(1) _ Cons.prems(3) step] Cons.prems(2) by auto
  obtain rx2 where "rx_run g evs rx1 = Some (rx2, map (gh_sent g) out2)"
      "srx_state g B' buf' (D \<union> set out1 \<union> set out2) rx2"
    using Cons.IH [OF rx1(2) _ Cons.prems(3) rest(1)] Cons.prems(2) step by auto
  with rx1(1) rest(2) show ?case
    by (auto simp: Un_assoc)
qed simp

text \<open>The specification delivers in increasing order, and only what arrived.\<close>

definition spec_outcome :: "nat \<Rightarrow> nat set \<Rightarrow> nat \<times> nat list \<times> nat list \<Rightarrow> bool" where
  "spec_outcome B I r \<longleftrightarrow>
     (case r of (B', buf', out) \<Rightarrow> B \<le> B' \<and> sorted_wrt (<) out \<and> (\<forall>m \<in> set out. B \<le> m \<and> m < B') \<and>
        sorted_wrt (<) buf' \<and> (\<forall>m \<in> set buf'. B' < m) \<and> set out \<union> set buf' \<subseteq> I)"

lemma spec_drain_outcome:
  assumes "sorted_wrt (<) buf" and "\<forall>m \<in> set buf. B \<le> m"
  shows "spec_outcome B (set buf) (spec_drain B buf)"
  using assms
proof (induction buf arbitrary: B)
  case (Cons m ms)
  show ?case
  proof (cases "m = B")
    case True
    with Cons.IH [of "B + 1"] Cons.prems show ?thesis
      by (fastforce simp: spec_outcome_def Suc_le_eq split: prod.splits)
  qed (use Cons.prems in \<open>fastforce simp: spec_outcome_def\<close>)
qed (simp add: spec_outcome_def)

lemma spec_outcome_first:
  assumes "spec_outcome (m + 1) I (B', buf', out)" and "B \<le> m" and "m \<in> J" and "I \<subseteq> J"
  shows "spec_outcome B J (B', buf', m # out)"
  using assms by (auto simp: spec_outcome_def Suc_le_eq)

lemma sorted_wrt_insort: "sorted_wrt (<) xs \<Longrightarrow> n \<notin> set xs \<Longrightarrow> sorted_wrt (<) (insort n xs)" for xs :: "nat list"
  by (simp add: strict_sorted_iff sorted_insort distinct_insort)

lemma spec_receive_outcome:
  assumes buf: "sorted_wrt (<) buf" "\<forall>m \<in> set buf. B < m"
  shows "spec_outcome B (insert n (set buf)) (spec_receive w B buf n)"
proof -
  have keep: "spec_outcome B (insert n (set buf)) (B, buf, [])"
    using buf by (auto simp: spec_outcome_def)
  consider (now) "B \<le> n" "n < B + w" "n = B"
    | (full) "B < n" "n < B + w" "n \<notin> set buf" "\<not> length buf < 2"
    | (early) "B < n" "n < B + w" "n \<notin> set buf" "length buf < 2"
    | (ignored) "\<not> (B \<le> n \<and> n < B + w) \<or> (n \<noteq> B \<and> n \<in> set buf)"
    by (cases "n \<in> set buf"; cases "length buf < 2"; linarith)
  then show ?thesis
  proof cases
    case now
    obtain B' buf' out where d: "spec_drain (B + 1) buf = (B', buf', out)"
      by (metis prod.exhaust)
    have "spec_outcome (B + 1) (set buf) (B', buf', out)"
      unfolding d [symmetric] using buf by (intro spec_drain_outcome) (auto simp: Suc_le_eq)
    with now d spec_outcome_first [of B "set buf" B' buf' out B] show ?thesis
      by (auto simp: spec_receive_def)
  next
    case full
    obtain m rest where ins: "insort n buf = m # rest"
      by (cases "insort n buf") (simp_all add: insort_not_Nil)
    obtain B' buf' out where d: "spec_drain (m + 1) rest = (B', buf', out)"
      by (metis prod.exhaust)
    have sorted: "sorted_wrt (<) (m # rest)"
      using sorted_wrt_insort [OF buf(1) full(3)] by (simp add: ins)
    have sets: "insert n (set buf) = insert m (set rest)"
      using set_insort_key [of "\<lambda>x. x" n buf] by (simp add: ins)
    then have "B \<le> m"
      using full(1) buf(2) by (metis insertE insertI1 less_imp_le)
    moreover have "spec_outcome (m + 1) (set rest) (B', buf', out)"
      unfolding d [symmetric] using sorted by (intro spec_drain_outcome) (auto simp: Suc_le_eq)
    ultimately show ?thesis
      using full d ins sets spec_outcome_first [of m "set rest" B' buf' out B "insert n (set buf)"]
      by (auto simp: spec_receive_def)
  next
    case early
    then have "spec_outcome B (insert n (set buf)) (B, insort n buf, [])"
      using sorted_wrt_insort [OF buf(1)] buf(2) by (auto simp: spec_outcome_def set_insort_key)
    with early show ?thesis
      by (simp add: spec_receive_def)
  next
    case ignored
    then show ?thesis
      using keep by (auto simp: spec_receive_def)
  qed
qed

lemma spec_sync_outcome:
  assumes "sorted_wrt (<) buf" and "\<forall>m \<in> set buf. B < m"
  shows "spec_outcome B (set buf) (spec_sync g B buf n)"
proof -
  have "m \<le> last buf" if "m \<in> set buf" for m
    using assms(1) that by (induction buf) (auto simp: less_imp_le)
  with assms show ?thesis
    by (fastforce simp: spec_sync_def spec_outcome_def Let_def split: if_splits)
qed

definition arrived :: "RxEvent list \<Rightarrow> nat set" where
  "arrived evs = {n. SegmentEv n \<in> set evs}"

lemma spec_step_outcome:
  assumes "sorted_wrt (<) buf" and "\<forall>m \<in> set buf. B < m"
  shows "spec_outcome B (set buf \<union> arrived [e]) (spec_step g e B buf)"
  using spec_receive_outcome [OF assms] spec_sync_outcome [OF assms]
  by (cases e) (auto simp: arrived_def spec_outcome_def split: prod.splits)

lemma spec_run_outcome:
  assumes "sorted_wrt (<) buf" and "\<forall>m \<in> set buf. B < m"
  shows "spec_outcome B (set buf \<union> arrived evs) (spec_run g evs B buf)"
  using assms
proof (induction evs arbitrary: B buf)
  case (Cons e evs)
  obtain B1 buf1 out1 where step: "spec_step g e B buf = (B1, buf1, out1)"
    by (metis prod.exhaust)
  obtain B2 buf2 out2 where rest: "spec_run g evs B1 buf1 = (B2, buf2, out2)"
    by (metis prod.exhaust)
  have 1: "spec_outcome B (set buf \<union> arrived [e]) (B1, buf1, out1)"
    using spec_step_outcome [OF Cons.prems, of e g] by (simp add: step)
  then have 2: "spec_outcome B1 (set buf1 \<union> arrived evs) (B2, buf2, out2)"
    using Cons.IH [of buf1 B1] by (simp add: spec_outcome_def rest)
  have "sorted_wrt (<) (out1 @ out2)"
    using 1 2 by (fastforce simp: spec_outcome_def sorted_wrt_append)
  moreover have "arrived (e # evs) = arrived [e] \<union> arrived evs"
    by (auto simp: arrived_def)
  ultimately show ?case
    using 1 2 by (fastforce simp: spec_outcome_def step rest)
qed (auto simp: spec_outcome_def)

section \<open>What the receiver guarantees\<close>

lemma SegmentRx_new_state:
  assumes "gh_start g = start" and "gh_window g = unat w" and "gh_size g = smax"
  shows "srx_state g 0 [] {} (SegmentRx_new start w smax)"
  using assms
  by (simp add: srx_state_def srx_rel_def srx_core_def slots_hold_def srx_buf_def history_of_def
      history_bits_def SegmentRx_new_def Window_new_def Let_def)

lemma rx_run_new:
  assumes "gh_start g = start" and "gh_window g = unat w" and "gh_size g = smax"
    and "\<forall>n. length (gh_sent g n) \<le> smax" and "fresh_run g evs 0 []"
  shows "\<exists>rx B buf ns. rx_run g evs (SegmentRx_new start w smax) = Some (rx, map (gh_sent g) ns) \<and>
    srx_state g B buf (set ns) rx \<and> spec_outcome 0 (arrived evs) (B, buf, ns)"
proof -
  obtain B buf ns where spec: "spec_run g evs 0 [] = (B, buf, ns)"
    by (metis prod.exhaust)
  then have "spec_outcome 0 (arrived evs) (B, buf, ns)"
    using spec_run_outcome [of "[]" 0 evs g] by simp
  moreover obtain rx where "rx_run g evs (SegmentRx_new start w smax) = Some (rx, map (gh_sent g) ns)"
      "srx_state g B buf (set ns) rx"
    using rx_run_refines [OF SegmentRx_new_state [OF assms(1-3)] assms(5) _ spec] assms(3,4) by auto
  ultimately show ?thesis by blast
qed

text \<open>
  C20: whatever order segments and synchronisations arrive in, however often they are
  repeated and whichever are lost, the receiver never aborts, delivers only segments that
  arrived, each of them unchanged and at most once, in the order they were sent, and holds
  back at most two.
\<close>

theorem segments_delivered_in_order:
  assumes "gh_start g = start" and "gh_window g = unat w" and "gh_size g = smax"
    and "\<forall>n. length (gh_sent g n) \<le> smax" and "fresh_run g evs 0 []"
  shows "\<exists>rx ns. rx_run g evs (SegmentRx_new start w smax) = Some (rx, map (gh_sent g) ns) \<and>
    sorted_wrt (<) ns \<and> set ns \<subseteq> arrived evs \<and> unat (srx_len rx) \<le> 2"
proof -
  obtain rx B buf ns where run: "rx_run g evs (SegmentRx_new start w smax) = Some (rx, map (gh_sent g) ns)"
      "srx_state g B buf (set ns) rx" "spec_outcome 0 (arrived evs) (B, buf, ns)"
    using rx_run_new [OF assms] by blast
  moreover have "unat (srx_len rx) \<le> 2"
    using srx_state_parts(6,7) [OF run(2)] by (auto simp: unat_of_nat)
  ultimately show ?thesis
    by (auto simp: spec_outcome_def)
qed

definition demo_ghost :: RxGhost where
  "demo_ghost = \<lparr>gh_start = 4294967290, gh_sent = (\<lambda>n. [word_of_nat n]), gh_nonce = (\<lambda>n. n = 2),
     gh_window = 16, gh_size = 4\<rparr>"

lemma demo_fresh: "fresh_run demo_ghost [SegmentEv 2, SegmentEv 1, SegmentEv 2, SegmentEv 5, SyncEv 7] 0 []"
  by (simp add: demo_ghost_def spec_receive_def spec_sync_def rx_fresh_def Let_def)

theorem segments_delivered_in_order_witness:
  "\<exists>rx ns. rx_run demo_ghost [SegmentEv 2, SegmentEv 1, SegmentEv 2, SegmentEv 5, SyncEv 7]
      (SegmentRx_new 4294967290 16 4) = Some (rx, map (gh_sent demo_ghost) ns) \<and> sorted_wrt (<) ns"
  using segments_delivered_in_order [OF _ _ _ _ demo_fresh, of 4294967290 16 4] by (auto simp: demo_ghost_def)

text \<open>The checksum is the parity of the nonces of the segments reported.\<close>

lemma compute_checksum_parity: "compute_checksum h n = xor_bits (h AND n) 8"
  unfolding compute_checksum_def Let_def xor_bits_one
  by (simp only: xor_fold_step [of 1 2] xor_fold_step [of 2 4] xor_fold_step [of 4 8]
      one_add_one numeral_plus_numeral add_num_simps)

lemma bit_ack_mask: "bit (ucast (h AND ACK_MASK) :: u8) j \<longleftrightarrow> j < 5 \<and> bit h j" for h :: u32
proof -
  have mask: "ACK_MASK = mask 5"
    by (simp add: ACK_MASK_def mask_eq_exp_minus_1)
  show ?thesis
    unfolding mask by (auto simp: bit_simps)
qed

lemma next_ack_info_bits:
  assumes "history_of nonce B D rx"
  shows "\<forall>j < 8. bit (fst (next_ack_info rx)) j \<longleftrightarrow> j < 5 \<and> j < B \<and> B - 1 - j \<in> D"
    and "snd (next_ack_info rx) = odd (card {j. j < 5 \<and> j < B \<and> B - 1 - j \<in> D \<and> nonce (B - 1 - j)})"
proof -
  have h: "bit (srx_rx_history rx) j = (j < B \<and> B - 1 - j \<in> D)"
      "bit (srx_nonce_history rx) j = (j < B \<and> B - 1 - j \<in> D \<and> nonce (B - 1 - j))" if "j < 32" for j
    using assms that by (simp_all add: history_of_def history_bits_def)
  then show "\<forall>j < 8. bit (fst (next_ack_info rx)) j \<longleftrightarrow> j < 5 \<and> j < B \<and> B - 1 - j \<in> D"
    by (auto simp: next_ack_info_def Let_def bit_ack_mask)
  have "bit ((ucast (srx_rx_history rx AND ACK_MASK) :: u8) AND ucast (srx_nonce_history rx)) j \<longleftrightarrow>
      j < 5 \<and> bit (srx_rx_history rx) j \<and> bit (srx_nonce_history rx) j" for j
    unfolding bit_and_iff bit_ack_mask by (auto simp: bit_simps)
  then have "{j. j < 8 \<and> bit ((ucast (srx_rx_history rx AND ACK_MASK) :: u8) AND ucast (srx_nonce_history rx)) j} =
      {j. j < 5 \<and> j < B \<and> B - 1 - j \<in> D \<and> nonce (B - 1 - j)}"
    using h by auto
  then show "snd (next_ack_info rx) = odd (card {j. j < 5 \<and> j < B \<and> B - 1 - j \<in> D \<and> nonce (B - 1 - j)})"
    by (simp add: next_ack_info_def Let_def compute_checksum_parity xor_bits_card)
qed

text \<open>
  C23: the acknowledgement is truthful: after any run, the identifier reported is that of
  the lowest index not yet passed, each of the five history bits says whether the segment
  that many places back was delivered, and the checksum is the parity of the nonces of
  exactly those delivered segments.
\<close>

theorem ack_info_truthful:
  assumes "gh_start g = start" and "gh_window g = unat w" and "gh_size g = smax"
    and "\<forall>n. length (gh_sent g n) \<le> smax" and "fresh_run g evs 0 []"
  shows "\<exists>rx ns B. rx_run g evs (SegmentRx_new start w smax) = Some (rx, map (gh_sent g) ns) \<and>
    srx_next_expected_id rx = gh_id g B \<and> set ns \<subseteq> {..<B} \<and>
    (\<forall>j < 8. bit (fst (next_ack_info rx)) j = (j < 5 \<and> j < B \<and> B - 1 - j \<in> set ns)) \<and>
    snd (next_ack_info rx) =
      odd (card {j. j < 5 \<and> j < B \<and> B - 1 - j \<in> set ns \<and> gh_nonce g (B - 1 - j)})"
proof -
  obtain rx B buf ns where run: "rx_run g evs (SegmentRx_new start w smax) = Some (rx, map (gh_sent g) ns)"
      "srx_state g B buf (set ns) rx"
    using rx_run_new [OF assms] by blast
  then have "history_of (gh_nonce g) B (set ns) rx" "set ns \<subseteq> {..<B}"
    using srx_state_parts(1) by (simp_all add: srx_core_def)
  then show ?thesis
    using run srx_state_parts(5) [OF run(2)] next_ack_info_bits
    by (intro exI [of _ rx] exI [of _ ns] exI [of _ B]) (simp add: srx_next_expected_id_def)
qed

theorem ack_info_truthful_witness:
  "\<exists>rx ns B. rx_run demo_ghost [SegmentEv 2, SegmentEv 1, SegmentEv 2, SegmentEv 5, SyncEv 7]
      (SegmentRx_new 4294967290 16 4) = Some (rx, map (gh_sent demo_ghost) ns) \<and>
    srx_next_expected_id rx = gh_id demo_ghost B \<and> set ns \<subseteq> {..<B}"
proof -
  from ack_info_truthful [OF _ _ _ _ demo_fresh, of 4294967290 16 4] show ?thesis
    by (auto simp: demo_ghost_def)
qed

text \<open>
  C31: a receiver that buffers nothing ignores every synchronisation once its base
  identifier has reached the window size: the lower bound it compares the distance with is
  then the base identifier itself.
\<close>

theorem sync_ignored_when_empty:
  assumes "srx_len rx = 0" and "win_size (srx_window rx) \<le> srx_base rx"
  shows "segment_rx_sync rx i = (rx, [])"
  using assms by (auto simp: segment_rx_sync_def Let_def)

theorem sync_ignored_when_empty_witness:
  "segment_rx_sync (SegmentRx_new 4096 4096 1472) 4100 = (SegmentRx_new 4096 4096 1472, [])"
  using sync_ignored_when_empty [of "SegmentRx_new 4096 4096 1472" 4100]
  by (simp add: SegmentRx_new_def Window_new_def Let_def)

end
