(* ===== verification/Segment_Tx.thy ===== *)
theory Segment_Tx
  imports Redpine_Prelude
begin

text \<open>
  The segment sender (\<^verbatim>\<open>src/endpoint/segment_tx.rs\<close>): the window of segments in flight,
  the ring buffers with their sizes and nonces, and the detection of dropped segments from
  acknowledgements. The random bit of \<^verbatim>\<open>compute_next_nonce\<close> is an argument.
\<close>

section \<open>State and operations\<close>

record SegmentTx =
  stx_base_id :: u32
  stx_next_id :: u32
  stx_size :: u32
  stx_transit_buf :: "nat list"
  stx_transit_buf_mask :: u32
  stx_nonce_buf :: "u64 list"
  stx_nonce_buf_mask :: u32
  stx_transit_total :: nat
  stx_ack_history :: u32
  stx_nonce_history :: u32

definition SegmentTx_new :: "u32 \<Rightarrow> u32 \<Rightarrow> SegmentTx rust" where
  "SegmentTx_new base_id sz = do {
     rust_assert (sz > 0 \<and> (sz - 1) AND sz = 0);
     rust_assert (sz \<ge> 64);
     Some \<lparr>stx_base_id = base_id, stx_next_id = base_id, stx_size = sz,
           stx_transit_buf = replicate (unat sz) 0, stx_transit_buf_mask = sz - 1,
           stx_nonce_buf = replicate (unat (sz div 64)) 0, stx_nonce_buf_mask = sz div 64 - 1,
           stx_transit_total = 0, stx_ack_history = - 1, stx_nonce_history = 0\<rparr> }"

definition compute_next_nonce :: "SegmentTx \<Rightarrow> bool \<Rightarrow> SegmentTx rust" where
  "compute_next_nonce tx nonce =
     (let idx = stx_next_id tx div 64;
          bit_idx = stx_next_id tx mod 64;
          bit_mask = push_bit (unat (63 - bit_idx)) (1 :: u64);
          k = unat (idx AND stx_nonce_buf_mask tx)
      in do {
        rust_assert (k < length (stx_nonce_buf tx));
        let bitfield = stx_nonce_buf tx ! k;
        let bitfield = (if nonce then bitfield OR bit_mask else bitfield AND NOT bit_mask);
        Some (tx\<lparr>stx_nonce_buf := (stx_nonce_buf tx)[k := bitfield]\<rparr>) })"

definition stx_can_send :: "SegmentTx \<Rightarrow> bool" where
  "stx_can_send tx = (stx_next_id tx - stx_base_id tx < stx_size tx)"

definition stx_mark_sent :: "SegmentTx \<Rightarrow> nat \<Rightarrow> SegmentTx rust" where
  "stx_mark_sent tx sz =
     (let idx = unat (stx_next_id tx AND stx_transit_buf_mask tx)
      in do {
        rust_assert (idx < length (stx_transit_buf tx));
        Some (tx\<lparr>stx_transit_buf := (stx_transit_buf tx)[idx := sz],
                stx_transit_total := stx_transit_total tx + sz,
                stx_next_id := stx_next_id tx + 1\<rparr>) })"

definition stx_bytes_in_transit :: "SegmentTx \<Rightarrow> nat" where
  "stx_bytes_in_transit tx = stx_transit_total tx"

definition update_nonce_history :: "SegmentTx \<Rightarrow> u32 \<Rightarrow> u32 \<Rightarrow> SegmentTx rust" where
  "update_nonce_history tx ack_delta base_id_new =
     (let new_bits = min ack_delta 32;
          p1 = base_id_new;
          p0 = base_id_new - new_bits;
          p0_idx = p0 div 64;
          p1_bits = p1 mod 64;
          p1_idx = p1 div 64;
          x_new = (if new_bits = 32 then 0 else push_bit (unat new_bits) (stx_nonce_history tx));
          a = unat (p0_idx AND stx_nonce_buf_mask tx);
          b = unat (p1_idx AND stx_nonce_buf_mask tx)
      in if p0_idx = p1_idx then do {
           rust_assert (b < length (stx_nonce_buf tx));
           let bitfield = stx_nonce_buf tx ! b;
           let shift = 64 - p1_bits;
           let mask = push_bit (unat new_bits) (1 :: u64) - 1;
           Some (tx\<lparr>stx_nonce_history := x_new OR ucast (drop_bit (unat shift) bitfield AND mask)\<rparr>) }
         else if p1_bits = 0 then do {
           rust_assert (a < length (stx_nonce_buf tx));
           let bitfield = stx_nonce_buf tx ! a;
           let mask = push_bit (unat new_bits) (1 :: u64) - 1;
           Some (tx\<lparr>stx_nonce_history := x_new OR ucast (bitfield AND mask)\<rparr>) }
         else do {
           rust_assert (a < length (stx_nonce_buf tx));
           rust_assert (b < length (stx_nonce_buf tx));
           let bitfield_a = stx_nonce_buf tx ! a;
           let bitfield_b = stx_nonce_buf tx ! b;
           let mask_a = push_bit (unat (new_bits - p1_bits)) (1 :: u64) - 1;
           let mask_b = push_bit (unat p1_bits) (1 :: u64) - 1;
           let shift_a = p1_bits;
           let shift_b = 64 - p1_bits;
           let x_new = x_new OR ucast (drop_bit (unat shift_b) bitfield_b AND mask_b);
           let x_new = x_new OR ucast (push_bit (unat shift_a) (bitfield_a AND mask_a));
           Some (tx\<lparr>stx_nonce_history := x_new\<rparr>) })"

definition expected_checksum :: "u32 \<Rightarrow> u32 \<Rightarrow> bool" where
  "expected_checksum nonce_history rx_history =
     (let x = nonce_history AND rx_history;
          x = x XOR drop_bit 16 x;
          x = x XOR drop_bit 8 x;
          x = x XOR drop_bit 4 x;
          x = x XOR drop_bit 2 x;
          x = x XOR drop_bit 1 x
      in x AND 1 = 1)"

text \<open>\<^verbatim>\<open>u32::leading_ones\<close> and \<^verbatim>\<open>u32::count_ones\<close>.\<close>

fun ones_down :: "u32 \<Rightarrow> nat \<Rightarrow> nat" where
  "ones_down x 0 = 0"
| "ones_down x (Suc n) = (if bit x n then ones_down x n + 1 else 0)"

definition leading_ones :: "u32 \<Rightarrow> nat" where
  "leading_ones x = ones_down x 32"

definition count_ones :: "u32 \<Rightarrow> nat" where
  "count_ones x = length (filter (bit x) [0..<32])"

definition update_ack_history :: "SegmentTx \<Rightarrow> u32 \<Rightarrow> u32 \<Rightarrow> bool \<Rightarrow> SegmentTx \<times> bool" where
  "update_ack_history tx ack_delta rx_history rx_checksum =
     (if unat ack_delta > leading_ones (stx_ack_history tx) then (tx\<lparr>stx_ack_history := - 1\<rparr>, True)
      else
        let tx = (if ack_delta = 32 then tx\<lparr>stx_ack_history := 0\<rparr>
                  else tx\<lparr>stx_ack_history := push_bit (unat ack_delta mod 32) (stx_ack_history tx)\<rparr>);
            tx = (if expected_checksum (stx_nonce_history tx) rx_history = rx_checksum
                  then tx\<lparr>stx_ack_history := stx_ack_history tx OR rx_history\<rparr> else tx)
        in if stx_ack_history tx = - 1 then (tx, False)
           else if drop_bit 31 (stx_ack_history tx) = 0 then (tx\<lparr>stx_ack_history := - 1\<rparr>, True)
           else
             let lo = leading_ones (stx_ack_history tx);
                 ones_after_zero = count_ones (drop_bit (lo mod 32) (push_bit (lo mod 32) (stx_ack_history tx)))
             in if ones_after_zero \<ge> 3 then (tx\<lparr>stx_ack_history := - 1\<rparr>, True)
                else (tx, False))"

text \<open>
  The loop that takes acknowledged segments off the running total; a subtraction below zero
  aborts.
\<close>

fun release_loop :: "nat \<Rightarrow> u32 \<Rightarrow> SegmentTx \<Rightarrow> nat \<Rightarrow> nat rust" where
  "release_loop 0 i tx transit_total = Some transit_total"
| "release_loop (Suc n) i tx transit_total =
     (let idx = unat ((stx_base_id tx + i) AND stx_transit_buf_mask tx)
      in do {
        rust_assert (idx < length (stx_transit_buf tx));
        let sz = stx_transit_buf tx ! idx;
        rust_assert (sz \<le> transit_total);
        release_loop n (i + 1) tx (transit_total - sz) })"

definition stx_acknowledge :: "SegmentTx \<Rightarrow> u32 \<Rightarrow> u32 \<Rightarrow> bool \<Rightarrow> (SegmentTx \<times> bool) rust" where
  "stx_acknowledge tx rx_base_id rx_history rx_checksum =
     (let ack_delta = rx_base_id - stx_base_id tx
      in if ack_delta \<le> stx_next_id tx - stx_base_id tx then do {
           tx \<leftarrow> (if ack_delta > 0 then do {
                    transit_total \<leftarrow> release_loop (unat ack_delta) 0 tx (stx_transit_total tx);
                    let tx = tx\<lparr>stx_transit_total := transit_total\<rparr>;
                    tx \<leftarrow> update_nonce_history tx ack_delta rx_base_id;
                    Some (tx\<lparr>stx_base_id := rx_base_id\<rparr>) }
                 else Some tx);
           Some (update_ack_history tx ack_delta rx_history rx_checksum) }
         else Some (tx, False))"

section \<open>Powers of two and ring positions\<close>

lemma power_of_two_nat:
  assumes "(n - 1) AND n = 0" and "0 < n"
  shows "\<exists>k. n = (2 :: nat) ^ k"
  using assms
proof (induction n rule: less_induct)
  case (less n)
  have rec: "(n - 1) AND n = of_bool (odd (n - 1) \<and> odd n) + 2 * ((n - 1) div 2 AND n div 2)"
    by (rule and_rec)
  show ?case
  proof (cases "even n")
    case True
    then obtain m where m: "n = 2 * m" by blast
    then have "(n - 1) div 2 = m - 1" "n div 2 = m" "0 < m"
      using less.prems(2) by auto
    then have "(m - 1) AND m = 0"
      using rec less.prems(1) by simp
    then obtain k where "m = 2 ^ k"
      using less.IH [of m] m \<open>0 < m\<close> by auto
    with m show ?thesis
      by (metis power_Suc)
  next
    case False
    then obtain m where m: "n = 2 * m + 1" by (metis oddE)
    then have "(n - 1) div 2 = m" "n div 2 = m"
      by auto
    then have "m = 0"
      using rec less.prems(1) by simp
    with m show ?thesis
      by (intro exI [of _ 0]) simp
  qed
qed

lemma power_of_two_word:
  assumes "(sz - 1) AND sz = 0" and "0 < sz"
  shows "\<exists>k < 32. unat (sz :: u32) = 2 ^ k"
proof -
  have pos: "0 < unat sz"
    using assms(2) by (simp add: unat_gt_0 word_neq_0_conv)
  have "unat (sz - 1) = unat sz - 1"
    using pos by (subst unat_sub) (auto simp: word_le_nat_alt)
  then have "(unat sz - 1) AND unat sz = 0"
    using assms(1) by (metis unsigned_0 unsigned_and_eq)
  then obtain k where k: "unat sz = 2 ^ k"
    using power_of_two_nat [of "unat sz"] pos by blast
  have "unat sz < 2 ^ 32"
    using unsigned_less [of sz] by simp
  then have "(2 :: nat) ^ k < 2 ^ 32"
    by (simp only: k)
  then have "k < 32"
    by (rule power_less_imp_less_exp [rotated]) simp
  with k show ?thesis by blast
qed

text \<open>Masking with a power of two less one is reduction modulo the power.\<close>

lemma and_mask_mod:
  fixes x m :: u32
  assumes "unat m = 2 ^ k" and "k < 32"
  shows "unat (x AND (m - 1)) = unat x mod 2 ^ k"
proof -
  have "m = word_of_nat (unat m)"
    by simp
  also have "\<dots> = 2 ^ k"
    by (simp only: assms(1)) simp
  finally have "m - 1 = mask k"
    by (simp add: mask_eq_exp_minus_1)
  then have "unat (x AND (m - 1)) = unat (take_bit k x)"
    by (simp only: take_bit_eq_mask)
  also have "\<dots> = unat x mod 2 ^ k"
    unfolding unsigned_take_bit_eq by (rule take_bit_eq_mod)
  finally show ?thesis .
qed

section \<open>The sender against unbounded indices\<close>

text \<open>
  The identifier of index 0, the sizes and the nonces of the segments by index, and the
  exponent of the window size.
\<close>

record TxGhost =
  tg_start :: u32
  tg_size :: "nat \<Rightarrow> nat"
  tg_nonce :: "nat \<Rightarrow> bool"
  tg_exp :: nat

abbreviation tg_id :: "TxGhost \<Rightarrow> nat \<Rightarrow> u32" where
  "tg_id g n \<equiv> tg_start g + word_of_nat n"

abbreviation tg_window :: "TxGhost \<Rightarrow> nat" where
  "tg_window g \<equiv> 2 ^ tg_exp g"

text \<open>The place of an index in the rings, and the nonce bit stored there.\<close>

definition tg_pos :: "TxGhost \<Rightarrow> nat \<Rightarrow> nat" where
  "tg_pos g n = (unat (tg_start g) + n) mod tg_window g"

definition nonce_at :: "u64 list \<Rightarrow> nat \<Rightarrow> bool" where
  "nonce_at buf p = bit (buf ! (p div 64)) (63 - p mod 64)"

lemma tg_window_dvd: "tg_exp g < 32 \<Longrightarrow> tg_window g dvd 4294967296"
  using le_imp_power_dvd [of "tg_exp g" 32 "2 :: nat"] by simp

lemma tg_pos_less: "tg_pos g n < tg_window g"
  by (simp add: tg_pos_def)

lemma tg_pos_id: "tg_exp g < 32 \<Longrightarrow> unat (tg_id g n) mod tg_window g = tg_pos g n"
proof -
  assume "tg_exp g < 32"
  then have dvd: "tg_window g dvd 4294967296"
    by (rule tg_window_dvd)
  have "unat (tg_id g n) = (unat (tg_start g) + n mod 4294967296) mod 4294967296"
    by (simp add: unat_word_ariths unat_of_nat)
  then show ?thesis
    using dvd by (simp add: tg_pos_def mod_mod_cancel mod_simps)
qed

lemma tg_pos_inject:
  assumes "a < b + tg_window g" and "b < a + tg_window g"
  shows "tg_pos g a = tg_pos g b \<longleftrightarrow> a = b"
  using assms mod_eq_close [of "unat (tg_start g) + a" "tg_window g" "unat (tg_start g) + b"]
  by (auto simp: tg_pos_def)

definition stx_rings :: "TxGhost \<Rightarrow> SegmentTx \<Rightarrow> bool" where
  "stx_rings g tx \<longleftrightarrow>
     6 \<le> tg_exp g \<and> tg_exp g < 32 \<and> unat (stx_size tx) = tg_window g \<and>
     stx_transit_buf_mask tx = stx_size tx - 1 \<and> length (stx_transit_buf tx) = tg_window g \<and>
     stx_nonce_buf_mask tx = stx_size tx div 64 - 1 \<and> length (stx_nonce_buf tx) = tg_window g div 64"

lemma window_div_64: "6 \<le> k \<Longrightarrow> (2 :: nat) ^ k div 64 = 2 ^ (k - 6)"
  using power_diff [of "2 :: nat" 6 k] by simp

lemma mod_div_64:
  assumes "6 \<le> k"
  shows "(q div 64) mod 2 ^ (k - 6) = (q mod 2 ^ k) div (64 :: nat)"
proof -
  have "(2 :: nat) ^ k = 64 * 2 ^ (k - 6)"
    using assms power_add [of "2 :: nat" 6 "k - 6"] by simp
  then show ?thesis
    by (simp add: mod_mult2_eq)
qed

lemma transit_index:
  assumes "stx_rings g tx"
  shows "unat (tg_id g n AND stx_transit_buf_mask tx) = tg_pos g n"
  using assms and_mask_mod [of "stx_size tx" "tg_exp g" "tg_id g n"] tg_pos_id [of g n]
  by (simp add: stx_rings_def)

lemma nonce_index:
  assumes "stx_rings g tx"
  shows "unat ((x div 64) AND stx_nonce_buf_mask tx) = (unat x mod tg_window g) div 64"
proof -
  have "unat (stx_size tx div 64) = 2 ^ (tg_exp g - 6)" "tg_exp g - 6 < 32"
    using assms window_div_64 by (auto simp: stx_rings_def unat_div)
  from and_mask_mod [OF this, of "x div 64"] show ?thesis
    using assms by (simp add: stx_rings_def unat_div mod_div_64)
qed

lemma nonce_index_less:
  assumes "stx_rings g tx"
  shows "(p mod tg_window g) div 64 < length (stx_nonce_buf tx)"
proof -
  have "64 dvd tg_window g"
    using assms le_imp_power_dvd [of 6 "tg_exp g" "2 :: nat"] by (simp add: stx_rings_def)
  then have "tg_window g div 64 * 64 = tg_window g"
    by simp
  moreover have "p mod tg_window g < tg_window g"
    by simp
  ultimately show ?thesis
    using assms by (simp add: stx_rings_def less_mult_imp_div_less)
qed

lemma pos_mod_64: "stx_rings g tx \<Longrightarrow> p mod tg_window g mod 64 = p mod 64"
  using le_imp_power_dvd [of 6 "tg_exp g" "2 :: nat"] by (simp add: stx_rings_def mod_mod_cancel)

section \<open>Extracting nonces\<close>

text \<open>
  The bits of the history after \<^verbatim>\<open>update_nonce_history\<close>: the newest ones come from the
  ring, the others move up. \<open>X\<close> is the new base with a full turn added, so that nothing
  below it wraps.
\<close>

lemma bit_low_mask: "bit (2 ^ n - 1 :: u64) j \<longleftrightarrow> j < n \<and> j < 64"
proof -
  have "2 ^ n - 1 = (mask n :: u64)"
    by (simp add: mask_eq_exp_minus_1)
  then show ?thesis
    by (simp only: bit_mask_iff) (auto simp: possible_bit_word)
qed

lemma bit_ucast_u64: "bit (ucast (x :: u64) :: u32) j \<longleftrightarrow> j < 32 \<and> bit x j"
  by (auto simp: bit_simps)

lemma bit_push_history:
  "bit (if n = 32 then 0 else push_bit (unat n) h) j \<longleftrightarrow> unat n \<le> j \<and> bit h (j - unat n)"
  if "j < 32" "unat n \<le> 32" for h n :: u32
  using that by (auto simp: bit_push_bit_iff)

lemma div_mod_below:
  fixes X j :: nat
  assumes "64 \<le> X" and "j < 64"
  shows "(X - 1 - j) div 64 = (if j < X mod 64 then X div 64 else X div 64 - 1)"
    and "63 - (X - 1 - j) mod 64 = (if j < X mod 64 then 64 - X mod 64 + j else j - X mod 64)"
proof -
  obtain Q r where X: "X = 64 * Q + r" "r < 64"
    by (metis mult_div_mod_eq mod_less_divisor zero_less_numeral)
  then have Q: "1 \<le> Q" and div: "X div 64 = Q" "X mod 64 = r"
    using assms(1) by auto
  have aux: "(64 * K + x) div 64 = K" "(64 * K + x) mod 64 = x" if "x < 64" for K x :: nat
    using that by simp_all
  show "(X - 1 - j) div 64 = (if j < X mod 64 then X div 64 else X div 64 - 1)"
    and "63 - (X - 1 - j) mod 64 = (if j < X mod 64 then 64 - X mod 64 + j else j - X mod 64)"
  proof -
    have "(X - 1 - j) div 64 = (if j < r then Q else Q - 1) \<and>
        63 - (X - 1 - j) mod 64 = (if j < r then 64 - r + j else j - r)"
    proof (cases "j < r")
      case True
      then have "X - 1 - j = 64 * Q + (r - 1 - j)" "r - 1 - j < 64"
        using X by auto
      with True X(2) aux [of "r - 1 - j" Q] show ?thesis
        by (simp only: if_True) auto
    next
      case False
      then have "X - 1 - j = 64 * (Q - 1) + (63 + r - j)" "63 + r - j < 64"
        using X Q assms(2) by auto
      with False assms(2) aux [of "63 + r - j" "Q - 1"] show ?thesis
        by (simp only: if_False) auto
    qed
    then show "(X - 1 - j) div 64 = (if j < X mod 64 then X div 64 else X div 64 - 1)"
      and "63 - (X - 1 - j) mod 64 = (if j < X mod 64 then 64 - X mod 64 + j else j - X mod 64)"
      unfolding div by blast+
  qed
qed

lemma div_sub_64: "64 \<le> X \<Longrightarrow> (X - 64) div 64 = X div 64 - (1 :: nat)"
  using div_mod_below(1) [of X 63] by (cases "63 < X mod 64") (auto simp: not_less)

text \<open>The bit read for \<open>j\<close> places before \<open>X\<close>, in the word that holds it.\<close>

lemma nonce_at_below:
  assumes rings: "stx_rings g tx" and X: "64 \<le> X" and j: "j < 64"
  shows "nonce_at buf ((X - 1 - j) mod tg_window g) =
    (if j < X mod 64 then bit (buf ! ((X mod tg_window g) div 64)) (64 - X mod 64 + j)
     else bit (buf ! (((X - 64) mod tg_window g) div 64)) (j - X mod 64))"
proof -
  have k: "6 \<le> tg_exp g"
    using rings by (simp add: stx_rings_def)
  have e1: "((X - 64) mod tg_window g) div 64 = (X div 64 - 1) mod 2 ^ (tg_exp g - 6)"
    by (simp only: mod_div_64 [OF k, symmetric] div_sub_64 [OF X])
  have e2: "(X mod tg_window g) div 64 = (X div 64) mod 2 ^ (tg_exp g - 6)"
    by (rule mod_div_64 [OF k, symmetric])
  have e3: "((X - 1 - j) mod tg_window g) div 64 = ((X - 1 - j) div 64) mod 2 ^ (tg_exp g - 6)"
    by (rule mod_div_64 [OF k, symmetric])
  show ?thesis
    unfolding nonce_at_def e1 e2 e3 pos_mod_64 [OF rings] div_mod_below [OF X j]
    by (cases "j < X mod 64") (simp_all only: if_True if_False)
qed

lemma nonce_words:
  fixes p1 nb :: u32
  assumes rings: "stx_rings g tx" and p1: "unat p1 = X mod 4294967296" and X: "64 \<le> X"
    and nb: "0 < unat nb" "unat nb \<le> 32"
  shows "(p1 - nb) div 64 = p1 div 64 \<longleftrightarrow> unat nb \<le> X mod 64"
    and "unat (p1 mod 64) = X mod 64"
    and "unat ((p1 div 64) AND stx_nonce_buf_mask tx) = (X mod tg_window g) div 64"
    and "\<not> unat nb \<le> X mod 64 \<Longrightarrow>
      unat (((p1 - nb) div 64) AND stx_nonce_buf_mask tx) = ((X - 64) mod tg_window g) div 64"
proof -
  have k: "6 \<le> tg_exp g" "tg_exp g < 32"
    using rings by (simp_all add: stx_rings_def)
  note dvd = tg_window_dvd [OF k(2)]
  have "p1 = word_of_nat X"
    by (simp add: word_unat_eq_iff unat_of_nat p1)
  then have "p1 - nb = word_of_nat (X - unat nb)"
    using nb(2) X by (simp add: of_nat_diff)
  then have p0: "unat (p1 - nb) = (X - unat nb) mod 4294967296"
    by (simp add: unat_of_nat)
  have below: "(X - unat nb) div 64 = (if unat nb \<le> X mod 64 then X div 64 else X div 64 - 1)"
    using div_mod_below(1) [OF X, of "unat nb - 1"] nb by (simp add: Suc_le_eq [symmetric] split: if_splits)
  have "1 \<le> X div 64"
    using X by simp
  have "(p1 - nb) div 64 = p1 div 64 \<longleftrightarrow>
      (X - unat nb) div 64 mod 67108864 = X div 64 mod 67108864"
    using mod_div_64 [of 32 "X - unat nb"] mod_div_64 [of 32 X]
    by (simp add: word_unat_eq_iff unat_div p0 p1)
  also have "\<dots> \<longleftrightarrow> (X - unat nb) div 64 = X div 64"
  proof -
    have "y mod 67108864 = z mod 67108864 \<longleftrightarrow> y = z" if "y = z \<or> y = z - 1" for y z :: nat
    proof -
      have "y < z + 67108864" "z < y + 67108864"
        using that by auto
      then show ?thesis
        using mod_eq_close [of y 67108864 z] by blast
    qed
    then show ?thesis
      using below by presburger
  qed
  finally show "(p1 - nb) div 64 = p1 div 64 \<longleftrightarrow> unat nb \<le> X mod 64"
    using below \<open>1 \<le> X div 64\<close> by auto
  show "unat (p1 mod 64) = X mod 64"
    by (simp add: unat_mod p1 mod_mod_cancel)
  show "unat ((p1 div 64) AND stx_nonce_buf_mask tx) = (X mod tg_window g) div 64"
    using nonce_index [OF rings, of p1] dvd by (simp add: p1 mod_mod_cancel)
  assume far: "\<not> unat nb \<le> X mod 64"
  have "unat (((p1 - nb) div 64) AND stx_nonce_buf_mask tx) = ((X - unat nb) mod tg_window g) div 64"
    using nonce_index [OF rings, of "p1 - nb"] dvd by (simp add: p0 mod_mod_cancel)
  also have "\<dots> = ((X - 64) mod tg_window g) div 64"
    using far below by (simp only: mod_div_64 [OF k(1), symmetric] div_sub_64 [OF X] if_False)
  finally show "unat (((p1 - nb) div 64) AND stx_nonce_buf_mask tx) = ((X - 64) mod tg_window g) div 64" .
qed

lemma update_nonce_history_bits:
  assumes rings: "stx_rings g tx" and p1: "unat p1 = X mod 4294967296" and X: "64 \<le> X" and d: "0 < unat d"
  defines "nb \<equiv> min (unat d) 32"
  shows "\<exists>h. update_nonce_history tx d p1 = Some (tx\<lparr>stx_nonce_history := h\<rparr>) \<and>
    (\<forall>j < 32. bit h j = (if j < nb then nonce_at (stx_nonce_buf tx) ((X - 1 - j) mod tg_window g)
      else bit (stx_nonce_history tx) (j - nb)))"
proof -
  define w where "w = min d 32"
  have w: "unat w = nb" "0 < unat w" "unat w \<le> 32"
    using d by (auto simp: w_def nb_def min_def word_le_nat_alt)
  note words = nonce_words [OF rings p1 X w(2,3)]
  have len: "(q mod tg_window g) div 64 < length (stx_nonce_buf tx)" for q
    by (rule nonce_index_less [OF rings])
  define old where "old = (if w = 32 then 0 else push_bit (unat w) (stx_nonce_history tx))"
  have old: "bit old j \<longleftrightarrow> nb \<le> j \<and> bit (stx_nonce_history tx) (j - nb)" if "j < 32" for j
    using bit_push_history [OF that w(3), of "stx_nonce_history tx"] w(1) by (simp add: old_def)
  have below: "nonce_at (stx_nonce_buf tx) ((X - 1 - j) mod tg_window g) =
      (if j < X mod 64 then bit (stx_nonce_buf tx ! ((X mod tg_window g) div 64)) (64 - X mod 64 + j)
       else bit (stx_nonce_buf tx ! (((X - 64) mod tg_window g) div 64)) (j - X mod 64))" if "j < 32" for j
    using nonce_at_below [OF rings X] that by simp
  have r: "unat (64 - p1 mod 64) = 64 - X mod 64"
    using words(2) by (subst unat_sub) (auto simp: word_le_nat_alt less_imp_le)
  have result: ?thesis
    if "update_nonce_history tx d p1 = Some (tx\<lparr>stx_nonce_history := old OR new\<rparr>)"
      and "\<And>j. j < 32 \<Longrightarrow> bit new j \<longleftrightarrow> j < nb \<and> nonce_at (stx_nonce_buf tx) ((X - 1 - j) mod tg_window g)" for new
    using that old by (intro exI [of _ "old OR new"]) (auto simp: bit_or_iff)
  consider (same) "nb \<le> X mod 64" | (aligned) "X mod 64 = 0" | (both) "0 < X mod 64" "X mod 64 < nb"
    by linarith
  then show ?thesis
  proof cases
    case same
    show ?thesis
      by (rule result [of "ucast (drop_bit (64 - X mod 64) (stx_nonce_buf tx ! ((X mod tg_window g) div 64))
          AND (push_bit nb 1 - 1))"])
        (use same words len below w r in
          \<open>auto simp: update_nonce_history_def Let_def w_def [symmetric] old_def
            bit_ucast_u64 bit_and_iff bit_drop_bit_eq bit_low_mask\<close>)
  next
    case aligned
    then have "p1 mod 64 = 0"
      using words(2) by (simp add: unat_eq_0)
    then show ?thesis
      by (intro result [of "ucast ((stx_nonce_buf tx ! (((X - 64) mod tg_window g) div 64)) AND (push_bit nb 1 - 1))"])
        (use aligned words len below w in
          \<open>auto simp: update_nonce_history_def Let_def w_def [symmetric] old_def
            bit_ucast_u64 bit_and_iff bit_low_mask\<close>)
  next
    case both
    have ne: "p1 mod 64 \<noteq> 0"
      using both(1) unfolding words(2) [symmetric] by (metis less_irrefl unsigned_0)
    have d: "unat (w - p1 mod 64) = nb - X mod 64"
      using words(2) w(1) both by (subst unat_sub) (auto simp: word_le_nat_alt)
    define A where "A = stx_nonce_buf tx ! (((X - 64) mod tg_window g) div 64)"
    define B where "B = stx_nonce_buf tx ! ((X mod tg_window g) div 64)"
    let ?new = "ucast (drop_bit (64 - X mod 64) B AND (push_bit (X mod 64) 1 - 1)) OR
        ucast (push_bit (X mod 64) (A AND (push_bit (nb - X mod 64) 1 - 1))) :: u32"
    have not_same: "(p1 - w) div 64 \<noteq> p1 div 64" "\<not> unat w \<le> X mod 64"
      using both words(1) w(1) by simp_all
    have upd: "update_nonce_history tx d p1 = Some (tx\<lparr>stx_nonce_history := old OR ?new\<rparr>)"
      using not_same(1) ne d words(2,3) words(4) [OF not_same(2)] len
      by (simp only: update_nonce_history_def Let_def w_def [symmetric] if_False rust_assert_simps r
          bind.simps A_def B_def old_def or.assoc)
    have "bit ?new j \<longleftrightarrow> j < nb \<and> (if j < X mod 64 then bit B (64 - X mod 64 + j) else bit A (j - X mod 64))"
      if "j < 32" for j
      using that both(2) w(1,3)
      by (auto simp: bit_or_iff bit_ucast_u64 bit_and_iff bit_drop_bit_eq bit_push_bit_iff bit_low_mask)
    then show ?thesis
      using below by (intro result [OF upd]) (simp flip: A_def B_def)
  qed
qed

section \<open>Invariant of the sender\<close>

text \<open>
  Segments with indices from \<open>A\<close> up to \<open>N\<close> are in flight: their sizes and nonces are in
  the rings, their sizes add up to the running total, and the nonce history holds the
  nonces of the last 32 segments before \<open>A\<close>.
\<close>

definition stx_inv :: "TxGhost \<Rightarrow> nat \<Rightarrow> nat \<Rightarrow> SegmentTx \<Rightarrow> bool" where
  "stx_inv g A N tx \<longleftrightarrow>
     stx_rings g tx \<and> stx_base_id tx = tg_id g A \<and> stx_next_id tx = tg_id g N \<and>
     A \<le> N \<and> N \<le> A + tg_window g \<and>
     (\<forall>n. A \<le> n \<and> n < N \<longrightarrow> stx_transit_buf tx ! tg_pos g n = tg_size g n) \<and>
     (\<forall>n. A \<le> n \<and> n < N \<longrightarrow> nonce_at (stx_nonce_buf tx) (tg_pos g n) = tg_nonce g n) \<and>
     stx_transit_total tx = sum (tg_size g) {A..<N} \<and>
     (\<forall>j < 32. j < A \<longrightarrow> bit (stx_nonce_history tx) j = tg_nonce g (A - 1 - j))"

lemma window_less: "stx_rings g tx \<Longrightarrow> tg_window g \<le> 2147483648"
  using power_increasing [of "tg_exp g" 31 "2 :: nat"] by (simp add: stx_rings_def)

lemma SegmentTx_new_inv:
  assumes "SegmentTx_new base sz = Some tx" and "tg_start g = base" and "unat sz = tg_window g" and "tg_exp g < 32"
  shows "stx_inv g 0 0 tx"
proof -
  have "64 \<le> (2 :: nat) ^ tg_exp g"
    using assms(1,3) by (auto simp: SegmentTx_new_def word_le_nat_alt)
  then have "\<not> tg_exp g < 6"
    using power_strict_increasing [of "tg_exp g" 6 "2 :: nat"] by auto
  with assms show ?thesis
    by (auto simp: SegmentTx_new_def stx_inv_def stx_rings_def unat_div)
qed

lemma SegmentTx_new_window:
  assumes "SegmentTx_new base sz = Some tx"
  shows "\<exists>k < 32. unat sz = 2 ^ k"
  using assms power_of_two_word [of sz] by (simp add: SegmentTx_new_def)

lemma stx_can_send_iff:
  assumes "stx_inv g A N tx"
  shows "stx_can_send tx \<longleftrightarrow> N < A + tg_window g"
proof -
  have "N < A + 4294967296"
    using assms window_less [of g tx] by (simp add: stx_inv_def)
  then have "unat (stx_next_id tx - stx_base_id tx) = N - A"
    using assms seq_delta_index [of A N "tg_start g"] by (simp add: stx_inv_def seq_delta_def)
  then show ?thesis
    using assms by (auto simp: stx_can_send_def word_less_nat_alt stx_inv_def stx_rings_def)
qed

text \<open>Storing one nonce changes exactly one bit of the ring.\<close>

lemma bit_set_clear:
  fixes w :: u64
  assumes "b < 64"
  shows "bit (if x then w OR push_bit b 1 else w AND NOT (push_bit b 1)) j \<longleftrightarrow>
    (if j = b then x else bit w j)"
  using assms by (auto simp: bit_or_iff bit_and_iff bit_not_iff bit_exp_iff possible_bit_word
      dest: bit_imp_le_length)

lemma nonce_at_store:
  assumes "p div 64 < length buf"
  shows "nonce_at (buf[p div 64 := (if x then buf ! (p div 64) OR push_bit (63 - p mod 64) 1
      else buf ! (p div 64) AND NOT (push_bit (63 - p mod 64) 1))]) q =
    (if q = p then x else nonce_at buf q)"
proof -
  have "63 - p mod 64 < 64"
    by simp
  note bits = bit_set_clear [OF this, of x "buf ! (p div 64)"]
  have "q = p \<longleftrightarrow> q div 64 = p div 64 \<and> 63 - q mod 64 = 63 - p mod 64"
  proof -
    have "q mod 64 < 64" "p mod 64 < 64"
      by simp_all
    then have "63 - q mod 64 = 63 - p mod 64 \<longleftrightarrow> q mod 64 = p mod 64"
      by linarith
    then show ?thesis
      by (metis div_mult_mod_eq)
  qed
  then show ?thesis
    using assms bits by (auto simp: nonce_at_def nth_list_update)
qed

lemma compute_next_nonce_at:
  assumes rings: "stx_rings g tx" and id: "stx_next_id tx = tg_id g N"
  shows "\<exists>buf. compute_next_nonce tx x = Some (tx\<lparr>stx_nonce_buf := buf\<rparr>) \<and>
    length buf = length (stx_nonce_buf tx) \<and>
    (\<forall>q. nonce_at buf q = (if q = tg_pos g N then x else nonce_at (stx_nonce_buf tx) q))"
proof -
  have k: "tg_exp g < 32"
    using rings by (simp add: stx_rings_def)
  let ?p = "tg_pos g N"
  have idx: "unat ((tg_id g N div 64) AND stx_nonce_buf_mask tx) = ?p div 64"
    using nonce_index [OF rings] tg_pos_id [OF k] by simp
  have len: "?p div 64 < length (stx_nonce_buf tx)"
    using nonce_index_less [OF rings, of "?p"] by (simp add: tg_pos_def)
  have "unat (tg_id g N mod 64) = ?p mod 64"
    using pos_mod_64 [OF rings, of "unat (tg_id g N)"] tg_pos_id [OF k, of N] by (simp add: unat_mod)
  then have bit_idx: "unat (63 - tg_id g N mod 64) = 63 - ?p mod 64"
    by (subst unat_sub) (auto simp: word_le_nat_alt)
  show ?thesis
    using nonce_at_store [OF len, of x] len
    by (intro exI [of _ "(stx_nonce_buf tx)[?p div 64 :=
        (if x then stx_nonce_buf tx ! (?p div 64) OR push_bit (63 - ?p mod 64) 1
         else stx_nonce_buf tx ! (?p div 64) AND NOT (push_bit (63 - ?p mod 64) 1))]"])
      (simp add: compute_next_nonce_def Let_def id idx bit_idx del: push_bit_of_1)
qed

definition stx_send :: "SegmentTx \<Rightarrow> bool \<Rightarrow> nat \<Rightarrow> SegmentTx rust" where
  "stx_send tx nonce sz = do {
     tx \<leftarrow> compute_next_nonce tx nonce;
     stx_mark_sent tx sz }"

lemma stx_send_inv:
  assumes inv: "stx_inv g A N tx" and room: "N < A + tg_window g"
  shows "\<exists>tx'. stx_send tx (tg_nonce g N) (tg_size g N) = Some tx' \<and> stx_inv g A (N + 1) tx'"
proof -
  have rings: "stx_rings g tx"
    using inv by (simp add: stx_inv_def)
  obtain buf where buf: "compute_next_nonce tx (tg_nonce g N) = Some (tx\<lparr>stx_nonce_buf := buf\<rparr>)"
      "length buf = length (stx_nonce_buf tx)"
      "\<And>q. nonce_at buf q = (if q = tg_pos g N then tg_nonce g N else nonce_at (stx_nonce_buf tx) q)"
    using compute_next_nonce_at [OF rings, of N "tg_nonce g N"] inv by (auto simp: stx_inv_def)
  have pos: "tg_pos g n \<noteq> tg_pos g N" if "A \<le> n" "n < N" for n
    using tg_pos_inject [of n N g] that room by auto
  have len: "tg_pos g N < length (stx_transit_buf tx)"
    using rings tg_pos_less by (simp add: stx_rings_def)
  define tx' where "tx' = tx\<lparr>stx_nonce_buf := buf,
      stx_transit_buf := (stx_transit_buf tx)[tg_pos g N := tg_size g N],
      stx_transit_total := stx_transit_total tx + tg_size g N, stx_next_id := stx_next_id tx + 1\<rparr>"
  have "stx_send tx (tg_nonce g N) (tg_size g N) = Some tx'"
    using buf(1) len transit_index [OF rings, of N] inv
    by (simp add: stx_send_def stx_mark_sent_def tx'_def stx_inv_def Let_def)
  moreover have "stx_inv g A (N + 1) tx'"
    unfolding stx_inv_def
  proof (intro conjI)
    show "stx_rings g tx'"
      using rings buf(2) by (simp add: stx_rings_def tx'_def)
    show "\<forall>n. A \<le> n \<and> n < N + 1 \<longrightarrow> stx_transit_buf tx' ! tg_pos g n = tg_size g n"
    proof (intro allI impI)
      fix n
      assume "A \<le> n \<and> n < N + 1"
      then show "stx_transit_buf tx' ! tg_pos g n = tg_size g n"
        using inv len pos [of n] by (cases "n = N") (simp_all add: tx'_def stx_inv_def)
    qed
    show "\<forall>n. A \<le> n \<and> n < N + 1 \<longrightarrow> nonce_at (stx_nonce_buf tx') (tg_pos g n) = tg_nonce g n"
      using inv buf(3) pos by (auto simp: tx'_def stx_inv_def less_Suc_eq)
  qed (use inv room in \<open>auto simp: tx'_def stx_inv_def algebra_simps\<close>)
  ultimately show ?thesis
    by blast
qed

lemma release_loop_sum:
  assumes inv: "stx_inv g A N tx" and "A + m + n \<le> N"
  shows "release_loop n (word_of_nat m) tx (sum (tg_size g) {A + m..<N}) = Some (sum (tg_size g) {A + m + n..<N})"
  using assms(2)
proof (induction n arbitrary: m)
  case (Suc n)
  have rings: "stx_rings g tx"
    using inv by (simp add: stx_inv_def)
  have "stx_base_id tx + word_of_nat m = tg_id g (A + m)"
    using inv by (simp add: stx_inv_def)
  then have idx: "unat ((stx_base_id tx + word_of_nat m) AND stx_transit_buf_mask tx) = tg_pos g (A + m)"
    using transit_index [OF rings, of "A + m"] by (simp only:)
  have "stx_transit_buf tx ! tg_pos g (A + m) = tg_size g (A + m)"
    using inv Suc.prems by (simp add: stx_inv_def)
  moreover have "sum (tg_size g) {A + m..<N} = tg_size g (A + m) + sum (tg_size g) {A + Suc m..<N}"
    using Suc.prems by (simp add: sum.atLeast_Suc_lessThan)
  moreover have "tg_pos g (A + m) < length (stx_transit_buf tx)"
    using rings tg_pos_less by (simp add: stx_rings_def)
  ultimately show ?case
    using Suc.IH [of "Suc m"] Suc.prems idx by (simp add: algebra_simps)
qed simp

text \<open>\<^verbatim>\<open>update_ack_history\<close> as a function of the two histories only.\<close>

definition shifted_history :: "u32 \<Rightarrow> u32 \<Rightarrow> u32 \<Rightarrow> u32 \<Rightarrow> bool \<Rightarrow> u32" where
  "shifted_history h n d hist c =
     (if d = 32 then 0 else push_bit (unat d mod 32) h) OR (if expected_checksum n hist = c then hist else 0)"

definition ack_verdict :: "u32 \<Rightarrow> bool" where
  "ack_verdict h = (h \<noteq> - 1 \<and> (drop_bit 31 h = 0 \<or>
     3 \<le> count_ones (drop_bit (leading_ones h mod 32) (push_bit (leading_ones h mod 32) h))))"

lemma update_ack_history_eq:
  "update_ack_history tx d hist c =
    (let h = shifted_history (stx_ack_history tx) (stx_nonce_history tx) d hist c
     in if unat d > leading_ones (stx_ack_history tx) \<or> ack_verdict h
        then (tx\<lparr>stx_ack_history := - 1\<rparr>, True) else (tx\<lparr>stx_ack_history := h\<rparr>, False))"
proof -
  define h where "h = shifted_history (stx_ack_history tx) (stx_nonce_history tx) d hist c"
  define h1 where "h1 = (if d = 32 then 0 else push_bit (unat d mod 32) (stx_ack_history tx))"
  define tx1 where "tx1 = (if d = 32 then tx\<lparr>stx_ack_history := 0\<rparr>
    else tx\<lparr>stx_ack_history := push_bit (unat d mod 32) (stx_ack_history tx)\<rparr>)"
  define tx2 where "tx2 = (if expected_checksum (stx_nonce_history tx1) hist = c
    then tx1\<lparr>stx_ack_history := stx_ack_history tx1 OR hist\<rparr> else tx1)"
  have tx1: "tx1 = tx\<lparr>stx_ack_history := h1\<rparr>"
    by (simp add: tx1_def h1_def)
  have tx2: "tx2 = tx\<lparr>stx_ack_history := h\<rparr>"
    by (simp add: tx2_def tx1 h_def shifted_history_def flip: h1_def)
  have "update_ack_history tx d hist c =
      (if unat d > leading_ones (stx_ack_history tx) then (tx\<lparr>stx_ack_history := - 1\<rparr>, True)
       else if stx_ack_history tx2 = - 1 then (tx2, False)
       else if drop_bit 31 (stx_ack_history tx2) = 0 then (tx2\<lparr>stx_ack_history := - 1\<rparr>, True)
       else if count_ones (drop_bit (leading_ones (stx_ack_history tx2) mod 32)
           (push_bit (leading_ones (stx_ack_history tx2) mod 32) (stx_ack_history tx2))) \<ge> 3
         then (tx2\<lparr>stx_ack_history := - 1\<rparr>, True) else (tx2, False))"
    by (simp only: update_ack_history_def Let_def tx1_def tx2_def)
  moreover have "stx_ack_history tx2 = h" "tx2\<lparr>stx_ack_history := - 1\<rparr> = tx\<lparr>stx_ack_history := - 1\<rparr>"
    by (simp_all add: tx2)
  moreover have "(if p then x else if q then y else if r then x else if s then x else y) =
      (if p \<or> q' then x else y)" if "q' = (\<not> q \<and> (r \<or> s))" for p q r s q' and x y :: "SegmentTx \<times> bool"
    using that by simp
  ultimately show ?thesis
    by (simp only: ack_verdict_def Let_def h_def [symmetric] tx2 [symmetric])
qed

lemma update_ack_history_frame:
  "(fst (update_ack_history tx d hist c))\<lparr>stx_ack_history := h\<rparr> = tx\<lparr>stx_ack_history := h\<rparr>"
  by (simp add: update_ack_history_eq Let_def)

lemma stx_inv_ack_history: "stx_inv g A N tx \<Longrightarrow> stx_inv g A N (tx\<lparr>stx_ack_history := h\<rparr>)"
  by (simp add: stx_inv_def stx_rings_def)

lemma stx_in_flight:
  assumes "stx_inv g A N tx"
  shows "unat (stx_next_id tx - stx_base_id tx) = N - A"
proof -
  have "N < A + 4294967296"
    using assms window_less [of g tx] by (simp add: stx_inv_def)
  then show ?thesis
    using assms seq_delta_index [of A N "tg_start g"] by (simp add: stx_inv_def seq_delta_def)
qed

text \<open>Moving the base over \<open>d\<close> acknowledged segments.\<close>

lemma stx_advance:
  assumes inv: "stx_inv g A N tx" and d: "0 < unat d" "A + unat d \<le> N"
  shows "\<exists>h. release_loop (unat d) 0 tx (stx_transit_total tx) = Some (sum (tg_size g) {A + unat d..<N}) \<and>
    update_nonce_history (tx\<lparr>stx_transit_total := t\<rparr>) d (stx_base_id tx + d) =
      Some (tx\<lparr>stx_transit_total := t, stx_nonce_history := h\<rparr>) \<and>
    (\<forall>j < 32. j < A + unat d \<longrightarrow> bit h j = tg_nonce g (A + unat d - 1 - j))"
proof -
  have rings: "stx_rings g tx" and k: "tg_exp g < 32"
    using inv by (simp_all add: stx_inv_def stx_rings_def)
  let ?B = "A + unat d"
  let ?X = "unat (tg_start g) + ?B + 4294967296"
  have base: "stx_base_id tx + d = tg_id g ?B"
    using inv by (simp add: stx_inv_def)
  have p1: "unat (stx_base_id tx + d) = ?X mod 4294967296"
    unfolding base by (simp add: unat_word_ariths unat_of_nat mod_simps)
  have rings': "stx_rings g (tx\<lparr>stx_transit_total := t\<rparr>)"
    using rings by (simp add: stx_rings_def)
  obtain h where h: "update_nonce_history (tx\<lparr>stx_transit_total := t\<rparr>) d (stx_base_id tx + d) =
        Some (tx\<lparr>stx_transit_total := t, stx_nonce_history := h\<rparr>)"
      "\<And>j. j < 32 \<Longrightarrow> bit h j = (if j < min (unat d) 32 then nonce_at (stx_nonce_buf tx) ((?X - 1 - j) mod tg_window g)
        else bit (stx_nonce_history tx) (j - min (unat d) 32))"
    using update_nonce_history_bits [OF rings' p1 _ d(1)] by auto
  have pos: "(?X - 1 - j) mod tg_window g = tg_pos g (?B - 1 - j)" if "j < ?B" for j
  proof -
    have "?X - 1 - j = unat (tg_start g) + (?B - 1 - j) + 4294967296"
      using that by simp
    moreover have "w dvd m \<Longrightarrow> (a + m) mod w = a mod w" for a m w :: nat
      by (auto elim!: dvdE)
    ultimately show ?thesis
      using tg_window_dvd [OF k] unfolding tg_pos_def by metis
  qed
  have "bit h j = tg_nonce g (?B - 1 - j)" if j: "j < 32" "j < ?B" for j
  proof (cases "j < unat d")
    case True
    then have "A \<le> ?B - 1 - j" "?B - 1 - j < N"
      using d j by auto
    then have "nonce_at (stx_nonce_buf tx) (tg_pos g (?B - 1 - j)) = tg_nonce g (?B - 1 - j)"
      using inv unfolding stx_inv_def by blast
    then show ?thesis
      using h(2) [OF j(1)] True j(1) unfolding pos [OF j(2)] by simp
  next
    case False
    then have "?B - 1 - j = A - 1 - (j - unat d)" "j - unat d < A"
      using j(2) by auto
    with False show ?thesis
      using h(2) [OF j(1)] j inv by (simp add: stx_inv_def)
  qed
  moreover have "release_loop (unat d) 0 tx (stx_transit_total tx) = Some (sum (tg_size g) {?B..<N})"
    using release_loop_sum [OF inv, of 0 "unat d"] d inv by (simp add: stx_inv_def)
  ultimately show ?thesis
    using h(1) by (intro exI [of _ h]) simp
qed

text \<open>
  An acknowledgement with any identifier, history and checksum: it is ignored if it lies
  beyond what was sent, and moves the base otherwise.
\<close>

lemma stx_acknowledge_inv:
  fixes i :: u32
  assumes inv: "stx_inv g A N tx"
  defines "d \<equiv> seq_delta (stx_base_id tx) i"
  shows "if d \<le> N - A
    then \<exists>tx1. stx_acknowledge tx i hist c = Some (update_ack_history tx1 (i - stx_base_id tx) hist c) \<and>
      stx_inv g (A + d) N tx1 \<and> stx_ack_history tx1 = stx_ack_history tx
    else stx_acknowledge tx i hist c = Some (tx, False)"
proof -
  let ?d = "i - stx_base_id tx"
  have d: "unat ?d = d"
    by (simp add: d_def seq_delta_def)
  have le: "?d \<le> stx_next_id tx - stx_base_id tx \<longleftrightarrow> d \<le> N - A"
    using stx_in_flight [OF inv] d by (simp add: word_le_nat_alt)
  have AN: "A \<le> N"
    using inv by (simp add: stx_inv_def)
  show ?thesis
  proof (cases "d \<le> N - A")
    case False
    then show ?thesis
      using le by (simp add: stx_acknowledge_def)
  next
    case True
    show ?thesis
    proof (cases "d = 0")
      case 0: True
      then have "?d = 0"
        using d by (simp add: unat_eq_0)
      then show ?thesis
        using 0 inv by (auto simp: stx_acknowledge_def)
    next
      case False
      have pos: "0 < ?d"
        using False d by (simp add: word_less_nat_alt)
      have "0 < unat ?d" "A + unat ?d \<le> N"
        using False True AN d by simp_all
      from stx_advance [OF inv this, of "sum (tg_size g) {A + d..<N}"] obtain h where
        rel: "release_loop d 0 tx (stx_transit_total tx) = Some (sum (tg_size g) {A + d..<N})" and
        upd: "update_nonce_history (tx\<lparr>stx_transit_total := sum (tg_size g) {A + d..<N}\<rparr>) ?d i =
          Some (tx\<lparr>stx_transit_total := sum (tg_size g) {A + d..<N}, stx_nonce_history := h\<rparr>)" and
        bits: "\<forall>j < 32. j < A + d \<longrightarrow> bit h j = tg_nonce g (A + d - 1 - j)"
        unfolding d by auto
      let ?tx1 = "tx\<lparr>stx_transit_total := sum (tg_size g) {A + d..<N}, stx_nonce_history := h, stx_base_id := i\<rparr>"
      have "i = stx_base_id tx + word_of_nat d"
        using seq_delta_plus [of "stx_base_id tx" i] by (simp add: d_def)
      then have "i = tg_id g (A + d)"
        using inv by (simp add: stx_inv_def algebra_simps)
      moreover have "stx_inv g A N tx \<Longrightarrow> N \<le> A + d + tg_window g"
        by (simp add: stx_inv_def)
      ultimately have "stx_inv g (A + d) N ?tx1"
        using inv bits True AN unfolding stx_inv_def by (simp add: stx_rings_def)
      moreover have "stx_acknowledge tx i hist c = Some (update_ack_history ?tx1 ?d hist c)"
        using le True pos rel upd d by (simp add: stx_acknowledge_def Let_def)
      ultimately show ?thesis
        using True by (simp only: if_True) (intro exI [of _ ?tx1], simp)
    qed
  qed
qed

section \<open>Drop detection\<close>

lemma ones_down_spec:
  "ones_down x n \<le> n \<and> (\<forall>j. n - ones_down x n \<le> j \<and> j < n \<longrightarrow> bit x j) \<and>
   (ones_down x n < n \<longrightarrow> \<not> bit x (n - 1 - ones_down x n))"
proof (induction n)
  case (Suc n)
  then show ?case
    by (cases "bit x n") (auto simp: less_Suc_eq Suc_diff_le)
qed simp

lemma leading_ones_spec:
  "leading_ones x \<le> 32"
  "32 - leading_ones x \<le> j \<Longrightarrow> j < 32 \<Longrightarrow> bit x j"
  "leading_ones x < 32 \<Longrightarrow> \<not> bit x (31 - leading_ones x)"
  using ones_down_spec [of x 32] by (auto simp: leading_ones_def)

lemma word_all_ones: "h = - 1 \<longleftrightarrow> (\<forall>j < 32. bit h j)" for h :: u32
  by (auto simp: bit_eq_iff)

lemma leading_ones_less: "leading_ones h < n \<longleftrightarrow> (\<exists>j < 32. \<not> bit h j \<and> 32 < j + n + 1)" if "n \<le> 32" for h
proof
  assume "leading_ones h < n"
  with leading_ones_spec(3) [of h] that show "\<exists>j < 32. \<not> bit h j \<and> 32 < j + n + 1"
    by (intro exI [of _ "31 - leading_ones h"]) auto
next
  assume "\<exists>j < 32. \<not> bit h j \<and> 32 < j + n + 1"
  then obtain j where "j < 32" "\<not> bit h j" "32 < j + n + 1"
    by blast
  with leading_ones_spec(1) [of h] leading_ones_spec(2) [of h j] show "leading_ones h < n"
    by (cases "32 - leading_ones h \<le> j") auto
qed

lemma count_ones_card: "count_ones x = card {j. j < 32 \<and> bit x j}"
proof -
  have "count_ones x = card (set (filter (bit x) [0..<32]))"
    unfolding count_ones_def by (rule distinct_card [symmetric]) simp
  then show ?thesis
    by (simp add: conj_commute)
qed

text \<open>
  The verdict on a history: the oldest segment not accounted for is 32 places back, or at
  least three later ones have been reported.
\<close>

lemma ack_verdict_iff:
  "ack_verdict h \<longleftrightarrow> (\<exists>z < 32. \<not> bit h z \<and> (\<forall>j. z < j \<and> j < 32 \<longrightarrow> bit h j) \<and>
     (z = 31 \<or> 3 \<le> card {j. j < z \<and> bit h j}))"
proof (cases "h = - 1")
  case True
  then show ?thesis
    by (auto simp: ack_verdict_def)
next
  case False
  let ?lo = "leading_ones h"
  have "\<not> (\<forall>j < 32. bit h j)"
    using False by (simp add: word_all_ones)
  then have lo: "?lo < 32"
    using leading_ones_spec(1) [of h] leading_ones_spec(2) [of h] by (cases "?lo = 32") auto
  have top: "drop_bit 31 h = 0 \<longleftrightarrow> \<not> bit h 31"
  proof
    assume no31: "\<not> bit h 31"
    have "\<not> bit h (31 + n)" for n
      using no31 bit_imp_le_length [of h "31 + n"] by (cases n) auto
    then show "drop_bit 31 h = 0"
      by (intro bit_eqI) (simp add: bit_drop_bit_eq)
  next
    assume "drop_bit 31 h = 0"
    then have "\<not> bit (drop_bit 31 h) 0"
      by simp
    then show "\<not> bit h 31"
      by (simp add: bit_drop_bit_eq)
  qed
  have ones: "count_ones (drop_bit (?lo mod 32) (push_bit (?lo mod 32) h)) = card {j. j < 31 - ?lo \<and> bit h j}"
  proof -
    have "j < 32 \<and> bit (drop_bit ?lo (push_bit ?lo h)) j \<longleftrightarrow> j < 31 - ?lo \<and> bit h j" for j
    proof -
      have "bit (drop_bit ?lo (push_bit ?lo h)) j \<longleftrightarrow> ?lo + j < 32 \<and> bit h j"
        by (auto simp: bit_drop_bit_eq bit_push_bit_iff)
      moreover have "j = 31 - ?lo \<Longrightarrow> \<not> bit h j"
        using leading_ones_spec(3) [OF lo] by simp
      moreover have "j < 31 - ?lo \<longleftrightarrow> ?lo + j < 32 \<and> j \<noteq> 31 - ?lo"
        using lo by auto
      ultimately show ?thesis
        by auto
    qed
    with lo show ?thesis
      by (simp add: count_ones_card)
  qed
  have highest: "z < 32 \<and> \<not> bit h z \<and> (\<forall>j. z < j \<and> j < 32 \<longrightarrow> bit h j) \<longleftrightarrow> z = 31 - ?lo" for z
  proof
    assume z: "z < 32 \<and> \<not> bit h z \<and> (\<forall>j. z < j \<and> j < 32 \<longrightarrow> bit h j)"
    then have "\<not> 32 - ?lo \<le> z" "\<not> z < 31 - ?lo"
      using leading_ones_spec(2) [of h z] leading_ones_spec(3) [OF lo] by auto
    then show "z = 31 - ?lo" by linarith
  next
    assume "z = 31 - ?lo"
    then show "z < 32 \<and> \<not> bit h z \<and> (\<forall>j. z < j \<and> j < 32 \<longrightarrow> bit h j)"
      using leading_ones_spec(2) [of h] leading_ones_spec(3) [OF lo] by auto
  qed
  have "\<not> bit h 31 \<longleftrightarrow> ?lo = 0"
    using leading_ones_spec(2) [of h 31] leading_ones_spec(3) [OF lo] by (cases "?lo = 0") auto
  then have "ack_verdict h \<longleftrightarrow> ?lo = 0 \<or> 3 \<le> card {j. j < 31 - ?lo \<and> bit h j}"
    unfolding ack_verdict_def ones top using False by simp
  also have "\<dots> \<longleftrightarrow> (\<exists>z. z = 31 - ?lo \<and> (z = 31 \<or> 3 \<le> card {j. j < z \<and> bit h j}))"
    using lo by auto
  finally show ?thesis
    unfolding highest [symmetric] by blast
qed

lemma shifted_history_bits:
  assumes "unat d \<le> 32" and "j < 32"
  shows "bit (shifted_history h n d hist c) j \<longleftrightarrow>
    (unat d \<le> j \<and> bit h (j - unat d)) \<or> (expected_checksum n hist = c \<and> bit hist j)"
proof (cases "d = 32")
  case False
  then have "unat d < 32"
    using assms(1) by (auto simp: word_unat_eq_iff less_le)
  then show ?thesis
    using False assms(2) by (auto simp: shifted_history_def bit_or_iff bit_push_bit_iff)
qed (use assms in \<open>auto simp: shifted_history_def bit_or_iff\<close>)

section \<open>Runs of the sender\<close>

text \<open>
  Any sequence of transmissions, when the window has room for them, and acknowledgements
  with arbitrary contents. \<open>log\<close> collects the sizes and nonces sent.
\<close>

datatype TxEvent = SendEv bool nat | AckEv u32 u32 bool

fun tx_step :: "TxEvent \<Rightarrow> SegmentTx \<times> (bool \<times> nat) list \<Rightarrow> (SegmentTx \<times> (bool \<times> nat) list) rust" where
  "tx_step (SendEv x sz) (tx, log) =
     (if stx_can_send tx then map_option (\<lambda>tx. (tx, log @ [(x, sz)])) (stx_send tx x sz) else Some (tx, log))"
| "tx_step (AckEv i hist c) (tx, log) =
     map_option (\<lambda>(tx, r). (tx, log)) (stx_acknowledge tx i hist c)"

fun tx_run :: "TxEvent list \<Rightarrow> SegmentTx \<times> (bool \<times> nat) list \<Rightarrow> (SegmentTx \<times> (bool \<times> nat) list) rust" where
  "tx_run [] s = Some s"
| "tx_run (e # evs) s = tx_step e s \<bind> tx_run evs"

text \<open>The invariant for the segments of a log.\<close>

definition log_ghost :: "u32 \<Rightarrow> nat \<Rightarrow> (bool \<times> nat) list \<Rightarrow> TxGhost" where
  "log_ghost base k log = \<lparr>tg_start = base, tg_size = (\<lambda>n. snd (log ! n)), tg_nonce = (\<lambda>n. fst (log ! n)), tg_exp = k\<rparr>"

lemma stx_inv_cong:
  assumes "stx_inv g A N tx" and "tg_start g' = tg_start g" and "tg_exp g' = tg_exp g"
    and "\<forall>n < N. tg_size g' n = tg_size g n \<and> tg_nonce g' n = tg_nonce g n"
  shows "stx_inv g' A N tx"
proof -
  have "sum (tg_size g') {A..<N} = sum (tg_size g) {A..<N}"
    using assms(4) by (intro sum.cong) auto
  moreover have "tg_pos g' n = tg_pos g n" for n
    using assms(2,3) by (simp add: tg_pos_def)
  moreover have "A - 1 - j < N" if "j < A" for j
    using assms(1) that unfolding stx_inv_def by linarith
  ultimately show ?thesis
    using assms unfolding stx_inv_def stx_rings_def by simp
qed

definition stx_log_inv :: "u32 \<Rightarrow> nat \<Rightarrow> nat \<Rightarrow> SegmentTx \<times> (bool \<times> nat) list \<Rightarrow> bool" where
  "stx_log_inv base k A s \<longleftrightarrow> (case s of (tx, log) \<Rightarrow> stx_inv (log_ghost base k log) A (length log) tx)"

lemma tx_step_inv:
  assumes "stx_log_inv base k A s"
  shows "\<exists>s' A'. tx_step e s = Some s' \<and> stx_log_inv base k A' s' \<and> A \<le> A'"
proof -
  obtain tx log where s: "s = (tx, log)" by fastforce
  then have inv: "stx_inv (log_ghost base k log) A (length log) tx"
    using assms by (simp add: stx_log_inv_def)
  show ?thesis
  proof (cases e)
    case (SendEv x sz)
    show ?thesis
    proof (cases "stx_can_send tx")
      case True
      let ?g = "log_ghost base k (log @ [(x, sz)])"
      have "stx_inv ?g A (length log) tx"
        by (rule stx_inv_cong [OF inv]) (simp_all add: log_ghost_def nth_append)
      moreover have "length log < A + tg_window ?g"
        using True stx_can_send_iff [OF inv] by (simp add: log_ghost_def)
      ultimately obtain tx' where "stx_send tx (tg_nonce ?g (length log)) (tg_size ?g (length log)) = Some tx'"
          "stx_inv ?g A (length log + 1) tx'"
        using stx_send_inv by blast
      then show ?thesis
        using True s SendEv by (auto simp: stx_log_inv_def log_ghost_def)
    qed (use s SendEv assms in auto)
  next
    case (AckEv i hist c)
    have keep: "stx_inv g A N (fst (update_ack_history tx1 d hist c))" if "stx_inv g A N tx1" for g A N tx1 d
      using stx_inv_ack_history [OF that, of "stx_ack_history (fst (update_ack_history tx1 d hist c))"]
        update_ack_history_frame [where tx = tx1 and d = d and hist = hist and c = c and
          h = "stx_ack_history (fst (update_ack_history tx1 d hist c))"]
      by simp
    show ?thesis
    proof (cases "seq_delta (stx_base_id tx) i \<le> length log - A")
      case True
      then obtain tx1 where "stx_acknowledge tx i hist c = Some (update_ack_history tx1 (i - stx_base_id tx) hist c)"
          "stx_inv (log_ghost base k log) (A + seq_delta (stx_base_id tx) i) (length log) tx1"
        using stx_acknowledge_inv [OF inv, of i hist c] by auto
      with keep [OF this(2), of "i - stx_base_id tx"] show ?thesis
        using s AckEv by (auto simp: stx_log_inv_def split: prod.splits)
    next
      case False
      then have "stx_acknowledge tx i hist c = Some (tx, False)"
        using stx_acknowledge_inv [OF inv, of i hist c] by simp
      then show ?thesis
        using s AckEv assms by auto
    qed
  qed
qed

lemma tx_run_inv:
  "stx_log_inv base k A s \<Longrightarrow> \<exists>s' A'. tx_run evs s = Some s' \<and> stx_log_inv base k A' s' \<and> A \<le> A'"
proof (induction evs arbitrary: s A)
  case (Cons e evs)
  obtain s1 A1 where "tx_step e s = Some s1" "stx_log_inv base k A1 s1" "A \<le> A1"
    using tx_step_inv [OF Cons.prems] by blast
  with Cons.IH [of A1 s1] show ?case
    by (auto intro: le_trans)
qed auto

lemma tx_run_new:
  assumes "SegmentTx_new base sz = Some tx0"
  shows "\<exists>tx log A k. tx_run evs (tx0, []) = Some (tx, log) \<and> unat sz = 2 ^ k \<and>
    stx_inv (log_ghost base k log) A (length log) tx"
proof -
  obtain k where k: "k < 32" "unat sz = 2 ^ k"
    using SegmentTx_new_window [OF assms] by blast
  have "stx_log_inv base k 0 (tx0, [])"
    using SegmentTx_new_inv [OF assms, of "log_ghost base k []"] k by (simp add: stx_log_inv_def log_ghost_def)
  from tx_run_inv [OF this, of evs] k(2) show ?thesis
    by (fastforce simp: stx_log_inv_def)
qed

section \<open>What the sender guarantees\<close>

text \<open>
  C21: for any sequence of transmissions and acknowledgements, forged ones included, the
  sender never aborts: no ring index is out of range and the running total never drops
  below zero. The bytes in transit are the sum of the sizes of the segments between base
  and next identifier, of which there are never more than the window holds.
\<close>

theorem transit_accounting:
  assumes "SegmentTx_new base sz = Some tx0"
  shows "\<exists>tx log A. tx_run evs (tx0, []) = Some (tx, log) \<and>
    stx_base_id tx = base + word_of_nat A \<and> stx_next_id tx = base + word_of_nat (length log) \<and>
    A \<le> length log \<and> length log - A \<le> unat sz \<and>
    stx_bytes_in_transit tx = (\<Sum>n = A..<length log. snd (log ! n))"
proof -
  obtain tx log A k where run: "tx_run evs (tx0, []) = Some (tx, log)" "unat sz = 2 ^ k"
      "stx_inv (log_ghost base k log) A (length log) tx"
    using tx_run_new [OF assms, of evs] by blast
  then show ?thesis
    by (intro exI [of _ tx] exI [of _ log] exI [of _ A])
      (simp add: stx_inv_def log_ghost_def stx_bytes_in_transit_def le_diff_conv algebra_simps)
qed

theorem transit_accounting_witness:
  "\<exists>tx log A. tx_run [SendEv True 100, SendEv False 20, AckEv 0 1 True, AckEv 77 0 False]
      (the (SegmentTx_new 4294967295 64), []) = Some (tx, log) \<and>
    stx_bytes_in_transit tx = (\<Sum>n = A..<length log. snd (log ! n))"
proof -
  have "SegmentTx_new 4294967295 64 = Some (the (SegmentTx_new 4294967295 64))"
    by (simp add: SegmentTx_new_def)
  from transit_accounting [OF this] show ?thesis
    by blast
qed

text \<open>
  C22: the nonce history is right: after any such sequence, bit \<open>j\<close> is the nonce of the
  segment \<open>j + 1\<close> places before the base, wherever it lay in the ring of 64-bit words and
  also when identifiers wrapped.
\<close>

theorem nonce_history_exact:
  assumes "SegmentTx_new base sz = Some tx0"
  shows "\<exists>tx log A. tx_run evs (tx0, []) = Some (tx, log) \<and> stx_base_id tx = base + word_of_nat A \<and>
    (\<forall>j < 32. j < A \<longrightarrow> bit (stx_nonce_history tx) j = fst (log ! (A - 1 - j)))"
proof -
  obtain tx log A k where run: "tx_run evs (tx0, []) = Some (tx, log)"
      "stx_inv (log_ghost base k log) A (length log) tx"
    using tx_run_new [OF assms, of evs] by blast
  then show ?thesis
    by (intro exI [of _ tx] exI [of _ log] exI [of _ A]) (simp add: stx_inv_def log_ghost_def)
qed

theorem nonce_history_exact_witness:
  "\<exists>tx log A. tx_run [SendEv True 100, SendEv False 20, AckEv 0 1 True, AckEv 77 0 False]
      (the (SegmentTx_new 4294967295 64), []) = Some (tx, log) \<and>
    (\<forall>j < 32. j < A \<longrightarrow> bit (stx_nonce_history tx) j = fst (log ! (A - 1 - j)))"
proof -
  have "SegmentTx_new 4294967295 64 = Some (the (SegmentTx_new 4294967295 64))"
    by (simp add: SegmentTx_new_def)
  from nonce_history_exact [OF this] show ?thesis
    by blast
qed

lemma expected_checksum_parity: "expected_checksum n r = xor_bits (n AND r) 32"
  unfolding expected_checksum_def Let_def xor_bits_one
  by (simp only: xor_fold_step [of 1 2] xor_fold_step [of 2 4] xor_fold_step [of 4 8]
      xor_fold_step [of 8 16] xor_fold_step [of 16 32] one_add_one numeral_plus_numeral add_num_simps)

lemma shifted_history_one:
  assumes "unat d \<le> leading_ones h" and "j < 32"
  shows "bit (shifted_history h n d hist c) j \<longleftrightarrow>
    (unat d \<le> j \<and> bit h (j - unat d)) \<or> (expected_checksum n hist = c \<and> bit hist j)"
  using assms leading_ones_spec(1) [of h] by (intro shifted_history_bits) auto

text \<open>
  C26: drop detection is exact. A drop is signalled if and only if more than 32 segments
  are acknowledged at once, or an unaccounted segment leaves the 32 places of the history,
  or the oldest unaccounted place has three accounted ones after it (or is the last place).
  A place is accounted for if it was before, or if it is reported now with a checksum that
  matches the nonces.
\<close>

theorem drop_detection_exact:
  fixes d hist :: u32
  defines "accounted \<equiv> \<lambda>tx c j. (unat d \<le> j \<and> bit (stx_ack_history tx) (j - unat d)) \<or>
    (expected_checksum (stx_nonce_history tx) hist = c \<and> bit hist j)"
  shows "snd (update_ack_history tx d hist c) \<longleftrightarrow>
     32 < unat d \<or> (\<exists>j < 32. \<not> bit (stx_ack_history tx) j \<and> 32 \<le> j + unat d) \<or>
     (\<exists>z < 32. \<not> accounted tx c z \<and> (\<forall>j. z < j \<and> j < 32 \<longrightarrow> accounted tx c j) \<and>
       (z = 31 \<or> 3 \<le> card {j. j < z \<and> accounted tx c j}))"
proof -
  let ?h = "stx_ack_history tx"
  let ?s = "shifted_history ?h (stx_nonce_history tx) d hist c"
  have over: "unat d > leading_ones ?h \<longleftrightarrow> 32 < unat d \<or> (\<exists>j < 32. \<not> bit ?h j \<and> 32 \<le> j + unat d)"
    using leading_ones_spec(1) [of ?h] leading_ones_less [of "unat d" ?h] by (cases "unat d \<le> 32") auto
  show ?thesis
  proof (cases "unat d > leading_ones ?h")
    case True
    then show ?thesis
      using over by (auto simp: update_ack_history_eq Let_def)
  next
    case False
    then have bits: "bit ?s j \<longleftrightarrow> accounted tx c j" if "j < 32" for j
      using shifted_history_one [of d ?h j] that by (simp add: accounted_def)
    have "{j. j < z \<and> bit ?s j} = {j. j < z \<and> accounted tx c j}" if "z < 32" for z
      using bits that by auto
    then have "ack_verdict ?s \<longleftrightarrow> (\<exists>z < 32. \<not> accounted tx c z \<and> (\<forall>j. z < j \<and> j < 32 \<longrightarrow> accounted tx c j) \<and>
       (z = 31 \<or> 3 \<le> card {j. j < z \<and> accounted tx c j}))"
      unfolding ack_verdict_iff using bits by (metis (no_types, lifting))
    with False over show ?thesis
      by (simp add: update_ack_history_eq Let_def)
  qed
qed

theorem drop_detection_exact_witness:
  "\<not> snd (update_ack_history (the (SegmentTx_new 0 64)) 1 1 False)"
proof -
  have tx: "stx_ack_history (the (SegmentTx_new 0 64)) = - 1" "stx_nonce_history (the (SegmentTx_new 0 64)) = 0"
    by (simp_all add: SegmentTx_new_def)
  have "expected_checksum 0 1 = False"
    by (simp add: expected_checksum_def)
  then show ?thesis
    using drop_detection_exact [of "the (SegmentTx_new 0 64)" 1 1 False] by (auto simp: tx bit_1_iff Suc_le_eq)
qed

lemma update_ack_history_lossless:
  assumes "stx_ack_history tx = - 1" and "unat d \<le> 32" and "\<forall>j < unat d. bit hist j"
    and "expected_checksum (stx_nonce_history tx) hist = c"
  shows "update_ack_history tx d hist c = (tx, False)"
proof -
  let ?s = "shifted_history (- 1) (stx_nonce_history tx) d hist c"
  have "leading_ones (- 1) = 32"
    using leading_ones_spec(1,3) [of "- 1"] by (cases "leading_ones (- 1) < 32") auto
  moreover have "?s = - 1"
    unfolding word_all_ones using assms(2-4)
    by (simp add: shifted_history_bits less_imp_diff_less) (meson not_le)
  ultimately show ?thesis
    using assms(1,2) by (simp add: update_ack_history_eq ack_verdict_def Let_def)
qed

end
