(* ===== verification/Segment_Link.thy ===== *)
theory Segment_Link
  imports Segment_Rx Segment_Tx
begin

text \<open>
  Segment sender and receiver together: the acknowledgement an honest receiver builds passes
  the nonce check of the sender, and while no segment is lost and every acknowledgement
  reports at most five new segments, the sender never sees a drop.
\<close>

lemma bit_widen: "bit (ucast (h :: u8) :: u32) j \<longleftrightarrow> j < 8 \<and> bit h j"
  by (auto simp: bit_simps dest: bit_imp_le_length)

lemma honest_checksum:
  assumes rx: "srx_state g B buf D rx" and tx: "stx_inv h B N tx"
    and nonces: "\<forall>n < B. tg_nonce h n = gh_nonce g n"
  shows "expected_checksum (stx_nonce_history tx) (ucast (fst (next_ack_info rx))) = snd (next_ack_info rx)"
proof -
  have hist: "history_of (gh_nonce g) B D rx"
    using srx_state_parts(1) [OF rx] by (simp add: srx_core_def)
  note ack = next_ack_info_bits [OF hist]
  have "j < 32 \<and> bit (stx_nonce_history tx AND ucast (fst (next_ack_info rx))) j \<longleftrightarrow>
      j < 5 \<and> j < B \<and> B - 1 - j \<in> D \<and> gh_nonce g (B - 1 - j)" for j
  proof (cases "j < 5 \<and> j < B")
    case True
    moreover from this have "bit (stx_nonce_history tx) j = tg_nonce h (B - 1 - j)"
      using tx unfolding stx_inv_def by simp
    moreover have "tg_nonce h (B - 1 - j) = gh_nonce g (B - 1 - j)"
      using True nonces by simp
    ultimately show ?thesis
      using ack(1) by (auto simp: bit_and_iff bit_widen)
  next
    case False
    then show ?thesis
      using ack(1) by (auto simp: bit_and_iff bit_widen)
  qed
  then show ?thesis
    by (simp add: expected_checksum_parity xor_bits_card ack(2))
qed

text \<open>
  C24: an honest acknowledgement is accepted: if the sender has moved its base to the
  identifier the receiver reports and both saw the same nonces, the checksum the receiver
  computed over its five history bits is the one the sender expects.
\<close>

theorem honest_ack_passes_nonce_check:
  assumes "srx_state g B buf D rx" and "stx_inv h B N tx" and "\<forall>n < B. tg_nonce h n = gh_nonce g n"
  shows "expected_checksum (stx_nonce_history tx) (ucast (fst (next_ack_info rx))) = snd (next_ack_info rx)"
  using assms by (rule honest_checksum)

text \<open>
  Two segments sent, received and acknowledged, with identifiers that wrap.
\<close>

definition link_rx_ghost :: RxGhost where
  "link_rx_ghost = \<lparr>gh_start = 4294967295, gh_sent = (\<lambda>n. [7]), gh_nonce = even, gh_window = 64, gh_size = 8\<rparr>"

definition link_tx_ghost :: TxGhost where
  "link_tx_ghost = \<lparr>tg_start = 4294967295, tg_size = (\<lambda>n. 1), tg_nonce = even, tg_exp = 6\<rparr>"

lemma link_rx: "\<exists>rx. srx_state link_rx_ghost 2 [] {0, 1} rx"
proof -
  have new: "srx_state link_rx_ghost 0 [] {} (SegmentRx_new 4294967295 64 8)"
    by (rule SegmentRx_new_state) (simp_all add: link_rx_ghost_def)
  have "spec_run link_rx_ghost [SegmentEv 0, SegmentEv 1] 0 [] = (2, [], [0, 1])"
    and "fresh_run link_rx_ghost [SegmentEv 0, SegmentEv 1] 0 []"
    by (simp_all add: link_rx_ghost_def spec_receive_def rx_fresh_def)
  from rx_run_refines [OF new this(2) _ this(1)] show ?thesis
    by (auto simp: link_rx_ghost_def)
qed

lemma stx_send_history:
  "stx_send tx nonce n = Some tx' \<Longrightarrow> stx_ack_history tx' = stx_ack_history tx"
  by (auto simp: stx_send_def compute_next_nonce_def stx_mark_sent_def Let_def bind_eq_Some_conv split: if_splits)

lemma link_tx_new:
  "stx_inv link_tx_ghost 0 0 (the (SegmentTx_new 4294967295 64))"
  "stx_ack_history (the (SegmentTx_new 4294967295 64)) = - 1"
proof -
  obtain tx0 where new: "SegmentTx_new 4294967295 64 = Some tx0" "stx_ack_history tx0 = - 1"
    by (simp add: SegmentTx_new_def)
  have "stx_inv link_tx_ghost 0 0 tx0"
    by (rule SegmentTx_new_inv [OF new(1)]) (simp_all add: link_tx_ghost_def)
  with new show "stx_inv link_tx_ghost 0 0 (the (SegmentTx_new 4294967295 64))"
    "stx_ack_history (the (SegmentTx_new 4294967295 64)) = - 1"
    by simp_all
qed

lemma link_tx: "\<exists>tx. stx_inv link_tx_ghost 0 2 tx \<and> stx_ack_history tx = - 1"
proof -
  have send: "\<exists>tx'. stx_inv link_tx_ghost 0 (N + 1) tx' \<and> stx_ack_history tx' = - 1"
    if inv: "stx_inv link_tx_ghost 0 N tx" and hist: "stx_ack_history tx = - 1" and N: "N < 64" for N tx
    using stx_send_inv [OF inv] N hist stx_send_history by (fastforce simp: link_tx_ghost_def)
  from send [OF link_tx_new] obtain tx1
    where "stx_inv link_tx_ghost 0 1 tx1" "stx_ack_history tx1 = - 1"
    by auto
  from send [OF this] show ?thesis
    by (simp add: numeral_2_eq_2)
qed

lemma link_ack:
  assumes rx: "srx_state g B buf D rx" and tx: "stx_inv h A N tx" and "A \<le> B" "B \<le> N"
    and start: "tg_start h = gh_start g" and nonces: "\<forall>n < B. tg_nonce h n = gh_nonce g n"
  shows "\<exists>tx1. stx_acknowledge tx (srx_next_expected_id rx) (ucast (fst (next_ack_info rx))) (snd (next_ack_info rx)) =
      Some (update_ack_history tx1 (srx_next_expected_id rx - stx_base_id tx)
        (ucast (fst (next_ack_info rx))) (snd (next_ack_info rx))) \<and>
    stx_inv h B N tx1 \<and> stx_ack_history tx1 = stx_ack_history tx \<and>
    unat (srx_next_expected_id rx - stx_base_id tx) = B - A"
proof -
  have B: "B < A + 4294967296"
  proof -
    have "stx_rings h tx" "N \<le> A + tg_window h"
      using tx by (simp_all add: stx_inv_def)
    with window_less [of h tx] assms(4) show ?thesis by simp
  qed
  have id: "srx_next_expected_id rx = tg_id h B" and base: "stx_base_id tx = tg_id h A"
    using srx_state_parts(5) [OF rx] start tx by (simp_all add: srx_next_expected_id_def stx_inv_def)
  have d: "seq_delta (stx_base_id tx) (srx_next_expected_id rx) = B - A"
    using seq_delta_index [OF assms(3) B, of "tg_start h"] by (simp add: id base)
  have le: "B - A \<le> N - A" and eq: "A + (B - A) = B"
    using assms(3,4) by simp_all
  from stx_acknowledge_inv [OF tx, of "srx_next_expected_id rx" "ucast (fst (next_ack_info rx))"
      "snd (next_ack_info rx)", unfolded d] le
  show ?thesis
    using d by (simp add: eq seq_delta_def)
qed

theorem honest_ack_passes_nonce_check_witness:
  "\<exists>rx tx. srx_state link_rx_ghost 2 [] {0, 1} rx \<and> stx_inv link_tx_ghost 2 2 tx \<and>
    expected_checksum (stx_nonce_history tx) (ucast (fst (next_ack_info rx))) = snd (next_ack_info rx)"
proof -
  obtain rx where rx: "srx_state link_rx_ghost 2 [] {0, 1} rx"
    using link_rx by blast
  obtain tx where tx: "stx_inv link_tx_ghost 0 2 tx"
    using link_tx by blast
  obtain tx1 where tx1: "stx_inv link_tx_ghost 2 2 tx1"
    using link_ack [OF rx tx] by (auto simp: link_rx_ghost_def link_tx_ghost_def)
  from honest_ack_passes_nonce_check [OF rx tx1] rx tx1 show ?thesis
    by (auto simp: link_rx_ghost_def link_tx_ghost_def)
qed

text \<open>One acknowledgement of a receiver that has missed nothing.\<close>

lemma lossless_ack:
  assumes rx: "srx_state g B buf D rx" and tx: "stx_inv h A N tx" and range: "A \<le> B" "B \<le> N" "B \<le> A + 5"
    and start: "tg_start h = gh_start g" and nonces: "tg_nonce h = gh_nonce g"
    and all: "stx_ack_history tx = - 1" "{..<B} \<subseteq> D"
  shows "\<exists>tx'. stx_acknowledge tx (srx_next_expected_id rx) (ucast (fst (next_ack_info rx))) (snd (next_ack_info rx)) =
      Some (tx', False) \<and> stx_inv h B N tx' \<and> stx_ack_history tx' = - 1"
proof -
  have nonces': "\<forall>n < B. tg_nonce h n = gh_nonce g n"
    by (simp add: nonces)
  obtain tx1 where tx1: "stx_acknowledge tx (srx_next_expected_id rx) (ucast (fst (next_ack_info rx)))
        (snd (next_ack_info rx)) =
      Some (update_ack_history tx1 (srx_next_expected_id rx - stx_base_id tx)
        (ucast (fst (next_ack_info rx))) (snd (next_ack_info rx)))"
    "stx_inv h B N tx1" "stx_ack_history tx1 = stx_ack_history tx"
    "unat (srx_next_expected_id rx - stx_base_id tx) = B - A"
    using link_ack [OF rx tx range(1,2) start nonces'] by blast
  have hist: "history_of (gh_nonce g) B D rx"
    using srx_state_parts(1) [OF rx] by (simp add: srx_core_def)
  have "bit (ucast (fst (next_ack_info rx)) :: u32) j" if "j < B - A" for j
  proof -
    have "B - 1 - j \<in> {..<B}" "j < 5" "j < B"
      using that range(3) by auto
    with all(2) next_ack_info_bits(1) [OF hist] show ?thesis
      by (auto simp: bit_widen)
  qed
  with tx1(4) range(3) all(1) tx1(3) honest_checksum [OF rx tx1(2) nonces']
  have "update_ack_history tx1 (srx_next_expected_id rx - stx_base_id tx)
        (ucast (fst (next_ack_info rx))) (snd (next_ack_info rx)) = (tx1, False)"
    by (intro update_ack_history_lossless) simp_all
  with tx1 all(1) show ?thesis
    by simp
qed

text \<open>An acknowledgement that a later one has overtaken is ignored.\<close>

lemma overtaken_ack:
  assumes rx: "srx_state g B buf D rx" and tx: "stx_inv h A N tx" and range: "B < A" "N < B + 4294967296"
    and start: "tg_start h = gh_start g"
  shows "stx_acknowledge tx (srx_next_expected_id rx) i c = Some (tx, False)"
proof -
  have le: "A \<le> N"
    using tx by (simp add: stx_inv_def)
  have id: "srx_next_expected_id rx = tg_id h B" and base: "stx_base_id tx = tg_id h A"
    using srx_state_parts(5) [OF rx] start tx by (simp_all add: srx_next_expected_id_def stx_inv_def)
  have d: "seq_delta (stx_base_id tx) (srx_next_expected_id rx) = 4294967296 + B - A"
    using seq_delta_index_behind [OF range(1), of "tg_start h"] range(2) le by (simp add: id base)
  have "\<not> 4294967296 + B - A \<le> N - A"
    using range le by linarith
  with stx_acknowledge_inv [OF tx, of "srx_next_expected_id rx" i c, unfolded d] show ?thesis
    by simp
qed

text \<open>
  The sender's side of a stream of segments: the next segment of \<open>h\<close> is sent, or the
  acknowledgement of a receiver arrives, as it was in some earlier or present state of that
  receiver. The drop signals of the acknowledgements are collected.
\<close>

datatype LinkEvent = SendNext | AckFrom SegmentRx

fun link_run :: "TxGhost \<Rightarrow> LinkEvent list \<Rightarrow> nat \<Rightarrow> SegmentTx \<Rightarrow> (SegmentTx \<times> bool list) rust" where
  "link_run h [] N tx = Some (tx, [])"
| "link_run h (SendNext # evs) N tx = do {
     tx \<leftarrow> stx_send tx (tg_nonce h N) (tg_size h N);
     link_run h evs (N + 1) tx }"
| "link_run h (AckFrom rx # evs) N tx = do {
     (tx, drop) \<leftarrow> stx_acknowledge tx (srx_next_expected_id rx)
       (ucast (fst (next_ack_info rx))) (snd (next_ack_info rx));
     (tx, drops) \<leftarrow> link_run h evs N tx;
     Some (tx, drop # drops) }"

text \<open>
  No segment is lost and few acknowledgements are: a segment is sent only inside the window,
  and every acknowledgement comes from a receiver that has delivered all segments before the
  \<open>B\<close>-th, of which at most five are new to the sender (\<open>A\<close> have been acknowledged, \<open>N\<close>
  sent). It may be late, as long as 32-bit identifiers have not come round.
\<close>

fun lossless :: "RxGhost \<Rightarrow> TxGhost \<Rightarrow> LinkEvent list \<Rightarrow> nat \<Rightarrow> nat \<Rightarrow> bool" where
  "lossless g h [] A N \<longleftrightarrow> True"
| "lossless g h (SendNext # evs) A N \<longleftrightarrow> N < A + tg_window h \<and> lossless g h evs A (N + 1)"
| "lossless g h (AckFrom rx # evs) A N \<longleftrightarrow>
     (\<exists>B buf D. srx_state g B buf D rx \<and> {..<B} \<subseteq> D \<and> B \<le> N \<and> N < B + 4294967296 \<and> B \<le> A + 5 \<and>
        lossless g h evs (max A B) N)"

text \<open>
  C25: without loss there is no drop signal: if the sender has every earlier segment accounted
  for, then however segments are sent and acknowledgements arrive (late, repeated and
  overtaken ones included), each from a receiver that has delivered every segment before
  the one it expects and none reporting more than five segments new to the sender, every
  acknowledgement is processed without a drop signal, and at the end again every segment
  is accounted for. (An acknowledgement carries the fate of five segments: when
  acknowledgements are lost so that one reports more, its missing bits can signal a drop.)
\<close>

theorem lossless_ack_no_drop:
  assumes tx: "stx_inv h A N tx" "stx_ack_history tx = - 1"
    and start: "tg_start h = gh_start g" and nonces: "tg_nonce h = gh_nonce g"
    and evs: "lossless g h evs A N"
  shows "\<exists>tx' drops. link_run h evs N tx = Some (tx', drops) \<and> True \<notin> set drops \<and>
    length drops = length (filter (\<lambda>e. e \<noteq> SendNext) evs) \<and> stx_ack_history tx' = - 1"
  using tx start nonces evs
proof (induction h evs N tx arbitrary: A rule: link_run.induct)
  case (2 h evs N tx)
  obtain tx1 where "stx_send tx (tg_nonce h N) (tg_size h N) = Some tx1" "stx_inv h A (N + 1) tx1"
    using stx_send_inv [OF 2(2)] 2(6) by auto
  with 2(1) [of tx1 A] 2(3-6) stx_send_history show ?case
    by fastforce
next
  case (3 h rx evs N tx)
  obtain B buf D where B: "srx_state g B buf D rx" "{..<B} \<subseteq> D" "B \<le> N" "N < B + 4294967296" "B \<le> A + 5"
      "lossless g h evs (max A B) N"
    using 3(6) by auto
  have "\<exists>tx1. stx_acknowledge tx (srx_next_expected_id rx) (ucast (fst (next_ack_info rx)))
      (snd (next_ack_info rx)) = Some (tx1, False) \<and> stx_inv h (max A B) N tx1 \<and> stx_ack_history tx1 = - 1"
  proof (cases "A \<le> B")
    case True
    with lossless_ack [OF B(1) 3(2) True B(3,5) 3(4,5,3) B(2)] show ?thesis
      by (simp add: max_def)
  next
    case False
    with overtaken_ack [OF B(1) 3(2) _ B(4) 3(4)] 3(2,3) show ?thesis
      by (simp add: max_def)
  qed
  then obtain tx1 where tx1: "stx_acknowledge tx (srx_next_expected_id rx) (ucast (fst (next_ack_info rx)))
      (snd (next_ack_info rx)) = Some (tx1, False)" "stx_inv h (max A B) N tx1" "stx_ack_history tx1 = - 1"
    by blast
  with 3(1) [OF tx1(1) refl tx1(2,3) 3(4,5) B(6)] show ?case
    by auto
qed simp

theorem lossless_ack_no_drop_witness:
  "\<exists>rx tx' drops. srx_state link_rx_ghost 2 [] {0, 1} rx \<and>
    link_run link_tx_ghost [SendNext, SendNext, AckFrom rx, AckFrom (SegmentRx_new 4294967295 64 8), AckFrom rx] 0
      (the (SegmentTx_new 4294967295 64)) = Some (tx', drops) \<and> True \<notin> set drops \<and> length drops = 3"
proof -
  obtain rx where rx: "srx_state link_rx_ghost 2 [] {0, 1} rx"
    using link_rx by blast
  let ?rx0 = "SegmentRx_new 4294967295 64 8"
  have rx0: "srx_state link_rx_ghost 0 [] {} ?rx0"
    by (rule SegmentRx_new_state) (simp_all add: link_rx_ghost_def)
  have ack: "lossless link_rx_ghost link_tx_ghost (AckFrom rx # evs) A 2"
    if "lossless link_rx_ghost link_tx_ghost evs (max A 2) 2" for A evs
    unfolding lossless.simps using rx that
    by (intro exI [of _ 2] exI [of _ "[]"] exI [of _ "{0, 1}"]) auto
  have late: "lossless link_rx_ghost link_tx_ghost (AckFrom ?rx0 # evs) A 2"
    if "lossless link_rx_ghost link_tx_ghost evs A 2" for A evs
    unfolding lossless.simps using rx0 that
    by (intro exI [of _ 0] exI [of _ "[]"] exI [of _ "{}"]) auto
  have win: "tg_exp link_tx_ghost = 6"
    by (simp add: link_tx_ghost_def)
  have "lossless link_rx_ghost link_tx_ghost [AckFrom rx, AckFrom ?rx0, AckFrom rx] 0 2"
    by (intro ack late) simp
  then have "lossless link_rx_ghost link_tx_ghost [AckFrom rx, AckFrom ?rx0, AckFrom rx] 0 (Suc (Suc 0))"
    by (simp add: numeral_2_eq_2 del: lossless.simps)
  then have "lossless link_rx_ghost link_tx_ghost [SendNext, SendNext, AckFrom rx, AckFrom ?rx0, AckFrom rx] 0 0"
    by (simp add: win del: lossless.simps(3))
  moreover have "tg_start link_tx_ghost = gh_start link_rx_ghost" "tg_nonce link_tx_ghost = gh_nonce link_rx_ghost"
    by (simp_all add: link_rx_ghost_def link_tx_ghost_def)
  ultimately obtain tx' drops where "link_run link_tx_ghost [SendNext, SendNext, AckFrom rx, AckFrom ?rx0, AckFrom rx] 0
      (the (SegmentTx_new 4294967295 64)) = Some (tx', drops)" "True \<notin> set drops" "length drops = 3"
    using lossless_ack_no_drop [OF link_tx_new, of link_rx_ghost "[SendNext, SendNext, AckFrom rx, AckFrom ?rx0, AckFrom rx]"]
    by auto
  with rx show ?thesis
    by blast
qed

end
