(* ===== verification/Reliable.thy ===== *)
theory Reliable
  imports Buffer "HOL-Library.Sublist"
begin

text \<open>
  The reliable packet buffers (\<^verbatim>\<open>src/buffer/reliable.rs\<close>): the go-back-N send buffer
  and the in-order receive buffer, the invariant of the send buffer, and the protocol
  formed by the two over a network that loses, duplicates and reorders.
\<close>

section \<open>Send buffer\<close>

record RelTx =
  rtx_fragments :: "FragmentRc list"
  rtx_next_send_id :: u32
  rtx_max_ack_id :: u32
  rtx_fragment_size :: nat
  rtx_send_window :: Window
  rtx_duplicate_ack_count :: u32

abbreviation rtx_base :: "RelTx \<Rightarrow> u32" where
  "rtx_base tx \<equiv> win_base_id (rtx_send_window tx)"

definition rel_tx_new :: "u32 \<Rightarrow> nat \<Rightarrow> u32 \<Rightarrow> RelTx rust" where
  "rel_tx_new base_id fragment_size window_size = do {
     rust_assert (window_size > 0);
     rust_assert (fragment_size > 0);
     Some \<lparr>rtx_fragments = [], rtx_next_send_id = base_id, rtx_max_ack_id = base_id,
           rtx_fragment_size = fragment_size, rtx_send_window = Window_new base_id window_size,
           rtx_duplicate_ack_count = 0\<rparr> }"

definition rel_tx_push :: "RelTx \<Rightarrow> bytes \<Rightarrow> RelTx" where
  "rel_tx_push tx packet =
     tx\<lparr>rtx_fragments := rtx_fragments tx @ packet_fragments (rtx_fragment_size tx) packet\<rparr>"

definition rel_tx_peek_sendable :: "RelTx \<Rightarrow> (u32 \<times> FragmentRc) option" where
  "rel_tx_peek_sendable tx =
     (if Window_contains (rtx_send_window tx) (rtx_next_send_id tx) then
        let fragment_id = rtx_next_send_id tx;
            idx = unat (fragment_id - rtx_base tx)
        in if idx < length (rtx_fragments tx)
           then Some (rtx_next_send_id tx, rtx_fragments tx ! idx)
           else None
      else None)"

definition rel_tx_pop_sendable :: "RelTx \<Rightarrow> RelTx \<times> (u32 \<times> FragmentRc) option" where
  "rel_tx_pop_sendable tx =
     (if Window_contains (rtx_send_window tx) (rtx_next_send_id tx) then
        let idx = unat (rtx_next_send_id tx - rtx_base tx)
        in if idx < length (rtx_fragments tx) then
             let fragment_id = rtx_next_send_id tx;
                 equal = (rtx_next_send_id tx = rtx_max_ack_id tx);
                 tx = tx\<lparr>rtx_next_send_id := rtx_next_send_id tx + 1\<rparr>;
                 tx = (if equal then tx\<lparr>rtx_max_ack_id := rtx_next_send_id tx\<rparr> else tx)
             in (tx, Some (fragment_id, rtx_fragments tx ! idx))
           else (tx, None)
      else (tx, None))"

definition rel_tx_resend_all :: "RelTx \<Rightarrow> RelTx" where
  "rel_tx_resend_all tx = tx\<lparr>rtx_duplicate_ack_count := 0, rtx_next_send_id := rtx_base tx\<rparr>"

text \<open>\<^verbatim>\<open>VecDeque::drain(0..n)\<close> panics if \<open>n\<close> exceeds the length.\<close>

definition rel_tx_acknowledge :: "RelTx \<Rightarrow> u32 \<Rightarrow> (RelTx \<times> bool) rust" where
  "rel_tx_acknowledge tx new_base_id =
     (if new_base_id = rtx_base tx then
        let tx = tx\<lparr>rtx_duplicate_ack_count := rtx_duplicate_ack_count tx + 1\<rparr>;
            tx = (if rtx_duplicate_ack_count tx = 3 then rel_tx_resend_all tx else tx)
        in Some (tx, True)
      else
        let new_base_delta = new_base_id - rtx_base tx;
            max_ack_delta = rtx_max_ack_id tx - rtx_base tx
        in if new_base_delta \<le> max_ack_delta then do {
             let next_send_delta = rtx_next_send_id tx - rtx_base tx;
             rust_assert (unat new_base_delta \<le> length (rtx_fragments tx));
             let tx = tx\<lparr>rtx_fragments := drop (unat new_base_delta) (rtx_fragments tx),
                         rtx_send_window := (rtx_send_window tx)\<lparr>win_base_id := new_base_id\<rparr>\<rparr>;
             let tx = (if new_base_delta > next_send_delta then tx\<lparr>rtx_next_send_id := new_base_id\<rparr> else tx);
             Some (tx\<lparr>rtx_duplicate_ack_count := 0\<rparr>, True) }
           else Some (tx, False))"

section \<open>Receive buffer\<close>

record PacketBuild =
  pb_buffer :: bytes

record RelRx =
  rrx_fragment_size :: nat
  rrx_next_fragment_id :: u32
  rrx_current_build :: "PacketBuild option"

definition rel_rx_new :: "u32 \<Rightarrow> nat \<Rightarrow> RelRx rust" where
  "rel_rx_new base_id fragment_size = do {
     rust_assert (fragment_size > 0);
     Some \<lparr>rrx_fragment_size = fragment_size, rrx_next_fragment_id = base_id,
           rrx_current_build = None\<rparr> }"

definition rel_rx_receive :: "RelRx \<Rightarrow> u32 \<Rightarrow> FragmentRef \<Rightarrow> RelRx \<times> bytes option" where
  "rel_rx_receive rx fragment_id fragment =
     (if fragment_id = rrx_next_fragment_id rx \<and> fragment_is_valid fragment (rrx_fragment_size rx) then
        let build = (case rrx_current_build rx of Some b \<Rightarrow> b | None \<Rightarrow> \<lparr>pb_buffer = []\<rparr>);
            build = build\<lparr>pb_buffer := pb_buffer build @ ref_data fragment\<rparr>;
            rx = rx\<lparr>rrx_current_build := Some build,
                   rrx_next_fragment_id := rrx_next_fragment_id rx + 1\<rparr>
        in if ref_last fragment then (rx\<lparr>rrx_current_build := None\<rparr>, Some (pb_buffer build))
           else (rx, None)
      else (rx, None))"

definition rel_rx_next_expected_id :: "RelRx \<Rightarrow> u32" where
  "rel_rx_next_expected_id rx = rrx_next_fragment_id rx"

section \<open>Invariant of the send buffer\<close>

text \<open>
  Distances from the window base: the next fragment to send is not beyond the highest one
  ever sent, which is inside the window and inside the queue.
\<close>

abbreviation rtx_next_delta :: "RelTx \<Rightarrow> nat" where
  "rtx_next_delta tx \<equiv> seq_delta (rtx_base tx) (rtx_next_send_id tx)"

abbreviation rtx_max_delta :: "RelTx \<Rightarrow> nat" where
  "rtx_max_delta tx \<equiv> seq_delta (rtx_base tx) (rtx_max_ack_id tx)"

definition rel_tx_inv :: "RelTx \<Rightarrow> bool" where
  "rel_tx_inv tx \<longleftrightarrow>
     0 < rtx_fragment_size tx \<and> 0 < win_size (rtx_send_window tx) \<and>
     rtx_next_delta tx \<le> rtx_max_delta tx \<and>
     rtx_max_delta tx \<le> unat (win_size (rtx_send_window tx)) \<and>
     rtx_max_delta tx \<le> length (rtx_fragments tx)"

lemma rel_tx_new_inv: "rel_tx_new b n w = Some tx \<Longrightarrow> rel_tx_inv tx"
  by (auto simp: rel_tx_new_def rel_tx_inv_def Window_new_def)

lemma rel_tx_push_inv: "rel_tx_inv tx \<Longrightarrow> rel_tx_inv (rel_tx_push tx p)"
  by (simp add: rel_tx_inv_def rel_tx_push_def)

lemma rel_tx_resend_all_inv: "rel_tx_inv tx \<Longrightarrow> rel_tx_inv (rel_tx_resend_all tx)"
  by (simp add: rel_tx_inv_def rel_tx_resend_all_def)

lemma rel_tx_peek_iff:
  "rel_tx_peek_sendable tx =
     (if rtx_next_delta tx < unat (win_size (rtx_send_window tx)) \<and>
         rtx_next_delta tx < length (rtx_fragments tx)
      then Some (rtx_next_send_id tx, rtx_fragments tx ! rtx_next_delta tx) else None)"
  by (simp add: rel_tx_peek_sendable_def Window_contains_iff seq_delta_def Let_def)

lemma rel_tx_pop_iff:
  "rel_tx_pop_sendable tx =
     (case rel_tx_peek_sendable tx of
        None \<Rightarrow> (tx, None)
      | Some x \<Rightarrow>
         (tx\<lparr>rtx_next_send_id := rtx_next_send_id tx + 1,
            rtx_max_ack_id := (if rtx_next_send_id tx = rtx_max_ack_id tx
              then rtx_next_send_id tx + 1 else rtx_max_ack_id tx)\<rparr>, Some x))"
  by (simp add: rel_tx_peek_sendable_def rel_tx_pop_sendable_def Let_def)

lemma rel_tx_pop_deltas:
  assumes "rel_tx_inv tx" and "rel_tx_peek_sendable tx \<noteq> None"
  shows "rtx_next_delta (fst (rel_tx_pop_sendable tx)) = rtx_next_delta tx + 1"
    and "rtx_max_delta (fst (rel_tx_pop_sendable tx)) = max (rtx_max_delta tx) (rtx_next_delta tx + 1)"
proof -
  have lt: "rtx_next_delta tx < unat (win_size (rtx_send_window tx))"
    using assms(2) by (simp add: rel_tx_peek_iff split: if_splits)
  moreover have "unat (win_size (rtx_send_window tx)) < 4294967296"
    using seq_delta_less [of 0 "win_size (rtx_send_window tx)"] by (simp add: seq_delta_def)
  ultimately have suc: "seq_delta (rtx_base tx) (rtx_next_send_id tx + 1) = rtx_next_delta tx + 1"
    by (intro seq_delta_Suc) simp
  then show "rtx_next_delta (fst (rel_tx_pop_sendable tx)) = rtx_next_delta tx + 1"
    using assms(2) by (auto simp: rel_tx_pop_iff)
  show "rtx_max_delta (fst (rel_tx_pop_sendable tx)) = max (rtx_max_delta tx) (rtx_next_delta tx + 1)"
  proof (cases "rtx_next_send_id tx = rtx_max_ack_id tx")
    case True
    with assms(2) suc show ?thesis by (auto simp: rel_tx_pop_iff)
  next
    case False
    then have "rtx_next_delta tx \<noteq> rtx_max_delta tx"
      by (simp add: seq_delta_inject)
    with assms False show ?thesis
      by (auto simp: rel_tx_pop_iff rel_tx_inv_def)
  qed
qed

lemma rel_tx_pop_frame:
  "rtx_fragments (fst (rel_tx_pop_sendable tx)) = rtx_fragments tx"
  "rtx_send_window (fst (rel_tx_pop_sendable tx)) = rtx_send_window tx"
  "rtx_fragment_size (fst (rel_tx_pop_sendable tx)) = rtx_fragment_size tx"
  by (simp_all add: rel_tx_pop_iff split: option.splits)

lemma rel_tx_pop_inv:
  assumes "rel_tx_inv tx"
  shows "rel_tx_inv (fst (rel_tx_pop_sendable tx))"
proof (cases "rel_tx_peek_sendable tx")
  case None
  with assms show ?thesis by (simp add: rel_tx_pop_iff)
next
  case (Some x)
  then show ?thesis
    using assms rel_tx_pop_deltas [OF assms] rel_tx_pop_frame [of tx]
    by (simp add: rel_tx_inv_def rel_tx_peek_iff split: if_splits)
qed

text \<open>What an acknowledgement does, by its distance from the window base.\<close>

lemma rel_tx_acknowledge_duplicate:
  "rel_tx_acknowledge tx (rtx_base tx) =
     Some (let tx' = tx\<lparr>rtx_duplicate_ack_count := rtx_duplicate_ack_count tx + 1\<rparr>
           in if rtx_duplicate_ack_count tx' = 3 then rel_tx_resend_all tx' else tx', True)"
  by (simp add: rel_tx_acknowledge_def Let_def)

lemma rel_tx_acknowledge_advance:
  assumes "rel_tx_inv tx" and "new \<noteq> rtx_base tx" and "seq_delta (rtx_base tx) new \<le> rtx_max_delta tx"
  shows "rel_tx_acknowledge tx new =
    Some (tx\<lparr>rtx_fragments := drop (seq_delta (rtx_base tx) new) (rtx_fragments tx),
            rtx_send_window := (rtx_send_window tx)\<lparr>win_base_id := new\<rparr>,
            rtx_next_send_id := (if seq_delta (rtx_base tx) new > rtx_next_delta tx
               then new else rtx_next_send_id tx),
            rtx_duplicate_ack_count := 0\<rparr>, True)"
  using assms
  by (simp add: rel_tx_acknowledge_def rel_tx_inv_def seq_delta_def word_le_nat_alt word_less_nat_alt Let_def)

lemma rel_tx_acknowledge_reject:
  assumes "new \<noteq> rtx_base tx" and "rtx_max_delta tx < seq_delta (rtx_base tx) new"
  shows "rel_tx_acknowledge tx new = Some (tx, False)"
  using assms by (simp add: rel_tx_acknowledge_def seq_delta_def word_le_nat_alt Let_def)

lemma rel_tx_acknowledge_cases:
  assumes "rel_tx_inv tx"
  obtains (duplicate) "new = rtx_base tx"
    | (advance) "new \<noteq> rtx_base tx" "seq_delta (rtx_base tx) new \<le> rtx_max_delta tx"
    | (reject) "new \<noteq> rtx_base tx" "rtx_max_delta tx < seq_delta (rtx_base tx) new"
  by fastforce

lemma rel_tx_advance_inv:
  assumes inv: "rel_tx_inv tx" and le: "seq_delta (rtx_base tx) new \<le> rtx_max_delta tx"
  shows "rel_tx_inv (tx\<lparr>rtx_fragments := drop (seq_delta (rtx_base tx) new) (rtx_fragments tx),
            rtx_send_window := (rtx_send_window tx)\<lparr>win_base_id := new\<rparr>,
            rtx_next_send_id := (if seq_delta (rtx_base tx) new > rtx_next_delta tx
               then new else rtx_next_send_id tx),
            rtx_duplicate_ack_count := 0\<rparr>)"
proof -
  have "seq_delta new (rtx_max_ack_id tx) = rtx_max_delta tx - seq_delta (rtx_base tx) new"
    by (rule seq_delta_rebase [OF le])
  moreover have "\<not> rtx_next_delta tx < seq_delta (rtx_base tx) new \<Longrightarrow>
      seq_delta new (rtx_next_send_id tx) = rtx_next_delta tx - seq_delta (rtx_base tx) new"
    by (rule seq_delta_rebase) simp
  ultimately show ?thesis
    using inv by (auto simp: rel_tx_inv_def)
qed

text \<open>An acknowledgement, of whatever value, neither aborts nor breaks the invariant.\<close>

lemma rel_tx_acknowledge_inv:
  assumes inv: "rel_tx_inv tx"
  shows "\<exists>tx' ok. rel_tx_acknowledge tx new = Some (tx', ok) \<and> rel_tx_inv tx'"
proof (cases rule: rel_tx_acknowledge_cases [OF inv, of new, case_names duplicate advance reject])
  case duplicate
  have "rel_tx_inv (tx\<lparr>rtx_duplicate_ack_count := k\<rparr>)" for k
    using inv by (simp add: rel_tx_inv_def)
  then show ?thesis
    by (auto simp: duplicate rel_tx_acknowledge_duplicate Let_def rel_tx_resend_all_inv)
next
  case advance
  then show ?thesis
    using rel_tx_acknowledge_advance [OF inv] rel_tx_advance_inv [OF inv] by blast
next
  case reject
  then show ?thesis
    using inv rel_tx_acknowledge_reject by blast
qed

section \<open>The buffers provide the two interfaces\<close>

definition rel_tx_todo :: "RelTx \<Rightarrow> nat" where
  "rel_tx_todo tx =
     min (unat (win_size (rtx_send_window tx))) (length (rtx_fragments tx)) - rtx_next_delta tx"

interpretation rel_queue: send_queue rel_tx_peek_sendable rel_tx_pop_sendable rel_tx_todo rel_tx_inv
proof
  fix tx :: RelTx
  assume inv: "rel_tx_inv tx" and some: "rel_tx_peek_sendable tx \<noteq> None"
  then show "rel_tx_todo (fst (rel_tx_pop_sendable tx)) < rel_tx_todo tx"
    using rel_tx_pop_deltas(1) [OF inv some] rel_tx_pop_frame [of tx]
    by (simp add: rel_tx_todo_def rel_tx_peek_iff split: if_splits)
next
  fix tx :: RelTx
  show "snd (rel_tx_pop_sendable tx) = rel_tx_peek_sendable tx"
    and "rel_tx_peek_sendable tx = None \<Longrightarrow> fst (rel_tx_pop_sendable tx) = tx"
    by (simp_all add: rel_tx_pop_iff split: option.splits)
qed (rule rel_tx_pop_inv)

definition rel_rx_ready :: "RelRx \<Rightarrow> u32 \<Rightarrow> bool" where
  "rel_rx_ready rx i \<longleftrightarrow> rrx_next_fragment_id rx = i \<and> rrx_current_build rx = None"

definition rel_rx_building :: "RelRx \<Rightarrow> u32 \<Rightarrow> bytes \<Rightarrow> bool" where
  "rel_rx_building rx i b \<longleftrightarrow>
     rrx_next_fragment_id rx = i \<and> rrx_current_build rx = Some \<lparr>pb_buffer = b\<rparr>"

interpretation rel_rx: reassembler rel_rx_receive rrx_fragment_size rel_rx_ready rel_rx_building
  by unfold_locales
    (auto simp: rel_rx_receive_def rel_rx_ready_def rel_rx_building_def fragment_is_valid_iff Let_def)

section \<open>Sequences of operations on the send buffer\<close>

datatype RelTxOp = PushOp bytes | PopOp | ResendOp | AckOp u32

fun rel_tx_op :: "RelTxOp \<Rightarrow> RelTx \<Rightarrow> RelTx rust" where
  "rel_tx_op (PushOp p) tx = Some (rel_tx_push tx p)"
| "rel_tx_op PopOp tx = Some (fst (rel_tx_pop_sendable tx))"
| "rel_tx_op ResendOp tx = Some (rel_tx_resend_all tx)"
| "rel_tx_op (AckOp i) tx = map_option fst (rel_tx_acknowledge tx i)"

fun rel_tx_run :: "RelTxOp list \<Rightarrow> RelTx \<Rightarrow> RelTx rust" where
  "rel_tx_run [] tx = Some tx"
| "rel_tx_run (x # xs) tx = rel_tx_op x tx \<bind> rel_tx_run xs"

lemma rel_tx_op_inv:
  assumes "rel_tx_inv tx"
  shows "\<exists>tx'. rel_tx_op x tx = Some tx' \<and> rel_tx_inv tx' \<and>
    win_size (rtx_send_window tx') = win_size (rtx_send_window tx)"
proof (cases x)
  case (AckOp i)
  obtain tx' ok where "rel_tx_acknowledge tx i = Some (tx', ok)" "rel_tx_inv tx'"
    using rel_tx_acknowledge_inv [OF assms] by blast
  moreover from this have "win_size (rtx_send_window tx') = win_size (rtx_send_window tx)"
    by (auto simp: rel_tx_acknowledge_def rel_tx_resend_all_def Let_def split: if_splits)
  ultimately show ?thesis
    using AckOp by simp
qed (use assms in \<open>simp_all add: rel_tx_push_inv rel_tx_pop_inv rel_tx_resend_all_inv rel_tx_pop_frame\<close>,
  simp_all add: rel_tx_push_def rel_tx_resend_all_def)

lemma rel_tx_run_inv:
  assumes "rel_tx_inv tx"
  shows "\<exists>tx'. rel_tx_run xs tx = Some tx' \<and> rel_tx_inv tx' \<and>
    win_size (rtx_send_window tx') = win_size (rtx_send_window tx)"
  using assms
proof (induction xs arbitrary: tx)
  case (Cons x xs)
  obtain tx1 where "rel_tx_op x tx = Some tx1" "rel_tx_inv tx1"
      "win_size (rtx_send_window tx1) = win_size (rtx_send_window tx)"
    using rel_tx_op_inv [OF Cons.prems] by blast
  with Cons.IH [of tx1] show ?case by auto
qed simp

text \<open>
  C27: no sequence of pushes, transmissions, retransmissions and acknowledgements with
  arbitrary identifiers, forged ones included, makes the send buffer abort (the
  \<^verbatim>\<open>drain\<close> of acknowledged fragments stays in range); what it transmits stays inside
  the send window and inside the queue.
\<close>

theorem rel_tx_never_aborts:
  assumes "rel_tx_new b n w = Some tx"
  shows "\<exists>tx'. rel_tx_run ops tx = Some tx' \<and>
    rtx_next_delta tx' \<le> rtx_max_delta tx' \<and> rtx_max_delta tx' \<le> unat w \<and>
    rtx_max_delta tx' \<le> length (rtx_fragments tx')"
proof -
  have "win_size (rtx_send_window tx) = w"
    using assms by (auto simp: rel_tx_new_def Window_new_def)
  then show ?thesis
    using rel_tx_run_inv [OF rel_tx_new_inv [OF assms], of ops] by (auto simp: rel_tx_inv_def)
qed

theorem rel_tx_never_aborts_witness:
  "\<exists>tx'. rel_tx_run [PushOp [1, 2, 3], PopOp, PopOp, AckOp 1, AckOp 7, ResendOp, PopOp]
      (the (rel_tx_new 0 2 4)) = Some tx' \<and> rtx_max_delta tx' \<le> 4"
  using rel_tx_never_aborts [of 0 2 4 "the (rel_tx_new 0 2 4)"
      "[PushOp [1, 2, 3], PopOp, PopOp, AckOp 1, AckOp 7, ResendOp, PopOp]"]
  by (auto simp: rel_tx_new_def)

end
