(* ===== verification/Unreliable.thy ===== *)
theory Unreliable
  imports Buffer "HOL-Library.Sublist"
begin

text \<open>
  The unreliable packet buffers (\<^verbatim>\<open>src/buffer/unreliable.rs\<close>): a send queue whose
  entries expire, and a receive buffer that gives up a packet when a fragment of it is
  missing. The last sections show that expiry and loss only ever drop whole packets.
\<close>

section \<open>Send buffer\<close>

record TxEntry =
  te_fragment :: FragmentRc
  te_expire_time_ms :: u64

record UnrelTx =
  utx_fragments :: "TxEntry list"
  utx_next_fragment_id :: u32
  utx_fragment_size :: nat

definition unrel_tx_new :: "u32 \<Rightarrow> nat \<Rightarrow> UnrelTx rust" where
  "unrel_tx_new base_id fragment_size = do {
     rust_assert (fragment_size > 0);
     Some \<lparr>utx_fragments = [], utx_next_fragment_id = base_id, utx_fragment_size = fragment_size\<rparr> }"

definition unrel_tx_push :: "UnrelTx \<Rightarrow> bytes \<Rightarrow> u64 \<Rightarrow> UnrelTx" where
  "unrel_tx_push tx packet expire_time_ms =
     tx\<lparr>utx_fragments := utx_fragments tx @
       map (\<lambda>f. \<lparr>te_fragment = f, te_expire_time_ms = expire_time_ms\<rparr>)
         (packet_fragments (utx_fragment_size tx) packet)\<rparr>"

fun pop_expired_loop :: "u64 \<Rightarrow> TxEntry list \<Rightarrow> TxEntry list" where
  "pop_expired_loop now_ms [] = []"
| "pop_expired_loop now_ms (entry # fragments) =
     (if te_expire_time_ms entry \<le> now_ms then pop_expired_loop now_ms fragments
      else entry # fragments)"

definition unrel_tx_pop_expired :: "UnrelTx \<Rightarrow> u64 \<Rightarrow> UnrelTx" where
  "unrel_tx_pop_expired tx now_ms = tx\<lparr>utx_fragments := pop_expired_loop now_ms (utx_fragments tx)\<rparr>"

definition unrel_tx_peek_sendable :: "UnrelTx \<Rightarrow> (u32 \<times> FragmentRc) option" where
  "unrel_tx_peek_sendable tx =
     (case utx_fragments tx of
        entry # _ \<Rightarrow> Some (utx_next_fragment_id tx, te_fragment entry)
      | [] \<Rightarrow> None)"

definition unrel_tx_pop_sendable :: "UnrelTx \<Rightarrow> UnrelTx \<times> (u32 \<times> FragmentRc) option" where
  "unrel_tx_pop_sendable tx =
     (case utx_fragments tx of
        entry # fragments \<Rightarrow>
          (tx\<lparr>utx_fragments := fragments, utx_next_fragment_id := utx_next_fragment_id tx + 1\<rparr>,
           Some (utx_next_fragment_id tx, te_fragment entry))
      | [] \<Rightarrow> (tx, None))"

section \<open>Receive buffer\<close>

record UnrelRx =
  urx_fragment_size :: nat
  urx_base_id :: u32
  urx_current_build :: "bytes option"

definition unrel_rx_new :: "u32 \<Rightarrow> nat \<Rightarrow> UnrelRx rust" where
  "unrel_rx_new base_id fragment_size = do {
     rust_assert (fragment_size > 0);
     Some \<lparr>urx_fragment_size = fragment_size, urx_base_id = base_id, urx_current_build = None\<rparr> }"

definition unrel_rx_receive :: "UnrelRx \<Rightarrow> u32 \<Rightarrow> FragmentRef \<Rightarrow> UnrelRx \<times> bytes option" where
  "unrel_rx_receive rx fragment_id fragment =
     (if fragment_is_valid fragment (urx_fragment_size rx) then
        if ref_first fragment then
          if ref_last fragment then
            (rx\<lparr>urx_current_build := None, urx_base_id := fragment_id + 1\<rparr>, Some (ref_data fragment))
          else
            (rx\<lparr>urx_current_build := Some (ref_data fragment), urx_base_id := fragment_id + 1\<rparr>, None)
        else if fragment_id = urx_base_id rx then
          (case urx_current_build rx of
             Some buffer \<Rightarrow>
               let buffer = buffer @ ref_data fragment;
                   rx = rx\<lparr>urx_current_build := Some buffer, urx_base_id := fragment_id + 1\<rparr>
               in if ref_last fragment then (rx\<lparr>urx_current_build := None\<rparr>, Some buffer)
                  else (rx, None)
           | None \<Rightarrow> (rx, None))
        else (rx, None)
      else (rx, None))"

definition unrel_rx_reset :: "UnrelRx \<Rightarrow> UnrelRx" where
  "unrel_rx_reset rx = rx\<lparr>urx_current_build := None\<rparr>"

section \<open>The buffers provide the two interfaces\<close>

interpretation unrel_queue: send_queue unrel_tx_peek_sendable unrel_tx_pop_sendable
    "\<lambda>tx. length (utx_fragments tx)" "\<lambda>_. True"
  by unfold_locales
    (auto simp: unrel_tx_peek_sendable_def unrel_tx_pop_sendable_def split: list.splits)

interpretation unrel_rx: reassembler unrel_rx_receive urx_fragment_size "\<lambda>rx i. True"
    "\<lambda>rx i b. urx_base_id rx = i \<and> urx_current_build rx = Some b"
  by unfold_locales (auto simp: unrel_rx_receive_def fragment_is_valid_iff Let_def)

text \<open>Expired entries leave only from the front, and only if expired.\<close>

lemma pop_expired_loop_dropWhile:
  "pop_expired_loop now q = dropWhile (\<lambda>e. te_expire_time_ms e \<le> now) q"
  by (induction q) auto

section \<open>What a sender transmits\<close>

text \<open>
  A run of the send buffer and the fragments it transmits, each with its identifier.
\<close>

datatype UnrelTxOp = UPush bytes u64 | UPopExpired u64 | UPop

fun unrel_tx_run :: "UnrelTxOp list \<Rightarrow> UnrelTx \<Rightarrow> UnrelTx \<times> (u32 \<times> FragmentRc) list" where
  "unrel_tx_run [] tx = (tx, [])"
| "unrel_tx_run (UPush p t # ops) tx = unrel_tx_run ops (unrel_tx_push tx p t)"
| "unrel_tx_run (UPopExpired now # ops) tx = unrel_tx_run ops (unrel_tx_pop_expired tx now)"
| "unrel_tx_run (UPop # ops) tx =
     (case unrel_tx_pop_sendable tx of (tx, r) \<Rightarrow>
      case unrel_tx_run ops tx of (tx, tr) \<Rightarrow> (tx, (case r of None \<Rightarrow> tr | Some x \<Rightarrow> x # tr)))"

fun pushed_packets :: "UnrelTxOp list \<Rightarrow> bytes list" where
  "pushed_packets [] = []"
| "pushed_packets (UPush p t # ops) = p # pushed_packets ops"
| "pushed_packets (_ # ops) = pushed_packets ops"

text \<open>
  \<open>whole n ps q\<close>: the queue holds exactly the packets \<open>ps\<close>, each whole and with one
  expiry time. \<open>sends n ps out q\<close>: of the packets pushed so far, \<open>out\<close> went out and
  \<open>q\<close> is still queued; at most one packet is divided between the two, and a packet that
  expired left an initial part of its fragments.
\<close>

inductive whole :: "nat \<Rightarrow> bytes list \<Rightarrow> TxEntry list \<Rightarrow> bool" where
  whole_Nil: "whole n [] []"
| whole_Cons: "whole n ps q \<Longrightarrow>
    whole n (p # ps) (map (\<lambda>f. \<lparr>te_fragment = f, te_expire_time_ms = t\<rparr>) (packet_fragments n p) @ q)"

inductive sends :: "nat \<Rightarrow> bytes list \<Rightarrow> FragmentRc list \<Rightarrow> TxEntry list \<Rightarrow> bool" where
  sends_Nil: "sends n [] [] []"
| sends_done: "sends n ps out q \<Longrightarrow> prefix e (packet_fragments n p) \<Longrightarrow> sends n (p # ps) (e @ out) q"
| sends_current: "whole n ps q \<Longrightarrow> e @ q0 = packet_fragments n p \<Longrightarrow> q0 \<noteq> [] \<Longrightarrow>
    sends n (p # ps) e (map (\<lambda>f. \<lparr>te_fragment = f, te_expire_time_ms = t\<rparr>) q0 @ q)"

lemma whole_sends: "whole n ps q \<Longrightarrow> sends n ps [] q"
  by (induction rule: whole.induct) (auto intro: sends_Nil sends_current)

lemma whole_push:
  "whole n ps q \<Longrightarrow>
    whole n (ps @ [p]) (q @ map (\<lambda>f. \<lparr>te_fragment = f, te_expire_time_ms = t\<rparr>) (packet_fragments n p))"
proof (induction rule: whole.induct)
  case (whole_Nil n)
  then show ?case
    using whole.whole_Cons [OF whole.whole_Nil] by fastforce
qed (simp add: whole.whole_Cons)

lemma sends_push:
  "sends n ps out q \<Longrightarrow>
    sends n (ps @ [p]) out (q @ map (\<lambda>f. \<lparr>te_fragment = f, te_expire_time_ms = t\<rparr>) (packet_fragments n p))"
proof (induction rule: sends.induct)
  case (sends_Nil n)
  then show ?case
    using whole_sends [OF whole_push [OF whole.whole_Nil, of n p t]] by simp
qed (simp_all add: sends.sends_done sends.sends_current whole_push)

lemma sends_pop: "sends n ps out (x # q) \<Longrightarrow> sends n ps (out @ [te_fragment x]) q"
proof (induction n ps out "x # q" rule: sends.induct)
  case (sends_done n ps out e p)
  then show ?case
    using sends.sends_done by fastforce
next
  case (sends_current n ps q' e q0 p t)
  then obtain f q1 where q0: "q0 = f # q1" "te_fragment x = f"
      and q: "q = map (\<lambda>f. \<lparr>te_fragment = f, te_expire_time_ms = t\<rparr>) q1 @ q'"
    by (cases q0) auto
  show ?case
  proof (cases "q1 = []")
    case True
    with sends_current q0 q show ?thesis
      using sends.sends_done [OF whole_sends, of n ps q "e @ [f]" p] by simp
  next
    case False
    with sends_current q0 q show ?thesis
      by (auto intro: sends.sends_current)
  qed
qed

lemma dropWhile_same_expiry:
  "dropWhile (\<lambda>e. te_expire_time_ms e \<le> now)
     (map (\<lambda>f. \<lparr>te_fragment = f, te_expire_time_ms = t\<rparr>) fs @ q) =
   (if t \<le> now then dropWhile (\<lambda>e. te_expire_time_ms e \<le> now) q
    else map (\<lambda>f. \<lparr>te_fragment = f, te_expire_time_ms = t\<rparr>) fs @
      (if fs = [] then dropWhile (\<lambda>e. te_expire_time_ms e \<le> now) q else q))"
  by (induction fs) auto

lemma whole_pop_expired:
  "whole n ps q \<Longrightarrow> sends n ps [] (dropWhile (\<lambda>e. te_expire_time_ms e \<le> now) q)"
proof (induction rule: whole.induct)
  case (whole_Cons n ps q p t)
  then show ?case
    using sends_done [of n ps "[]" _ "[]" p] sends_current [of n ps q "[]" _ p t]
    by (auto simp: dropWhile_same_expiry)
qed (simp add: sends_Nil)

lemma sends_pop_expired:
  "sends n ps out q \<Longrightarrow> sends n ps out (dropWhile (\<lambda>e. te_expire_time_ms e \<le> now) q)"
proof (induction rule: sends.induct)
  case (sends_current n ps q e q0 p t)
  moreover from this have "prefix e (packet_fragments n p)"
    by (metis prefixI)
  ultimately show ?case
    using sends.sends_done [OF whole_pop_expired, of n ps q e p now] sends.sends_current [of n ps q e q0 p t]
    by (simp add: dropWhile_same_expiry)
qed (simp_all add: sends.sends_done sends.sends_Nil)

lemma unrel_tx_run_sends:
  assumes "unrel_tx_run ops tx = (tx', tr)" and "sends (utx_fragment_size tx) ps out (utx_fragments tx)"
  shows "sends (utx_fragment_size tx) (ps @ pushed_packets ops) (out @ map snd tr) (utx_fragments tx')"
  using assms
proof (induction ops tx arbitrary: ps out tr rule: unrel_tx_run.induct)
  case (2 p t ops tx)
  then show ?case
    using sends_push [OF 2(3), of p t] by (fastforce simp: unrel_tx_push_def)
next
  case (3 now ops tx)
  then show ?case
    using sends_pop_expired [OF 3(3), of now]
    by (simp add: unrel_tx_pop_expired_def pop_expired_loop_dropWhile)
next
  case (4 ops tx)
  show ?case
  proof (cases "utx_fragments tx")
    case Nil
    with 4 show ?thesis
      by (auto simp: unrel_tx_pop_sendable_def split: prod.splits)
  next
    case (Cons x q)
    with 4(2) obtain tr1 where tr: "tr = (utx_next_fragment_id tx, te_fragment x) # tr1"
        "unrel_tx_run ops (fst (unrel_tx_pop_sendable tx)) = (tx', tr1)"
      by (auto simp: unrel_tx_pop_sendable_def split: prod.splits)
    with 4(1) [OF surjective_pairing [symmetric] tr(2), of ps "out @ [te_fragment x]"] 4(3) Cons sends_pop
    show ?thesis
      by (simp add: unrel_tx_pop_sendable_def)
  qed
qed simp

lemma sends_parts:
  "sends n ps out q \<Longrightarrow> \<exists>es. list_all2 (\<lambda>e p. prefix e (packet_fragments n p)) es ps \<and> out = concat es"
proof (induction rule: sends.induct)
  case (sends_done n ps out q e p)
  then obtain es where "list_all2 (\<lambda>e p. prefix e (packet_fragments n p)) es ps" "out = concat es"
    by blast
  with sends_done.hyps show ?case
    by (intro exI [of _ "e # es"]) simp
next
  case (sends_current n ps q e q0 p t)
  have "list_all2 (\<lambda>e p. prefix e (packet_fragments n p)) (map (\<lambda>_. []) ps) ps"
    by (simp add: list_all2_conv_all_nth)
  moreover have "concat (map (\<lambda>_. []) ps) = ([] :: FragmentRc list)"
    by simp
  ultimately show ?case
    using sends_current(2) by (intro exI [of _ "e # map (\<lambda>_. []) ps"]) (auto intro: prefixI [OF sym])
qed simp

text \<open>Identifiers are consecutive whatever expires.\<close>

lemma unrel_tx_run_ids:
  "unrel_tx_run ops tx = (tx', tr) \<Longrightarrow>
    map fst tr = map (\<lambda>k. utx_next_fragment_id tx + word_of_nat k) [0..<length tr]"
proof (induction ops tx arbitrary: tr rule: unrel_tx_run.induct)
  case (4 ops tx)
  show ?case
  proof (cases "utx_fragments tx")
    case Nil
    with 4 show ?thesis
      by (auto simp: unrel_tx_pop_sendable_def split: prod.splits)
  next
    case (Cons x q)
    with 4(2) obtain tr1 where tr: "tr = (utx_next_fragment_id tx, te_fragment x) # tr1"
        "unrel_tx_run ops (fst (unrel_tx_pop_sendable tx)) = (tx', tr1)"
      by (auto simp: unrel_tx_pop_sendable_def split: prod.splits)
    have "utx_next_fragment_id (fst (unrel_tx_pop_sendable tx)) = utx_next_fragment_id tx + 1"
      using Cons by (simp add: unrel_tx_pop_sendable_def)
    with 4(1) [OF surjective_pairing [symmetric] tr(2)] tr(1) show ?thesis
      by (simp add: upt_conv_Cons map_Suc_upt [symmetric] algebra_simps del: upt_Suc)
  qed
qed (simp_all add: unrel_tx_push_def unrel_tx_pop_expired_def)

section \<open>Loss\<close>

text \<open>
  What happens to a fragment on the way: it arrives, it is lost, or it is lost and the
  receiver is told to resynchronise (\<^verbatim>\<open>reset\<close>). Fragments keep their order, as the
  segment receiver below guarantees.
\<close>

datatype Fate = Arrives | Lost | LostReset

fun lossy_feed :: "UnrelRx \<Rightarrow> u32 \<Rightarrow> (Fate \<times> FragmentRef) list \<Rightarrow> UnrelRx \<times> bytes list" where
  "lossy_feed rx i [] = (rx, [])"
| "lossy_feed rx i ((Lost, f) # xs) = lossy_feed rx (i + 1) xs"
| "lossy_feed rx i ((LostReset, f) # xs) = lossy_feed (unrel_rx_reset rx) (i + 1) xs"
| "lossy_feed rx i ((Arrives, f) # xs) =
     (case unrel_rx_receive rx i f of (rx, r) \<Rightarrow>
      case lossy_feed rx (i + 1) xs of (rx, ps) \<Rightarrow> (rx, (case r of None \<Rightarrow> ps | Some p \<Rightarrow> p # ps)))"

text \<open>
  \<open>no_lap k xs\<close>: never do \<open>2 ^ 32\<close> fragments pass without the first fragment of a
  packet arriving or a reset, so that identifiers are not mistaken for those of a full turn
  before; \<open>k\<close> have passed already.
\<close>

fun no_lap :: "nat \<Rightarrow> (Fate \<times> FragmentRef) list \<Rightarrow> bool" where
  "no_lap k [] = (k < 2 ^ 32)"
| "no_lap k ((fate, f) # xs) =
     (k < 2 ^ 32 \<and>
      no_lap (if fate = LostReset \<or> (fate = Arrives \<and> ref_first f) then 0 else k + 1) xs)"

lemma lossy_feed_append:
  "lossy_feed rx i (xs @ ys) =
     (case lossy_feed rx i xs of (rx, ps) \<Rightarrow>
      case lossy_feed rx (i + word_of_nat (length xs)) ys of (rx, qs) \<Rightarrow> (rx, ps @ qs))"
  by (induction rx i xs rule: lossy_feed.induct)
    (simp_all add: algebra_simps split: prod.splits option.splits)

text \<open>
  \<open>behind m rx i k\<close>: the receiver builds nothing, or expects an identifier between
  \<open>m\<close> and \<open>k\<close> before \<open>i\<close>. With \<open>m = 1\<close> its packet can no longer grow.
\<close>

definition behind :: "nat \<Rightarrow> UnrelRx \<Rightarrow> u32 \<Rightarrow> nat \<Rightarrow> bool" where
  "behind m rx i k \<longleftrightarrow> urx_current_build rx = None \<or>
     (\<exists>d. m \<le> d \<and> d \<le> k \<and> urx_base_id rx = i - word_of_nat d)"

lemma behind_lost: "behind m rx i k \<Longrightarrow> behind (Suc m) rx (i + 1) (Suc k)"
  unfolding behind_def by (force intro: exI [of _ "Suc d" for d])

lemma behind_mono: "behind m rx i k \<Longrightarrow> m' \<le> m \<Longrightarrow> behind m' rx i k"
  unfolding behind_def by (meson le_trans)

lemma behind_None [simp]: "urx_current_build rx = None \<Longrightarrow> behind m rx i k"
  by (simp add: behind_def)

lemma unrel_rx_reset_simps [simp]:
  "urx_current_build (unrel_rx_reset rx) = None" "urx_fragment_size (unrel_rx_reset rx) = urx_fragment_size rx"
  by (simp_all add: unrel_rx_reset_def)

lemma behind_receive:
  assumes "behind 1 rx i k" and "k < 2 ^ 32" and "\<not> ref_first f"
  shows "unrel_rx_receive rx i f = (rx, None)"
proof -
  have "(word_of_nat d :: u32) \<noteq> 0" if "1 \<le> d" "d \<le> k" for d
    using that assms(2) by (simp add: word_of_nat_eq_0_iff dvd_eq_mod_eq_0)
  then show ?thesis
    using assms by (auto simp: behind_def unrel_rx_receive_def split: option.splits)
qed

lemma lossy_feed_stale:
  assumes "behind 1 rx i k" and "no_lap k (xs @ ys)" and "\<forall>x \<in> set xs. \<not> ref_first (snd x)"
  shows "\<exists>rx' k'. lossy_feed rx i xs = (rx', []) \<and> urx_fragment_size rx' = urx_fragment_size rx \<and>
    behind 1 rx' (i + word_of_nat (length xs)) k' \<and> no_lap k' ys"
  using assms
proof (induction xs arbitrary: rx i k)
  case (Cons x xs)
  obtain fate f where x: "x = (fate, f)" by fastforce
  note next_state = behind_mono [OF behind_lost [OF Cons.prems(1)], of 1]
  show ?case
  proof (cases fate)
    case Arrives
    then show ?thesis
      using Cons.prems Cons.IH [of rx "i + 1" "k + 1"] behind_receive [OF Cons.prems(1), of f] next_state x
      by (simp add: algebra_simps)
  next
    case Lost
    then show ?thesis
      using Cons.prems Cons.IH [of rx "i + 1" "k + 1"] next_state x by (simp add: algebra_simps)
  next
    case LostReset
    then show ?thesis
      using Cons.prems Cons.IH [of "unrel_rx_reset rx" "i + 1" 0] x by (simp add: algebra_simps)
  qed
qed auto

lemma good_cut_not_first: "good_cut n False p fs \<Longrightarrow> f \<in> set fs \<Longrightarrow> \<not> ref_first f"
  by (induction fs arbitrary: p) (auto split: if_splits)

text \<open>The outcome of receiving part of a packet: the packet or nothing.\<close>

definition received_or_lost ::
    "UnrelRx \<Rightarrow> u32 \<Rightarrow> (Fate \<times> FragmentRef) list \<Rightarrow> (Fate \<times> FragmentRef) list \<Rightarrow> bytes \<Rightarrow> bool" where
  "received_or_lost rx i xs ys p \<longleftrightarrow>
     (\<exists>rx' k' out. lossy_feed rx i xs = (rx', out) \<and> (out = [] \<or> out = [p]) \<and>
        urx_fragment_size rx' = urx_fragment_size rx \<and>
        behind 0 rx' (i + word_of_nat (length xs)) k' \<and> no_lap k' ys)"

lemma received_or_lost_Nil:
  "behind m rx i k \<Longrightarrow> no_lap k ys \<Longrightarrow> received_or_lost rx i [] ys p"
  using behind_mono [of m rx i k 0] by (auto simp: received_or_lost_def)

lemma received_or_lost_stale:
  assumes "behind 1 rx i k" and "no_lap k (xs @ ys)" and "\<forall>f \<in> set fs. \<not> ref_first f"
    and "prefix (map snd xs) fs"
  shows "received_or_lost rx i xs ys p"
proof -
  have "\<forall>x \<in> set xs. \<not> ref_first (snd x)"
    using assms(3) set_mono_prefix [OF assms(4)] by auto
  from lossy_feed_stale [OF assms(1,2) this] show ?thesis
    using behind_mono [of 1 _ _ _ 0] by (fastforce simp: received_or_lost_def)
qed

text \<open>One fragment on the way, then the rest.\<close>

lemma received_or_lost_Cons:
  "received_or_lost rx (i + 1) xs ys p \<Longrightarrow> received_or_lost rx i ((Lost, f) # xs) ys p"
  "received_or_lost (unrel_rx_reset rx) (i + 1) xs ys p \<Longrightarrow> received_or_lost rx i ((LostReset, f) # xs) ys p"
  "unrel_rx_receive rx i f = (rx', None) \<Longrightarrow> urx_fragment_size rx' = urx_fragment_size rx \<Longrightarrow>
     received_or_lost rx' (i + 1) xs ys p \<Longrightarrow> received_or_lost rx i ((Arrives, f) # xs) ys p"
  by (fastforce simp: received_or_lost_def algebra_simps)+

lemma received_or_lost_missed:
  assumes "fate = Lost \<or> fate = LostReset" and "behind 0 rx i k" and "no_lap k ((fate, f) # xs @ ys)"
    and "\<forall>f \<in> set fs. \<not> ref_first f" and "prefix (map snd xs) fs"
  shows "received_or_lost rx i ((fate, f) # xs) ys p"
  using assms(1)
proof
  assume "fate = Lost"
  with assms received_or_lost_stale [of rx "i + 1" "k + 1" xs ys fs p] show ?thesis
    by (simp add: received_or_lost_Cons behind_lost [where m = 0, simplified])
next
  assume "fate = LostReset"
  with assms received_or_lost_stale [of "unrel_rx_reset rx" "i + 1" 0 xs ys fs p] show ?thesis
    by (simp add: received_or_lost_Cons)
qed

lemma received_or_lost_live:
  assumes "good_cut (urx_fragment_size rx) False rest fs" and "prefix (map snd xs) fs"
    and "urx_current_build rx = Some b" and "urx_base_id rx = i" and "no_lap k (xs @ ys)"
  shows "received_or_lost rx i xs ys (b @ rest)"
  using assms
proof (induction xs arbitrary: rx i k fs b rest)
  case Nil
  then show ?case
    by (intro received_or_lost_Nil [of 0 _ _ k]) (auto simp: behind_def)
next
  case (Cons x xs)
  obtain fate f where x: "x = (fate, f)" by fastforce
  with Cons.prems(2) obtain fs' where fs: "fs = f # fs'" "prefix (map snd xs) fs'"
    by (cases fs) auto
  have nf: "\<not> ref_first f" "\<forall>f \<in> set fs'. \<not> ref_first f"
    using good_cut_not_first [OF Cons.prems(1)] fs by auto
  have live: "behind 0 rx i k"
    using Cons.prems(3,4) by (auto simp: behind_def)
  show ?case
  proof (cases "fate = Arrives")
    case False
    then show ?thesis
      using received_or_lost_missed [OF _ live _ nf(2) fs(2), of fate f ys] Cons.prems(5) x
      by (cases fate) simp_all
  next
    case True
    show ?thesis
    proof (cases "fs' = []")
      case fs': True
      with fs have "xs = []" by simp
      with fs' Cons.prems fs nf x True show ?thesis
        by (auto simp: received_or_lost_def unrel_rx_receive_def fragment_is_valid_iff Let_def)
    next
      case False
      with Cons.prems(1) fs obtain rest' where f: "\<not> ref_last f" "length (ref_data f) = urx_fragment_size rx"
        and rest: "rest = ref_data f @ rest'" and cut: "good_cut (urx_fragment_size rx) False rest' fs'"
        by auto
      define rx' where "rx' = rx\<lparr>urx_current_build := Some (b @ ref_data f), urx_base_id := i + 1\<rparr>"
      have "unrel_rx_receive rx i f = (rx', None)"
        using Cons.prems(3,4) nf f by (simp add: rx'_def unrel_rx_receive_def fragment_is_valid_iff)
      moreover have "received_or_lost rx' (i + 1) xs ys ((b @ ref_data f) @ rest')"
        using Cons.IH [of rx' rest' fs' "b @ ref_data f" "i + 1" "k + 1"] cut fs(2) Cons.prems(5) x True nf
        by (simp add: rx'_def)
      ultimately show ?thesis
        using x True rest by (auto intro: received_or_lost_Cons simp: rx'_def)
    qed
  qed
qed

lemma received_or_lost_packet:
  assumes cut: "good_cut (urx_fragment_size rx) True p fs" and pre: "prefix (map snd xs) fs"
    and state: "behind 0 rx i k" and lap: "no_lap k (xs @ ys)"
  shows "received_or_lost rx i xs ys p"
proof (cases xs)
  case Nil
  with state lap show ?thesis
    by (auto intro: received_or_lost_Nil)
next
  case (Cons x xs')
  obtain fate f where x: "x = (fate, f)" by fastforce
  with pre Cons obtain fs' where fs: "fs = f # fs'" "prefix (map snd xs') fs'"
    by (cases fs) auto
  show ?thesis
  proof (cases "fs' = []")
    case True
    with fs have "xs' = []" by simp
    moreover have "behind 0 rx (i + 1) (k + 1)"
      using behind_mono [OF behind_lost [OF state]] by simp
    ultimately show ?thesis
      using cut True fs x Cons lap
      by (cases fate)
        (auto simp: received_or_lost_def unrel_rx_receive_def fragment_is_valid_iff)
  next
    case False
    with cut fs obtain rest where f: "ref_first f" "\<not> ref_last f" "length (ref_data f) = urx_fragment_size rx"
      and p: "p = ref_data f @ rest" and cut': "good_cut (urx_fragment_size rx) False rest fs'"
      by auto
    have nf: "\<forall>f \<in> set fs'. \<not> ref_first f"
      using good_cut_not_first [OF cut'] by blast
    show ?thesis
    proof (cases "fate = Arrives")
      case False
      then show ?thesis
        using received_or_lost_missed [OF _ state _ nf fs(2), of fate f ys] lap x Cons by (cases fate) simp_all
    next
      case True
      define rx' where "rx' = rx\<lparr>urx_current_build := Some (ref_data f), urx_base_id := i + 1\<rparr>"
      have "unrel_rx_receive rx i f = (rx', None)"
        using f by (simp add: rx'_def unrel_rx_receive_def fragment_is_valid_iff)
      moreover have "received_or_lost rx' (i + 1) xs' ys (ref_data f @ rest)"
        using received_or_lost_live [of rx' rest fs' xs' "ref_data f" "i + 1" 0 ys] cut' fs(2) lap x True f Cons
        by (simp add: rx'_def)
      ultimately show ?thesis
        using x True p Cons by (auto intro: received_or_lost_Cons simp: rx'_def)
    qed
  qed
qed

lemma lossy_feed_parts:
  assumes "list_all2 (\<lambda>e p. prefix e (packet_fragments n p)) es ps"
    and "map snd xs = map FragmentRef_from (concat es)" and "behind 0 rx i k" and "no_lap k xs"
    and "0 < n" and "urx_fragment_size rx = n"
  shows "subseq (snd (lossy_feed rx i xs)) ps"
  using assms
proof (induction es ps arbitrary: rx i k xs rule: list_all2_induct)
  case (Cons e es p ps)
  from Cons.prems(1) obtain ys zs where xs: "xs = ys @ zs" "map snd ys = map FragmentRef_from e"
      "map snd zs = map FragmentRef_from (concat es)"
    by (auto simp: map_eq_append_conv)
  have "prefix (map snd ys) (map FragmentRef_from (packet_fragments n p))"
    using Cons.hyps(1) xs(2) by (simp add: map_mono_prefix)
  then have "received_or_lost rx i ys zs p"
    using received_or_lost_packet [OF packet_fragments_good_cut] Cons.prems xs(1) by simp
  then obtain rx' k' out where out: "lossy_feed rx i ys = (rx', out)" "out = [] \<or> out = [p]"
      "urx_fragment_size rx' = urx_fragment_size rx" "behind 0 rx' (i + word_of_nat (length ys)) k'" "no_lap k' zs"
    unfolding received_or_lost_def by blast
  have "subseq (snd (lossy_feed rx' (i + word_of_nat (length ys)) zs)) ps"
    using Cons.IH [OF xs(3) out(4,5)] Cons.prems(4,5) out(3) by simp
  with out(1,2) show ?case
    by (auto simp: xs(1) lossy_feed_append split: prod.splits)
qed simp

section \<open>Loss and expiry never mix packets\<close>

text \<open>
  C9: whatever expires in the send queue, and whatever is lost or reset on the way, every
  packet the unreliable receive buffer hands out is one of the packets pushed, complete and
  unchanged, and they come out in the order they were pushed, none of them twice.
\<close>

theorem unreliable_never_mixes:
  assumes "unrel_tx_new b n = Some tx" and "unrel_rx_new b n = Some rx"
    and "unrel_tx_run ops tx = (tx', tr)" and "length fates = length tr"
    and "no_lap 0 (zip fates (map (FragmentRef_from \<circ> snd) tr))"
  shows "subseq (snd (lossy_feed rx b (zip fates (map (FragmentRef_from \<circ> snd) tr)))) (pushed_packets ops) \<and>
    map fst tr = map (\<lambda>k. b + word_of_nat k) [0..<length tr]"
proof
  have n: "0 < n" and tx: "utx_fragment_size tx = n" "utx_next_fragment_id tx = b" "utx_fragments tx = []"
    and rx: "urx_fragment_size rx = n" "urx_current_build rx = None"
    using assms(1,2) by (auto simp: unrel_tx_new_def unrel_rx_new_def)
  show "map fst tr = map (\<lambda>k. b + word_of_nat k) [0..<length tr]"
    using unrel_tx_run_ids [OF assms(3)] tx by simp
  have "sends n (pushed_packets ops) (map snd tr) (utx_fragments tx')"
    using unrel_tx_run_sends [OF assms(3), of "[]" "[]"] tx sends_Nil by simp
  then obtain es where es: "list_all2 (\<lambda>e p. prefix e (packet_fragments n p)) es (pushed_packets ops)"
      "map snd tr = concat es"
    using sends_parts by blast
  have "map snd (zip fates (map (FragmentRef_from \<circ> snd) tr)) = map FragmentRef_from (concat es)"
    using assms(4) by (simp flip: es(2))
  from lossy_feed_parts [OF _ this _ assms(5)] es(1) n rx
  show "subseq (snd (lossy_feed rx b (zip fates (map (FragmentRef_from \<circ> snd) tr)))) (pushed_packets ops)"
    by simp
qed

text \<open>
  A packet of two fragments whose second fragment expires, then a packet that arrives.
\<close>

theorem unreliable_never_mixes_witness:
  "snd (unrel_tx_run [UPush [1, 2, 3] 5, UPop, UPopExpired 5, UPush [4] 9, UPop] (the (unrel_tx_new 7 2))) =
     [(7, \<lparr>fr_first = True, fr_last = False, fr_data = [1, 2, 3], fr_range = (0, 2)\<rparr>),
      (8, \<lparr>fr_first = True, fr_last = True, fr_data = [4], fr_range = (0, 1)\<rparr>)] \<and>
   subseq (snd (lossy_feed (the (unrel_rx_new 7 2)) 7
       (zip [Arrives, Arrives]
         [\<lparr>ref_first = True, ref_last = False, ref_data = [1, 2]\<rparr>,
          \<lparr>ref_first = True, ref_last = True, ref_data = [4]\<rparr>]))) [[1, 2, 3], [4]]"
proof -
  let ?ops = "[UPush [1, 2, 3] 5, UPop, UPopExpired 5, UPush [4] 9, UPop]"
  let ?tr = "[(7, \<lparr>fr_first = True, fr_last = False, fr_data = [1, 2, 3], fr_range = (0, 2)\<rparr>),
      (8, \<lparr>fr_first = True, fr_last = True, fr_data = [4], fr_range = (0, 1)\<rparr>)]"
  have run: "\<exists>tx'. unrel_tx_run ?ops (the (unrel_tx_new 7 2)) = (tx', ?tr)"
    by (simp add: unrel_tx_new_def unrel_tx_push_def unrel_tx_pop_sendable_def unrel_tx_pop_expired_def
        packet_fragments_def fragment_loop.simps)
  moreover have "map (FragmentRef_from \<circ> snd) ?tr =
      [\<lparr>ref_first = True, ref_last = False, ref_data = [1, 2]\<rparr>,
       \<lparr>ref_first = True, ref_last = True, ref_data = [4]\<rparr>]"
    by (simp add: FragmentRef_from_def fragment_data_def)
  ultimately show ?thesis
    using unreliable_never_mixes [of 7 2 "the (unrel_tx_new 7 2)" "the (unrel_rx_new 7 2)" ?ops _ ?tr
        "[Arrives, Arrives]"]
    by (auto simp: unrel_tx_new_def unrel_rx_new_def simp del: lossy_feed.simps unrel_tx_run.simps)
qed

end
