(* ===== verification/Fragment_Tx.thy ===== *)
theory Fragment_Tx
  imports Serial Reliable Unreliable Prio
begin

text \<open>
  The two send queues of an endpoint and the scheduler between them
  (\<^verbatim>\<open>FragmentTxBuffers\<close> in \<^verbatim>\<open>src/endpoint/mod.rs\<close>). \<open>ftb_flush\<close> fills a frame with
  datagrams; the lemmas say exactly what it writes, that it never aborts, and that a frame
  with room for one fragment gets one whenever data is ready.
\<close>

section \<open>State and operations\<close>

datatype SendMode = SendReliable | SendUnreliable u16

record FragmentTxBuffers =
  ftb_unrel :: UnrelTx
  ftb_rel :: RelTx
  ftb_prio :: Prio

definition ftb_new :: "u32 \<Rightarrow> u32 \<Rightarrow> nat \<Rightarrow> PrioConfig \<Rightarrow> FragmentTxBuffers rust" where
  "ftb_new window_base_id window_size fragment_size prio_config = do {
     unrel \<leftarrow> unrel_tx_new window_base_id fragment_size;
     rel \<leftarrow> rel_tx_new window_base_id fragment_size window_size;
     Some \<lparr>ftb_unrel = unrel, ftb_rel = rel, ftb_prio = Prio_new prio_config\<rparr> }"

definition ftb_enqueue :: "FragmentTxBuffers \<Rightarrow> bytes \<Rightarrow> SendMode \<Rightarrow> u64 \<Rightarrow> FragmentTxBuffers" where
  "ftb_enqueue ftb packet mode now_ms =
     (case mode of
        SendReliable \<Rightarrow> ftb\<lparr>ftb_rel := rel_tx_push (ftb_rel ftb) packet\<rparr>
      | SendUnreliable timeout_ms \<Rightarrow>
          ftb\<lparr>ftb_unrel := unrel_tx_push (ftb_unrel ftb) packet (now_ms + ucast timeout_ms + 1)\<rparr>)"

definition ftb_acknowledge :: "FragmentTxBuffers \<Rightarrow> u32 option \<Rightarrow> FragmentTxBuffers rust" where
  "ftb_acknowledge ftb rel_fragment_id =
     (case rel_fragment_id of
        Some i \<Rightarrow> do { (rel, _) \<leftarrow> rel_tx_acknowledge (ftb_rel ftb) i; Some (ftb\<lparr>ftb_rel := rel\<rparr>) }
      | None \<Rightarrow> Some ftb)"

definition ftb_handle_timeout :: "FragmentTxBuffers \<Rightarrow> FragmentTxBuffers" where
  "ftb_handle_timeout ftb = ftb\<lparr>ftb_rel := rel_tx_resend_all (ftb_rel ftb)\<rparr>"

definition ftb_pop_expired :: "FragmentTxBuffers \<Rightarrow> u64 \<Rightarrow> FragmentTxBuffers" where
  "ftb_pop_expired ftb now_ms = ftb\<lparr>ftb_unrel := unrel_tx_pop_expired (ftb_unrel ftb) now_ms\<rparr>"

definition ftb_data_ready :: "FragmentTxBuffers \<Rightarrow> u64 \<Rightarrow> FragmentTxBuffers \<times> bool" where
  "ftb_data_ready ftb now_ms =
     (let ftb = ftb_pop_expired ftb now_ms
      in (ftb, unrel_tx_peek_sendable (ftb_unrel ftb) \<noteq> None \<or> rel_tx_peek_sendable (ftb_rel ftb) \<noteq> None))"

text \<open>The slice \<^verbatim>\<open>fragment.data[fragment.data_range.clone()]\<close> panics outside the packet.\<close>

definition fragment_datagram :: "u32 \<Rightarrow> bool \<Rightarrow> FragmentRc \<Rightarrow> Datagram rust" where
  "fragment_datagram i unrel fragment = do {
     rust_assert (fst (fr_range fragment) \<le> snd (fr_range fragment) \<and>
                  snd (fr_range fragment) \<le> length (fr_data fragment));
     Some \<lparr>dg_id = i, dg_unrel = unrel, dg_first = fr_first fragment, dg_last = fr_last fragment,
           dg_data = fragment_data fragment\<rparr> }"

text \<open>\<^verbatim>\<open>pop_sendable().expect("NANI?")\<close> on the queue of the chosen channel.\<close>

definition ftb_pop :: "FragmentTxBuffers \<Rightarrow> u8 \<Rightarrow> FragmentTxBuffers rust" where
  "ftb_pop ftb channel_idx =
     (if channel_idx = 0 then
        (case unrel_tx_pop_sendable (ftb_unrel ftb) of
           (unrel, Some _) \<Rightarrow> Some (ftb\<lparr>ftb_unrel := unrel\<rparr>)
         | (unrel, None) \<Rightarrow> None)
      else if channel_idx = 1 then
        (case rel_tx_pop_sendable (ftb_rel ftb) of
           (rel, Some _) \<Rightarrow> Some (ftb\<lparr>ftb_rel := rel\<rparr>)
         | (rel, None) \<Rightarrow> None)
      else None)"

text \<open>What the scheduler chose, with the fragment at the front of its queue.\<close>

definition ftb_next :: "FragmentTxBuffers \<Rightarrow> (u8 \<times> (u32 \<times> FragmentRc) option) option" where
  "ftb_next ftb =
     (let unrel_next = unrel_tx_peek_sendable (ftb_unrel ftb);
          rel_next = rel_tx_peek_sendable (ftb_rel ftb)
      in case Prio_next (ftb_prio ftb) (unrel_next \<noteq> None) (rel_next \<noteq> None) False False of
           None \<Rightarrow> None
         | Some channel_idx \<Rightarrow>
             Some (channel_idx,
               if channel_idx = 0 then unrel_next else if channel_idx = 1 then rel_next else None))"

definition ftb_sent :: "FragmentTxBuffers \<Rightarrow> u8 \<Rightarrow> nat \<Rightarrow> FragmentTxBuffers rust" where
  "ftb_sent ftb channel_idx data_size = do {
     prio \<leftarrow> Prio_mark_sent (ftb_prio ftb) channel_idx data_size;
     ftb_pop (ftb\<lparr>ftb_prio := prio\<rparr>) channel_idx }"

lemma rel_tx_pop_todo: "rel_tx_peek_sendable tx \<noteq> None \<Longrightarrow> rel_tx_todo (fst (rel_tx_pop_sendable tx)) < rel_tx_todo tx"
proof -
  assume some: "rel_tx_peek_sendable tx \<noteq> None"
  then have lt: "rtx_next_delta tx < unat (win_size (rtx_send_window tx))" "rtx_next_delta tx < length (rtx_fragments tx)"
    by (simp_all add: rel_tx_peek_iff split: if_splits)
  moreover have "unat (win_size (rtx_send_window tx)) < 4294967296"
    using seq_delta_less [of 0 "win_size (rtx_send_window tx)"] by (simp add: seq_delta_def)
  ultimately have "seq_delta (rtx_base tx) (rtx_next_send_id tx + 1) = rtx_next_delta tx + 1"
    by (intro seq_delta_Suc) simp
  with some lt show ?thesis
    by (auto simp: rel_tx_todo_def rel_tx_pop_iff)
qed

definition ftb_todo :: "FragmentTxBuffers \<Rightarrow> nat" where
  "ftb_todo ftb = length (utx_fragments (ftb_unrel ftb)) + rel_tx_todo (ftb_rel ftb)"

lemma ftb_pop_expired_todo: "ftb_todo (ftb_pop_expired ftb now) \<le> ftb_todo ftb"
  by (simp add: ftb_todo_def ftb_pop_expired_def unrel_tx_pop_expired_def pop_expired_loop_dropWhile length_dropWhile_le)

lemma ftb_sent_todo: "ftb_sent ftb i n = Some ftb' \<Longrightarrow> ftb_todo ftb' < ftb_todo ftb"
proof -
  assume "ftb_sent ftb i n = Some ftb'"
  then obtain prio where pop: "ftb_pop (ftb\<lparr>ftb_prio := prio\<rparr>) i = Some ftb'"
    by (auto simp: ftb_sent_def bind_eq_Some_conv)
  show ?thesis
  proof (cases "i = 0")
    case True
    with pop show ?thesis
      by (auto simp: ftb_pop_def ftb_todo_def unrel_tx_pop_sendable_def split: list.splits)
  next
    case False
    with pop have "i = 1" "ftb_rel ftb' = fst (rel_tx_pop_sendable (ftb_rel ftb))"
        "ftb_unrel ftb' = ftb_unrel ftb" "snd (rel_tx_pop_sendable (ftb_rel ftb)) \<noteq> None"
      by (auto simp: ftb_pop_def split: if_splits prod.splits option.splits)
    moreover from this have "rel_tx_peek_sendable (ftb_rel ftb) \<noteq> None"
      by (simp add: rel_queue.pop_peek)
    ultimately show ?thesis
      using rel_tx_pop_todo [of "ftb_rel ftb"] by (simp add: ftb_todo_def)
  qed
qed

text \<open>The loop of \<^verbatim>\<open>flush\<close>; each round that goes on takes a fragment off a queue.\<close>

function ftb_flush_loop ::
    "u64 \<Rightarrow> FragmentTxBuffers \<Rightarrow> FrameWriter \<Rightarrow> nat \<Rightarrow> (FragmentTxBuffers \<times> FrameWriter \<times> nat) rust" where
  "ftb_flush_loop now_ms ftb0 writer data_size_total =
     (let ftb = ftb_pop_expired ftb0 now_ms
      in case ftb_next ftb of
           None \<Rightarrow> Some (ftb, writer, data_size_total)
         | Some (channel_idx, nxt) \<Rightarrow>
             (case nxt of
                None \<Rightarrow> None
              | Some (i, fragment) \<Rightarrow>
                  fragment_datagram i (channel_idx = 0) fragment \<bind> (\<lambda>datagram.
                  FrameWriter_write Datagram_write writer datagram \<bind> (\<lambda>(writer, ok).
                  if ok then
                    ftb_sent ftb channel_idx (length (dg_data datagram)) \<bind> (\<lambda>ftb.
                    ftb_flush_loop now_ms ftb writer (data_size_total + length (dg_data datagram)))
                  else Some (ftb, writer, data_size_total)))))"
  by pat_completeness auto
termination
  by (relation "measure (\<lambda>(now, ftb, w, n). ftb_todo ftb)")
    (auto dest: ftb_sent_todo intro: less_le_trans ftb_pop_expired_todo)

declare ftb_flush_loop.simps [simp del]

definition ftb_flush :: "FragmentTxBuffers \<Rightarrow> FrameWriter \<Rightarrow> u64 \<Rightarrow> (FragmentTxBuffers \<times> FrameWriter \<times> nat) rust" where
  "ftb_flush ftb writer now_ms = ftb_flush_loop now_ms ftb writer 0"

section \<open>Invariant\<close>

definition FRAGMENT_SIZE :: nat where "FRAGMENT_SIZE = 1024"

definition fragment_ok :: "FragmentRc \<Rightarrow> bool" where
  "fragment_ok f \<longleftrightarrow>
     fst (fr_range f) \<le> snd (fr_range f) \<and> snd (fr_range f) \<le> length (fr_data f) \<and>
     snd (fr_range f) - fst (fr_range f) \<le> FRAGMENT_SIZE"

definition ftb_inv :: "FragmentTxBuffers \<Rightarrow> bool" where
  "ftb_inv ftb \<longleftrightarrow>
     rel_tx_inv (ftb_rel ftb) \<and> prio_inv (ftb_prio ftb) \<and>
     rtx_fragment_size (ftb_rel ftb) = FRAGMENT_SIZE \<and> utx_fragment_size (ftb_unrel ftb) = FRAGMENT_SIZE \<and>
     (\<forall>f \<in> set (rtx_fragments (ftb_rel ftb)). fragment_ok f) \<and>
     (\<forall>e \<in> set (utx_fragments (ftb_unrel ftb)). fragment_ok (te_fragment e))"

lemma fragment_loop_ok:
  assumes "idx + rem = length packet" and "n = FRAGMENT_SIZE"
  shows "\<forall>f \<in> set (fragment_loop packet n rem idx first). fragment_ok f"
  using assms
proof (induction packet n rem idx first rule: fragment_loop.induct)
  case (1 packet n rem idx first)
  show ?case
  proof (cases "n < rem")
    case True
    with 1 have "\<forall>f \<in> set (fragment_loop packet n (rem - n) (idx + n) False). fragment_ok f"
      by (simp add: FRAGMENT_SIZE_def)
    moreover have "fragment_ok \<lparr>fr_first = first, fr_last = False, fr_data = packet, fr_range = (idx, idx + n)\<rparr>"
      using True 1 by (simp add: fragment_ok_def)
    ultimately show ?thesis
      using True 1 by (subst fragment_loop.simps) (simp add: FRAGMENT_SIZE_def)
  next
    case False
    with 1 show ?thesis
      by (subst fragment_loop.simps) (auto simp: fragment_ok_def)
  qed
qed

lemma packet_fragments_ok: "\<forall>f \<in> set (packet_fragments FRAGMENT_SIZE packet). fragment_ok f"
  unfolding packet_fragments_def by (rule fragment_loop_ok) simp_all

lemma ftb_new_inv:
  assumes "prio_Config_new ws burst = Some c"
  shows "\<exists>ftb. ftb_new base 4096 FRAGMENT_SIZE c = Some ftb \<and> ftb_inv ftb"
proof -
  obtain rel where rel: "rel_tx_new base FRAGMENT_SIZE 4096 = Some rel"
    by (simp add: rel_tx_new_def FRAGMENT_SIZE_def)
  then have "rel_tx_inv rel" "rtx_fragment_size rel = FRAGMENT_SIZE" "rtx_fragments rel = []"
    by (simp add: rel_tx_new_inv) (use rel in \<open>simp_all add: rel_tx_new_def, auto\<close>)
  with rel Prio_new_inv [OF assms] show ?thesis
    by (simp add: ftb_new_def ftb_inv_def unrel_tx_new_def FRAGMENT_SIZE_def)
qed

lemma ftb_enqueue_inv: "ftb_inv ftb \<Longrightarrow> ftb_inv (ftb_enqueue ftb packet mode now)"
  using packet_fragments_ok [of packet] rel_tx_push_inv [of "ftb_rel ftb" packet]
  by (auto simp: ftb_enqueue_def ftb_inv_def rel_tx_push_def unrel_tx_push_def split: SendMode.splits)

lemma rel_tx_acknowledge_frame:
  assumes "rel_tx_acknowledge tx new = Some (tx', ok)"
  shows "set (rtx_fragments tx') \<subseteq> set (rtx_fragments tx)" "rtx_fragment_size tx' = rtx_fragment_size tx"
  using assms set_drop_subset [of "unat (new - rtx_base tx)" "rtx_fragments tx"]
  by (auto simp: rel_tx_acknowledge_def rel_tx_resend_all_def Let_def bind_eq_Some_conv split: if_splits)

lemma ftb_acknowledge_inv:
  assumes "ftb_inv ftb"
  shows "\<exists>ftb'. ftb_acknowledge ftb r = Some ftb' \<and> ftb_inv ftb'"
proof (cases r)
  case (Some i)
  obtain rel ok where ack: "rel_tx_acknowledge (ftb_rel ftb) i = Some (rel, ok)" "rel_tx_inv rel"
    using rel_tx_acknowledge_inv [of "ftb_rel ftb" i] assms by (auto simp: ftb_inv_def)
  then show ?thesis
    using assms Some rel_tx_acknowledge_frame [OF ack(1)]
    by (auto simp: ftb_acknowledge_def ftb_inv_def)
qed (use assms in \<open>simp add: ftb_acknowledge_def\<close>)

lemma ftb_handle_timeout_inv: "ftb_inv ftb \<Longrightarrow> ftb_inv (ftb_handle_timeout ftb)"
  using rel_tx_resend_all_inv [of "ftb_rel ftb"]
  by (simp add: ftb_handle_timeout_def ftb_inv_def rel_tx_resend_all_def)

lemma ftb_pop_expired_inv: "ftb_inv ftb \<Longrightarrow> ftb_inv (ftb_pop_expired ftb now)"
  using set_dropWhileD [of _ "\<lambda>e. te_expire_time_ms e \<le> now" "utx_fragments (ftb_unrel ftb)"]
  by (auto simp: ftb_pop_expired_def ftb_inv_def unrel_tx_pop_expired_def pop_expired_loop_dropWhile)

section \<open>One round of the loop\<close>

definition as_datagram :: "bool \<Rightarrow> u32 \<times> FragmentRc \<Rightarrow> Datagram" where
  "as_datagram unrel x =
     \<lparr>dg_id = fst x, dg_unrel = unrel, dg_first = fr_first (snd x), dg_last = fr_last (snd x),
      dg_data = fragment_data (snd x)\<rparr>"

lemma fragment_datagram_ok:
  assumes "fragment_ok f"
  shows "fragment_datagram i u f = Some (as_datagram u (i, f))" "length (fragment_data f) \<le> FRAGMENT_SIZE"
  using assms by (auto simp: fragment_ok_def fragment_datagram_def as_datagram_def fragment_data_def)

lemma Prio_next_two:
  "case Prio_next p a b False False of None \<Rightarrow> \<not> a \<and> \<not> b | Some i \<Rightarrow> (i = 0 \<and> a) \<or> (i = 1 \<and> b)"
  by (cases a; cases b) (simp_all add: Prio_next_def)

lemma ftb_next_cases:
  assumes "ftb_inv ftb"
  obtains (Idle) "ftb_next ftb = None" "unrel_tx_peek_sendable (ftb_unrel ftb) = None"
      "rel_tx_peek_sendable (ftb_rel ftb) = None"
    | (Unrel) x where "ftb_next ftb = Some (0, Some x)" "unrel_tx_peek_sendable (ftb_unrel ftb) = Some x"
      "fragment_ok (snd x)"
    | (Rel) x where "ftb_next ftb = Some (1, Some x)" "rel_tx_peek_sendable (ftb_rel ftb) = Some x"
      "fragment_ok (snd x)"
proof -
  let ?u = "unrel_tx_peek_sendable (ftb_unrel ftb)" and ?r = "rel_tx_peek_sendable (ftb_rel ftb)"
  have u: "fragment_ok (snd x)" if "?u = Some x" for x
    using assms that by (auto simp: ftb_inv_def unrel_tx_peek_sendable_def split: list.splits)
  have r: "fragment_ok (snd x)" if "?r = Some x" for x
    using assms that by (auto simp: ftb_inv_def rel_tx_peek_iff split: if_splits)
  show thesis
    using Prio_next_two [where p = "ftb_prio ftb" and a = "?u \<noteq> None" and b = "?r \<noteq> None"] u r Idle Unrel Rel
    by (cases ?u; cases ?r) (auto simp: ftb_next_def split: option.splits)
qed

lemma prio_mark_sent_inv:
  assumes "prio_inv p" and "unat i < 4" and "n \<le> FRAGMENT_SIZE"
  shows "\<exists>p'. Prio_mark_sent p i n = Some p' \<and> prio_inv p'"
  using Prio_mark_sent_value [OF assms(1,2), of n] assms(3) by (auto simp: FRAGMENT_SIZE_def DATA_SIZE_MAX_def)

lemma ftb_sent_unrel:
  assumes "ftb_inv ftb" and "unrel_tx_peek_sendable (ftb_unrel ftb) = Some x" and "n \<le> FRAGMENT_SIZE"
  shows "\<exists>ftb'. ftb_sent ftb 0 n = Some ftb' \<and> ftb_inv ftb' \<and> ftb_rel ftb' = ftb_rel ftb \<and>
    unrel_tx_pop_sendable (ftb_unrel ftb) = (ftb_unrel ftb', Some x)"
proof -
  obtain p where "Prio_mark_sent (ftb_prio ftb) 0 n = Some p" "prio_inv p"
    using prio_mark_sent_inv [of "ftb_prio ftb" 0 n] assms by (auto simp: ftb_inv_def)
  then show ?thesis
    using assms by (auto simp: ftb_sent_def ftb_pop_def unrel_tx_peek_sendable_def unrel_tx_pop_sendable_def
        ftb_inv_def split: list.splits)
qed

lemma ftb_sent_rel:
  assumes "ftb_inv ftb" and "rel_tx_peek_sendable (ftb_rel ftb) = Some x" and "n \<le> FRAGMENT_SIZE"
  shows "\<exists>ftb'. ftb_sent ftb 1 n = Some ftb' \<and> ftb_inv ftb' \<and> ftb_unrel ftb' = ftb_unrel ftb \<and>
    rel_tx_pop_sendable (ftb_rel ftb) = (ftb_rel ftb', Some x)"
proof -
  obtain p where p: "Prio_mark_sent (ftb_prio ftb) 1 n = Some p" "prio_inv p"
    using prio_mark_sent_inv [of "ftb_prio ftb" 1 n] assms by (auto simp: ftb_inv_def)
  obtain rel where rel: "rel_tx_pop_sendable (ftb_rel ftb) = (rel, Some x)"
    using rel_queue.pop_peek [of "ftb_rel ftb"] assms(2) by (metis prod.collapse)
  have "rel_tx_inv rel" "rtx_fragments rel = rtx_fragments (ftb_rel ftb)"
      "rtx_fragment_size rel = rtx_fragment_size (ftb_rel ftb)"
    using rel_tx_pop_inv [of "ftb_rel ftb"] rel_tx_pop_frame [of "ftb_rel ftb"] assms(1) rel
    by (simp_all add: ftb_inv_def)
  with p rel assms(1) show ?thesis
    by (simp add: ftb_sent_def ftb_pop_def ftb_inv_def)
qed

section \<open>What a flush writes\<close>

fun rel_pops :: "nat \<Rightarrow> RelTx \<Rightarrow> RelTx \<times> (u32 \<times> FragmentRc) list" where
  "rel_pops 0 tx = (tx, [])"
| "rel_pops (Suc k) tx =
     (case rel_tx_pop_sendable tx of (tx, r) \<Rightarrow>
      case rel_pops k tx of (tx, tr) \<Rightarrow> (tx, (case r of None \<Rightarrow> tr | Some x \<Rightarrow> x # tr)))"

text \<open>
  The unreliable datagrams of \<open>ds\<close> are the fragments taken off the unreliable queue by
  expiries and pops, the others those taken off the reliable queue, each in queue order.
\<close>

definition ftb_flushed :: "u64 \<Rightarrow> FragmentTxBuffers \<Rightarrow> FragmentTxBuffers \<Rightarrow> Datagram list \<Rightarrow> bool" where
  "ftb_flushed now ftb ftb' ds \<longleftrightarrow>
     (\<exists>ops tr. set ops \<subseteq> {UPop, UPopExpired now} \<and>
        unrel_tx_run ops (ftb_unrel ftb) = (ftb_unrel ftb', tr) \<and> filter dg_unrel ds = map (as_datagram True) tr) \<and>
     (\<exists>k tr. rel_pops k (ftb_rel ftb) = (ftb_rel ftb', tr) \<and>
        filter (\<lambda>d. \<not> dg_unrel d) ds = map (as_datagram False) tr)"

lemma ftb_flushed_Nil: "ftb_flushed now ftb (ftb_pop_expired ftb now) []"
  unfolding ftb_flushed_def
  by (intro conjI exI [of _ "[UPopExpired now]"] exI [of _ "[]"] exI [of _ 0])
    (simp_all add: ftb_pop_expired_def)

lemma ftb_flushed_unrel:
  assumes "ftb_flushed now ftb1 ftb' ds" and "ftb_rel ftb1 = ftb_rel ftb"
    and "unrel_tx_pop_sendable (ftb_unrel (ftb_pop_expired ftb now)) = (ftb_unrel ftb1, Some x)"
  shows "ftb_flushed now ftb ftb' (as_datagram True x # ds)"
proof -
  obtain ops tr where "set ops \<subseteq> {UPop, UPopExpired now}"
      "unrel_tx_run ops (ftb_unrel ftb1) = (ftb_unrel ftb', tr)" "filter dg_unrel ds = map (as_datagram True) tr"
    using assms(1) by (auto simp: ftb_flushed_def)
  with assms show ?thesis
    unfolding ftb_flushed_def
    by (intro conjI exI [of _ "UPopExpired now # UPop # ops"] exI [of _ "x # tr"])
      (simp_all add: ftb_pop_expired_def as_datagram_def)
qed

lemma ftb_flushed_rel:
  assumes "ftb_flushed now ftb1 ftb' ds" and "ftb_unrel ftb1 = ftb_unrel (ftb_pop_expired ftb now)"
    and "rel_tx_pop_sendable (ftb_rel ftb) = (ftb_rel ftb1, Some x)"
  shows "ftb_flushed now ftb ftb' (as_datagram False x # ds)"
proof -
  obtain ops tr where "set ops \<subseteq> {UPop, UPopExpired now}"
      "unrel_tx_run ops (ftb_unrel ftb1) = (ftb_unrel ftb', tr)" "filter dg_unrel ds = map (as_datagram True) tr"
    using assms(1) by (auto simp: ftb_flushed_def)
  moreover obtain k tr' where "rel_pops k (ftb_rel ftb1) = (ftb_rel ftb', tr')"
      "filter (\<lambda>d. \<not> dg_unrel d) ds = map (as_datagram False) tr'"
    using assms(1) by (auto simp: ftb_flushed_def)
  ultimately show ?thesis
    using assms(2,3) unfolding ftb_flushed_def
    by (intro conjI exI [of _ "UPopExpired now # ops"] exI [of _ "Suc k"] exI [of _ tr] exI [of _ "x # tr'"])
      (simp_all add: ftb_pop_expired_def as_datagram_def)
qed

text \<open>The largest datagram a flush may have to write, and what it leaves room for.\<close>

definition DATAGRAM_ROOM :: nat where
  "DATAGRAM_ROOM = DATAGRAM_HEADER_SIZE + FRAGMENT_SIZE + FRAME_CRC_SIZE"

definition datagrams_enc :: "Datagram list \<Rightarrow> bytes" where
  "datagrams_enc ds = concat (map Datagram_enc ds)"

definition datagrams_size :: "Datagram list \<Rightarrow> nat" where
  "datagrams_size ds = sum_list (map (\<lambda>d. length (dg_data d)) ds)"

lemma length_datagrams_enc: "length (datagrams_enc ds) = datagrams_size ds + length ds * DATAGRAM_HEADER_SIZE"
  by (induction ds) (simp_all add: datagrams_enc_def datagrams_size_def)

text \<open>The outcome of the loop from a writer that holds \<open>c\<close>.\<close>

definition flush_result ::
    "u64 \<Rightarrow> FragmentTxBuffers \<Rightarrow> nat \<Rightarrow> bytes \<Rightarrow> nat \<Rightarrow> (FragmentTxBuffers \<times> FrameWriter \<times> nat) rust \<Rightarrow> bool" where
  "flush_result now ftb N c acc r \<longleftrightarrow>
     (\<exists>ftb' writer ds. r = Some (ftb', writer, acc + datagrams_size ds) \<and> ftb_inv ftb' \<and>
        fw_holds writer N (c @ datagrams_enc ds) \<and> ftb_flushed now ftb ftb' ds \<and>
        (\<forall>d \<in> set ds. length (dg_data d) \<le> FRAGMENT_SIZE) \<and>
        (ds = [] \<longrightarrow> ftb_next (ftb_pop_expired ftb now) = None \<or> N < length c + DATAGRAM_ROOM))"

lemma flush_result_stop:
  assumes "ftb_inv ftb" and "fw_holds writer N c"
    and "ftb_next (ftb_pop_expired ftb now) = None \<or> N < length c + DATAGRAM_ROOM"
  shows "flush_result now ftb N c acc (Some (ftb_pop_expired ftb now, writer, acc))"
  unfolding flush_result_def
  using assms ftb_pop_expired_inv [OF assms(1)] ftb_flushed_Nil
  by (intro exI [of _ "ftb_pop_expired ftb now"] exI [of _ writer] exI [of _ "[]"])
    (simp add: datagrams_size_def datagrams_enc_def)

lemma flush_result_step:
  assumes "flush_result now ftb1 N (c @ Datagram_enc d) (acc + length (dg_data d)) r"
    and "length (dg_data d) \<le> FRAGMENT_SIZE"
    and "\<And>ftb' ds. ftb_flushed now ftb1 ftb' ds \<Longrightarrow> ftb_flushed now ftb ftb' (d # ds)"
  shows "flush_result now ftb N c acc r"
proof -
  obtain ftb' writer ds where "r = Some (ftb', writer, acc + length (dg_data d) + datagrams_size ds)" "ftb_inv ftb'"
      "fw_holds writer N ((c @ Datagram_enc d) @ datagrams_enc ds)" "ftb_flushed now ftb1 ftb' ds"
      "\<forall>d \<in> set ds. length (dg_data d) \<le> FRAGMENT_SIZE"
    using assms(1) by (auto simp: flush_result_def)
  with assms(2,3) show ?thesis
    unfolding flush_result_def
    by (intro exI [of _ ftb'] exI [of _ writer] exI [of _ "d # ds"])
      (simp add: datagrams_size_def datagrams_enc_def)
qed

text \<open>Writing one datagram: it fits, or there was no room for a full fragment.\<close>

lemma datagram_write_cases:
  assumes "fw_holds writer N c" and "length (dg_data d) \<le> FRAGMENT_SIZE"
  obtains (Fits) writer' where "FrameWriter_write Datagram_write writer d = Some (writer', True)"
      "fw_holds writer' N (c @ Datagram_enc d)"
    | (Full) "FrameWriter_write Datagram_write writer d = Some (writer, False)" "N < length c + DATAGRAM_ROOM"
proof (cases "length c + length (Datagram_enc d) + FRAME_CRC_SIZE \<le> N")
  case True
  have "Datagram_valid d"
    using assms(2) by (simp add: Datagram_valid_def FRAGMENT_SIZE_def DATAGRAM_DATA_SIZE_MAX_def)
  with datagram.FrameWriter_write_fits [OF assms(1) _ True] show thesis
    using Fits by blast
next
  case False
  then show thesis
    using datagram.FrameWriter_write_short [OF assms(1), of d] Full assms(2) by (simp add: DATAGRAM_ROOM_def)
qed

lemma ftb_flush_loop_result:
  "ftb_inv ftb0 \<Longrightarrow> fw_holds writer N c \<Longrightarrow>
     flush_result now ftb0 N c acc (ftb_flush_loop now ftb0 writer acc)"
proof (induction "ftb_todo ftb0" arbitrary: ftb0 writer c acc rule: less_induct)
  case less
  let ?ftb = "ftb_pop_expired ftb0 now"
  note inv = ftb_pop_expired_inv [OF less.prems(1), of now]
  note unfold = ftb_flush_loop.simps [of now ftb0 writer acc]
  have round: "flush_result now ftb0 N c acc (ftb_flush_loop now ftb0 writer acc)"
    if nxt: "ftb_next ?ftb = Some (i, Some x)" and ok: "fragment_ok (snd x)"
      and sent: "ftb_sent ?ftb i (length (fragment_data (snd x))) = Some ftb1" "ftb_inv ftb1"
      and flushed: "\<And>ftb' ds. ftb_flushed now ftb1 ftb' ds \<Longrightarrow> ftb_flushed now ftb0 ftb' (as_datagram (i = 0) x # ds)"
    for i x ftb1
  proof -
    let ?d = "as_datagram (i = 0) x"
    have data: "fragment_datagram (fst x) (i = 0) (snd x) = Some ?d" "dg_data ?d = fragment_data (snd x)"
      using fragment_datagram_ok [OF ok] by (simp_all add: as_datagram_def)
    have size: "length (dg_data ?d) \<le> FRAGMENT_SIZE"
      using fragment_datagram_ok(2) [OF ok] data(2) by simp
    from less.prems(2) size show ?thesis
    proof (cases rule: datagram_write_cases)
      case (Fits writer')
      have "ftb_todo ftb1 < ftb_todo ftb0"
        using ftb_sent_todo [OF sent(1)] ftb_pop_expired_todo [of ftb0 now] by simp
      then have "flush_result now ftb1 N (c @ Datagram_enc ?d) (acc + length (dg_data ?d))
          (ftb_flush_loop now ftb1 writer' (acc + length (dg_data ?d)))"
        using sent(2) Fits(2) by (rule less.hyps)
      then have "flush_result now ftb0 N c acc (ftb_flush_loop now ftb1 writer' (acc + length (dg_data ?d)))"
        using size flushed by (rule flush_result_step)
      with Fits(1) show ?thesis
        unfolding unfold using nxt data sent(1) by (cases x) simp
    next
      case Full
      then show ?thesis
        unfolding unfold using nxt data flush_result_stop [OF less.prems] by (cases x) simp
    qed
  qed
  from inv show ?case
  proof (cases rule: ftb_next_cases)
    case Idle
    then show ?thesis
      unfolding unfold using flush_result_stop [OF less.prems] by simp
  next
    case (Unrel x)
    obtain ftb1 where ftb1: "ftb_sent ?ftb 0 (length (fragment_data (snd x))) = Some ftb1" "ftb_inv ftb1"
        "ftb_rel ftb1 = ftb_rel ?ftb" "unrel_tx_pop_sendable (ftb_unrel ?ftb) = (ftb_unrel ftb1, Some x)"
      using ftb_sent_unrel [OF inv Unrel(2) fragment_datagram_ok(2) [OF Unrel(3)]] by blast
    show ?thesis
      by (rule round [OF Unrel(1,3) ftb1(1,2)])
        (use ftb_flushed_unrel [OF _ _ ftb1(4)] ftb1(3) in \<open>simp add: ftb_pop_expired_def\<close>)
  next
    case (Rel x)
    obtain ftb1 where ftb1: "ftb_sent ?ftb 1 (length (fragment_data (snd x))) = Some ftb1" "ftb_inv ftb1"
        "ftb_unrel ftb1 = ftb_unrel ?ftb" "rel_tx_pop_sendable (ftb_rel ?ftb) = (ftb_rel ftb1, Some x)"
      using ftb_sent_rel [OF inv Rel(2) fragment_datagram_ok(2) [OF Rel(3)]] by blast
    show ?thesis
      by (rule round [OF Rel(1,3) ftb1(1,2)])
        (use ftb_flushed_rel [OF _ ftb1(3)] ftb1(4) in \<open>simp add: ftb_pop_expired_def\<close>)
  qed
qed

lemma ftb_flush_result:
  "ftb_inv ftb \<Longrightarrow> fw_holds writer N c \<Longrightarrow> flush_result now ftb N c 0 (ftb_flush ftb writer now)"
  unfolding ftb_flush_def by (rule ftb_flush_loop_result)

lemma ftb_data_ready_iff:
  assumes "ftb_inv ftb"
  shows "fst (ftb_data_ready ftb now) = ftb_pop_expired ftb now"
    and "snd (ftb_data_ready ftb now) \<longleftrightarrow> ftb_next (ftb_pop_expired ftb now) \<noteq> None"
  using ftb_pop_expired_inv [OF assms, of now]
  by (auto elim: ftb_next_cases simp: ftb_data_ready_def Let_def)

lemma ftb_pop_expired_idem: "ftb_pop_expired (ftb_pop_expired ftb now) now = ftb_pop_expired ftb now"
  by (simp add: ftb_pop_expired_def unrel_tx_pop_expired_def pop_expired_loop_dropWhile)

end
