(* ===== verification/Rtt.thy ===== *)
theory Rtt
  imports Redpine_Prelude
begin

text \<open>
  Round-trip time estimation (\<^verbatim>\<open>src/endpoint/mod.rs\<close>, \<^verbatim>\<open>update_rtt\<close>): the smoothed
  round-trip time, its variance and the retransmission timeout, in the single-precision
  arithmetic of the source. Every value here is finite and not negative, so an \<^verbatim>\<open>f32\<close>
  is a natural number of units of 2 to the power of -149, the spacing of its smallest
  values, and every operation rounds its exact result to 24 significant bits, ties to even.
  \<open>rtt_sample_bounded\<close> shows that no value comes near the range limit of the type.
\<close>

section \<open>Single-precision rounding\<close>

type_synonym f32 = nat

definition F32_ONE :: f32 where "F32_ONE = 2 ^ 149"

fun bit_length :: "nat \<Rightarrow> nat" where
  "bit_length n = (if n = 0 then 0 else Suc (bit_length (n div 2)))"

declare bit_length.simps [simp del]

lemma bit_length_simps [simp]:
  "bit_length 0 = 0" "0 < n \<Longrightarrow> bit_length n = Suc (bit_length (n div 2))"
  by (subst bit_length.simps, simp)+

declare bit_length_simps(2) [simp del]

definition round_even :: "nat \<Rightarrow> nat \<Rightarrow> nat" where
  "round_even a s =
     (let q = a div 2 ^ s; r = a mod 2 ^ s
      in if 2 * r > 2 ^ s \<or> (2 * r = 2 ^ s \<and> odd q) then q + 1 else q)"

text \<open>\<open>f32_round k a\<close> rounds the exact value of \<open>a\<close> units divided by 2 to the power \<open>k\<close>.\<close>

definition f32_round :: "nat \<Rightarrow> nat \<Rightarrow> f32" where
  "f32_round k a = (let e = bit_length (a div 2 ^ k) - 24 in round_even a (k + e) * 2 ^ e)"

definition f32_of_u64 :: "u64 \<Rightarrow> f32" where
  "f32_of_u64 x = f32_round 0 (unat x * F32_ONE)"

definition f32_add :: "f32 \<Rightarrow> f32 \<Rightarrow> f32" where
  "f32_add x y = f32_round 0 (x + y)"

definition f32_abs_diff :: "f32 \<Rightarrow> f32 \<Rightarrow> f32" where
  "f32_abs_diff x y = f32_round 0 (max x y - min x y)"

text \<open>Multiplication by a constant of the form \<open>n / 2 ^ k\<close>.\<close>

definition f32_scale :: "nat \<Rightarrow> nat \<Rightarrow> f32 \<Rightarrow> f32" where
  "f32_scale n k x = f32_round k (n * x)"

text \<open>\<^verbatim>\<open>x.ceil() as u64\<close>, which saturates.\<close>

definition f32_ceil_u64 :: "f32 \<Rightarrow> u64" where
  "f32_ceil_u64 x = word_of_nat (min ((x + (F32_ONE - 1)) div F32_ONE) (2 ^ 64 - 1))"

section \<open>Estimation\<close>

definition RTO_INITIAL_MS :: u64 where "RTO_INITIAL_MS = 1000"
definition RTO_MAX_MS :: u64 where "RTO_MAX_MS = 60000"
definition RTO_MIN_MS :: u64 where "RTO_MIN_MS = 1000"

definition clamp :: "u64 \<Rightarrow> u64 \<Rightarrow> u64 \<Rightarrow> u64" where
  "clamp x lo hi = (if x < lo then lo else if x > hi then hi else x)"

record RttState =
  srtt_ms :: f32
  rttvar_ms :: f32

text \<open>
  With \<^verbatim>\<open>ALPHA\<close> = 1/8, \<^verbatim>\<open>BETA\<close> = 1/4, \<^verbatim>\<open>G_MS\<close> = 4 and \<^verbatim>\<open>K\<close> = 4; the variance is
  updated before the mean.
\<close>

definition rtt_sample :: "RttState option \<Rightarrow> f32 \<Rightarrow> RttState" where
  "rtt_sample rtt_state rtt_ms =
     (case rtt_state of
        Some st \<Rightarrow>
          let st = st\<lparr>rttvar_ms := f32_add (f32_scale 3 2 (rttvar_ms st))
                        (f32_scale 1 2 (f32_abs_diff (srtt_ms st) rtt_ms))\<rparr>
          in st\<lparr>srtt_ms := f32_add (f32_scale 7 3 (srtt_ms st)) (f32_scale 1 3 rtt_ms)\<rparr>
      | None \<Rightarrow> \<lparr>srtt_ms = rtt_ms, rttvar_ms = f32_scale 1 1 rtt_ms\<rparr>)"

definition rtt_rto :: "RttState \<Rightarrow> u64" where
  "rtt_rto st =
     (let rto_ms = f32_ceil_u64 (f32_add (srtt_ms st) (max (4 * F32_ONE) (f32_scale 4 0 (rttvar_ms st))))
      in clamp rto_ms RTO_MIN_MS RTO_MAX_MS)"

lemma clamp_bounds: "lo \<le> hi \<Longrightarrow> lo \<le> clamp x lo hi \<and> clamp x lo hi \<le> hi"
  by (auto simp: clamp_def)

lemma rtt_rto_bounds: "RTO_MIN_MS \<le> rtt_rto st" "rtt_rto st \<le> RTO_MAX_MS"
  using clamp_bounds [of RTO_MIN_MS RTO_MAX_MS] by (simp_all add: rtt_rto_def Let_def RTO_MIN_MS_def RTO_MAX_MS_def)

section \<open>Rounding does not cross a representable value\<close>

lemma bit_length_bounds: "0 < n \<Longrightarrow> 2 ^ (bit_length n - 1) \<le> n \<and> n < 2 ^ bit_length n"
proof (induction n rule: bit_length.induct)
  case (1 n)
  show ?case
  proof (cases "n div 2 = 0")
    case True
    with 1 have "n = 1" by simp
    then show ?thesis by (simp add: bit_length_simps(2))
  next
    case False
    with 1 have ih: "2 ^ (bit_length (n div 2) - 1) \<le> n div 2" "n div 2 < 2 ^ bit_length (n div 2)"
      by auto
    from False obtain k where k: "bit_length (n div 2) = Suc k"
      using bit_length_simps(2) [of "n div 2"] by simp
    have "bit_length n = Suc (Suc k)"
      using 1 k bit_length_simps(2) [of n] by simp
    moreover have "n = 2 * (n div 2) + n mod 2" "n mod 2 < 2"
      by simp_all
    ultimately show ?thesis
      using ih k by (simp only: diff_Suc_1 power_Suc) linarith
  qed
qed

definition f32_rep :: "nat \<Rightarrow> bool" where
  "f32_rep y \<longleftrightarrow> (\<exists>m t. y = m * 2 ^ t \<and> m < 2 ^ 24)"

text \<open>A representable value is a multiple of the rounding step, or below the binade.\<close>

lemma f32_rep_cases:
  assumes "f32_rep y"
  obtains (Multiple) j where "y = j * 2 ^ e" | (Small) "y < 2 ^ (23 + e)"
proof -
  obtain m t where y: "y = m * 2 ^ t" "m < 2 ^ 24"
    using assms by (auto simp: f32_rep_def)
  show thesis
  proof (cases "e \<le> t")
    case True
    then have "y = (m * 2 ^ (t - e)) * 2 ^ e"
      using y(1) by (simp flip: power_add)
    then show thesis by (rule Multiple)
  next
    case False
    then have "t + 24 \<le> 23 + e" by simp
    have "m * 2 ^ t < 2 ^ 24 * 2 ^ t"
      using y(2) by simp
    also have "\<dots> = 2 ^ (t + 24)" by (simp add: power_add)
    also have "\<dots> \<le> 2 ^ (23 + e)"
      using \<open>t + 24 \<le> 23 + e\<close> by (intro power_increasing) auto
    finally show thesis
      using y(1) Small by blast
  qed
qed

lemma round_even_lower: "a div 2 ^ s \<le> round_even a s"
  by (simp add: round_even_def Let_def)

lemma round_even_upper:
  assumes "a \<le> j * 2 ^ s"
  shows "round_even a s \<le> j"
proof (cases "a mod 2 ^ s = 0")
  case True
  then have "round_even a s = a div 2 ^ s"
    by (simp add: round_even_def)
  also have "\<dots> \<le> j"
    using div_le_mono [OF assms, of "2 ^ s"] by simp
  finally show ?thesis .
next
  case False
  have "a \<noteq> j * 2 ^ s"
    using False by auto
  with assms have "a div 2 ^ s < j"
    by (simp add: less_mult_imp_div_less)
  then show ?thesis
    by (simp add: round_even_def Let_def)
qed

lemma binade_lower:
  assumes "bit_length b - 24 = e" and "0 < e"
  shows "2 ^ (23 + e) \<le> b"
proof -
  have "0 < b"
    using assms by (cases "b = 0") auto
  moreover have "bit_length b - 1 = 23 + e"
    using assms by simp
  ultimately show ?thesis
    using bit_length_bounds [of b] by simp
qed

lemma f32_round_lower:
  assumes "f32_rep y" and "y * 2 ^ k \<le> a"
  shows "y \<le> f32_round k a"
proof -
  define e where "e = bit_length (a div 2 ^ k) - 24"
  have res: "f32_round k a = round_even a (k + e) * 2 ^ e"
    by (simp add: f32_round_def e_def Let_def)
  have ya: "y \<le> a div 2 ^ k"
    using div_le_mono [OF assms(2), of "2 ^ k"] by simp
  have quo: "a div 2 ^ (k + e) = a div 2 ^ k div 2 ^ e"
    by (simp add: power_add div_mult2_eq)
  show ?thesis
  proof (cases rule: f32_rep_cases [OF assms(1), where e = e])
    case (1 j)
    then have "j \<le> a div 2 ^ k div 2 ^ e"
      using div_le_mono [OF ya, of "2 ^ e"] by simp
    then have "j \<le> round_even a (k + e)"
      using round_even_lower [of a "k + e"] quo by simp
    with 1 res show ?thesis by simp
  next
    case 2
    show ?thesis
    proof (cases "e = 0")
      case True
      then show ?thesis
        using ya res round_even_lower [of a k] by simp
    next
      case False
      then have "2 ^ (23 + e) \<le> a div 2 ^ k"
        using binade_lower e_def by blast
      then have "2 ^ (23 + e) div 2 ^ e \<le> a div 2 ^ k div 2 ^ e"
        by (rule div_le_mono)
      then have "2 ^ 23 \<le> round_even a (k + e)"
        using round_even_lower [of a "k + e"] quo by (simp add: power_add)
      then have "2 ^ 23 * 2 ^ e \<le> f32_round k a"
        unfolding res by (rule mult_le_mono1)
      with 2 show ?thesis by (simp add: power_add)
    qed
  qed
qed

lemma f32_round_upper:
  assumes "f32_rep y" and "a \<le> y * 2 ^ k"
  shows "f32_round k a \<le> y"
proof -
  define e where "e = bit_length (a div 2 ^ k) - 24"
  have res: "f32_round k a = round_even a (k + e) * 2 ^ e"
    by (simp add: f32_round_def e_def Let_def)
  show ?thesis
  proof (cases rule: f32_rep_cases [OF assms(1), where e = e])
    case (1 j)
    with assms(2) have "a \<le> j * 2 ^ (k + e)"
      by (simp add: power_add ac_simps)
    then have "round_even a (k + e) \<le> j"
      by (rule round_even_upper)
    with 1 res show ?thesis by simp
  next
    case 2
    have "a div 2 ^ k \<le> y"
      using div_le_mono [OF assms(2), of "2 ^ k"] by simp
    with 2 have "e = 0"
      using binade_lower [of "a div 2 ^ k" e] e_def by (cases "e = 0") auto
    then show ?thesis
      using res round_even_upper [OF assms(2)] by simp
  qed
qed

lemma f32_round_exact:
  assumes "f32_rep y" and "a = y * 2 ^ k"
  shows "f32_round k a = y"
  using f32_round_lower [OF assms(1), of k a] f32_round_upper [OF assms(1), of a k] assms(2) by simp

lemma f32_repI: "m < 2 ^ 24 \<Longrightarrow> f32_rep (m * 2 ^ t)"
  by (auto simp: f32_rep_def)

lemma f32_rep_pow: "f32_rep (2 ^ n)"
  using f32_repI [of 1 n] by simp

section \<open>Bounds\<close>

text \<open>The estimates after a sequence of measured round-trip times in milliseconds.\<close>

fun rtt_run :: "u64 list \<Rightarrow> RttState option \<Rightarrow> RttState option" where
  "rtt_run [] st = st"
| "rtt_run (r # rs) st = rtt_run rs (Some (rtt_sample st (f32_of_u64 r)))"

definition F32_LIMIT :: f32 where "F32_LIMIT = 2 ^ 213"

definition rtt_inv :: "RttState \<Rightarrow> bool" where
  "rtt_inv st \<longleftrightarrow> srtt_ms st \<le> F32_LIMIT \<and> rttvar_ms st \<le> F32_LIMIT"

lemma f32_of_u64_bounded: "f32_of_u64 x \<le> F32_LIMIT"
  unfolding f32_of_u64_def F32_LIMIT_def
proof (rule f32_round_upper)
  show "f32_rep (2 ^ 213)" by (rule f32_rep_pow)
  have "unat x < 2 ^ LENGTH(64)" by (rule unsigned_less)
  then have "unat x * 2 ^ 149 \<le> 2 ^ 64 * 2 ^ 149"
    by (intro mult_le_mono1) simp
  then show "unat x * F32_ONE \<le> 2 ^ 213 * 2 ^ 0"
    by (simp add: F32_ONE_def)
qed

lemma f32_scale_bounded:
  assumes "x \<le> F32_LIMIT" and "n < 2 ^ 24" and "k \<le> 3"
  shows "f32_scale n k x \<le> n * 2 ^ (213 - k)"
  unfolding f32_scale_def
proof (rule f32_round_upper)
  show "f32_rep (n * 2 ^ (213 - k))"
    using assms(2) by (rule f32_repI)
  have "n * x \<le> n * 2 ^ 213"
    using assms(1) by (simp add: F32_LIMIT_def)
  also have "\<dots> = n * 2 ^ (213 - k) * 2 ^ k"
    using assms(3) by (simp flip: power_add)
  finally show "n * x \<le> n * 2 ^ (213 - k) * 2 ^ k" .
qed

lemma f32_abs_diff_bounded:
  assumes "x \<le> F32_LIMIT" and "y \<le> F32_LIMIT"
  shows "f32_abs_diff x y \<le> F32_LIMIT"
  unfolding f32_abs_diff_def F32_LIMIT_def
  using assms by (intro f32_round_upper f32_rep_pow) (auto simp: F32_LIMIT_def)

lemma f32_add_bounded:
  assumes "x \<le> a * 2 ^ t" and "y \<le> b * 2 ^ t" and "(a + b) * 2 ^ t \<le> F32_LIMIT"
  shows "f32_add x y \<le> F32_LIMIT"
  unfolding f32_add_def F32_LIMIT_def
  using assms by (intro f32_round_upper f32_rep_pow) (simp add: F32_LIMIT_def algebra_simps)

lemma rtt_sample_bounded:
  assumes "\<forall>st \<in> set_option rtt. rtt_inv st" and "r \<le> F32_LIMIT"
  shows "rtt_inv (rtt_sample rtt r)"
proof (cases rtt)
  case None
  have "f32_scale 1 1 r \<le> 1 * 2 ^ (213 - 1)"
    using assms(2) by (intro f32_scale_bounded) simp_all
  also have "\<dots> \<le> F32_LIMIT"
    by (simp add: F32_LIMIT_def)
  finally show ?thesis
    using None assms(2) by (simp add: rtt_inv_def rtt_sample_def)
next
  case (Some st)
  with assms(1) have st: "srtt_ms st \<le> F32_LIMIT" "rttvar_ms st \<le> F32_LIMIT"
    by (simp_all add: rtt_inv_def)
  have "f32_add (f32_scale 3 2 (rttvar_ms st)) (f32_scale 1 2 (f32_abs_diff (srtt_ms st) r)) \<le> F32_LIMIT"
    using f32_scale_bounded [OF st(2), of 3 2] f32_scale_bounded [OF f32_abs_diff_bounded [OF st(1) assms(2)], of 1 2]
    by (intro f32_add_bounded [where a = 3 and b = 1 and t = 211]) (simp_all add: F32_LIMIT_def)
  moreover have "f32_add (f32_scale 7 3 (srtt_ms st)) (f32_scale 1 3 r) \<le> F32_LIMIT"
    using f32_scale_bounded [OF st(1), of 7 3] f32_scale_bounded [OF assms(2), of 1 3]
    by (intro f32_add_bounded [where a = 7 and b = 1 and t = 210]) (simp_all add: F32_LIMIT_def)
  ultimately show ?thesis
    using Some by (simp add: rtt_inv_def rtt_sample_def Let_def)
qed

lemma rtt_run_bounded:
  "\<forall>st \<in> set_option rtt. rtt_inv st \<Longrightarrow> \<forall>st \<in> set_option (rtt_run rs rtt). rtt_inv st"
proof (induction rs arbitrary: rtt)
  case (Cons r rs)
  have "rtt_inv (rtt_sample rtt (f32_of_u64 r))"
    using Cons.prems f32_of_u64_bounded by (rule rtt_sample_bounded)
  then show ?case
    unfolding rtt_run.simps by (intro Cons.IH) simp
qed simp

section \<open>A path of constant latency\<close>

lemma f32_of_u64_exact: "unat r < 2 ^ 24 \<Longrightarrow> f32_of_u64 r = unat r * F32_ONE"
  unfolding f32_of_u64_def F32_ONE_def by (intro f32_round_exact f32_repI) simp_all

lemma f32_scale_exact:
  assumes "n * m < 2 ^ 24" and "k \<le> 149"
  shows "f32_scale n k (m * F32_ONE) = n * m * 2 ^ (149 - k)"
  unfolding f32_scale_def
proof (rule f32_round_exact)
  show "f32_rep (n * m * 2 ^ (149 - k))"
    using assms(1) by (rule f32_repI)
  show "n * (m * F32_ONE) = n * m * 2 ^ (149 - k) * 2 ^ k"
    using assms(2) by (simp add: F32_ONE_def flip: power_add)
qed

lemma rtt_sample_constant:
  assumes "unat r < 2 ^ 21" and "\<forall>st \<in> set_option rtt. srtt_ms st = unat r * F32_ONE"
  shows "srtt_ms (rtt_sample rtt (f32_of_u64 r)) = unat r * F32_ONE"
proof (cases rtt)
  case None
  then show ?thesis
    using assms by (simp add: rtt_sample_def f32_of_u64_exact)
next
  case (Some st)
  have "f32_add (7 * unat r * 2 ^ 146) (1 * unat r * 2 ^ 146) = unat r * 2 ^ 149"
    unfolding f32_add_def using assms(1) by (intro f32_round_exact f32_repI) simp_all
  then show ?thesis
    using assms Some f32_scale_exact [of 7 "unat r" 3] f32_scale_exact [of 1 "unat r" 3]
    by (simp add: rtt_sample_def f32_of_u64_exact Let_def F32_ONE_def)
qed

lemma rtt_run_constant:
  assumes "unat r < 2 ^ 21" and "\<forall>st \<in> set_option rtt. srtt_ms st = unat r * F32_ONE"
  shows "\<forall>st \<in> set_option (rtt_run (replicate n r) rtt). srtt_ms st = unat r * F32_ONE"
  using assms(2)
proof (induction n arbitrary: rtt)
  case (Suc n)
  have "srtt_ms (rtt_sample rtt (f32_of_u64 r)) = unat r * F32_ONE"
    using assms(1) Suc.prems by (rule rtt_sample_constant)
  then show ?case
    unfolding replicate_Suc rtt_run.simps by (intro Suc.IH) simp
qed simp

lemma rtt_run_Some: "rs \<noteq> [] \<Longrightarrow> \<exists>st. rtt_run rs rtt = Some st"
proof (induction rs arbitrary: rtt)
  case (Cons r rs)
  then show ?case by (cases rs) auto
qed simp

lemma rtt_rto_covers:
  assumes "srtt_ms st = m * F32_ONE" and "m \<le> 59996"
  shows "m + 4 \<le> unat (rtt_rto st)"
proof -
  define x where "x = f32_add (srtt_ms st) (max (4 * F32_ONE) (f32_scale 4 0 (rttvar_ms st)))"
  have "f32_rep ((m + 4) * F32_ONE)"
    unfolding F32_ONE_def using assms(2) by (intro f32_repI) simp
  then have "(m + 4) * F32_ONE \<le> x"
    unfolding x_def f32_add_def by (rule f32_round_lower) (simp add: assms(1) algebra_simps)
  then have "(m + 4) * F32_ONE div F32_ONE \<le> (x + (F32_ONE - 1)) div F32_ONE"
    by (intro div_le_mono) simp
  then have "m + 4 \<le> min ((x + (F32_ONE - 1)) div F32_ONE) (2 ^ 64 - 1)"
    using assms(2) by (simp add: F32_ONE_def)
  moreover have "unat (f32_ceil_u64 x) = min ((x + (F32_ONE - 1)) div F32_ONE) (2 ^ 64 - 1)"
    by (simp add: f32_ceil_u64_def unat_of_nat)
  ultimately have "m + 4 \<le> unat (f32_ceil_u64 x)"
    by simp
  then show ?thesis
    using assms(2) by (simp add: rtt_rto_def clamp_def x_def [symmetric] Let_def RTO_MIN_MS_def RTO_MAX_MS_def
        word_less_nat_alt)
qed

text \<open>
  C35: whatever round-trip times are measured, the estimates stay far below the range limit
  of the floating-point type, and the timeout is between one second and one minute.
\<close>

theorem rto_always_bounded:
  "(case rtt_run rs None of
      None \<Rightarrow> rs = []
    | Some st \<Rightarrow> srtt_ms st \<le> 2 ^ 64 * F32_ONE \<and> rttvar_ms st \<le> 2 ^ 64 * F32_ONE \<and>
        1000 \<le> rtt_rto st \<and> rtt_rto st \<le> 60000)"
  using rtt_run_bounded [of None rs] rtt_run_Some [of rs None] rtt_rto_bounds
  by (cases "rs = []") (auto simp: rtt_inv_def F32_LIMIT_def F32_ONE_def RTO_MIN_MS_def RTO_MAX_MS_def)

text \<open>
  C36: on a path of constant latency the smoothed round-trip time is exactly that latency,
  with no rounding drift however many samples are taken, and the timeout exceeds it by at
  least the granularity of the clock.
\<close>

theorem rto_covers_constant_latency:
  assumes "0 < n" and "unat r \<le> 59996"
  shows "\<exists>st. rtt_run (replicate n r) None = Some st \<and> srtt_ms st = unat r * F32_ONE \<and>
    unat r + 4 \<le> unat (rtt_rto st)"
proof -
  obtain st where st: "rtt_run (replicate n r) None = Some st"
    using rtt_run_Some [of "replicate n r" None] assms(1) by auto
  moreover have "srtt_ms st = unat r * F32_ONE"
    using rtt_run_constant [of r None n] assms(2) st by simp
  ultimately show ?thesis
    using rtt_rto_covers [of st "unat r"] assms(2) by blast
qed

theorem rto_covers_constant_latency_witness:
  "\<exists>st. rtt_run [50000, 50000, 50000] None = Some st \<and> srtt_ms st = 50000 * F32_ONE \<and> 50004 \<le> unat (rtt_rto st)"
  using rto_covers_constant_latency [of 3 50000] by (simp add: numeral_3_eq_3)

end
