(* ===== verification/Endpoint.thy ===== *)
theory Endpoint
  imports Fragment_Tx Cc Segment_Rx Segment_Tx Rtt
begin

text \<open>
  A connection endpoint (\<^verbatim>\<open>src/endpoint/mod.rs\<close>): its state, every operation the host
  calls, and the frames, timers and callbacks they produce. The methods of
  \<^verbatim>\<open>HostContext\<close> are the constructors of \<open>Effect\<close>; an operation gives the list of its
  effects in the order of the calls. The random nonce bits are an argument \<open>coins\<close>:
  \<open>coins k\<close> is the bit drawn for the \<open>k\<close>-th segment an operation sends.
\<close>

section \<open>Configuration and state\<close>

definition DISCONNECT_TIMEOUT_MS :: u64 where "DISCONNECT_TIMEOUT_MS = 10000"
definition FRAME_SIZE_MAX :: nat where "FRAME_SIZE_MAX = 1472"
definition SEGMENT_WINDOW_SIZE :: u32 where "SEGMENT_WINDOW_SIZE = 4096"
definition FRAGMENT_WINDOW_SIZE :: u32 where "FRAGMENT_WINDOW_SIZE = 4096"

record ChannelBalanceConfig =
  cb_unreliable_weight :: u32
  cb_reliable_weight :: u32
  cb_burst_size :: nat

definition prio_Config_from :: "ChannelBalanceConfig \<Rightarrow> PrioConfig rust" where
  "prio_Config_from val =
     prio_Config_new [cb_unreliable_weight val, cb_reliable_weight val, 1, 1] (cb_burst_size val)"

definition ChannelBalanceConfig_validate :: "ChannelBalanceConfig \<Rightarrow> unit rust" where
  "ChannelBalanceConfig_validate cfg = do { _ \<leftarrow> prio_Config_from cfg; Some () }"

definition ChannelBalanceConfig_default :: ChannelBalanceConfig where
  "ChannelBalanceConfig_default =
     \<lparr>cb_unreliable_weight = 1, cb_reliable_weight = 1, cb_burst_size = 10000\<rparr>"

record EndpointConfig =
  ec_timeout_time_ms :: u64
  ec_prio_config :: PrioConfig

datatype TimeoutAction = Continue | Terminate

datatype Effect =
    SendFrame bytes
  | SetRtoTimer u64
  | UnsetRtoTimer
  | OnConnect
  | OnDisconnect
  | OnReceive bytes
  | OnTimeout

record RtoTimerState =
  rts_rto_ms :: u64
  rts_rto_sum_ms :: u64

record RttTimerState =
  rtt_segment_id :: u32
  rtt_send_time_ms :: u64
  rtt_expire_time_ms :: u64

datatype StateId = PreInit | Active | Closing | Closed | Zombie

record Endpoint =
  ep_config :: EndpointConfig
  ep_state_id :: StateId
  ep_local_nonce :: u32
  ep_remote_nonce :: u32
  ep_segment_tx :: SegmentTx
  ep_fragment_tx :: FragmentTxBuffers
  ep_cc_state :: AimdReno
  ep_tx_buffer :: bytes
  ep_rto_ms :: u64
  ep_rto_timer_state :: "RtoTimerState option"
  ep_rtt_state :: "RttState option"
  ep_rtt_timer_state :: "RttTimerState option"
  ep_segment_rx :: SegmentRx
  ep_unreliable_rx :: UnrelRx
  ep_reliable_rx :: RelRx

definition Endpoint_new :: "EndpointConfig \<Rightarrow> Endpoint rust" where
  "Endpoint_new config = do {
     segment_tx \<leftarrow> SegmentTx_new 0 SEGMENT_WINDOW_SIZE;
     fragment_tx \<leftarrow> ftb_new 0 FRAGMENT_WINDOW_SIZE FRAGMENT_SIZE (ec_prio_config config);
     cc_state \<leftarrow> AimdReno_new FRAGMENT_SIZE;
     unreliable_rx \<leftarrow> unrel_rx_new 0 FRAGMENT_SIZE;
     reliable_rx \<leftarrow> rel_rx_new 0 FRAGMENT_SIZE;
     Some \<lparr>ep_config = config, ep_state_id = PreInit, ep_local_nonce = 0, ep_remote_nonce = 0,
       ep_segment_tx = segment_tx, ep_fragment_tx = fragment_tx, ep_cc_state = cc_state,
       ep_tx_buffer = replicate FRAME_SIZE_MAX 0, ep_rto_ms = RTO_INITIAL_MS,
       ep_rto_timer_state = None, ep_rtt_state = None, ep_rtt_timer_state = None,
       ep_segment_rx = SegmentRx_new 0 SEGMENT_WINDOW_SIZE FRAME_SIZE_MAX,
       ep_unreliable_rx = unreliable_rx, ep_reliable_rx = reliable_rx\<rparr> }"

definition endpoint_init :: "Endpoint \<Rightarrow> Endpoint \<times> Effect list" where
  "endpoint_init ep = (ep\<lparr>ep_state_id := Active\<rparr>, [OnConnect])"

definition endpoint_enqueue :: "Endpoint \<Rightarrow> bytes \<Rightarrow> SendMode \<Rightarrow> u64 \<Rightarrow> Endpoint" where
  "endpoint_enqueue ep packet mode now_ms =
     (if ep_state_id ep = Active
      then ep\<lparr>ep_fragment_tx := ftb_enqueue (ep_fragment_tx ep) packet mode now_ms\<rparr> else ep)"

section \<open>Timers\<close>

definition update_rtt :: "Endpoint \<Rightarrow> u32 \<Rightarrow> u64 \<Rightarrow> Endpoint" where
  "update_rtt ep segment_id now_ms =
     (case ep_rtt_timer_state ep of
        None \<Rightarrow> ep
      | Some st \<Rightarrow>
          if segment_id = rtt_segment_id st + 1 then
            let rtt_ms = f32_of_u64 (now_ms - rtt_send_time_ms st);
                rtt_state = rtt_sample (ep_rtt_state ep) rtt_ms
            in ep\<lparr>ep_rtt_state := Some rtt_state, ep_rto_ms := rtt_rto rtt_state,
                  ep_rtt_timer_state := None\<rparr>
          else if rtt_expire_time_ms st \<le> now_ms then ep\<lparr>ep_rtt_timer_state := None\<rparr>
          else ep)"

definition update_rto_timer :: "Endpoint \<Rightarrow> u32 \<Rightarrow> u64 \<Rightarrow> Endpoint \<times> Effect list" where
  "update_rto_timer ep segment_id now_ms =
     (case ep_rto_timer_state ep of
        None \<Rightarrow> (ep, [])
      | Some st \<Rightarrow>
          if segment_id = stx_next_id (ep_segment_tx ep)
          then (ep\<lparr>ep_rto_timer_state := None\<rparr>, [UnsetRtoTimer])
          else (ep\<lparr>ep_rto_timer_state := Some (st\<lparr>rts_rto_ms := ep_rto_ms ep, rts_rto_sum_ms := 0\<rparr>)\<rparr>,
                [SetRtoTimer (now_ms + ep_rto_ms ep)]))"

section \<open>Sending\<close>

definition stream_frame_type :: "bool \<Rightarrow> bool \<Rightarrow> FrameType rust" where
  "stream_frame_type send_ack send_data =
     (case (send_ack, send_data) of
        (False, True) \<Rightarrow> Some StreamSegment
      | (True, False) \<Rightarrow> Some StreamAckType
      | (True, True) \<Rightarrow> Some StreamSegmentAck
      | (False, False) \<Rightarrow> None)"

definition next_stream_ack :: "Endpoint \<Rightarrow> bool \<Rightarrow> StreamAck" where
  "next_stream_ack ep ack_rel =
     (let (segment_history, segment_checksum) = next_ack_info (ep_segment_rx ep)
      in \<lparr>sa_segment_id = srx_next_expected_id (ep_segment_rx ep),
          sa_segment_history = segment_history, sa_segment_checksum = segment_checksum,
          sa_rel_fragment_id =
            (if ack_rel then Some (rel_rx_next_expected_id (ep_reliable_rx ep)) else None)\<rparr>)"

definition arm_timers :: "Endpoint \<Rightarrow> u32 \<Rightarrow> u64 \<Rightarrow> Endpoint \<times> Effect list" where
  "arm_timers ep segment_id now_ms =
     (let (ep, out) =
        (if ep_rto_timer_state ep = None
         then (ep\<lparr>ep_rto_timer_state := Some \<lparr>rts_rto_ms = ep_rto_ms ep, rts_rto_sum_ms = 0\<rparr>\<rparr>,
               [SetRtoTimer (now_ms + ep_rto_ms ep)])
         else (ep, []))
      in (if ep_rtt_timer_state ep = None
          then ep\<lparr>ep_rtt_timer_state := Some \<lparr>rtt_segment_id = segment_id, rtt_send_time_ms = now_ms,
                  rtt_expire_time_ms = now_ms + ep_rto_ms ep\<rparr>\<rparr>
          else ep, out))"

text \<open>
  The part of a round of \<^verbatim>\<open>flush_stream\<close> that adds a segment to the frame. The
  \<^verbatim>\<open>debug_assert!\<close> that its size is positive is not in a release build.
\<close>

definition send_segment ::
    "bool \<Rightarrow> u64 \<Rightarrow> Endpoint \<Rightarrow> FrameWriter \<Rightarrow> (Endpoint \<times> FrameWriter \<times> Effect list) rust" where
  "send_segment coin now_ms ep frame_writer = do {
     let segment_id = stx_next_id (ep_segment_tx ep);
     segment_tx \<leftarrow> compute_next_nonce (ep_segment_tx ep) coin;
     (frame_writer, _) \<leftarrow> FrameWriter_write (Serial_write STREAM_SEGMENT_HEADER_SIZE StreamSegmentHeader_write)
        frame_writer \<lparr>ssh_id = segment_id, ssh_nonce = coin\<rparr>;
     (fragment_tx, frame_writer, size_written) \<leftarrow> ftb_flush (ep_fragment_tx ep) frame_writer now_ms;
     segment_tx \<leftarrow> stx_mark_sent segment_tx size_written;
     let (ep, out) = arm_timers (ep\<lparr>ep_segment_tx := segment_tx, ep_fragment_tx := fragment_tx\<rparr>) segment_id now_ms;
     Some (ep, frame_writer, out) }"

text \<open>The frame of one round, with an acknowledgement, a segment or both.\<close>

definition write_stream_frame ::
    "bool \<Rightarrow> bool \<Rightarrow> bool \<Rightarrow> bool \<Rightarrow> u64 \<Rightarrow> Endpoint \<Rightarrow> (Endpoint \<times> Effect list) rust" where
  "write_stream_frame coin send_ack send_data ack_rel now_ms ep = do {
     frame_type \<leftarrow> stream_frame_type send_ack send_data;
     frame_writer \<leftarrow> FrameWriter_new (ep_tx_buffer ep) frame_type;
     frame_writer \<leftarrow> (if send_ack then
         map_option fst (FrameWriter_write (Serial_write STREAM_ACK_SIZE StreamAck_write)
           frame_writer (next_stream_ack ep ack_rel))
       else Some frame_writer);
     (ep, frame_writer, out) \<leftarrow> (if send_data then send_segment coin now_ms ep frame_writer
       else Some (ep, frame_writer, []));
     (buffer, frame) \<leftarrow> FrameWriter_finalize frame_writer;
     Some (ep\<lparr>ep_tx_buffer := buffer\<rparr>, out @ [SendFrame frame]) }"

text \<open>
  One round of the loop: \<open>None\<close> in the result is the \<^verbatim>\<open>break\<close>, otherwise it holds the
  effects and whether a segment was sent.
\<close>

definition flush_round ::
    "bool \<Rightarrow> bool \<Rightarrow> bool \<Rightarrow> u64 \<Rightarrow> Endpoint \<Rightarrow> (Endpoint \<times> (Effect list \<times> bool) option) rust" where
  "flush_round coin send_ack ack_rel now_ms ep =
     (let cwnd = cc_cwnd (ep_cc_state ep);
          frame_window_limited = (\<not> stx_can_send (ep_segment_tx ep));
          congestion_window_limited = (stx_bytes_in_transit (ep_segment_tx ep) \<ge> cwnd);
          (fragment_tx, data_ready) = ftb_data_ready (ep_fragment_tx ep) now_ms;
          ep = ep\<lparr>ep_fragment_tx := fragment_tx\<rparr>;
          send_data = (\<not> frame_window_limited \<and> \<not> congestion_window_limited \<and> data_ready)
      in if send_ack \<or> send_data then do {
           (ep, out) \<leftarrow> write_stream_frame coin send_ack send_data ack_rel now_ms ep;
           Some (ep, Some (out, send_data)) }
         else Some (ep, None))"

definition segment_room :: "Endpoint \<Rightarrow> nat" where
  "segment_room ep =
     unat (stx_size (ep_segment_tx ep)) -
     unat (stx_next_id (ep_segment_tx ep) - stx_base_id (ep_segment_tx ep))"

lemma arm_timers_frame [simp]:
  "ep_segment_tx (fst (arm_timers ep i now)) = ep_segment_tx ep"
  "ep_fragment_tx (fst (arm_timers ep i now)) = ep_fragment_tx ep"
  "ep_cc_state (fst (arm_timers ep i now)) = ep_cc_state ep"
  "ep_tx_buffer (fst (arm_timers ep i now)) = ep_tx_buffer ep"
  "ep_state_id (fst (arm_timers ep i now)) = ep_state_id ep"
  "ep_rto_ms (fst (arm_timers ep i now)) = ep_rto_ms ep"
  "ep_segment_rx (fst (arm_timers ep i now)) = ep_segment_rx ep"
  "ep_unreliable_rx (fst (arm_timers ep i now)) = ep_unreliable_rx ep"
  "ep_reliable_rx (fst (arm_timers ep i now)) = ep_reliable_rx ep"
  "ep_config (fst (arm_timers ep i now)) = ep_config ep"
  "ep_local_nonce (fst (arm_timers ep i now)) = ep_local_nonce ep"
  "ep_remote_nonce (fst (arm_timers ep i now)) = ep_remote_nonce ep"
  by (simp_all add: arm_timers_def Let_def)

lemma send_segment_stx:
  assumes "send_segment coin now ep fw = Some (ep', fw', out)"
  obtains n where "stx_send (ep_segment_tx ep) coin n = Some (ep_segment_tx ep')"
proof -
  obtain tx ftb n tx' where tx: "compute_next_nonce (ep_segment_tx ep) coin = Some tx" "stx_mark_sent tx n = Some tx'"
      "ep' = fst (arm_timers (ep\<lparr>ep_segment_tx := tx', ep_fragment_tx := ftb\<rparr>) (stx_next_id (ep_segment_tx ep)) now)"
    using assms by (auto simp: send_segment_def Let_def bind_eq_Some_conv case_prod_beta)
  have "ep_segment_tx ep' = tx'"
    unfolding tx(3) by simp
  with tx(1,2) show thesis
    using that [of n] by (simp add: stx_send_def)
qed

lemma stx_send_room:
  assumes "stx_can_send tx" and "stx_send tx coin n = Some tx'"
  shows "unat (stx_size tx') - unat (stx_next_id tx' - stx_base_id tx') <
    unat (stx_size tx) - unat (stx_next_id tx - stx_base_id tx)"
proof -
  have same: "stx_size tx' = stx_size tx" "stx_base_id tx' = stx_base_id tx" "stx_next_id tx' = stx_next_id tx + 1"
    using assms(2) by (auto simp: stx_send_def compute_next_nonce_def stx_mark_sent_def Let_def bind_eq_Some_conv)
  have lt: "unat (stx_next_id tx - stx_base_id tx) < unat (stx_size tx)"
    using assms(1) by (simp add: stx_can_send_def word_less_nat_alt)
  moreover have "unat (stx_size tx) < 4294967296"
    using seq_delta_less [of 0 "stx_size tx"] by (simp add: seq_delta_def)
  ultimately have "seq_delta (stx_base_id tx) (stx_next_id tx + 1) = seq_delta (stx_base_id tx) (stx_next_id tx) + 1"
    by (intro seq_delta_Suc) (simp add: seq_delta_def)
  with same lt show ?thesis
    by (simp add: seq_delta_def)
qed

lemma flush_round_cases:
  assumes "ftb_data_ready (ep_fragment_tx ep) now = (ftb, ready)"
  defines "send \<equiv> stx_can_send (ep_segment_tx ep) \<and>
    stx_bytes_in_transit (ep_segment_tx ep) < cc_cwnd (ep_cc_state ep) \<and> ready"
  shows "flush_round coin send_ack ack_rel now ep =
    (if send_ack \<or> send
     then map_option (\<lambda>(ep, out). (ep, Some (out, send)))
       (write_stream_frame coin send_ack send ack_rel now (ep\<lparr>ep_fragment_tx := ftb\<rparr>))
     else Some (ep\<lparr>ep_fragment_tx := ftb\<rparr>, None))"
  using assms by (auto simp: flush_round_def Let_def not_le map_option_case split: option.splits)

lemma write_stream_frame_room:
  assumes "write_stream_frame coin send_ack send_data ack_rel now ep = Some (ep', out)"
    and "send_data \<Longrightarrow> stx_can_send (ep_segment_tx ep)"
  shows "if send_data then segment_room ep' < segment_room ep else segment_room ep' = segment_room ep"
proof -
  obtain fw1 ep1 fw2 out1 where step: "(if send_data then send_segment coin now ep fw1
      else Some (ep, fw1, [])) = Some (ep1, fw2, out1)" "ep_segment_tx ep' = ep_segment_tx ep1"
    using assms(1) by (auto simp: write_stream_frame_def bind_eq_Some_conv split del: if_split)
  show ?thesis
  proof (cases send_data)
    case True
    with step have "send_segment coin now ep fw1 = Some (ep1, fw2, out1)"
      by simp
    then obtain n where "stx_send (ep_segment_tx ep) coin n = Some (ep_segment_tx ep')"
      unfolding step(2) by (rule send_segment_stx)
    with True assms(2) show ?thesis
      using stx_send_room [of "ep_segment_tx ep" coin n] by (simp add: segment_room_def)
  qed (use step in \<open>simp add: segment_room_def\<close>)
qed

lemma flush_round_room:
  assumes "flush_round coin send_ack ack_rel now ep = Some (ep', Some (out, sent))"
  shows "segment_room ep' < segment_room ep + of_bool send_ack"
proof -
  obtain ftb ready where dr: "ftb_data_ready (ep_fragment_tx ep) now = (ftb, ready)"
    by fastforce
  let ?send = "stx_can_send (ep_segment_tx ep) \<and>
    stx_bytes_in_transit (ep_segment_tx ep) < cc_cwnd (ep_cc_state ep) \<and> ready"
  have go: "send_ack \<or> ?send"
    and "write_stream_frame coin send_ack ?send ack_rel now (ep\<lparr>ep_fragment_tx := ftb\<rparr>) = Some (ep', out)"
    using assms by (auto simp: flush_round_cases [OF dr] split: if_splits)
  from write_stream_frame_room [OF this(2)] go show ?thesis
    by (cases ?send) (auto simp: segment_room_def)
qed

function flush_stream ::
    "(nat \<Rightarrow> bool) \<Rightarrow> bool \<Rightarrow> bool \<Rightarrow> u64 \<Rightarrow> Endpoint \<Rightarrow> (Endpoint \<times> Effect list) rust" where
  "flush_stream coins send_ack ack_rel now_ms ep =
     flush_round (coins 0) send_ack ack_rel now_ms ep \<bind> (\<lambda>(ep, r).
       case r of
         None \<Rightarrow> Some (ep, [])
       | Some (out, sent) \<Rightarrow>
           flush_stream (if sent then coins \<circ> Suc else coins) False ack_rel now_ms ep \<bind> (\<lambda>(ep, out').
           Some (ep, out @ out')))"
  by pat_completeness auto
termination
  by (relation "measure (\<lambda>(coins, send_ack, ack_rel, now, ep). segment_room ep + of_bool send_ack)")
    (use flush_round_room in fastforce)+

declare flush_stream.simps [simp del]

definition endpoint_flush :: "(nat \<Rightarrow> bool) \<Rightarrow> u64 \<Rightarrow> Endpoint \<Rightarrow> (Endpoint \<times> Effect list) rust" where
  "endpoint_flush coins now_ms ep =
     (if ep_state_id ep = Active then flush_stream coins False False now_ms ep else Some (ep, []))"

text \<open>A simple frame is written into the transmit buffer and sent.\<close>

definition send_simple_frame ::
    "SimpleFrame \<Rightarrow> (bytes \<Rightarrow> 'a \<Rightarrow> (bytes \<times> nat option) rust) \<Rightarrow> 'a \<Rightarrow> Endpoint \<Rightarrow> (Endpoint \<times> Effect list) rust" where
  "send_simple_frame sf A_write frame ep = do {
     (buffer, bs) \<leftarrow> SimpleFrameWrite_write sf A_write frame (ep_tx_buffer ep);
     Some (ep\<lparr>ep_tx_buffer := buffer\<rparr>, [SendFrame bs]) }"

definition send_close_frame :: "Endpoint \<Rightarrow> (Endpoint \<times> Effect list) rust" where
  "send_close_frame ep = send_simple_frame Close_SF (Serial_write CLOSE_SIZE CloseFrame_write)
     \<lparr>cl_remote_nonce = ep_remote_nonce ep\<rparr> ep"

definition send_close_ack_frame :: "Endpoint \<Rightarrow> (Endpoint \<times> Effect list) rust" where
  "send_close_ack_frame ep = send_simple_frame CloseAck_SF (Serial_write CLOSE_ACK_SIZE CloseAckFrame_write)
     \<lparr>cla_remote_nonce = ep_remote_nonce ep\<rparr> ep"

definition send_stream_sync_frame :: "u32 \<Rightarrow> Endpoint \<Rightarrow> (Endpoint \<times> Effect list) rust" where
  "send_stream_sync_frame next_segment_id ep =
     send_simple_frame StreamSync_SF (Serial_write STREAM_SYNC_SIZE StreamSync_write)
       \<lparr>ss_next_segment_id = next_segment_id\<rparr> ep"

definition enter_closing :: "u64 \<Rightarrow> Endpoint \<Rightarrow> (Endpoint \<times> Effect list) rust" where
  "enter_closing now_ms ep = do {
     let ep = ep\<lparr>ep_state_id := Closing\<rparr>;
     let out = [SetRtoTimer (now_ms + ep_rto_ms ep)];
     let ep = ep\<lparr>ep_rto_timer_state := Some \<lparr>rts_rto_ms = ep_rto_ms ep, rts_rto_sum_ms = 0\<rparr>\<rparr>;
     (ep, out') \<leftarrow> send_close_frame ep;
     Some (ep, out @ out') }"

definition enter_closed :: "u64 \<Rightarrow> Endpoint \<Rightarrow> Endpoint \<times> Effect list" where
  "enter_closed now_ms ep =
     (ep\<lparr>ep_state_id := Closed, ep_rto_timer_state := None\<rparr>,
      [OnDisconnect, SetRtoTimer (now_ms + DISCONNECT_TIMEOUT_MS)])"

definition endpoint_disconnect :: "u64 \<Rightarrow> Endpoint \<Rightarrow> (Endpoint \<times> Effect list) rust" where
  "endpoint_disconnect now_ms ep =
     (if ep_state_id ep = Active then enter_closing now_ms ep else Some (ep, []))"

section \<open>Receiving\<close>

text \<open>
  What the closure passed to the segment receiver changes: the two receive buffers, the two
  flags and the packets handed to \<^verbatim>\<open>on_receive\<close>.
\<close>

record Delivery =
  dv_unreliable_rx :: UnrelRx
  dv_reliable_rx :: RelRx
  dv_send_ack :: bool
  dv_ack_rel :: bool
  dv_packets :: "bytes list"

definition datagram_fragment :: "Datagram \<Rightarrow> FragmentRef" where
  "datagram_fragment d = \<lparr>ref_first = dg_first d, ref_last = dg_last d, ref_data = dg_data d\<rparr>"

definition receive_datagram :: "Datagram \<Rightarrow> Delivery \<Rightarrow> Delivery" where
  "receive_datagram d dv =
     (let fragment = datagram_fragment d;
          dv = (if dg_unrel d then
                  case unrel_rx_receive (dv_unreliable_rx dv) (dg_id d) fragment of (rx, r) \<Rightarrow>
                    dv\<lparr>dv_unreliable_rx := rx,
                       dv_packets := (case r of Some p \<Rightarrow> dv_packets dv @ [p] | None \<Rightarrow> dv_packets dv)\<rparr>
                else
                  case rel_rx_receive (dv_reliable_rx dv) (dg_id d) fragment of (rx, r) \<Rightarrow>
                    dv\<lparr>dv_reliable_rx := rx,
                       dv_packets := (case r of Some p \<Rightarrow> dv_packets dv @ [p] | None \<Rightarrow> dv_packets dv),
                       dv_ack_rel := True\<rparr>)
      in dv\<lparr>dv_send_ack := True\<rparr>)"

text \<open>The loop \<^verbatim>\<open>while let Some(datagram) = frame_reader.read()\<close>.\<close>

lemma datagram_read_progress:
  assumes "PayloadReader_read Datagram_read pr = Some (Some d, pr')"
  shows "length (pr_buffer pr') - read_idx pr' < length (pr_buffer pr) - read_idx pr"
proof -
  have "read_idx pr \<le> length (pr_buffer pr)"
    using assms by (auto simp: PayloadReader_read_def)
  then show ?thesis
    by (rule datagram.PayloadReader_read_total) (use assms in auto)
qed

function receive_loop :: "PayloadReader \<Rightarrow> Delivery \<Rightarrow> Delivery rust" where
  "receive_loop frame_reader dv =
     PayloadReader_read Datagram_read frame_reader \<bind> (\<lambda>(r, frame_reader).
       case r of
         Some d \<Rightarrow> receive_loop frame_reader (receive_datagram d dv)
       | None \<Rightarrow> Some dv)"
  by pat_completeness auto
termination
  by (relation "measure (\<lambda>(pr, dv). length (pr_buffer pr) - read_idx pr)") (auto dest: datagram_read_progress)

declare receive_loop.simps [simp del]

definition receive_segment_bytes :: "bytes \<Rightarrow> Delivery \<Rightarrow> Delivery rust" where
  "receive_segment_bytes segment_bytes dv = receive_loop (PayloadReader_new segment_bytes) dv"

fun receive_segments :: "bytes list \<Rightarrow> Delivery \<Rightarrow> Delivery rust" where
  "receive_segments [] dv = Some dv"
| "receive_segments (bs # rest) dv = receive_segment_bytes bs dv \<bind> receive_segments rest"

definition delivery_start :: "Endpoint \<Rightarrow> Delivery" where
  "delivery_start ep = \<lparr>dv_unreliable_rx = ep_unreliable_rx ep, dv_reliable_rx = ep_reliable_rx ep,
     dv_send_ack = False, dv_ack_rel = False, dv_packets = []\<rparr>"

definition delivery_store :: "Delivery \<Rightarrow> Endpoint \<Rightarrow> Endpoint" where
  "delivery_store dv ep = ep\<lparr>ep_unreliable_rx := dv_unreliable_rx dv, ep_reliable_rx := dv_reliable_rx dv\<rparr>"

definition handle_stream_ack :: "StreamAck \<Rightarrow> u64 \<Rightarrow> Endpoint \<Rightarrow> (Endpoint \<times> Effect list) rust" where
  "handle_stream_ack ack now_ms ep = do {
     cc_state \<leftarrow> cc_handle_ack (ep_cc_state ep);
     (segment_tx, dropped) \<leftarrow> stx_acknowledge (ep_segment_tx ep) (sa_segment_id ack)
        (ucast (sa_segment_history ack)) (sa_segment_checksum ack);
     let cc_state = (if dropped then cc_handle_drop cc_state else cc_state);
     fragment_tx \<leftarrow> ftb_acknowledge (ep_fragment_tx ep) (sa_rel_fragment_id ack);
     let ep = ep\<lparr>ep_cc_state := cc_state, ep_segment_tx := segment_tx, ep_fragment_tx := fragment_tx\<rparr>;
     let ep = update_rtt ep (sa_segment_id ack) now_ms;
     Some (update_rto_timer ep (sa_segment_id ack) now_ms) }"

definition handle_stream_data ::
    "PayloadReader \<Rightarrow> Endpoint \<Rightarrow> (Endpoint \<times> bool \<times> bool \<times> Effect list) rust" where
  "handle_stream_data frame_reader ep = do {
     (r, frame_reader) \<leftarrow> PayloadReader_read
       (Serial_read STREAM_SEGMENT_HEADER_SIZE StreamSegmentHeader_read) frame_reader;
     case r of
       Some segment_header \<Rightarrow> do {
         (segment_rx, segments, _) \<leftarrow> segment_rx_receive (ep_segment_rx ep) (ssh_id segment_header)
            (ssh_nonce segment_header) (remaining_bytes frame_reader);
         dv \<leftarrow> receive_segments segments (delivery_start ep);
         Some (delivery_store dv (ep\<lparr>ep_segment_rx := segment_rx\<rparr>), dv_send_ack dv, dv_ack_rel dv,
               map OnReceive (dv_packets dv)) }
     | None \<Rightarrow> Some (ep, False, False, []) }"

definition handle_stream_frame ::
    "(nat \<Rightarrow> bool) \<Rightarrow> FrameType \<Rightarrow> bytes \<Rightarrow> u64 \<Rightarrow> Endpoint \<Rightarrow> (Endpoint \<times> Effect list) rust" where
  "handle_stream_frame coins frame_type payload_bytes now_ms ep = do {
     let frame_reader = PayloadReader_new payload_bytes;
     (read_ack, read_data) \<leftarrow> (case frame_type of
         StreamSegment \<Rightarrow> Some (False, True)
       | StreamAckType \<Rightarrow> Some (True, False)
       | StreamSegmentAck \<Rightarrow> Some (True, True)
       | _ \<Rightarrow> None);
     (acked, frame_reader) \<leftarrow> (if read_ack
        then PayloadReader_read (Serial_read STREAM_ACK_SIZE StreamAck_read) frame_reader
        else Some (None, frame_reader));
     if read_ack \<and> acked = None then Some (ep, [])
     else do {
       (ep, out_ack) \<leftarrow> (case acked of
            Some ack \<Rightarrow> handle_stream_ack ack now_ms ep
          | None \<Rightarrow> Some (ep, []));
       (ep, send_ack, ack_rel, out_data) \<leftarrow> (if read_data then handle_stream_data frame_reader ep
          else Some (ep, False, False, []));
       (ep, out) \<leftarrow> flush_stream coins send_ack ack_rel now_ms ep;
       Some (ep, out_ack @ out_data @ out) } }"

definition handle_stream_sync_frame ::
    "(nat \<Rightarrow> bool) \<Rightarrow> bytes \<Rightarrow> u64 \<Rightarrow> Endpoint \<Rightarrow> (Endpoint \<times> Effect list) rust" where
  "handle_stream_sync_frame coins payload_bytes now_ms ep = do {
     (r, frame_reader) \<leftarrow> PayloadReader_read (Serial_read STREAM_SYNC_SIZE StreamSync_read)
        (PayloadReader_new payload_bytes);
     case r of
       Some sync \<Rightarrow> do {
         let (segment_rx, segments) = segment_rx_sync (ep_segment_rx ep) (ss_next_segment_id sync);
         dv \<leftarrow> receive_segments segments (delivery_start ep);
         let ep = delivery_store dv (ep\<lparr>ep_segment_rx := segment_rx\<rparr>);
         let ep = ep\<lparr>ep_unreliable_rx := unrel_rx_reset (ep_unreliable_rx ep)\<rparr>;
         (ep, out) \<leftarrow> flush_stream coins True True now_ms ep;
         Some (ep, map OnReceive (dv_packets dv) @ out) }
     | None \<Rightarrow> Some (ep, []) }"

definition validate_close_frame :: "Endpoint \<Rightarrow> bytes \<Rightarrow> bool rust" where
  "validate_close_frame ep payload_bytes = do {
     r \<leftarrow> SimplePayloadRead_read (Serial_read CLOSE_SIZE CloseFrame_read) payload_bytes;
     Some (case r of Some frame \<Rightarrow> cl_remote_nonce frame = ep_local_nonce ep | None \<Rightarrow> False) }"

definition validate_close_ack_frame :: "Endpoint \<Rightarrow> bytes \<Rightarrow> bool rust" where
  "validate_close_ack_frame ep payload_bytes = do {
     r \<leftarrow> SimplePayloadRead_read (Serial_read CLOSE_ACK_SIZE CloseAckFrame_read) payload_bytes;
     Some (case r of Some frame \<Rightarrow> cla_remote_nonce frame = ep_local_nonce ep | None \<Rightarrow> False) }"

definition close_requested :: "bytes \<Rightarrow> u64 \<Rightarrow> Endpoint \<Rightarrow> (Endpoint \<times> Effect list) rust" where
  "close_requested payload_bytes now_ms ep = do {
     valid \<leftarrow> validate_close_frame ep payload_bytes;
     if valid then do {
       (ep, out) \<leftarrow> send_close_ack_frame ep;
       let (ep, out') = enter_closed now_ms ep;
       Some (ep, out @ out') }
     else Some (ep, []) }"

definition endpoint_handle_frame ::
    "(nat \<Rightarrow> bool) \<Rightarrow> FrameType \<Rightarrow> bytes \<Rightarrow> u64 \<Rightarrow> Endpoint \<Rightarrow> (Endpoint \<times> Effect list) rust" where
  "endpoint_handle_frame coins frame_type payload_bytes now_ms ep =
     (case ep_state_id ep of
        Active \<Rightarrow>
          if frame_type \<in> {StreamSegment, StreamAckType, StreamSegmentAck}
          then handle_stream_frame coins frame_type payload_bytes now_ms ep
          else if frame_type = StreamSyncType
          then handle_stream_sync_frame coins payload_bytes now_ms ep
          else if frame_type = Close then close_requested payload_bytes now_ms ep
          else Some (ep, [])
      | Closing \<Rightarrow>
          if frame_type = Close then close_requested payload_bytes now_ms ep
          else if frame_type = CloseAck then do {
            valid \<leftarrow> validate_close_ack_frame ep payload_bytes;
            Some (if valid then enter_closed now_ms ep else (ep, [])) }
          else Some (ep, [])
      | Closed \<Rightarrow>
          if frame_type = Close then do {
            valid \<leftarrow> validate_close_frame ep payload_bytes;
            if valid then send_close_ack_frame ep else Some (ep, []) }
          else Some (ep, [])
      | _ \<Rightarrow> Some (ep, []))"

section \<open>The retransmission timer\<close>

definition backoff :: "RtoTimerState \<Rightarrow> u64 \<Rightarrow> Endpoint \<Rightarrow> Endpoint \<times> Effect list" where
  "backoff timer_state now_ms ep =
     (let ep = ep\<lparr>ep_rto_ms := clamp (ep_rto_ms ep * 2) RTO_MIN_MS RTO_MAX_MS\<rparr>
      in (ep\<lparr>ep_rto_timer_state := Some (timer_state\<lparr>rts_rto_ms := ep_rto_ms ep\<rparr>)\<rparr>,
          [SetRtoTimer (now_ms + ep_rto_ms ep)]))"

definition endpoint_handle_rto_timer ::
    "(nat \<Rightarrow> bool) \<Rightarrow> u64 \<Rightarrow> Endpoint \<Rightarrow> (Endpoint \<times> TimeoutAction \<times> Effect list) rust" where
  "endpoint_handle_rto_timer coins now_ms ep =
     (case ep_state_id ep of
        Active \<Rightarrow> do {
          timer_state \<leftarrow> ep_rto_timer_state ep;
          let timer_state = timer_state\<lparr>rts_rto_sum_ms := rts_rto_sum_ms timer_state + rts_rto_ms timer_state\<rparr>;
          let ep = ep\<lparr>ep_rto_timer_state := Some timer_state\<rparr>;
          if rts_rto_sum_ms timer_state \<ge> ec_timeout_time_ms (ep_config ep)
          then Some (ep\<lparr>ep_state_id := Zombie\<rparr>, Terminate, [OnTimeout])
          else do {
            let (ep, out) = backoff timer_state now_ms ep;
            let ep = ep\<lparr>ep_cc_state := cc_handle_timeout (ep_cc_state ep),
                        ep_fragment_tx := ftb_handle_timeout (ep_fragment_tx ep)\<rparr>;
            (ep, out_sync) \<leftarrow> send_stream_sync_frame (stx_next_id (ep_segment_tx ep)) ep;
            (ep, out_flush) \<leftarrow> flush_stream coins False False now_ms ep;
            Some (ep, Continue, out @ out_sync @ out_flush) } }
      | Closing \<Rightarrow> do {
          timer_state \<leftarrow> ep_rto_timer_state ep;
          let timer_state = timer_state\<lparr>rts_rto_sum_ms := rts_rto_sum_ms timer_state + rts_rto_ms timer_state\<rparr>;
          let ep = ep\<lparr>ep_rto_timer_state := Some timer_state\<rparr>;
          if rts_rto_sum_ms timer_state \<ge> ec_timeout_time_ms (ep_config ep)
          then Some (ep\<lparr>ep_state_id := Zombie\<rparr>, Terminate, [OnTimeout])
          else do {
            let (ep, out) = backoff timer_state now_ms ep;
            (ep, out_close) \<leftarrow> send_close_frame ep;
            Some (ep, Continue, out @ out_close) } }
      | Closed \<Rightarrow> Some (ep\<lparr>ep_state_id := Zombie\<rparr>, Terminate, [])
      | _ \<Rightarrow> Some (ep, Continue, []))"

end
