(* ===== verification/Endpoint_Inv.thy ===== *)
theory Endpoint_Inv
  imports Endpoint
begin

text \<open>
  The type invariant of an endpoint: every component keeps its own invariant and no
  operation aborts, whatever frames arrive. The lemma \<open>write_stream_frame_exact\<close> describes
  byte for byte the frames an endpoint sends.
\<close>

section \<open>The segment receiver against an arbitrary sender\<close>

definition srx_wf :: "SegmentRx \<Rightarrow> bool" where
  "srx_wf rx \<longleftrightarrow> unat (srx_len rx) \<le> 2 \<and> length (sl_data (srx_slot_0 rx)) = FRAME_SIZE_MAX \<and>
     length (sl_data (srx_slot_1 rx)) = FRAME_SIZE_MAX"

lemma srx_wf_frame [simp]:
  "srx_wf (push_history_ack nonce rx) = srx_wf rx"
  "srx_wf (push_history_skips count rx) = srx_wf rx"
  "srx_wf (advance_window_past i rx) = srx_wf rx"
  "srx_wf (swap_slots rx) = srx_wf rx"
  "srx_wf (swap_slots_if_backward rx) = srx_wf rx"
  "srx_wf (deliver_slot slot rx) = srx_wf rx"
  "srx_wf (rx\<lparr>srx_window := w\<rparr>) = srx_wf rx"
  by (auto simp: srx_wf_def push_history_ack_def push_history_skips_def advance_window_past_def
      swap_slots_def swap_slots_if_backward_def deliver_slot_def Let_def)

lemma srx_len_frame [simp]:
  "srx_len (push_history_ack nonce rx) = srx_len rx"
  "srx_len (push_history_skips count rx) = srx_len rx"
  "srx_len (advance_window_past i rx) = srx_len rx"
  "srx_len (swap_slots rx) = srx_len rx"
  "srx_slot_0 (push_history_ack nonce rx) = srx_slot_0 rx"
  "srx_slot_0 (push_history_skips count rx) = srx_slot_0 rx"
  "srx_slot_0 (advance_window_past i rx) = srx_slot_0 rx"
  by (simp_all add: push_history_ack_def push_history_skips_def advance_window_past_def swap_slots_def)

lemma srx_wf_len: "srx_wf rx \<Longrightarrow> unat n \<le> 2 \<Longrightarrow> srx_wf (rx\<lparr>srx_len := n\<rparr>)"
  by (simp add: srx_wf_def)

lemma deliver_ready_wf: "srx_wf rx \<Longrightarrow> srx_wf (fst (deliver_ready rx))"
proof (induction rx rule: deliver_ready.induct)
  case (1 rx)
  show ?case
  proof (cases "srx_len rx > 0 \<and> sl_id (srx_slot_0 rx) = srx_base rx")
    case True
    have "unat (srx_len rx - 1) \<le> 2"
      using 1(2) unat_minus_one_less [of "srx_len rx"] True
      by (cases "srx_len rx = 0") (auto simp: srx_wf_def)
    with 1(2) have "srx_wf ((if srx_len rx = 2 then swap_slots rx1 else rx1)\<lparr>srx_len := srx_len rx - 1\<rparr>)"
      if "rx1 = advance_window_past (sl_id (srx_slot_0 rx)) (push_history_ack (sl_nonce (srx_slot_0 rx)) rx)" for rx1
      using that by (simp add: srx_wf_len)
    from 1(1) [OF True refl refl refl refl refl this [OF refl]] True show ?thesis
      by (subst deliver_ready.simps) (auto simp: Let_def case_prod_beta split: if_splits)
  next
    case False
    then show ?thesis
      using 1(2) by (subst deliver_ready.simps) auto
  qed
qed

lemma save_segment_ok:
  assumes "length (sl_data slot) = FRAME_SIZE_MAX" and "length data \<le> FRAME_SIZE_MAX"
  shows "\<exists>slot'. save_segment slot i nonce data = Some slot' \<and> length (sl_data slot') = FRAME_SIZE_MAX"
  using assms by (simp add: save_segment_def)

lemma srx_wf_slot:
  "srx_wf rx \<Longrightarrow> length (sl_data slot) = FRAME_SIZE_MAX \<Longrightarrow> srx_wf (rx\<lparr>srx_slot_0 := slot\<rparr>)"
  "srx_wf rx \<Longrightarrow> length (sl_data slot) = FRAME_SIZE_MAX \<Longrightarrow> srx_wf (rx\<lparr>srx_slot_1 := slot\<rparr>)"
  by (simp_all add: srx_wf_def)

lemma len_u8_cases:
  fixes n :: u8
  assumes "unat n \<le> 2"
  obtains "n = 0" | "n = 1" | "n = 2"
proof -
  consider "unat n = 0" | "unat n = 1" | "unat n = 2"
    using assms by linarith
  then show thesis
    using that by cases (simp_all add: word_unat_eq_iff)
qed

lemma segment_rx_receive_wf:
  assumes wf: "srx_wf rx" and data: "length data \<le> FRAME_SIZE_MAX"
  shows "\<exists>rx' outs k. segment_rx_receive rx i nonce data = Some (rx', outs, k) \<and> srx_wf rx'"
proof -
  have slots: "length (sl_data (srx_slot_0 rx)) = FRAME_SIZE_MAX" "length (sl_data (srx_slot_1 rx)) = FRAME_SIZE_MAX"
    using wf by (simp_all add: srx_wf_def)
  obtain s0 s1 where s: "save_segment (srx_slot_0 rx) i nonce data = Some s0" "length (sl_data s0) = FRAME_SIZE_MAX"
      "save_segment (srx_slot_1 rx) i nonce data = Some s1" "length (sl_data s1) = FRAME_SIZE_MAX"
    using save_segment_ok [OF slots(1) data] save_segment_ok [OF slots(2) data] by blast
  show ?thesis
  proof (cases "Window_contains (srx_window rx) i")
    case True
    note simps = segment_rx_receive_def True Let_def case_prod_beta
    from wf have "unat (srx_len rx) \<le> 2" by (simp add: srx_wf_def)
    then show ?thesis
    proof (cases rule: len_u8_cases)
      case 1
      with s wf srx_wf_len [of "rx\<lparr>srx_slot_0 := s0\<rparr>" 1] show ?thesis
        by (auto simp: simps deliver_ready_wf srx_wf_slot)
    next
      case 2
      with s wf srx_wf_len [of "rx\<lparr>srx_slot_1 := s1\<rparr>" 2] show ?thesis
        by (auto simp: simps deliver_ready_wf srx_wf_slot)
    next
      case 3
      with s wf show ?thesis
        by (auto simp: simps deliver_ready_wf srx_wf_slot)
    qed
  next
    case False
    with wf show ?thesis
      by (simp add: segment_rx_receive_def)
  qed
qed

lemma segment_rx_sync_wf: "srx_wf rx \<Longrightarrow> srx_wf (fst (segment_rx_sync rx i))"
  by (auto simp: segment_rx_sync_def deliver_outstanding_def Let_def srx_wf_len)

section \<open>The receive loops\<close>

lemma receive_loop_total:
  assumes "read_idx pr \<le> length (pr_buffer pr)"
  shows "\<exists>dv'. receive_loop pr dv = Some dv'"
  using assms
proof (induction pr dv rule: receive_loop.induct)
  case (1 pr dv)
  from 1(2) show ?case
  proof (cases rule: datagram.PayloadReader_read_total)
    case End
    then show ?thesis
      by (subst receive_loop.simps) simp
  next
    case (Obj d n)
    with 1(1) [OF Obj(1) refl] show ?thesis
      by (subst receive_loop.simps) simp
  qed
qed

lemma receive_datagram_sizes:
  "urx_fragment_size (dv_unreliable_rx (receive_datagram d dv)) = urx_fragment_size (dv_unreliable_rx dv)"
  "rrx_fragment_size (dv_reliable_rx (receive_datagram d dv)) = rrx_fragment_size (dv_reliable_rx dv)"
  by (auto simp: receive_datagram_def unrel_rx_receive_def rel_rx_receive_def Let_def split: option.splits)

lemma receive_loop_sizes:
  "receive_loop pr dv = Some dv' \<Longrightarrow>
     urx_fragment_size (dv_unreliable_rx dv') = urx_fragment_size (dv_unreliable_rx dv) \<and>
     rrx_fragment_size (dv_reliable_rx dv') = rrx_fragment_size (dv_reliable_rx dv)"
proof (induction pr dv rule: receive_loop.induct)
  case (1 pr dv)
  from 1(2) obtain r pr1 where r: "PayloadReader_read Datagram_read pr = Some (r, pr1)"
      "(case r of Some d \<Rightarrow> receive_loop pr1 (receive_datagram d dv) | None \<Rightarrow> Some dv) = Some dv'"
    by (subst (asm) receive_loop.simps) (auto simp: bind_eq_Some_conv)
  show ?case
  proof (cases r)
    case (Some d)
    with 1(1) [OF r(1) refl Some] r(2) show ?thesis
      by (simp add: receive_datagram_sizes)
  qed (use r in simp)
qed

lemma receive_segments_total:
  "\<exists>dv'. receive_segments segs dv = Some dv' \<and>
     urx_fragment_size (dv_unreliable_rx dv') = urx_fragment_size (dv_unreliable_rx dv) \<and>
     rrx_fragment_size (dv_reliable_rx dv') = rrx_fragment_size (dv_reliable_rx dv)"
proof (induction segs arbitrary: dv)
  case (Cons bs rest)
  obtain dv1 where dv1: "receive_segment_bytes bs dv = Some dv1"
    using receive_loop_total [of "PayloadReader_new bs" dv]
    by (auto simp: receive_segment_bytes_def PayloadReader_new_def)
  then show ?case
    using Cons [of dv1] receive_loop_sizes [of "PayloadReader_new bs" dv dv1]
    by (auto simp: receive_segment_bytes_def)
qed simp

section \<open>The type invariant\<close>

definition stx_wf :: "SegmentTx \<Rightarrow> bool" where
  "stx_wf tx \<longleftrightarrow> (\<exists>log A. stx_log_inv 0 12 A (tx, log))"

definition endpoint_wf :: "Endpoint \<Rightarrow> bool" where
  "endpoint_wf ep \<longleftrightarrow>
     stx_wf (ep_segment_tx ep) \<and> ftb_inv (ep_fragment_tx ep) \<and> cc_inv FRAGMENT_SIZE (ep_cc_state ep) \<and>
     length (ep_tx_buffer ep) = FRAME_SIZE_MAX \<and>
     RTO_MIN_MS \<le> ep_rto_ms ep \<and> ep_rto_ms ep \<le> RTO_MAX_MS \<and>
     srx_wf (ep_segment_rx ep) \<and> urx_fragment_size (ep_unreliable_rx ep) = FRAGMENT_SIZE \<and>
     rrx_fragment_size (ep_reliable_rx ep) = FRAGMENT_SIZE"

lemma stx_wf_send:
  assumes "stx_wf tx" and "stx_can_send tx"
  shows "\<exists>tx'. stx_send tx coin n = Some tx' \<and> stx_wf tx' \<and> stx_bytes_in_transit tx' = stx_bytes_in_transit tx + n"
proof -
  obtain log A where inv: "stx_log_inv 0 12 A (tx, log)"
    using assms(1) by (auto simp: stx_wf_def)
  obtain s A' where "tx_step (SendEv coin n) (tx, log) = Some s" "stx_log_inv 0 12 A' s"
    using tx_step_inv [OF inv] by blast
  with assms(2) obtain tx' where tx': "stx_send tx coin n = Some tx'" "stx_log_inv 0 12 A' (tx', log @ [(coin, n)])"
    by auto
  then have "stx_transit_total tx' = stx_transit_total tx + n"
    by (auto simp: stx_send_def compute_next_nonce_def stx_mark_sent_def Let_def bind_eq_Some_conv)
  with tx' show ?thesis
    by (auto simp: stx_wf_def stx_bytes_in_transit_def)
qed

lemma stx_wf_acknowledge:
  assumes "stx_wf tx"
  shows "\<exists>tx' r. stx_acknowledge tx i hist c = Some (tx', r) \<and> stx_wf tx'"
proof -
  obtain log A where inv: "stx_log_inv 0 12 A (tx, log)"
    using assms by (auto simp: stx_wf_def)
  obtain s A' where "tx_step (AckEv i hist c) (tx, log) = Some s" "stx_log_inv 0 12 A' s"
    using tx_step_inv [OF inv] by blast
  then show ?thesis
    by (auto simp: stx_wf_def)
qed

lemma SegmentTx_new_4096: "\<exists>tx. SegmentTx_new 0 SEGMENT_WINDOW_SIZE = Some tx \<and> stx_wf tx"
proof -
  obtain tx where tx: "SegmentTx_new 0 SEGMENT_WINDOW_SIZE = Some tx"
    by (simp add: SegmentTx_new_def SEGMENT_WINDOW_SIZE_def)
  have "stx_inv (log_ghost 0 12 []) 0 0 tx"
    using tx by (rule SegmentTx_new_inv) (simp_all add: log_ghost_def SEGMENT_WINDOW_SIZE_def)
  then have "stx_log_inv 0 12 0 (tx, [])"
    by (simp add: stx_log_inv_def)
  with tx show ?thesis
    unfolding stx_wf_def by blast
qed

lemma Endpoint_new_wf:
  assumes "prio_Config_new ws burst = Some (ec_prio_config config)"
  shows "\<exists>ep. Endpoint_new config = Some ep \<and> endpoint_wf ep \<and> ep_state_id ep = PreInit \<and>
    ep_rto_timer_state ep = None \<and> ep_config ep = config"
proof -
  obtain tx where tx: "SegmentTx_new 0 SEGMENT_WINDOW_SIZE = Some tx" "stx_wf tx"
    using SegmentTx_new_4096 by blast
  obtain ftb where ftb: "ftb_new 0 FRAGMENT_WINDOW_SIZE FRAGMENT_SIZE (ec_prio_config config) = Some ftb" "ftb_inv ftb"
    using ftb_new_inv [OF assms] by (auto simp: FRAGMENT_WINDOW_SIZE_def)
  obtain cc where cc: "AimdReno_new FRAGMENT_SIZE = Some cc"
    by (simp add: AimdReno_new_def FRAGMENT_SIZE_def)
  then have "cc_inv FRAGMENT_SIZE cc"
    by (rule AimdReno_new_inv) (simp add: FRAGMENT_SIZE_def)
  with tx ftb cc show ?thesis
    by (simp add: Endpoint_new_def endpoint_wf_def unrel_rx_new_def rel_rx_new_def FRAGMENT_SIZE_def
        SegmentRx_new_def srx_wf_def RTO_INITIAL_MS_def RTO_MIN_MS_def RTO_MAX_MS_def Let_def)
qed

section \<open>The frames of a flush\<close>

lemma next_stream_ack_valid: "StreamAck_valid (next_stream_ack ep ack_rel)"
proof -
  have "ucast (x AND 0x1F :: u32) AND 0x1F = (ucast (x AND 0x1F) :: u8)" for x
    by (rule bit_word_eqI) (auto simp: bit_simps)
  then show ?thesis
    by (simp add: StreamAck_valid_def next_stream_ack_def next_ack_info_def ACK_MASK_def Let_def)
qed

text \<open>The bytes of a stream frame before its checksum.\<close>

definition segment_bytes :: "u32 \<Rightarrow> bool \<Rightarrow> Datagram list \<Rightarrow> bytes" where
  "segment_bytes i nonce ds = StreamSegmentHeader_enc \<lparr>ssh_id = i, ssh_nonce = nonce\<rparr> @ datagrams_enc ds"

definition stream_frame :: "StreamAck option \<Rightarrow> (u32 \<times> bool \<times> Datagram list) option \<Rightarrow> bytes" where
  "stream_frame ack seg =
     finished_frame (frame_type_bits (the (stream_frame_type (ack \<noteq> None) (seg \<noteq> None))) #
       (case ack of Some a \<Rightarrow> StreamAck_enc a | None \<Rightarrow> []) @
       (case seg of Some (i, nonce, ds) \<Rightarrow> segment_bytes i nonce ds | None \<Rightarrow> []))"

text \<open>What sending a segment does to the endpoint.\<close>

definition segment_sent ::
    "bool \<Rightarrow> u64 \<Rightarrow> Endpoint \<Rightarrow> Datagram list \<Rightarrow> Endpoint \<Rightarrow> Effect list \<Rightarrow> bool" where
  "segment_sent coin now ep ds ep' timers \<longleftrightarrow>
     (\<exists>tx ftb. (ep', timers) = arm_timers (ep\<lparr>ep_segment_tx := tx, ep_fragment_tx := ftb\<rparr>)
        (stx_next_id (ep_segment_tx ep)) now \<and>
      stx_send (ep_segment_tx ep) coin (datagrams_size ds) = Some tx \<and>
      ftb_inv ftb \<and> ftb_flushed now (ep_fragment_tx ep) ftb ds) \<and>
     (\<forall>d \<in> set ds. length (dg_data d) \<le> FRAGMENT_SIZE)"

lemma length_StreamSegmentHeader_enc [simp]: "length (StreamSegmentHeader_enc h) = 5"
  by (simp add: StreamSegmentHeader_enc_def)

lemma length_StreamAck_enc [simp]: "length (StreamAck_enc a) = 9"
  by (simp add: StreamAck_enc_def)

lemma send_segment_exact:
  assumes wf: "endpoint_wf ep" and room: "stx_can_send (ep_segment_tx ep)"
    and fw: "fw_holds fw FRAME_SIZE_MAX c" and c: "length c + 9 \<le> FRAME_SIZE_MAX"
  shows "\<exists>ep' fw' ds timers. send_segment coin now ep fw = Some (ep', fw', timers) \<and>
    segment_sent coin now ep ds ep' timers \<and>
    fw_holds fw' FRAME_SIZE_MAX (c @ segment_bytes (stx_next_id (ep_segment_tx ep)) coin ds) \<and>
    (ds = [] \<longrightarrow> ftb_next (ftb_pop_expired (ep_fragment_tx ep) now) = None \<or> FRAME_SIZE_MAX < length c + 5 + DATAGRAM_ROOM)"
proof -
  let ?i = "stx_next_id (ep_segment_tx ep)" and ?h = "\<lparr>ssh_id = stx_next_id (ep_segment_tx ep), ssh_nonce = coin\<rparr>"
  obtain fw1 where fw1: "FrameWriter_write (Serial_write STREAM_SEGMENT_HEADER_SIZE StreamSegmentHeader_write) fw ?h =
      Some (fw1, True)" "fw_holds fw1 FRAME_SIZE_MAX (c @ StreamSegmentHeader_enc ?h)"
    using stream_segment_header.FrameWriter_write_fits [OF fw, of ?h] c by (auto simp: FRAME_CRC_SIZE_def)
  have "ftb_inv (ep_fragment_tx ep)"
    using wf by (simp add: endpoint_wf_def)
  from ftb_flush_result [OF this fw1(2), of now] obtain ftb fw2 ds where flush:
      "ftb_flush (ep_fragment_tx ep) fw1 now = Some (ftb, fw2, datagrams_size ds)" "ftb_inv ftb"
      "fw_holds fw2 FRAME_SIZE_MAX ((c @ StreamSegmentHeader_enc ?h) @ datagrams_enc ds)"
      "ftb_flushed now (ep_fragment_tx ep) ftb ds" "\<forall>d \<in> set ds. length (dg_data d) \<le> FRAGMENT_SIZE"
      "ds = [] \<longrightarrow> ftb_next (ftb_pop_expired (ep_fragment_tx ep) now) = None \<or> FRAME_SIZE_MAX < length c + 5 + DATAGRAM_ROOM"
    by (auto simp: flush_result_def)
  obtain tx where tx: "stx_send (ep_segment_tx ep) coin (datagrams_size ds) = Some tx"
    using stx_wf_send [OF _ room] wf by (auto simp: endpoint_wf_def)
  then obtain tx1 where tx1: "compute_next_nonce (ep_segment_tx ep) coin = Some tx1"
      "stx_mark_sent tx1 (datagrams_size ds) = Some tx"
    by (auto simp: stx_send_def bind_eq_Some_conv)
  obtain ep' timers where arm: "(ep', timers) = arm_timers (ep\<lparr>ep_segment_tx := tx, ep_fragment_tx := ftb\<rparr>) ?i now"
    by (metis surj_pair)
  then have "send_segment coin now ep fw = Some (ep', fw2, timers)"
    using fw1(1) flush(1) tx1 by (simp add: send_segment_def case_prod_beta flip: arm)
  moreover have "segment_sent coin now ep ds ep' timers"
    using arm tx flush(2,4,5) by (auto simp: segment_sent_def)
  moreover have "fw_holds fw2 FRAME_SIZE_MAX (c @ segment_bytes ?i coin ds)"
    using flush(3) by (simp add: segment_bytes_def)
  ultimately show ?thesis
    using flush(6) by blast
qed

lemma segment_sent_wf:
  assumes wf: "endpoint_wf ep" and room: "stx_can_send (ep_segment_tx ep)"
    and sent: "segment_sent coin now ep ds ep' timers"
  shows "endpoint_wf ep'" "stx_bytes_in_transit (ep_segment_tx ep') =
    stx_bytes_in_transit (ep_segment_tx ep) + datagrams_size ds"
proof -
  obtain tx ftb where arm: "(ep', timers) = arm_timers (ep\<lparr>ep_segment_tx := tx, ep_fragment_tx := ftb\<rparr>)
        (stx_next_id (ep_segment_tx ep)) now"
      and tx: "stx_send (ep_segment_tx ep) coin (datagrams_size ds) = Some tx" and ftb: "ftb_inv ftb"
    using sent by (auto simp: segment_sent_def)
  have ep': "ep' = fst (arm_timers (ep\<lparr>ep_segment_tx := tx, ep_fragment_tx := ftb\<rparr>)
        (stx_next_id (ep_segment_tx ep)) now)"
    using arm by (metis fst_conv)
  have "stx_wf tx \<and> stx_bytes_in_transit tx = stx_bytes_in_transit (ep_segment_tx ep) + datagrams_size ds"
    using stx_wf_send [OF _ room, of coin "datagrams_size ds"] wf tx by (auto simp: endpoint_wf_def)
  with wf ftb ep' show "endpoint_wf ep'" "stx_bytes_in_transit (ep_segment_tx ep') =
      stx_bytes_in_transit (ep_segment_tx ep) + datagrams_size ds"
    by (simp_all add: endpoint_wf_def)
qed

text \<open>
  One frame: what it contains and what else happened. A segment is never empty of datagrams
  when data is ready.
\<close>

definition frame_written ::
    "bool \<Rightarrow> bool \<Rightarrow> bool \<Rightarrow> bool \<Rightarrow> u64 \<Rightarrow> Endpoint \<Rightarrow> Endpoint \<Rightarrow> Effect list \<Rightarrow> bool" where
  "frame_written coin send_ack send_data ack_rel now ep ep' out \<longleftrightarrow>
     (\<exists>ack timers ep1 seg buf.
        ack = (if send_ack then Some (next_stream_ack ep ack_rel) else None) \<and>
        out = timers @ [SendFrame (stream_frame ack seg)] \<and>
        length (stream_frame ack seg) \<le> FRAME_SIZE_MAX \<and>
        ep' = ep1\<lparr>ep_tx_buffer := buf\<rparr> \<and> length buf = FRAME_SIZE_MAX \<and>
        (if send_data
         then (\<exists>ds. seg = Some (stx_next_id (ep_segment_tx ep), coin, ds) \<and>
           segment_sent coin now ep ds ep1 timers \<and>
           (ds = [] \<longrightarrow> ftb_next (ftb_pop_expired (ep_fragment_tx ep) now) = None))
         else seg = None \<and> timers = [] \<and> ep1 = ep))"

lemma frame_written_data:
  assumes "ack = (if send_ack then Some (next_stream_ack ep ack_rel) else None)"
    and "seg = (stx_next_id (ep_segment_tx ep), coin, ds)" and "segment_sent coin now ep ds ep1 timers"
    and "ds = [] \<longrightarrow> ftb_next (ftb_pop_expired (ep_fragment_tx ep) now) = None"
    and "length buf = FRAME_SIZE_MAX" and "length (stream_frame ack (Some seg)) \<le> FRAME_SIZE_MAX"
  shows "frame_written coin send_ack True ack_rel now ep (ep1\<lparr>ep_tx_buffer := buf\<rparr>)
    (timers @ [SendFrame (stream_frame ack (Some seg))])"
  unfolding frame_written_def if_True using assms by blast

lemma frame_written_ack:
  assumes "length buf = FRAME_SIZE_MAX" and "ack = Some (next_stream_ack ep ack_rel)"
    and "length (stream_frame ack None) \<le> FRAME_SIZE_MAX"
  shows "frame_written coin True False ack_rel now ep (ep\<lparr>ep_tx_buffer := buf\<rparr>) [SendFrame (stream_frame ack None)]"
  unfolding frame_written_def if_True if_False using assms by fastforce

lemma finished_frame_length [simp]: "length (finished_frame c) = length c + 4"
  by (simp add: finished_frame_def)

lemma write_stream_frame_exact:
  assumes wf: "endpoint_wf ep" and some: "send_ack \<or> send_data"
    and room: "send_data \<Longrightarrow> stx_can_send (ep_segment_tx ep)"
  shows "\<exists>ep' out. write_stream_frame coin send_ack send_data ack_rel now ep = Some (ep', out) \<and>
    frame_written coin send_ack send_data ack_rel now ep ep' out"
proof -
  obtain ft where ft: "stream_frame_type send_ack send_data = Some ft"
    using some by (cases send_ack; cases send_data) (auto simp: stream_frame_type_def)
  have buf: "length (ep_tx_buffer ep) = FRAME_SIZE_MAX"
    using wf by (simp add: endpoint_wf_def)
  obtain fw where fw: "FrameWriter_new (ep_tx_buffer ep) ft = Some fw" "fw_holds fw FRAME_SIZE_MAX [frame_type_bits ft]"
    using FrameWriter_new_holds [of "ep_tx_buffer ep" ft] buf by (auto simp: FRAME_OVERHEAD_SIZE_def FRAME_SIZE_MAX_def serial_consts)
  define ack where "ack = (if send_ack then Some (next_stream_ack ep ack_rel) else None)"
  define c where "c = frame_type_bits ft # (case ack of Some a \<Rightarrow> StreamAck_enc a | None \<Rightarrow> [])"
  have len_c: "length c \<le> 10"
    by (simp add: c_def split: option.splits)
  have "\<exists>fw1. (if send_ack then map_option fst (FrameWriter_write (Serial_write STREAM_ACK_SIZE StreamAck_write)
        fw (next_stream_ack ep ack_rel)) else Some fw) = Some fw1 \<and> fw_holds fw1 FRAME_SIZE_MAX c"
  proof (cases send_ack)
    case True
    then show ?thesis
      using stream_ack.FrameWriter_write_fits [OF fw(2) next_stream_ack_valid, of ep ack_rel]
      by (auto simp: c_def ack_def FRAME_CRC_SIZE_def FRAME_SIZE_MAX_def)
  qed (use fw(2) in \<open>simp add: c_def ack_def\<close>)
  then obtain fw1 where fw1: "(if send_ack then map_option fst (FrameWriter_write (Serial_write STREAM_ACK_SIZE StreamAck_write)
        fw (next_stream_ack ep ack_rel)) else Some fw) = Some fw1" "fw_holds fw1 FRAME_SIZE_MAX c"
    by blast
  have finish: "\<exists>buf. write_stream_frame coin send_ack send_data ack_rel now ep =
        Some (ep1\<lparr>ep_tx_buffer := buf\<rparr>, timers @ [SendFrame (finished_frame c')]) \<and>
      length buf = FRAME_SIZE_MAX \<and> length (finished_frame c') \<le> FRAME_SIZE_MAX"
    if seg: "(if send_data then send_segment coin now ep fw1 else Some (ep, fw1, [])) = Some (ep1, fw2, timers)"
      and holds: "fw_holds fw2 FRAME_SIZE_MAX c'" for ep1 fw2 timers c'
  proof -
    have "length (finished_frame c' @ drop (length c' + FRAME_CRC_SIZE) (fw_buffer fw2)) = FRAME_SIZE_MAX"
      using holds by (simp add: fw_holds_def FRAME_CRC_SIZE_def)
    then show ?thesis
      using ft fw(1) fw1(1) seg FrameWriter_finalize_holds [OF holds] holds
      by (intro exI [of _ "finished_frame c' @ drop (length c' + FRAME_CRC_SIZE) (fw_buffer fw2)"])
        (simp add: write_stream_frame_def fw_holds_def FRAME_CRC_SIZE_def)
  qed
  show ?thesis
  proof (cases send_data)
    case True
    have c9: "length c + 9 \<le> FRAME_SIZE_MAX"
      using len_c by (simp add: FRAME_SIZE_MAX_def)
    obtain ep1 fw2 ds timers where seg: "send_segment coin now ep fw1 = Some (ep1, fw2, timers)"
        "segment_sent coin now ep ds ep1 timers"
        "fw_holds fw2 FRAME_SIZE_MAX (c @ segment_bytes (stx_next_id (ep_segment_tx ep)) coin ds)"
        "ds = [] \<longrightarrow> ftb_next (ftb_pop_expired (ep_fragment_tx ep) now) = None \<or> FRAME_SIZE_MAX < length c + 5 + DATAGRAM_ROOM"
      using send_segment_exact [OF wf room [OF True] fw1(2) c9, of coin now] by blast
    have "stream_frame ack (Some (stx_next_id (ep_segment_tx ep), coin, ds)) =
        finished_frame (c @ segment_bytes (stx_next_id (ep_segment_tx ep)) coin ds)"
      using ft True by (auto simp: stream_frame_def c_def ack_def)
    moreover have "\<not> FRAME_SIZE_MAX < length c + 5 + DATAGRAM_ROOM"
      using len_c by (simp add: FRAME_SIZE_MAX_def DATAGRAM_ROOM_def serial_consts FRAGMENT_SIZE_def)
    moreover obtain buf where "write_stream_frame coin send_ack send_data ack_rel now ep = Some (ep1\<lparr>ep_tx_buffer := buf\<rparr>,
          timers @ [SendFrame (finished_frame (c @ segment_bytes (stx_next_id (ep_segment_tx ep)) coin ds))])"
        "length buf = FRAME_SIZE_MAX"
        "length (finished_frame (c @ segment_bytes (stx_next_id (ep_segment_tx ep)) coin ds)) \<le> FRAME_SIZE_MAX"
      using finish [OF _ seg(3), of ep1 timers] seg(1) True by auto
    ultimately show ?thesis
      using frame_written_data [OF ack_def refl seg(2)] seg(4) True by auto
  next
    case False
    have "stream_frame ack None = finished_frame c"
      using ft False by (auto simp: stream_frame_def c_def ack_def)
    moreover obtain buf where "write_stream_frame coin send_ack send_data ack_rel now ep = Some (ep\<lparr>ep_tx_buffer := buf\<rparr>,
          [] @ [SendFrame (finished_frame c)])"
        "length buf = FRAME_SIZE_MAX" "length (finished_frame c) \<le> FRAME_SIZE_MAX"
      using finish [OF _ fw1(2), of ep "[]"] False by auto
    ultimately show ?thesis
      using frame_written_ack [of buf ack ep ack_rel coin now] False some by (auto simp: ack_def)
  qed
qed

section \<open>The loop of a flush\<close>

definition ep_popped :: "u64 \<Rightarrow> Endpoint \<Rightarrow> Endpoint" where
  "ep_popped now ep = ep\<lparr>ep_fragment_tx := ftb_pop_expired (ep_fragment_tx ep) now\<rparr>"

definition may_send :: "u64 \<Rightarrow> Endpoint \<Rightarrow> bool" where
  "may_send now ep \<longleftrightarrow> stx_can_send (ep_segment_tx ep) \<and>
     stx_bytes_in_transit (ep_segment_tx ep) < cc_cwnd (ep_cc_state ep) \<and>
     ftb_next (ftb_pop_expired (ep_fragment_tx ep) now) \<noteq> None"

lemma ep_popped_wf: "endpoint_wf ep \<Longrightarrow> endpoint_wf (ep_popped now ep)"
  by (simp add: endpoint_wf_def ep_popped_def ftb_pop_expired_inv)

lemma frame_written_wf:
  assumes "endpoint_wf ep" and "send_data \<Longrightarrow> stx_can_send (ep_segment_tx ep)"
    and "frame_written coin send_ack send_data ack_rel now ep ep' out"
  shows "endpoint_wf ep'"
proof -
  obtain ep1 timers buf ds where ep': "ep' = ep1\<lparr>ep_tx_buffer := buf\<rparr>" "length buf = FRAME_SIZE_MAX"
      "if send_data then segment_sent coin now ep ds ep1 timers else ep1 = ep"
    using assms(3) by (fastforce simp: frame_written_def split: if_splits)
  have "endpoint_wf ep1"
    using assms(1,2) ep'(3) segment_sent_wf(1) [OF assms(1)] by (cases send_data) auto
  with ep' show ?thesis
    by (simp add: endpoint_wf_def)
qed

lemma flush_round_exact:
  assumes wf: "endpoint_wf ep"
  shows "if send_ack \<or> may_send now ep
    then \<exists>ep' out. flush_round coin send_ack ack_rel now ep = Some (ep', Some (out, may_send now ep)) \<and>
      frame_written coin send_ack (may_send now ep) ack_rel now (ep_popped now ep) ep' out \<and> endpoint_wf ep'
    else flush_round coin send_ack ack_rel now ep = Some (ep_popped now ep, None)"
proof -
  have inv: "ftb_inv (ep_fragment_tx ep)"
    using wf by (simp add: endpoint_wf_def)
  have dr: "ftb_data_ready (ep_fragment_tx ep) now = (ftb_pop_expired (ep_fragment_tx ep) now,
      ftb_next (ftb_pop_expired (ep_fragment_tx ep) now) \<noteq> None)"
    using ftb_data_ready_iff [OF inv, of now] by (simp add: prod_eq_iff)
  note round = flush_round_cases [OF dr, folded may_send_def ep_popped_def, of coin send_ack ack_rel]
  show ?thesis
  proof (cases "send_ack \<or> may_send now ep")
    case True
    have room: "may_send now ep \<Longrightarrow> stx_can_send (ep_segment_tx (ep_popped now ep))"
      by (simp add: may_send_def ep_popped_def)
    obtain ep' out where "write_stream_frame coin send_ack (may_send now ep) ack_rel now (ep_popped now ep) = Some (ep', out)"
        "frame_written coin send_ack (may_send now ep) ack_rel now (ep_popped now ep) ep' out"
      using write_stream_frame_exact [OF ep_popped_wf [OF wf] True room] by blast
    with frame_written_wf [OF ep_popped_wf [OF wf] room this(2)] True show ?thesis
      by (simp add: round)
  next
    case False
    then show ?thesis
      unfolding round by auto
  qed
qed

text \<open>
  An invariant \<open>I ep out\<close> of the rounds, over the effects so far, holds when the loop ends;
  the loop ends and does not abort.
\<close>

lemma flush_stream_rule:
  assumes wf: "endpoint_wf ep" and init: "I ep []"
    and round: "\<And>coin send_ack ep1 out1 ep2 out2. endpoint_wf ep1 \<Longrightarrow> I ep1 out1 \<Longrightarrow>
      send_ack \<or> may_send now ep1 \<Longrightarrow>
      frame_written coin send_ack (may_send now ep1) ack_rel now (ep_popped now ep1) ep2 out2 \<Longrightarrow>
      I ep2 (out1 @ out2)"
    and stop: "\<And>ep1 out1. I ep1 out1 \<Longrightarrow> I (ep_popped now ep1) out1"
  shows "\<exists>ep' out. flush_stream coins send_ack ack_rel now ep = Some (ep', out) \<and>
    endpoint_wf ep' \<and> \<not> may_send now ep' \<and> I ep' out"
proof -
  have step: "\<forall>coin send_ack ep1 out1 ep2 out2. endpoint_wf ep1 \<longrightarrow> I ep1 out1 \<longrightarrow>
      send_ack \<or> may_send now ep1 \<longrightarrow>
      frame_written coin send_ack (may_send now ep1) ack_rel now (ep_popped now ep1) ep2 out2 \<longrightarrow>
      I ep2 (out1 @ out2)" and last: "\<forall>ep1 out1. I ep1 out1 \<longrightarrow> I (ep_popped now ep1) out1"
    using round stop by blast+
  have "\<exists>ep' out'. flush_stream coins send_ack ack_rel now ep = Some (ep', out') \<and>
      endpoint_wf ep' \<and> \<not> may_send now ep' \<and> I ep' (out @ out')"
    if "endpoint_wf ep" "I ep out" for out
    using that step last
  proof (induction coins send_ack ack_rel now ep arbitrary: out rule: flush_stream.induct)
    case (1 coins send_ack ack_rel now ep)
    show ?case
    proof (cases "send_ack \<or> may_send now ep")
      case True
      obtain ep1 out1 where step: "flush_round (coins 0) send_ack ack_rel now ep = Some (ep1, Some (out1, may_send now ep))"
          "frame_written (coins 0) send_ack (may_send now ep) ack_rel now (ep_popped now ep) ep1 out1" "endpoint_wf ep1"
        using flush_round_exact [OF 1(2), of send_ack now "coins 0" ack_rel] True by auto
      have "I ep1 (out @ out1)"
        using 1(4) 1(2,3) True step(2) by blast
      from 1(1) [OF step(1) refl refl refl step(3) this 1(4,5)] obtain ep' out' where
          "flush_stream (if may_send now ep then coins \<circ> Suc else coins) False ack_rel now ep1 = Some (ep', out')"
          "endpoint_wf ep'" "\<not> may_send now ep'" "I ep' ((out @ out1) @ out')"
        by blast
      with step(1) show ?thesis
        by (subst flush_stream.simps) simp
    next
      case False
      have "\<not> may_send now (ep_popped now ep)"
        using False by (simp add: may_send_def ep_popped_def ftb_pop_expired_idem)
      with False show ?thesis
        using flush_round_exact [OF 1(2), of send_ack now "coins 0" ack_rel] ep_popped_wf [OF 1(2)] 1(3,5)
        by (subst flush_stream.simps) simp
    qed
  qed
  from this [OF wf init] show ?thesis by simp
qed

end
