(* ===== verification/Endpoint_Step.thy ===== *)
theory Endpoint_Step
  imports Endpoint_Inv
begin

text \<open>
  What each operation of an endpoint does to its life cycle, to the timer of its host and
  to the type invariant; then sequences of operations, against which the properties of an
  endpoint are stated. The life cycle is specified by the step relation \<open>conn_step\<close>.
\<close>

section \<open>The life cycle of a connection\<close>

text \<open>The callbacks to the application among the effects.\<close>

fun is_callback :: "Effect \<Rightarrow> bool" where
  "is_callback (SendFrame bs) = False"
| "is_callback (SetRtoTimer t) = False"
| "is_callback UnsetRtoTimer = False"
| "is_callback e = True"

definition callbacks :: "Effect list \<Rightarrow> Effect list" where
  "callbacks out = filter is_callback out"

lemma callbacks_simps [simp]:
  "callbacks [] = []"
  "callbacks (x # xs) = (if is_callback x then x # callbacks xs else callbacks xs)"
  "callbacks (xs @ ys) = callbacks xs @ callbacks ys"
  "callbacks (map OnReceive ps) = map OnReceive ps"
  by (simp_all add: callbacks_def filter_map o_def)

text \<open>
  Specification: packets are received in the active state only; a connection ends by a
  disconnection or a timeout, once, and stays closed.
\<close>

inductive conn_step :: "StateId \<Rightarrow> Effect list \<Rightarrow> StateId \<Rightarrow> bool" where
  conn_idle: "conn_step s [] s"
| conn_connect: "conn_step PreInit [OnConnect] Active"
| conn_receive: "conn_step Active (map OnReceive ps) Active"
| conn_disconnect: "conn_step Active [] Closing"
| conn_closed: "s = Active \<or> s = Closing \<Longrightarrow> conn_step s [OnDisconnect] Closed"
| conn_timeout: "s = Active \<or> s = Closing \<Longrightarrow> conn_step s [OnTimeout] Zombie"
| conn_linger: "conn_step Closed [] Zombie"

code_pred conn_step .

declare conn_step.intros [intro]

inductive_cases conn_stepE [elim]: "conn_step s out s'"

inductive_simps conn_step_ends [simp]:
  "conn_step Zombie out s'" "conn_step Closed out s'" "conn_step Closing out s'"

text \<open>The states in the order a connection passes through them, which no step goes against.\<close>

primrec StateId_rank :: "StateId \<Rightarrow> nat" where
  "StateId_rank PreInit = 0"
| "StateId_rank Active = 1"
| "StateId_rank Closing = 2"
| "StateId_rank Closed = 3"
| "StateId_rank Zombie = 4"

instantiation StateId :: linorder
begin

definition less_eq_StateId :: "StateId \<Rightarrow> StateId \<Rightarrow> bool" where
  "less_eq_StateId s s' \<longleftrightarrow> StateId_rank s \<le> StateId_rank s'"

definition less_StateId :: "StateId \<Rightarrow> StateId \<Rightarrow> bool" where
  "less_StateId s s' \<longleftrightarrow> StateId_rank s < StateId_rank s'"

instance
proof
  fix s s' :: StateId
  show "s = s'" if "s \<le> s'" "s' \<le> s"
    using that by (cases s; cases s') (simp_all add: less_eq_StateId_def)
qed (auto simp: less_eq_StateId_def less_StateId_def)

end

lemma StateId_order [simp]: "s \<le> Zombie" "Zombie \<le> s \<longleftrightarrow> s = Zombie" "Closed \<le> s \<longleftrightarrow> s = Closed \<or> s = Zombie"
  by (cases s; simp add: less_eq_StateId_def)+

lemma conn_step_mono: "conn_step s out s' \<Longrightarrow> s \<le> s'"
  by (erule conn_stepE) (auto simp: less_eq_StateId_def)

text \<open>The host's timer after a list of effects.\<close>

fun timer_after :: "Effect list \<Rightarrow> u64 option \<Rightarrow> u64 option" where
  "timer_after [] t = t"
| "timer_after (SetRtoTimer time_ms # out) t = timer_after out (Some time_ms)"
| "timer_after (UnsetRtoTimer # out) t = timer_after out None"
| "timer_after (_ # out) t = timer_after out t"

lemma timer_after_append [simp]: "timer_after (xs @ ys) t = timer_after ys (timer_after xs t)"
  by (induction xs t rule: timer_after.induct) simp_all

lemma timer_after_receive [simp]: "timer_after (map OnReceive ps) t = t"
  by (induction ps) simp_all

text \<open>Whether the timer of the host agrees with the state of the endpoint.\<close>

definition timer_ok :: "u64 option \<Rightarrow> Endpoint \<Rightarrow> bool" where
  "timer_ok t ep \<longleftrightarrow>
     (case ep_state_id ep of
        PreInit \<Rightarrow> ep_rto_timer_state ep = None \<and> t = None
      | Active \<Rightarrow> (ep_rto_timer_state ep \<noteq> None) = (t \<noteq> None)
      | Closing \<Rightarrow> ep_rto_timer_state ep \<noteq> None \<and> t \<noteq> None
      | Closed \<Rightarrow> t \<noteq> None
      | Zombie \<Rightarrow> True)"

definition frames_fit :: "Effect list \<Rightarrow> bool" where
  "frames_fit out \<longleftrightarrow> (\<forall>bs. SendFrame bs \<in> set out \<longrightarrow> length bs \<le> FRAME_SIZE_MAX)"

lemma frames_fit_simps [simp]:
  "frames_fit []" "frames_fit (map OnReceive ps)"
  "frames_fit (xs @ ys) \<longleftrightarrow> frames_fit xs \<and> frames_fit ys"
  "frames_fit (SendFrame bs # xs) \<longleftrightarrow> length bs \<le> FRAME_SIZE_MAX \<and> frames_fit xs"
  "frames_fit (SetRtoTimer t # xs) \<longleftrightarrow> frames_fit xs"
  "frames_fit (UnsetRtoTimer # xs) \<longleftrightarrow> frames_fit xs"
  "frames_fit (OnConnect # xs) \<longleftrightarrow> frames_fit xs" "frames_fit (OnDisconnect # xs) \<longleftrightarrow> frames_fit xs"
  "frames_fit (OnTimeout # xs) \<longleftrightarrow> frames_fit xs"
  by (auto simp: frames_fit_def)

text \<open>The outcome of an operation, from a host whose timer is \<open>t\<close>.\<close>

definition op_ok :: "u64 option \<Rightarrow> Endpoint \<Rightarrow> Endpoint \<Rightarrow> Effect list \<Rightarrow> bool" where
  "op_ok t ep ep' out \<longleftrightarrow>
     endpoint_wf ep' \<and> timer_ok (timer_after out t) ep' \<and> ep_config ep' = ep_config ep \<and>
     conn_step (ep_state_id ep) (callbacks out) (ep_state_id ep') \<and> frames_fit out"

section \<open>Flush\<close>

text \<open>What a flush leaves alone, and the effects it has.\<close>

definition same_conn :: "Endpoint \<Rightarrow> Endpoint \<Rightarrow> bool" where
  "same_conn ep ep' \<longleftrightarrow>
     ep_state_id ep' = ep_state_id ep \<and> ep_config ep' = ep_config ep \<and> ep_cc_state ep' = ep_cc_state ep \<and>
     ep_rto_ms ep' = ep_rto_ms ep \<and> ep_segment_rx ep' = ep_segment_rx ep \<and>
     ep_unreliable_rx ep' = ep_unreliable_rx ep \<and> ep_reliable_rx ep' = ep_reliable_rx ep \<and>
     ep_local_nonce ep' = ep_local_nonce ep \<and> ep_remote_nonce ep' = ep_remote_nonce ep"

definition timers_agree :: "Endpoint \<Rightarrow> Endpoint \<Rightarrow> Effect list \<Rightarrow> bool" where
  "timers_agree ep ep' out \<longleftrightarrow>
     (\<forall>t. (ep_rto_timer_state ep \<noteq> None) = (t \<noteq> None) \<longrightarrow>
        (ep_rto_timer_state ep' \<noteq> None) = (timer_after out t \<noteq> None)) \<and>
     (ep_rto_timer_state ep \<noteq> None \<longrightarrow> ep_rto_timer_state ep' = ep_rto_timer_state ep)"

lemma arm_timers_effects:
  assumes "(ep', timers) = arm_timers ep i now"
  shows "ep_rto_timer_state ep' \<noteq> None"
    and "timers = (if ep_rto_timer_state ep = None then [SetRtoTimer (now + ep_rto_ms ep)] else [])"
    and "ep_rto_timer_state ep \<noteq> None \<Longrightarrow> ep_rto_timer_state ep' = ep_rto_timer_state ep"
  using assms by (auto simp: arm_timers_def Let_def split: if_splits)

lemma segment_sent_facts:
  assumes "segment_sent coin now ep ds ep' timers"
  shows "same_conn ep ep'" "timers_agree ep ep' timers" "callbacks timers = []" "frames_fit timers"
proof -
  obtain tx ftb where arm: "(ep', timers) = arm_timers (ep\<lparr>ep_segment_tx := tx, ep_fragment_tx := ftb\<rparr>)
        (stx_next_id (ep_segment_tx ep)) now"
    using assms by (auto simp: segment_sent_def)
  then have "ep' = fst (arm_timers (ep\<lparr>ep_segment_tx := tx, ep_fragment_tx := ftb\<rparr>)
        (stx_next_id (ep_segment_tx ep)) now)"
    by (metis fst_conv)
  then show "same_conn ep ep'"
    by (simp add: same_conn_def)
  show "timers_agree ep ep' timers" "callbacks timers = []" "frames_fit timers"
    using arm_timers_effects [OF arm] by (auto simp: timers_agree_def)
qed

lemma frame_written_facts:
  assumes "frame_written coin send_ack send_data ack_rel now ep ep' out"
  shows "same_conn ep ep'" "timers_agree ep ep' out" "callbacks out = []" "frames_fit out"
proof -
  obtain ep1 timers buf frame ds where f: "ep' = ep1\<lparr>ep_tx_buffer := buf\<rparr>" "out = timers @ [SendFrame frame]"
      "length frame \<le> FRAME_SIZE_MAX"
      "if send_data then segment_sent coin now ep ds ep1 timers else timers = [] \<and> ep1 = ep"
    using assms by (fastforce simp: frame_written_def split: if_splits)
  have "same_conn ep ep1 \<and> timers_agree ep ep1 timers \<and> callbacks timers = [] \<and> frames_fit timers"
    using f(4) segment_sent_facts by (cases send_data) (auto simp: same_conn_def timers_agree_def)
  with f(1-3) show "same_conn ep ep'" "timers_agree ep ep' out" "callbacks out = []" "frames_fit out"
    by (simp_all add: same_conn_def timers_agree_def)
qed

lemma same_conn_trans: "same_conn a b \<Longrightarrow> same_conn b c \<Longrightarrow> same_conn a c"
  by (simp add: same_conn_def)

lemma flush_stream_facts:
  assumes "endpoint_wf ep"
  shows "\<exists>ep' out. flush_stream coins send_ack ack_rel now ep = Some (ep', out) \<and> endpoint_wf ep' \<and>
    same_conn ep ep' \<and> timers_agree ep ep' out \<and> callbacks out = [] \<and> frames_fit out"
proof -
  let ?I = "\<lambda>ep' out. same_conn ep ep' \<and> timers_agree ep ep' out \<and> callbacks out = [] \<and> frames_fit out"
  have "\<exists>ep' out. flush_stream coins send_ack ack_rel now ep = Some (ep', out) \<and> endpoint_wf ep' \<and>
      \<not> may_send now ep' \<and> ?I ep' out"
  proof (rule flush_stream_rule [OF assms, where I = ?I])
    fix coin :: bool and send_ack ep1 out1 ep2 out2
    assume I: "?I ep1 out1" and
      w: "frame_written coin send_ack (may_send now ep1) ack_rel now (ep_popped now ep1) ep2 out2"
    have "same_conn ep1 (ep_popped now ep1)" "ep_rto_timer_state (ep_popped now ep1) = ep_rto_timer_state ep1"
      by (simp_all add: same_conn_def ep_popped_def)
    with I frame_written_facts [OF w] show "?I ep2 (out1 @ out2)"
      by (auto intro: same_conn_trans simp: timers_agree_def)
  next
    fix ep1 out1
    assume "?I ep1 out1"
    then show "?I (ep_popped now ep1) out1"
      by (simp add: same_conn_def timers_agree_def ep_popped_def)
  qed (simp add: same_conn_def timers_agree_def)
  then show ?thesis by blast
qed

lemma flush_op_ok:
  assumes wf: "endpoint_wf ep" and t: "timer_ok t ep" and st: "ep_state_id ep = Active"
  shows "\<exists>ep' out. flush_stream coins send_ack ack_rel now ep = Some (ep', out) \<and> op_ok t ep ep' out \<and> same_conn ep ep' \<and>
    callbacks out = []"
proof -
  obtain ep' out where f: "flush_stream coins send_ack ack_rel now ep = Some (ep', out)" "endpoint_wf ep'"
      "same_conn ep ep'" "timers_agree ep ep' out" "callbacks out = []" "frames_fit out"
    using flush_stream_facts [OF wf] by blast
  then have "op_ok t ep ep' out"
    using t st by (auto simp: op_ok_def same_conn_def timer_ok_def timers_agree_def)
  with f show ?thesis by blast
qed

text \<open>Two steps in a row, the first without a change of the life cycle.\<close>

lemma op_ok_trans:
  assumes "op_ok t ep ep1 out1" and "op_ok (timer_after out1 t) ep1 ep2 out2"
    and "conn_step (ep_state_id ep) (callbacks out1 @ callbacks out2) (ep_state_id ep2)"
  shows "op_ok t ep ep2 (out1 @ out2)"
  using assms by (simp add: op_ok_def)

section \<open>Simple frames\<close>

lemma send_simple_frame_facts:
  assumes wf: "endpoint_wf ep"
    and fits: "\<And>fw c. fw_holds fw FRAME_SIZE_MAX c \<Longrightarrow> length c = 1 \<Longrightarrow>
      \<exists>fw'. FrameWriter_write A_write fw obj = Some (fw', True) \<and> fw_holds fw' FRAME_SIZE_MAX (c @ body)"
  shows "\<exists>buf. send_simple_frame sf A_write obj ep =
      Some (ep\<lparr>ep_tx_buffer := buf\<rparr>, [SendFrame (finished_frame (frame_type_bits (FRAME_TYPE sf) # body))]) \<and>
    length buf = FRAME_SIZE_MAX"
proof -
  have "length (ep_tx_buffer ep) = FRAME_SIZE_MAX"
    using wf by (simp add: endpoint_wf_def)
  then obtain fw where fw: "FrameWriter_new (ep_tx_buffer ep) (FRAME_TYPE sf) = Some fw"
      "fw_holds fw FRAME_SIZE_MAX [frame_type_bits (FRAME_TYPE sf)]"
    using FrameWriter_new_holds [of "ep_tx_buffer ep" "FRAME_TYPE sf"]
    by (auto simp: FRAME_OVERHEAD_SIZE_def FRAME_SIZE_MAX_def serial_consts)
  obtain fw' where fw': "FrameWriter_write A_write fw obj = Some (fw', True)"
      "fw_holds fw' FRAME_SIZE_MAX (frame_type_bits (FRAME_TYPE sf) # body)"
    using fits [OF fw(2)] by auto
  have "length (finished_frame (frame_type_bits (FRAME_TYPE sf) # body) @
      drop (length (frame_type_bits (FRAME_TYPE sf) # body) + FRAME_CRC_SIZE) (fw_buffer fw')) = FRAME_SIZE_MAX"
    using fw'(2) by (simp add: fw_holds_def FRAME_CRC_SIZE_def)
  then show ?thesis
    using fw(1) fw'(1) FrameWriter_finalize_holds [OF fw'(2)]
    by (intro exI [of _ "finished_frame (frame_type_bits (FRAME_TYPE sf) # body) @
      drop (length (frame_type_bits (FRAME_TYPE sf) # body) + FRAME_CRC_SIZE) (fw_buffer fw')"])
      (simp add: send_simple_frame_def SimpleFrameWrite_write_def)
qed

lemma send_close_frame_facts:
  assumes "endpoint_wf ep"
  shows "\<exists>buf. send_close_frame ep = Some (ep\<lparr>ep_tx_buffer := buf\<rparr>,
      [SendFrame (finished_frame (frame_type_bits Close # be_u32 (ep_remote_nonce ep)))]) \<and> length buf = FRAME_SIZE_MAX"
  using send_simple_frame_facts [OF assms, where obj = "\<lparr>cl_remote_nonce = ep_remote_nonce ep\<rparr>" and sf = Close_SF
      and A_write = "Serial_write CLOSE_SIZE CloseFrame_write" and body = "be_u32 (ep_remote_nonce ep)"]
    close.FrameWriter_write_fits [where obj = "\<lparr>cl_remote_nonce = ep_remote_nonce ep\<rparr>"]
  by (simp add: send_close_frame_def CloseFrame_enc_def Close_SF_def FRAME_CRC_SIZE_def FRAME_SIZE_MAX_def)

lemma send_close_ack_frame_facts:
  assumes "endpoint_wf ep"
  shows "\<exists>buf. send_close_ack_frame ep = Some (ep\<lparr>ep_tx_buffer := buf\<rparr>,
      [SendFrame (finished_frame (frame_type_bits CloseAck # be_u32 (ep_remote_nonce ep)))]) \<and> length buf = FRAME_SIZE_MAX"
  using send_simple_frame_facts [OF assms, where obj = "\<lparr>cla_remote_nonce = ep_remote_nonce ep\<rparr>" and sf = CloseAck_SF
      and A_write = "Serial_write CLOSE_ACK_SIZE CloseAckFrame_write" and body = "be_u32 (ep_remote_nonce ep)"]
    close_ack.FrameWriter_write_fits [where obj = "\<lparr>cla_remote_nonce = ep_remote_nonce ep\<rparr>"]
  by (simp add: send_close_ack_frame_def CloseAckFrame_enc_def CloseAck_SF_def FRAME_CRC_SIZE_def FRAME_SIZE_MAX_def)

lemma send_stream_sync_frame_facts:
  assumes "endpoint_wf ep"
  shows "\<exists>buf. send_stream_sync_frame i ep = Some (ep\<lparr>ep_tx_buffer := buf\<rparr>,
      [SendFrame (finished_frame (frame_type_bits StreamSyncType # be_u32 i))]) \<and> length buf = FRAME_SIZE_MAX"
  using send_simple_frame_facts [OF assms, where obj = "\<lparr>ss_next_segment_id = i\<rparr>" and sf = StreamSync_SF
      and A_write = "Serial_write STREAM_SYNC_SIZE StreamSync_write" and body = "be_u32 i"]
    stream_sync.FrameWriter_write_fits [where obj = "\<lparr>ss_next_segment_id = i\<rparr>"]
  by (simp add: send_stream_sync_frame_def StreamSync_enc_def StreamSync_SF_def FRAME_CRC_SIZE_def FRAME_SIZE_MAX_def)

lemma endpoint_wf_buffer:
  "endpoint_wf ep \<Longrightarrow> length buf = FRAME_SIZE_MAX \<Longrightarrow> endpoint_wf (ep\<lparr>ep_tx_buffer := buf\<rparr>)"
  by (simp add: endpoint_wf_def)

section \<open>Each operation\<close>

lemma endpoint_init_ok:
  assumes "endpoint_wf ep" and "ep_state_id ep = PreInit" and "timer_ok t ep"
  shows "op_ok t ep (fst (endpoint_init ep)) (snd (endpoint_init ep))"
  using assms by (simp add: op_ok_def endpoint_init_def endpoint_wf_def timer_ok_def conn_connect)

lemma endpoint_enqueue_ok:
  assumes "endpoint_wf ep" and "timer_ok t ep"
  shows "op_ok t ep (endpoint_enqueue ep packet mode now) []"
  using assms by (auto simp: op_ok_def endpoint_enqueue_def endpoint_wf_def ftb_enqueue_inv timer_ok_def
      split: StateId.splits)

lemma op_ok_refl: "endpoint_wf ep \<Longrightarrow> timer_ok t ep \<Longrightarrow> op_ok t ep ep []"
  by (auto simp: op_ok_def)

lemma endpoint_flush_ok:
  assumes "endpoint_wf ep" and "timer_ok t ep"
  shows "\<exists>ep' out. endpoint_flush coins now ep = Some (ep', out) \<and> op_ok t ep ep' out"
proof (cases "ep_state_id ep = Active")
  case True
  then show ?thesis
    using flush_op_ok [OF assms True, of coins False False now] by (auto simp: endpoint_flush_def)
qed (use op_ok_refl [OF assms] in \<open>simp add: endpoint_flush_def\<close>)

lemma endpoint_disconnect_ok:
  assumes wf: "endpoint_wf ep" and t: "timer_ok t ep"
  shows "\<exists>ep' out. endpoint_disconnect now ep = Some (ep', out) \<and> op_ok t ep ep' out"
proof (cases "ep_state_id ep = Active")
  case True
  let ?ep = "ep\<lparr>ep_state_id := Closing, ep_rto_timer_state := Some \<lparr>rts_rto_ms = ep_rto_ms ep, rts_rto_sum_ms = 0\<rparr>\<rparr>"
  have wf': "endpoint_wf ?ep"
    using wf by (simp add: endpoint_wf_def)
  then obtain buf where "send_close_frame ?ep = Some (?ep\<lparr>ep_tx_buffer := buf\<rparr>,
      [SendFrame (finished_frame (frame_type_bits Close # be_u32 (ep_remote_nonce ?ep)))])" "length buf = FRAME_SIZE_MAX"
    using send_close_frame_facts by blast
  then show ?thesis
    using True endpoint_wf_buffer [OF wf']
    by (simp add: endpoint_disconnect_def enter_closing_def op_ok_def timer_ok_def conn_disconnect FRAME_SIZE_MAX_def)
qed (use op_ok_refl [OF wf t] in \<open>simp add: endpoint_disconnect_def\<close>)

lemma enter_closed_ok:
  assumes "endpoint_wf ep" and "ep_state_id ep = Active \<or> ep_state_id ep = Closing"
  shows "op_ok t ep (fst (enter_closed now ep)) (snd (enter_closed now ep))"
  using assms by (simp add: op_ok_def enter_closed_def endpoint_wf_def timer_ok_def conn_closed)

lemma validate_close_total:
  "\<exists>b. validate_close_frame ep bs = Some b" "\<exists>b. validate_close_ack_frame ep bs = Some b"
  using close.sread_total [of bs] close_ack.sread_total [of bs]
  by (auto simp: validate_close_frame_def validate_close_ack_frame_def SimplePayloadRead_read_def
      PayloadReader_read_def PayloadReader_new_def)

lemma close_requested_ok:
  assumes wf: "endpoint_wf ep" and t: "timer_ok t ep" and st: "ep_state_id ep = Active \<or> ep_state_id ep = Closing"
  shows "\<exists>ep' out. close_requested bs now ep = Some (ep', out) \<and> op_ok t ep ep' out"
proof -
  obtain b where b: "validate_close_frame ep bs = Some b"
    using validate_close_total by blast
  obtain buf where buf: "send_close_ack_frame ep = Some (ep\<lparr>ep_tx_buffer := buf\<rparr>,
      [SendFrame (finished_frame (frame_type_bits CloseAck # be_u32 (ep_remote_nonce ep)))])" "length buf = FRAME_SIZE_MAX"
    using send_close_ack_frame_facts [OF wf] by blast
  have "op_ok t ep (fst (enter_closed now (ep\<lparr>ep_tx_buffer := buf\<rparr>)))
      (SendFrame (finished_frame (frame_type_bits CloseAck # be_u32 (ep_remote_nonce ep))) #
        snd (enter_closed now (ep\<lparr>ep_tx_buffer := buf\<rparr>)))"
    using enter_closed_ok [OF endpoint_wf_buffer [OF wf buf(2)], of t now] st
    by (simp add: op_ok_def FRAME_SIZE_MAX_def)
  then show ?thesis
    using b buf(1) op_ok_refl [OF wf t]
    by (cases b) (simp_all add: close_requested_def case_prod_beta)
qed

text \<open>A step of the active state that leaves the life cycle alone.\<close>

definition active_ok :: "u64 option \<Rightarrow> Endpoint \<Rightarrow> Endpoint \<Rightarrow> Effect list \<Rightarrow> bytes list \<Rightarrow> bool" where
  "active_ok t ep ep' out packets \<longleftrightarrow>
     endpoint_wf ep' \<and> ep_state_id ep' = Active \<and> timer_ok (timer_after out t) ep' \<and> ep_config ep' = ep_config ep \<and>
     callbacks out = map OnReceive packets \<and> frames_fit out"

lemma active_ok_trans:
  assumes "active_ok t ep ep1 out1 ps1" and "active_ok (timer_after out1 t) ep1 ep2 out2 ps2"
  shows "active_ok t ep ep2 (out1 @ out2) (ps1 @ ps2)"
  using assms by (simp add: active_ok_def)

lemma active_ok_op: "ep_state_id ep = Active \<Longrightarrow> active_ok t ep ep' out ps \<Longrightarrow> op_ok t ep ep' out"
  by (simp add: active_ok_def op_ok_def conn_receive)

lemma flush_active_ok:
  assumes "active_ok t0 ep0 ep out0 ps0" and "t = timer_after out0 t0"
  shows "\<exists>ep' out. flush_stream coins send_ack ack_rel now ep = Some (ep', out) \<and> active_ok t ep ep' out []"
proof -
  have ep: "endpoint_wf ep" "timer_ok t ep" "ep_state_id ep = Active"
    using assms by (simp_all add: active_ok_def)
  from flush_op_ok [OF this] ep(3) show ?thesis
    by (fastforce simp: active_ok_def op_ok_def same_conn_def)
qed

lemma update_rtt_facts:
  assumes "endpoint_wf ep"
  shows "endpoint_wf (update_rtt ep i now)" "ep_state_id (update_rtt ep i now) = ep_state_id ep"
    "ep_rto_timer_state (update_rtt ep i now) = ep_rto_timer_state ep" "ep_config (update_rtt ep i now) = ep_config ep"
    "ep_segment_tx (update_rtt ep i now) = ep_segment_tx ep"
  using assms rtt_rto_bounds by (auto simp: update_rtt_def endpoint_wf_def Let_def split: option.splits)

lemma update_rto_timer_ok:
  assumes "endpoint_wf ep" and "timer_ok t ep" and "ep_state_id ep = Active"
  shows "active_ok t ep (fst (update_rto_timer ep i now)) (snd (update_rto_timer ep i now)) []"
  using assms by (auto simp: active_ok_def update_rto_timer_def endpoint_wf_def timer_ok_def split: option.splits)

lemma handle_stream_ack_ok:
  assumes wf: "endpoint_wf ep" and t: "timer_ok t ep" and st: "ep_state_id ep = Active"
  shows "\<exists>ep' out. handle_stream_ack ack now ep = Some (ep', out) \<and> active_ok t ep ep' out []"
proof -
  obtain cc where cc: "cc_handle_ack (ep_cc_state ep) = Some cc" "cc_inv FRAGMENT_SIZE cc"
    using cc_handle_ack_value [of FRAGMENT_SIZE "ep_cc_state ep"] wf by (auto simp: endpoint_wf_def FRAGMENT_SIZE_def)
  obtain tx r where tx: "stx_acknowledge (ep_segment_tx ep) (sa_segment_id ack)
      (ucast (sa_segment_history ack)) (sa_segment_checksum ack) = Some (tx, r)" "stx_wf tx"
    using stx_wf_acknowledge [of "ep_segment_tx ep"] wf by (fastforce simp: endpoint_wf_def)
  obtain ftb where ftb: "ftb_acknowledge (ep_fragment_tx ep) (sa_rel_fragment_id ack) = Some ftb" "ftb_inv ftb"
    using ftb_acknowledge_inv [of "ep_fragment_tx ep"] wf by (auto simp: endpoint_wf_def)
  define cc1 where "cc1 = (if r then cc_handle_drop cc else cc)"
  let ?ep = "ep\<lparr>ep_cc_state := cc1, ep_segment_tx := tx, ep_fragment_tx := ftb\<rparr>"
  let ?ep' = "update_rtt ?ep (sa_segment_id ack) now"
  have wf': "endpoint_wf ?ep"
    using wf cc(2) tx(2) ftb(2) cc_handle_drop_inv [OF cc(2)] by (simp add: endpoint_wf_def cc1_def)
  note rtt = update_rtt_facts [OF wf', of "sa_segment_id ack" now]
  have "timer_ok t ?ep'"
    using t rtt st by (simp add: timer_ok_def)
  from update_rto_timer_ok [OF rtt(1) this, of "sa_segment_id ack" now] rtt st
  have "active_ok t ep (fst (update_rto_timer ?ep' (sa_segment_id ack) now))
      (snd (update_rto_timer ?ep' (sa_segment_id ack) now)) []"
    by (simp add: active_ok_def)
  with cc(1) tx(1) ftb(1) show ?thesis
    by (cases "update_rto_timer ?ep' (sa_segment_id ack) now") (simp add: handle_stream_ack_def flip: cc1_def)
qed

lemma delivery_store_ok:
  assumes "endpoint_wf ep" and "srx_wf rx"
    and "urx_fragment_size (dv_unreliable_rx dv) = FRAGMENT_SIZE" and "rrx_fragment_size (dv_reliable_rx dv) = FRAGMENT_SIZE"
  shows "endpoint_wf (delivery_store dv (ep\<lparr>ep_segment_rx := rx\<rparr>))"
  using assms by (simp add: endpoint_wf_def delivery_store_def)

lemma delivery_ok:
  assumes wf: "endpoint_wf ep" and t: "timer_ok t ep" and st: "ep_state_id ep = Active" and rx: "srx_wf rx"
  shows "\<exists>dv. receive_segments segs (delivery_start ep) = Some dv \<and>
    active_ok t ep (delivery_store dv (ep\<lparr>ep_segment_rx := rx\<rparr>)) (map OnReceive (dv_packets dv)) (dv_packets dv)"
proof -
  obtain dv where dv: "receive_segments segs (delivery_start ep) = Some dv"
      "urx_fragment_size (dv_unreliable_rx dv) = FRAGMENT_SIZE" "rrx_fragment_size (dv_reliable_rx dv) = FRAGMENT_SIZE"
    using receive_segments_total [of segs "delivery_start ep"] wf by (auto simp: delivery_start_def endpoint_wf_def)
  then show ?thesis
    using delivery_store_ok [OF wf rx dv(2,3)] t st
    by (simp add: active_ok_def delivery_store_def timer_ok_def)
qed

lemma handle_stream_data_ok:
  assumes wf: "endpoint_wf ep" and t: "timer_ok t ep" and st: "ep_state_id ep = Active"
    and pr: "read_idx pr \<le> length (pr_buffer pr)" "length (pr_buffer pr) \<le> FRAME_SIZE_MAX"
  shows "\<exists>ep' send_ack ack_rel out ps. handle_stream_data pr ep = Some (ep', send_ack, ack_rel, out) \<and>
    active_ok t ep ep' out ps"
  using pr(1)
proof (cases rule: stream_segment_header.PayloadReader_read_total)
  case End
  then show ?thesis
    using wf t st
    by (intro exI [of _ ep] exI [of _ False] exI [of _ "[]"]) (simp add: handle_stream_data_def active_ok_def)
next
  case (Obj h n)
  let ?pr = "pr\<lparr>read_idx := read_idx pr + n\<rparr>"
  have "srx_wf (ep_segment_rx ep)" "length (remaining_bytes ?pr) \<le> FRAME_SIZE_MAX"
    using wf pr(2) by (simp_all add: endpoint_wf_def remaining_bytes_def)
  then obtain rx segs k where rx: "segment_rx_receive (ep_segment_rx ep) (ssh_id h) (ssh_nonce h) (remaining_bytes ?pr) =
      Some (rx, segs, k)" "srx_wf rx"
    using segment_rx_receive_wf by blast
  from delivery_ok [OF wf t st rx(2), of segs] Obj(1) rx(1) show ?thesis
    by (fastforce simp: handle_stream_data_def)
qed

lemma PayloadReader_new_simps [simp]:
  "read_idx (PayloadReader_new bs) = 0" "pr_buffer (PayloadReader_new bs) = bs"
  by (simp_all add: PayloadReader_new_def)

lemma active_ok_start:
  "endpoint_wf ep \<Longrightarrow> timer_ok t ep \<Longrightarrow> ep_state_id ep = Active \<Longrightarrow> active_ok t ep ep [] []"
  by (simp add: active_ok_def)

lemma active_okD:
  assumes "active_ok t ep ep' out ps"
  shows "endpoint_wf ep'" "timer_ok (timer_after out t) ep'" "ep_state_id ep' = Active"
  using assms by (simp_all add: active_ok_def)

text \<open>The part of \<^verbatim>\<open>handle_stream_frame\<close> after the acknowledgement.\<close>

lemma handle_data_and_flush_ok:
  assumes acked: "active_ok t ep ep1 out1 []"
    and pr: "read_idx pr \<le> length (pr_buffer pr)" "length (pr_buffer pr) \<le> FRAME_SIZE_MAX"
  shows "\<exists>ep' out. (do {
       (ep, send_ack, ack_rel, out_data) \<leftarrow> (if read_data then handle_stream_data pr ep1
          else Some (ep1, False, False, []));
       (ep, out) \<leftarrow> flush_stream coins send_ack ack_rel now ep;
       Some (ep, out1 @ out_data @ out) }) = Some (ep', out) \<and> (\<exists>ps. active_ok t ep ep' out ps)"
proof -
  have "\<exists>ep2 sa ar out2 ps. (if read_data then handle_stream_data pr ep1 else Some (ep1, False, False, [])) =
      Some (ep2, sa, ar, out2) \<and> active_ok (timer_after out1 t) ep1 ep2 out2 ps"
    using handle_stream_data_ok [OF active_okD [OF acked] pr] active_ok_start [OF active_okD [OF acked]]
    by (cases read_data) fastforce+
  then obtain ep2 sa ar out2 ps where data: "(if read_data then handle_stream_data pr ep1 else Some (ep1, False, False, [])) =
      Some (ep2, sa, ar, out2)" "active_ok (timer_after out1 t) ep1 ep2 out2 ps"
    by blast
  obtain ep3 out3 where fl: "flush_stream coins sa ar now ep2 = Some (ep3, out3)"
      "active_ok (timer_after out2 (timer_after out1 t)) ep2 ep3 out3 []"
    using flush_active_ok [OF data(2) refl] by blast
  have "active_ok t ep ep3 (out1 @ out2 @ out3) ([] @ ps @ [])"
    using active_ok_trans [OF acked active_ok_trans [OF data(2) fl(2)]] .
  with data(1) fl(1) show ?thesis
    by (intro exI conjI) simp_all
qed

lemma handle_stream_frame_ok:
  assumes wf: "endpoint_wf ep" and t: "timer_ok t ep" and st: "ep_state_id ep = Active"
    and ft: "ft \<in> {StreamSegment, StreamAckType, StreamSegmentAck}" and bs: "length bs \<le> FRAME_SIZE_MAX"
  shows "\<exists>ep' out ps. handle_stream_frame coins ft bs now ep = Some (ep', out) \<and> active_ok t ep ep' out ps"
proof -
  note start = active_ok_start [OF wf t st]
  obtain read_ack read_data where kind: "(case ft of StreamSegment \<Rightarrow> Some (False, True)
       | StreamAckType \<Rightarrow> Some (True, False) | StreamSegmentAck \<Rightarrow> Some (True, True) | _ \<Rightarrow> None) = Some (read_ack, read_data)"
    using ft by (auto intro: that [of False True] that [of True False] that [of True True])
  have unfold: "handle_stream_frame coins ft bs now ep = (do {
     (acked, pr) \<leftarrow> (if read_ack then PayloadReader_read (Serial_read STREAM_ACK_SIZE StreamAck_read) (PayloadReader_new bs)
        else Some (None, PayloadReader_new bs));
     if read_ack \<and> acked = None then Some (ep, [])
     else do {
       (ep, out_ack) \<leftarrow> (case acked of Some ack \<Rightarrow> handle_stream_ack ack now ep | None \<Rightarrow> Some (ep, []));
       (ep, send_ack, ack_rel, out_data) \<leftarrow> (if read_data then handle_stream_data pr ep else Some (ep, False, False, []));
       (ep, out) \<leftarrow> flush_stream coins send_ack ack_rel now ep;
       Some (ep, out_ack @ out_data @ out) } })"
    unfolding handle_stream_frame_def Let_def kind by simp
  show ?thesis
  proof (cases read_ack)
    case True
    have "read_idx (PayloadReader_new bs) \<le> length (pr_buffer (PayloadReader_new bs))"
      by simp
    then show ?thesis
    proof (cases rule: stream_ack.PayloadReader_read_total)
      case End
      with True start show ?thesis
        unfolding unfold by auto
    next
      case (Obj ack n)
      let ?pr = "(PayloadReader_new bs)\<lparr>read_idx := read_idx (PayloadReader_new bs) + n\<rparr>"
      obtain ep1 out1 where ack: "handle_stream_ack ack now ep = Some (ep1, out1)" "active_ok t ep ep1 out1 []"
        using handle_stream_ack_ok [OF wf t st] by blast
      show ?thesis
        using handle_data_and_flush_ok [OF ack(2), of ?pr read_data coins now] Obj(1,4) bs True ack(1)
        unfolding unfold by auto
    qed
  next
    case False
    show ?thesis
      using handle_data_and_flush_ok [OF start, of "PayloadReader_new bs" read_data coins now] bs False
      unfolding unfold by auto
  qed
qed

lemma handle_stream_sync_frame_ok:
  assumes wf: "endpoint_wf ep" and t: "timer_ok t ep" and st: "ep_state_id ep = Active"
  shows "\<exists>ep' out ps. handle_stream_sync_frame coins bs now ep = Some (ep', out) \<and> active_ok t ep ep' out ps"
proof -
  have "read_idx (PayloadReader_new bs) \<le> length (pr_buffer (PayloadReader_new bs))"
    by simp
  then show ?thesis
  proof (cases rule: stream_sync.PayloadReader_read_total)
    case End
    with active_ok_start [OF wf t st] show ?thesis
      by (auto simp: handle_stream_sync_frame_def)
  next
    case (Obj sync n)
    let ?rx = "fst (segment_rx_sync (ep_segment_rx ep) (ss_next_segment_id sync))"
    let ?segs = "snd (segment_rx_sync (ep_segment_rx ep) (ss_next_segment_id sync))"
    have "srx_wf ?rx"
      using wf segment_rx_sync_wf by (simp add: endpoint_wf_def)
    from delivery_ok [OF wf t st this, of ?segs] obtain dv where dv: "receive_segments ?segs (delivery_start ep) = Some dv"
        "active_ok t ep (delivery_store dv (ep\<lparr>ep_segment_rx := ?rx\<rparr>)) (map OnReceive (dv_packets dv)) (dv_packets dv)"
      by blast
    define ep1 where "ep1 = delivery_store dv (ep\<lparr>ep_segment_rx := ?rx\<rparr>)"
    define ep2 where "ep2 = ep1\<lparr>ep_unreliable_rx := unrel_rx_reset (ep_unreliable_rx ep1)\<rparr>"
    have ok: "active_ok t ep ep2 (map OnReceive (dv_packets dv)) (dv_packets dv)"
      using active_okD [OF dv(2) [folded ep1_def]] dv(2) [folded ep1_def]
      by (simp add: active_ok_def ep2_def endpoint_wf_def timer_ok_def)
    obtain ep3 out3 where fl: "flush_stream coins True True now ep2 = Some (ep3, out3)"
        "active_ok (timer_after (map OnReceive (dv_packets dv)) t) ep2 ep3 out3 []"
      using flush_active_ok [OF ok refl] by blast
    with active_ok_trans [OF ok fl(2)] Obj(1) dv(1) show ?thesis
      by (auto simp: handle_stream_sync_frame_def case_prod_beta Let_def simp flip: ep1_def ep2_def)
  qed
qed

lemma endpoint_handle_frame_ok:
  assumes wf: "endpoint_wf ep" and t: "timer_ok t ep" and bs: "length bs \<le> FRAME_SIZE_MAX"
  shows "\<exists>ep' out. endpoint_handle_frame coins ft bs now ep = Some (ep', out) \<and> op_ok t ep ep' out"
proof (cases "ep_state_id ep")
  case Active
  have active: "\<exists>ep' out. r = Some (ep', out) \<and> op_ok t ep ep' out"
    if "\<exists>ep' out ps. r = Some (ep', out) \<and> active_ok t ep ep' out ps" for r
    using that active_ok_op [OF Active] by blast
  show ?thesis
    using Active active [OF handle_stream_frame_ok [OF wf t Active _ bs, of ft coins now]]
      active [OF handle_stream_sync_frame_ok [OF wf t Active, of coins bs now]]
      close_requested_ok [OF wf t, of bs now] op_ok_refl [OF wf t]
    by (simp add: endpoint_handle_frame_def)
next
  case Closing
  obtain b where "validate_close_ack_frame ep bs = Some b"
    using validate_close_total by blast
  then show ?thesis
    using Closing close_requested_ok [OF wf t, of bs now] op_ok_refl [OF wf t] enter_closed_ok [OF wf, of t now]
    by (cases "enter_closed now ep") (simp add: endpoint_handle_frame_def)
next
  case Closed
  obtain b where b: "validate_close_frame ep bs = Some b"
    using validate_close_total by blast
  obtain buf where "send_close_ack_frame ep = Some (ep\<lparr>ep_tx_buffer := buf\<rparr>,
      [SendFrame (finished_frame (frame_type_bits CloseAck # be_u32 (ep_remote_nonce ep)))])" "length buf = FRAME_SIZE_MAX"
    using send_close_ack_frame_facts [OF wf] by blast
  then show ?thesis
    using Closed b op_ok_refl [OF wf t] endpoint_wf_buffer [OF wf] t
    by (auto simp: endpoint_handle_frame_def op_ok_def timer_ok_def FRAME_SIZE_MAX_def)
qed (use op_ok_refl [OF wf t] in \<open>simp_all add: endpoint_handle_frame_def\<close>)

section \<open>The timer\<close>

definition backoff_rto :: "Endpoint \<Rightarrow> u64" where
  "backoff_rto ep = clamp (ep_rto_ms ep * 2) RTO_MIN_MS RTO_MAX_MS"

lemma backoff_facts:
  assumes "endpoint_wf ep"
  shows "endpoint_wf (fst (backoff st now ep))" "ep_state_id (fst (backoff st now ep)) = ep_state_id ep"
    "ep_config (fst (backoff st now ep)) = ep_config ep" "snd (backoff st now ep) = [SetRtoTimer (now + backoff_rto ep)]"
    "ep_rto_timer_state (fst (backoff st now ep)) = Some (st\<lparr>rts_rto_ms := backoff_rto ep\<rparr>)"
    "ep_rto_ms (fst (backoff st now ep)) = backoff_rto ep"
  using assms clamp_bounds [of RTO_MIN_MS RTO_MAX_MS "ep_rto_ms ep * 2"]
  by (simp_all add: backoff_def backoff_rto_def endpoint_wf_def Let_def RTO_MIN_MS_def RTO_MAX_MS_def)

text \<open>The total waiting time after a firing, as \<^verbatim>\<open>rto_sum_ms\<close> is updated.\<close>

definition rto_sum_next :: "RtoTimerState \<Rightarrow> u64" where
  "rto_sum_next st = rts_rto_sum_ms st + rts_rto_ms st"

lemma rto_active:
  assumes wf: "endpoint_wf ep" and st: "ep_state_id ep = Active" and ts: "ep_rto_timer_state ep = Some ts"
  shows "if ec_timeout_time_ms (ep_config ep) \<le> rto_sum_next ts
    then \<exists>ep'. endpoint_handle_rto_timer coins now ep = Some (ep', Terminate, [OnTimeout]) \<and>
      op_ok None ep ep' [OnTimeout] \<and> ep_state_id ep' = Zombie
    else \<exists>ep' out. endpoint_handle_rto_timer coins now ep = Some (ep', Continue, out) \<and> op_ok None ep ep' out \<and>
      ep_state_id ep' = Active \<and> callbacks out = [] \<and>
      (\<exists>ts'. ep_rto_timer_state ep' = Some ts' \<and> rts_rto_sum_ms ts' = rto_sum_next ts \<and> RTO_MIN_MS \<le> rts_rto_ms ts' \<and>
        rts_rto_ms ts' \<le> RTO_MAX_MS)"
proof -
  let ?ts = "ts\<lparr>rts_rto_sum_ms := rto_sum_next ts\<rparr>"
  let ?ep = "ep\<lparr>ep_rto_timer_state := Some ?ts\<rparr>"
  have wf1: "endpoint_wf ?ep"
    using wf by (simp add: endpoint_wf_def)
  note bo = backoff_facts [OF wf1, of ?ts now]
  define ep1 where "ep1 = fst (backoff ?ts now ?ep)"
  define ep2 where "ep2 = ep1\<lparr>ep_cc_state := cc_handle_timeout (ep_cc_state ep1),
    ep_fragment_tx := ftb_handle_timeout (ep_fragment_tx ep1)\<rparr>"
  have wf2: "endpoint_wf ep2"
    using bo(1) cc_handle_timeout_value(2) ftb_handle_timeout_inv
    by (auto simp: ep2_def ep1_def [symmetric] endpoint_wf_def)
  obtain buf where sync: "send_stream_sync_frame (stx_next_id (ep_segment_tx ep2)) ep2 = Some (ep2\<lparr>ep_tx_buffer := buf\<rparr>,
      [SendFrame (finished_frame (frame_type_bits StreamSyncType # be_u32 (stx_next_id (ep_segment_tx ep2))))])"
      "length buf = FRAME_SIZE_MAX"
    using send_stream_sync_frame_facts [OF wf2] by blast
  let ?ep3 = "ep2\<lparr>ep_tx_buffer := buf\<rparr>"
  obtain ep4 out4 where fl: "flush_stream coins False False now ?ep3 = Some (ep4, out4)" "endpoint_wf ep4"
      "same_conn ?ep3 ep4" "timers_agree ?ep3 ep4 out4" "callbacks out4 = []" "frames_fit out4"
    using flush_stream_facts [OF endpoint_wf_buffer [OF wf2 sync(2)]] by blast
  have ts3: "ep_rto_timer_state ?ep3 = Some (?ts\<lparr>rts_rto_ms := backoff_rto ?ep\<rparr>)"
    using bo(5) by (simp add: ep2_def ep1_def)
  show ?thesis
  proof (cases "ec_timeout_time_ms (ep_config ep) \<le> rto_sum_next ts")
    case True
    then show ?thesis
      using wf st ts
      by (auto simp: endpoint_handle_rto_timer_def rto_sum_next_def op_ok_def endpoint_wf_def timer_ok_def conn_timeout)
  next
    case False
    let ?out = "snd (backoff ?ts now ?ep) @ [SendFrame (finished_frame
      (frame_type_bits StreamSyncType # be_u32 (stx_next_id (ep_segment_tx ep2))))] @ out4"
    have "endpoint_handle_rto_timer coins now ep = Some (ep4, Continue, ?out)"
      using False st ts sync(1) fl(1)
      by (simp add: endpoint_handle_rto_timer_def rto_sum_next_def case_prod_beta Let_def ep2_def ep1_def)
    moreover have ts4: "ep_rto_timer_state ep4 = Some (?ts\<lparr>rts_rto_ms := backoff_rto ?ep\<rparr>)"
      using fl(4) ts3 by (simp add: timers_agree_def)
    moreover have "ep_state_id ep4 = Active" "ep_config ep4 = ep_config ep"
      using fl(3) bo(2,3) st by (simp_all add: same_conn_def ep2_def ep1_def)
    moreover have "timer_after out4 (Some t) \<noteq> None" for t
      using fl(4) ts3 ts4 unfolding timers_agree_def by (metis option.distinct(1))
    moreover have "RTO_MIN_MS \<le> backoff_rto ?ep \<and> backoff_rto ?ep \<le> RTO_MAX_MS"
      unfolding backoff_rto_def by (rule clamp_bounds) (simp add: RTO_MIN_MS_def RTO_MAX_MS_def)
    ultimately show ?thesis
      using False st bo(4) fl(2,5,6)
      by (auto simp: op_ok_def timer_ok_def FRAME_SIZE_MAX_def)
  qed
qed

lemma rto_closing:
  assumes wf: "endpoint_wf ep" and st: "ep_state_id ep = Closing" and ts: "ep_rto_timer_state ep = Some ts"
  shows "if ec_timeout_time_ms (ep_config ep) \<le> rto_sum_next ts
    then \<exists>ep'. endpoint_handle_rto_timer coins now ep = Some (ep', Terminate, [OnTimeout]) \<and>
      op_ok None ep ep' [OnTimeout] \<and> ep_state_id ep' = Zombie
    else \<exists>ep' out. endpoint_handle_rto_timer coins now ep = Some (ep', Continue, out) \<and> op_ok None ep ep' out \<and>
      ep_state_id ep' = Closing \<and> callbacks out = [] \<and>
      (\<exists>ts'. ep_rto_timer_state ep' = Some ts' \<and> rts_rto_sum_ms ts' = rto_sum_next ts \<and> RTO_MIN_MS \<le> rts_rto_ms ts' \<and>
        rts_rto_ms ts' \<le> RTO_MAX_MS)"
proof (cases "ec_timeout_time_ms (ep_config ep) \<le> rto_sum_next ts")
  case True
  then show ?thesis
    using wf st ts
    by (auto simp: endpoint_handle_rto_timer_def rto_sum_next_def op_ok_def endpoint_wf_def timer_ok_def conn_timeout)
next
  case False
  let ?ts = "ts\<lparr>rts_rto_sum_ms := rto_sum_next ts\<rparr>"
  let ?ep = "ep\<lparr>ep_rto_timer_state := Some ?ts\<rparr>"
  have wf1: "endpoint_wf ?ep"
    using wf by (simp add: endpoint_wf_def)
  note bo = backoff_facts [OF wf1, of ?ts now]
  define ep1 where "ep1 = fst (backoff ?ts now ?ep)"
  obtain buf where close: "send_close_frame ep1 = Some (ep1\<lparr>ep_tx_buffer := buf\<rparr>,
      [SendFrame (finished_frame (frame_type_bits Close # be_u32 (ep_remote_nonce ep1)))])" "length buf = FRAME_SIZE_MAX"
    using send_close_frame_facts [OF bo(1)] ep1_def by blast
  have "endpoint_handle_rto_timer coins now ep = Some (ep1\<lparr>ep_tx_buffer := buf\<rparr>, Continue,
      snd (backoff ?ts now ?ep) @ [SendFrame (finished_frame (frame_type_bits Close # be_u32 (ep_remote_nonce ep1)))])"
    using False st ts close(1)
    by (simp add: endpoint_handle_rto_timer_def rto_sum_next_def case_prod_beta Let_def ep1_def)
  moreover have "RTO_MIN_MS \<le> backoff_rto ?ep \<and> backoff_rto ?ep \<le> RTO_MAX_MS"
    unfolding backoff_rto_def by (rule clamp_bounds) (simp add: RTO_MIN_MS_def RTO_MAX_MS_def)
  ultimately show ?thesis
    using False st bo(2-5) endpoint_wf_buffer [OF bo(1) close(2)]
    by (auto simp: op_ok_def timer_ok_def FRAME_SIZE_MAX_def ep1_def)
qed

lemma endpoint_handle_rto_timer_ok:
  assumes wf: "endpoint_wf ep" and t: "timer_ok (Some t0) ep"
  shows "\<exists>ep' act out. endpoint_handle_rto_timer coins now ep = Some (ep', act, out) \<and> op_ok None ep ep' out"
proof (cases "ep_state_id ep")
  case Active
  then obtain ts where "ep_rto_timer_state ep = Some ts"
    using t by (auto simp: timer_ok_def)
  from rto_active [OF wf Active this, of coins now] show ?thesis
    by (auto split: if_splits)
next
  case Closing
  then obtain ts where "ep_rto_timer_state ep = Some ts"
    using t by (auto simp: timer_ok_def)
  from rto_closing [OF wf Closing this, of coins now] show ?thesis
    by (auto split: if_splits)
next
  case Closed
  then show ?thesis
    using wf by (auto simp: endpoint_handle_rto_timer_def op_ok_def endpoint_wf_def timer_ok_def)
next
  case Zombie
  then show ?thesis
    using wf by (auto simp: endpoint_handle_rto_timer_def op_ok_def timer_ok_def)
qed (use t in \<open>simp add: timer_ok_def\<close>)

end
