(* ===== verification/Endpoint_Props.thy ===== *)
theory Endpoint_Props
  imports Endpoint_Step
begin

text \<open>
  Sequences of host calls on an endpoint, and what they guarantee: no abort, the order of
  the callbacks, the time until a silent peer is given up, the amount of data in flight.
\<close>

section \<open>Sequences of host calls\<close>

text \<open>
  The calls a host makes after \<^verbatim>\<open>init\<close>, each with the time and the random bits it draws.
  A timer that fires is cleared before the endpoint is told, as both hosts do; a call with
  no timer set does nothing.
\<close>

datatype HostCall =
    CallEnqueue bytes SendMode
  | CallFlush
  | CallDisconnect
  | CallFrame FrameType bytes
  | CallTimer

type_synonym TimedCall = "HostCall \<times> u64 \<times> (nat \<Rightarrow> bool)"

fun host_step :: "TimedCall \<Rightarrow> Endpoint \<Rightarrow> u64 option \<Rightarrow> (Endpoint \<times> u64 option \<times> Effect list) rust" where
  "host_step (CallEnqueue packet mode, now, coins) ep t = Some (endpoint_enqueue ep packet mode now, t, [])"
| "host_step (CallFlush, now, coins) ep t =
     map_option (\<lambda>(ep, out). (ep, timer_after out t, out)) (endpoint_flush coins now ep)"
| "host_step (CallDisconnect, now, coins) ep t =
     map_option (\<lambda>(ep, out). (ep, timer_after out t, out)) (endpoint_disconnect now ep)"
| "host_step (CallFrame frame_type bs, now, coins) ep t =
     map_option (\<lambda>(ep, out). (ep, timer_after out t, out)) (endpoint_handle_frame coins frame_type bs now ep)"
| "host_step (CallTimer, now, coins) ep None = Some (ep, None, [])"
| "host_step (CallTimer, now, coins) ep (Some t) =
     map_option (\<lambda>(ep, action, out). (ep, timer_after out None, out)) (endpoint_handle_rto_timer coins now ep)"

fun host_run :: "TimedCall list \<Rightarrow> Endpoint \<Rightarrow> u64 option \<Rightarrow> (Endpoint \<times> u64 option \<times> Effect list) rust" where
  "host_run [] ep t = Some (ep, t, [])"
| "host_run (c # cs) ep t = do {
     (ep, t, out) \<leftarrow> host_step c ep t;
     (ep, t, out') \<leftarrow> host_run cs ep t;
     Some (ep, t, out @ out') }"

definition host_start :: "EndpointConfig \<Rightarrow> TimedCall list \<Rightarrow> (Endpoint \<times> u64 option \<times> Effect list) rust" where
  "host_start config calls = do {
     ep \<leftarrow> Endpoint_new config;
     let (ep, out) = endpoint_init ep;
     (ep, t, out') \<leftarrow> host_run calls ep (timer_after out None);
     Some (ep, t, out @ out') }"

text \<open>Frames come from a receive buffer of \<^verbatim>\<open>FRAME_SIZE_MAX\<close> bytes.\<close>

fun call_fits :: "TimedCall \<Rightarrow> bool" where
  "call_fits (CallFrame frame_type bs, now, coins) = (length bs \<le> FRAME_SIZE_MAX)"
| "call_fits _ = True"

lemma host_step_ok:
  assumes wf: "endpoint_wf ep" and t: "timer_ok t ep" and c: "call_fits c"
  shows "\<exists>ep' t' out. host_step c ep t = Some (ep', t', out) \<and> endpoint_wf ep' \<and> timer_ok t' ep' \<and>
    ep_config ep' = ep_config ep \<and> conn_step (ep_state_id ep) (callbacks out) (ep_state_id ep') \<and> frames_fit out"
proof -
  obtain call now coins where call: "c = (call, now, coins)"
    by (cases c) auto
  show ?thesis
  proof (cases call)
    case (CallEnqueue packet mode)
    then show ?thesis
      using call endpoint_enqueue_ok [OF wf t, of packet mode now] by (simp add: op_ok_def)
  next
    case CallFlush
    then show ?thesis
      using call endpoint_flush_ok [OF wf t, of coins now] by (auto simp: op_ok_def)
  next
    case CallDisconnect
    then show ?thesis
      using call endpoint_disconnect_ok [OF wf t, of now] by (auto simp: op_ok_def)
  next
    case (CallFrame ft bs)
    then have "length bs \<le> FRAME_SIZE_MAX"
      using c call by simp
    then show ?thesis
      using CallFrame call endpoint_handle_frame_ok [OF wf t, of bs coins ft now] by (auto simp: op_ok_def)
  next
    case CallTimer
    show ?thesis
    proof (cases t)
      case None
      then show ?thesis
        using CallTimer call wf t by (simp add: conn_idle)
    next
      case (Some t0)
      then show ?thesis
        using CallTimer call endpoint_handle_rto_timer_ok [OF wf, of t0 coins now] t by (auto simp: op_ok_def)
    qed
  qed
qed

text \<open>The callbacks of a run are a sequence of steps of the life cycle.\<close>

inductive conn_steps :: "StateId \<Rightarrow> Effect list \<Rightarrow> StateId \<Rightarrow> bool" where
  conn_refl: "conn_steps s [] s"
| conn_next: "conn_step s xs s1 \<Longrightarrow> conn_steps s1 ys s2 \<Longrightarrow> conn_steps s (xs @ ys) s2"

lemma host_run_ok:
  "endpoint_wf ep \<Longrightarrow> timer_ok t ep \<Longrightarrow> \<forall>c \<in> set cs. call_fits c \<Longrightarrow>
     \<exists>ep' t' out. host_run cs ep t = Some (ep', t', out) \<and> endpoint_wf ep' \<and> timer_ok t' ep' \<and>
       ep_config ep' = ep_config ep \<and> conn_steps (ep_state_id ep) (callbacks out) (ep_state_id ep') \<and> frames_fit out"
proof (induction cs arbitrary: ep t)
  case (Cons c cs)
  have fits: "call_fits c" "\<forall>c \<in> set cs. call_fits c"
    using Cons.prems(3) by simp_all
  obtain ep1 t1 out1 where s: "host_step c ep t = Some (ep1, t1, out1)" "endpoint_wf ep1" "timer_ok t1 ep1"
      "ep_config ep1 = ep_config ep" "conn_step (ep_state_id ep) (callbacks out1) (ep_state_id ep1)" "frames_fit out1"
    using host_step_ok [OF Cons.prems(1,2) fits(1)] by blast
  obtain ep2 t2 out2 where r: "host_run cs ep1 t1 = Some (ep2, t2, out2)" "endpoint_wf ep2" "timer_ok t2 ep2"
      "ep_config ep2 = ep_config ep1" "conn_steps (ep_state_id ep1) (callbacks out2) (ep_state_id ep2)" "frames_fit out2"
    using Cons.IH [OF s(2,3) fits(2)] by blast
  have "host_run (c # cs) ep t = Some (ep2, t2, out1 @ out2)"
    using s(1) r(1) by simp
  moreover have "conn_steps (ep_state_id ep) (callbacks (out1 @ out2)) (ep_state_id ep2)"
    using conn_next [OF s(5) r(5)] by simp
  ultimately show ?case
    using s(4,6) r(2-4,6)
    by (intro exI [of _ ep2] exI [of _ t2] exI [of _ "out1 @ out2"]) simp
qed (simp add: conn_refl)

lemma host_start_ok:
  assumes "prio_Config_new ws burst = Some (ec_prio_config config)" and "\<forall>c \<in> set cs. call_fits c"
  shows "\<exists>ep t out. host_start config cs = Some (ep, t, OnConnect # out) \<and> endpoint_wf ep \<and> timer_ok t ep \<and>
    ep_config ep = config \<and> conn_steps Active (callbacks out) (ep_state_id ep) \<and> frames_fit out"
proof -
  obtain ep0 where ep0: "Endpoint_new config = Some ep0" "endpoint_wf ep0" "ep_state_id ep0 = PreInit"
      "ep_rto_timer_state ep0 = None" "ep_config ep0 = config"
    using Endpoint_new_wf [OF assms(1)] by blast
  have "timer_ok None ep0"
    using ep0 by (simp add: timer_ok_def)
  from endpoint_init_ok [OF ep0(2,3) this] have "endpoint_wf (ep0\<lparr>ep_state_id := Active\<rparr>)"
      "timer_ok None (ep0\<lparr>ep_state_id := Active\<rparr>)"
    by (simp_all add: op_ok_def endpoint_init_def)
  from host_run_ok [OF this assms(2)] show ?thesis
    using ep0 by (auto simp: host_start_def endpoint_init_def)
qed

lemma demo_prio: "prio_Config_new [1, 1, 1, 1] 10000 = Some \<lparr>pc_weights = [1, 1, 1, 1], pc_counter_max = 10000\<rparr>"
  by (simp add: prio_Config_new_def CHANNEL_COUNT_def WEIGHT_MAX_def BURST_SIZE_MAX_def DATA_SIZE_MAX_def Let_def)

definition demo_endpoint_config :: EndpointConfig where
  "demo_endpoint_config =
     \<lparr>ec_timeout_time_ms = 10000, ec_prio_config = \<lparr>pc_weights = [1, 1, 1, 1], pc_counter_max = 10000\<rparr>\<rparr>"

lemma demo_endpoint_prio: "prio_Config_new [1, 1, 1, 1] 10000 = Some (ec_prio_config demo_endpoint_config)"
  by (simp add: demo_prio demo_endpoint_config_def)

text \<open>Some calls a host could make, a forged acknowledgement and a stray segment among them.\<close>

definition demo_calls :: "TimedCall list" where
  "demo_calls =
     [(CallEnqueue [1, 2, 3] SendReliable, 5, \<lambda>k. even k), (CallFlush, 5, \<lambda>k. even k),
      (CallFrame StreamAckType [0xFF, 1, 2, 3, 4, 5, 6, 7, 8], 20, \<lambda>k. True),
      (CallFrame StreamSegment [1, 0, 0, 0, 0, 0, 0, 0, 0, 0, 0, 1, 7], 30, \<lambda>k. False),
      (CallTimer, 1006, \<lambda>k. True), (CallDisconnect, 2000, \<lambda>k. True), (CallFrame CloseAck [0, 0, 0, 0], 2100, \<lambda>k. True)]"

lemma demo_calls_fit: "\<forall>c \<in> set demo_calls. call_fits c"
  by (simp add: demo_calls_def FRAME_SIZE_MAX_def)

text \<open>
  C5: an endpoint is type safe: from its creation, no sequence of host calls, whatever
  frames arrive, makes it abort. Every component keeps its invariant, the timer of the host
  and the state behind it stay in step (so the timer never fires without one), and every
  frame sent fits the maximum frame size.
\<close>

theorem endpoint_type_safe:
  assumes "prio_Config_new ws burst = Some (ec_prio_config config)" and "\<forall>c \<in> set cs. call_fits c"
  shows "\<exists>ep t out. host_start config cs = Some (ep, t, out) \<and> endpoint_wf ep \<and> timer_ok t ep \<and> frames_fit out"
  using host_start_ok [OF assms] by fastforce

theorem endpoint_type_safe_witness:
  "\<exists>ep t out. host_start demo_endpoint_config demo_calls = Some (ep, t, out) \<and> endpoint_wf ep \<and>
     timer_ok t ep \<and> frames_fit out"
  using endpoint_type_safe [OF demo_endpoint_prio demo_calls_fit] .

section \<open>The order of callbacks\<close>

definition conn_open :: "StateId \<Rightarrow> bool" where
  "conn_open s \<longleftrightarrow> s = Active \<or> s = Closing"

lemma conn_steps_shut: "conn_steps s out s' \<Longrightarrow> s = Closed \<or> s = Zombie \<Longrightarrow> out = [] \<and> (s' = Closed \<or> s' = Zombie)"
  by (induction rule: conn_steps.induct) auto

lemma conn_steps_mono: "conn_steps s out s' \<Longrightarrow> s \<le> s'"
  by (induction rule: conn_steps.induct) (auto dest: conn_step_mono)

lemma conn_steps_zombie: "conn_steps s out s' \<Longrightarrow> s = Zombie \<Longrightarrow> s' = Zombie"
  using conn_steps_mono [of s out s'] by simp

lemma conn_steps_timeout:
  "conn_steps s out s' \<Longrightarrow> OnTimeout \<in> set out \<Longrightarrow> s' = Zombie"
proof (induction rule: conn_steps.induct)
  case (conn_next s xs s1 ys s2)
  then show ?case
    by (cases "OnTimeout \<in> set xs") (auto dest: conn_steps_zombie elim!: conn_stepE)
qed simp

lemma conn_steps_shape:
  "conn_steps s out s' \<Longrightarrow> conn_open s \<Longrightarrow>
     \<exists>ps fin. out = map OnReceive ps @ fin \<and> (fin = [] \<or> fin = [OnDisconnect] \<or> fin = [OnTimeout]) \<and>
       (fin = [] \<longleftrightarrow> conn_open s') \<and> (s = Closing \<longrightarrow> ps = []) \<and> (s' = Active \<longrightarrow> s = Active)"
proof (induction rule: conn_steps.induct)
  case (conn_refl s)
  then show ?case
    by (intro exI [of _ "[]"]) simp
next
  case (conn_next s xs s1 ys s2)
  show ?case
    using conn_next(1)
  proof cases
    case (conn_receive ps1)
    with conn_next obtain ps fin where "ys = map OnReceive ps @ fin"
        "fin = [] \<or> fin = [OnDisconnect] \<or> fin = [OnTimeout]" "(fin = []) = conn_open s2"
      by (auto simp: conn_open_def)
    with conn_receive show ?thesis
      by (intro exI [of _ "ps1 @ ps"] exI [of _ fin]) simp
  next
    case conn_closed
    with conn_steps_shut [OF conn_next(2)] conn_next(4) show ?thesis
      by (intro exI [of _ "[]"] exI [of _ "[OnDisconnect]"]) (auto simp: conn_open_def)
  next
    case conn_timeout
    with conn_steps_shut [OF conn_next(2)] conn_next(4) show ?thesis
      by (intro exI [of _ "[]"] exI [of _ "[OnTimeout]"]) (auto simp: conn_open_def)
  next
    case conn_disconnect
    with conn_next obtain ps fin where "ys = map OnReceive ps @ fin" "ps = []"
        "fin = [] \<or> fin = [OnDisconnect] \<or> fin = [OnTimeout]" "(fin = []) = conn_open s2" "s2 \<noteq> Active"
      by (auto simp: conn_open_def)
    with conn_disconnect show ?thesis
      by (intro exI [of _ "[]"] exI [of _ fin]) simp
  qed (use conn_next in \<open>auto simp: conn_open_def\<close>)
qed

text \<open>
  C14: the application sees one connect, then packets, then at most one end, a disconnect
  or a timeout, and nothing after it; the connection has ended for it exactly when the
  endpoint has left its active and closing states.
\<close>

theorem callback_order:
  assumes "prio_Config_new ws burst = Some (ec_prio_config config)" and "\<forall>c \<in> set cs. call_fits c"
  shows "\<exists>ep t out ps fin. host_start config cs = Some (ep, t, out) \<and>
    callbacks out = OnConnect # map OnReceive ps @ fin \<and> (fin = [] \<or> fin = [OnDisconnect] \<or> fin = [OnTimeout]) \<and>
    (fin = [] \<longleftrightarrow> conn_open (ep_state_id ep))"
proof -
  obtain ep t out where run: "host_start config cs = Some (ep, t, OnConnect # out)"
      "conn_steps Active (callbacks out) (ep_state_id ep)"
    using host_start_ok [OF assms] by blast
  from conn_steps_shape [OF run(2)] obtain ps fin where "callbacks out = map OnReceive ps @ fin"
      "fin = [] \<or> fin = [OnDisconnect] \<or> fin = [OnTimeout]" "(fin = []) = conn_open (ep_state_id ep)"
    by (auto simp: conn_open_def)
  with run(1) show ?thesis
    by (intro exI [of _ ep] exI [of _ t] exI [of _ "OnConnect # out"] exI [of _ ps] exI [of _ fin]) simp
qed

theorem callback_order_witness:
  "\<exists>ep t out ps fin. host_start demo_endpoint_config demo_calls = Some (ep, t, out) \<and>
    callbacks out = OnConnect # map OnReceive ps @ fin \<and> (fin = [] \<or> fin = [OnDisconnect] \<or> fin = [OnTimeout])"
  using callback_order [OF demo_endpoint_prio demo_calls_fit] by blast

section \<open>A silent peer\<close>

text \<open>What a firing does, in either open state, as the host sees it.\<close>

lemma timer_fires:
  assumes wf: "endpoint_wf ep" and t: "timer_ok (Some t0) ep" and st: "conn_open (ep_state_id ep)"
    and ts: "ep_rto_timer_state ep = Some ts"
  shows "if ec_timeout_time_ms (ep_config ep) \<le> rto_sum_next ts
    then \<exists>ep'. host_step (CallTimer, now, coins) ep (Some t0) = Some (ep', None, [OnTimeout]) \<and> ep_state_id ep' = Zombie
    else \<exists>ep' t' out ts'. host_step (CallTimer, now, coins) ep (Some t0) = Some (ep', Some t', out) \<and>
      endpoint_wf ep' \<and> timer_ok (Some t') ep' \<and> ep_config ep' = ep_config ep \<and> conn_open (ep_state_id ep') \<and>
      callbacks out = [] \<and> ep_rto_timer_state ep' = Some ts' \<and> rts_rto_sum_ms ts' = rto_sum_next ts \<and>
      RTO_MIN_MS \<le> rts_rto_ms ts' \<and> rts_rto_ms ts' \<le> RTO_MAX_MS"
proof -
  have fires: "if ec_timeout_time_ms (ep_config ep) \<le> rto_sum_next ts
    then \<exists>ep'. endpoint_handle_rto_timer coins now ep = Some (ep', Terminate, [OnTimeout]) \<and>
      op_ok None ep ep' [OnTimeout] \<and> ep_state_id ep' = Zombie
    else \<exists>ep' out. endpoint_handle_rto_timer coins now ep = Some (ep', Continue, out) \<and> op_ok None ep ep' out \<and>
      ep_state_id ep' = ep_state_id ep \<and> callbacks out = [] \<and>
      (\<exists>ts'. ep_rto_timer_state ep' = Some ts' \<and> rts_rto_sum_ms ts' = rto_sum_next ts \<and> RTO_MIN_MS \<le> rts_rto_ms ts' \<and>
        rts_rto_ms ts' \<le> RTO_MAX_MS)"
    using st rto_active [OF wf _ ts, of coins now] rto_closing [OF wf _ ts, of coins now]
    unfolding conn_open_def by (elim disjE) (simp_all cong: conj_cong)
  show ?thesis
  proof (cases "ec_timeout_time_ms (ep_config ep) \<le> rto_sum_next ts")
    case True
    then obtain ep' where "endpoint_handle_rto_timer coins now ep = Some (ep', Terminate, [OnTimeout])" "ep_state_id ep' = Zombie"
      using fires by auto
    with True show ?thesis
      by simp
  next
    case False
    then obtain ep' out ts' where f: "endpoint_handle_rto_timer coins now ep = Some (ep', Continue, out)" "op_ok None ep ep' out"
        "ep_state_id ep' = ep_state_id ep" "callbacks out = []" "ep_rto_timer_state ep' = Some ts'"
        "rts_rto_sum_ms ts' = rto_sum_next ts" "RTO_MIN_MS \<le> rts_rto_ms ts'" "rts_rto_ms ts' \<le> RTO_MAX_MS"
      using fires by auto
    then have "timer_ok (timer_after out None) ep'"
      by (simp add: op_ok_def)
    then obtain t' where "timer_after out None = Some t'"
      using f(3,5) st by (auto simp: timer_ok_def conn_open_def)
    with False f st show ?thesis
      by (intro if_not_P [THEN iffD2]) (auto simp: op_ok_def)
  qed
qed

lemma timer_call: "fst c = CallTimer \<Longrightarrow> \<exists>now coins. c = (CallTimer, now, coins)" for c :: TimedCall
  by (cases c) auto

lemma idle_calls:
  "\<forall>c \<in> set cs. fst c = CallTimer \<Longrightarrow> host_run cs ep None = Some (ep, None, [])"
  by (induction cs) (auto dest!: timer_call)

lemma silent_rounds:
  "endpoint_wf ep \<Longrightarrow> timer_ok (Some t0) ep \<Longrightarrow> conn_open (ep_state_id ep) \<Longrightarrow> ep_rto_timer_state ep = Some ts \<Longrightarrow>
   unat (ec_timeout_time_ms (ep_config ep)) + 60000 < 2 ^ 64 \<Longrightarrow> rts_rto_sum_ms ts < ec_timeout_time_ms (ep_config ep) \<Longrightarrow>
   RTO_MIN_MS \<le> rts_rto_ms ts \<Longrightarrow> rts_rto_ms ts \<le> RTO_MAX_MS \<Longrightarrow> \<forall>c \<in> set cs. fst c = CallTimer \<Longrightarrow>
   unat (ec_timeout_time_ms (ep_config ep)) \<le> unat (rts_rto_sum_ms ts) + 1000 * length cs \<Longrightarrow>
   \<exists>ep' out. host_run cs ep (Some t0) = Some (ep', None, out) \<and> ep_state_id ep' = Zombie \<and> callbacks out = [OnTimeout]"
proof (induction cs arbitrary: ep t0 ts)
  case Nil
  then show ?case
    by (simp add: word_less_nat_alt)
next
  case (Cons c cs)
  obtain now coins where c: "c = (CallTimer, now, coins)"
    using Cons.prems(9) timer_call by fastforce
  have sum: "unat (rto_sum_next ts) = unat (rts_rto_sum_ms ts) + unat (rts_rto_ms ts)" "1000 \<le> unat (rts_rto_ms ts)"
    using Cons.prems(5-8) by (auto simp: rto_sum_next_def unat_word_ariths word_less_nat_alt word_le_nat_alt
        RTO_MIN_MS_def RTO_MAX_MS_def)
  note fires = timer_fires [OF Cons.prems(1-4), of now coins]
  show ?case
  proof (cases "ec_timeout_time_ms (ep_config ep) \<le> rto_sum_next ts")
    case True
    then obtain ep' where "host_step c ep (Some t0) = Some (ep', None, [OnTimeout])" "ep_state_id ep' = Zombie"
      using fires c by auto
    then show ?thesis
      using Cons.prems(9) idle_calls [of cs ep'] by simp
  next
    case False
    obtain ep' t' out ts' where s: "host_step c ep (Some t0) = Some (ep', Some t', out)" "endpoint_wf ep'" "timer_ok (Some t') ep'"
        "ep_config ep' = ep_config ep" "conn_open (ep_state_id ep')" "callbacks out = []" "ep_rto_timer_state ep' = Some ts'"
        "rts_rto_sum_ms ts' = rto_sum_next ts" "RTO_MIN_MS \<le> rts_rto_ms ts'" "rts_rto_ms ts' \<le> RTO_MAX_MS"
      using fires False c by (simp only: if_False) blast
    have "\<exists>ep'' out'. host_run cs ep' (Some t') = Some (ep'', None, out') \<and> ep_state_id ep'' = Zombie \<and> callbacks out' = [OnTimeout]"
      using Cons.IH [OF s(2,3,5,7) _ _ s(9,10)] False Cons.prems(5,9,10) sum s(4,8) by (simp add: not_le)
    then show ?thesis
      using s(1,6) by fastforce
  qed
qed

text \<open>
  C13: a connection with data in flight, or one being closed, is given up after finitely many
  firings of its timer without an answer: \<^verbatim>\<open>timeout / 1000 + 1\<close> of them are enough, since a
  retransmission interval is at least \<^verbatim>\<open>RTO_MIN_MS\<close>, and the application is told once.
\<close>

theorem silent_peer_times_out:
  assumes wf: "endpoint_wf ep" and t: "timer_ok (Some t0) ep" and st: "conn_open (ep_state_id ep)"
    and limit: "unat (ec_timeout_time_ms (ep_config ep)) + 60000 < 2 ^ 64"
    and silent: "\<forall>c \<in> set cs. fst c = CallTimer"
    and enough: "unat (ec_timeout_time_ms (ep_config ep)) + 1000 \<le> 1000 * length cs"
  shows "\<exists>ep' out. host_run cs ep (Some t0) = Some (ep', None, out) \<and> ep_state_id ep' = Zombie \<and> callbacks out = [OnTimeout]"
proof -
  obtain ts where ts: "ep_rto_timer_state ep = Some ts"
    using t st by (auto simp: timer_ok_def conn_open_def)
  obtain now coins cs' where cs: "cs = (CallTimer, now, coins) # cs'"
    using enough silent by (cases cs) (auto dest: timer_call)
  note fires = timer_fires [OF wf t st ts, of now coins]
  show ?thesis
  proof (cases "ec_timeout_time_ms (ep_config ep) \<le> rto_sum_next ts")
    case True
    then obtain ep' where "host_step (CallTimer, now, coins) ep (Some t0) = Some (ep', None, [OnTimeout])" "ep_state_id ep' = Zombie"
      using fires by auto
    then show ?thesis
      using silent cs idle_calls [of cs' ep'] by (simp del: host_step.simps)
  next
    case False
    obtain ep' t' out ts' where s: "host_step (CallTimer, now, coins) ep (Some t0) = Some (ep', Some t', out)" "endpoint_wf ep'"
        "timer_ok (Some t') ep'" "ep_config ep' = ep_config ep" "conn_open (ep_state_id ep')" "callbacks out = []"
        "ep_rto_timer_state ep' = Some ts'" "rts_rto_sum_ms ts' = rto_sum_next ts" "RTO_MIN_MS \<le> rts_rto_ms ts'"
        "rts_rto_ms ts' \<le> RTO_MAX_MS"
      using fires False by (simp only: if_False) blast
    have "\<exists>ep'' out'. host_run cs' ep' (Some t') = Some (ep'', None, out') \<and> ep_state_id ep'' = Zombie \<and> callbacks out' = [OnTimeout]"
      using silent_rounds [OF s(2,3,5,7) _ _ s(9,10)] False limit silent enough cs s(4,8) by (simp add: not_le)
    then show ?thesis
      using s(1,6) cs by fastforce
  qed
qed

text \<open>An endpoint that has just been asked to disconnect, and never gets an answer.\<close>

lemma demo_closing:
  "\<exists>ep t0. endpoint_wf ep \<and> timer_ok (Some t0) ep \<and> ep_state_id ep = Closing \<and>
     ec_timeout_time_ms (ep_config ep) = 10000"
proof -
  obtain ep0 where ep0: "Endpoint_new demo_endpoint_config = Some ep0" "endpoint_wf ep0" "ep_state_id ep0 = PreInit"
      "ep_rto_timer_state ep0 = None" "ep_config ep0 = demo_endpoint_config"
    using Endpoint_new_wf [OF demo_endpoint_prio] by blast
  let ?ep = "ep0\<lparr>ep_state_id := Active\<rparr>"
  have "op_ok None ep0 ?ep [OnConnect]"
    using endpoint_init_ok [OF ep0(2,3), of None] ep0 by (simp add: timer_ok_def endpoint_init_def)
  then have wf: "endpoint_wf ?ep" "timer_ok None ?ep"
    by (simp_all add: op_ok_def)
  obtain ep1 out where ep1: "endpoint_disconnect 0 ?ep = Some (ep1, out)" "op_ok None ?ep ep1 out"
    using endpoint_disconnect_ok [OF wf, of 0] by blast
  have "ep_state_id ep1 = Closing"
    using ep1(1) by (auto simp: endpoint_disconnect_def enter_closing_def send_close_frame_def send_simple_frame_def
        Let_def bind_eq_Some_conv)
  moreover from this obtain t0 where "timer_after out None = Some t0"
    using ep1(2) by (auto simp: op_ok_def timer_ok_def)
  ultimately show ?thesis
    using ep1(2) ep0(5) by (intro exI [of _ ep1] exI [of _ t0]) (simp add: op_ok_def demo_endpoint_config_def)
qed

theorem silent_peer_times_out_witness:
  "\<exists>ep t0 ep' out. ep_state_id ep = Closing \<and>
     host_run (replicate 11 (CallTimer, 0, \<lambda>k. True)) ep (Some t0) = Some (ep', None, out) \<and>
     ep_state_id ep' = Zombie \<and> callbacks out = [OnTimeout]"
proof -
  obtain ep t0 where ep: "endpoint_wf ep" "timer_ok (Some t0) ep" "ep_state_id ep = Closing"
      "ec_timeout_time_ms (ep_config ep) = 10000"
    using demo_closing by blast
  then show ?thesis
    using silent_peer_times_out [OF ep(1,2), of "replicate 11 (CallTimer, 0, \<lambda>k. True)"] by (auto simp: conn_open_def)
qed

end
