(* ===== verification/Endpoint_Flow.thy ===== *)
theory Endpoint_Flow
  imports Endpoint_Props
begin

text \<open>
  The stream between two endpoints: how much one of them puts in flight, and what the other
  reads from the frames.
\<close>

section \<open>The amount of data in flight\<close>

text \<open>The largest amount of packet data a frame of \<^verbatim>\<open>FRAME_SIZE_MAX\<close> bytes has room for.\<close>

definition SEGMENT_DATA_MAX :: nat where
  "SEGMENT_DATA_MAX = FRAME_SIZE_MAX - FRAME_OVERHEAD_SIZE - STREAM_SEGMENT_HEADER_SIZE - DATAGRAM_HEADER_SIZE"

lemma frame_written_transit:
  assumes wf: "endpoint_wf ep" and room: "send_data \<Longrightarrow> stx_can_send (ep_segment_tx ep)"
    and w: "frame_written coin send_ack send_data ack_rel now ep ep' out"
  shows "stx_bytes_in_transit (ep_segment_tx ep') \<le>
    stx_bytes_in_transit (ep_segment_tx ep) + (if send_data then SEGMENT_DATA_MAX else 0)"
proof (cases send_data)
  case True
  obtain ack timers ep1 buf ds where f: "ep' = ep1\<lparr>ep_tx_buffer := buf\<rparr>" "segment_sent coin now ep ds ep1 timers"
      "length (stream_frame ack (Some (stx_next_id (ep_segment_tx ep), coin, ds))) \<le> FRAME_SIZE_MAX"
    using w True by (fastforce simp: frame_written_def)
  have "length (datagrams_enc ds) + 10 \<le> FRAME_SIZE_MAX"
    using f(3) by (auto simp: stream_frame_def segment_bytes_def split: option.splits)
  then have "datagrams_size ds \<le> SEGMENT_DATA_MAX"
    by (cases ds) (auto simp: length_datagrams_enc SEGMENT_DATA_MAX_def serial_consts FRAME_SIZE_MAX_def datagrams_size_def)
  then show ?thesis
    using segment_sent_wf(2) [OF wf room [OF True] f(2)] f(1) True by simp
next
  case False
  then have "ep_segment_tx ep' = ep_segment_tx ep"
    using w by (auto simp: frame_written_def)
  with False show ?thesis by simp
qed

lemma frame_written_cwnd:
  assumes "frame_written coin send_ack send_data ack_rel now ep ep' out"
  shows "ep_cc_state ep' = ep_cc_state ep"
  using frame_written_facts(1) [OF assms] by (simp add: same_conn_def)

text \<open>
  C19: a flush ends, without an abort, only when the segment window is full, the congestion
  window is used up or nothing is left to send; and what it puts in flight exceeds the
  congestion window by less than the data of one frame.
\<close>

theorem flush_fills_window:
  assumes wf: "endpoint_wf ep" and st: "ep_state_id ep = Active"
  shows "\<exists>ep' out. endpoint_flush coins now ep = Some (ep', out) \<and>
    (\<not> stx_can_send (ep_segment_tx ep') \<or>
     cc_cwnd (ep_cc_state ep) \<le> stx_bytes_in_transit (ep_segment_tx ep') \<or>
     ftb_next (ftb_pop_expired (ep_fragment_tx ep') now) = None) \<and>
    stx_bytes_in_transit (ep_segment_tx ep') \<le>
      max (stx_bytes_in_transit (ep_segment_tx ep)) (cc_cwnd (ep_cc_state ep) - 1 + SEGMENT_DATA_MAX)"
proof -
  let ?I = "\<lambda>ep' out. ep_cc_state ep' = ep_cc_state ep \<and> stx_bytes_in_transit (ep_segment_tx ep') \<le>
      max (stx_bytes_in_transit (ep_segment_tx ep)) (cc_cwnd (ep_cc_state ep) - 1 + SEGMENT_DATA_MAX)"
  have "\<exists>ep' out. flush_stream coins False False now ep = Some (ep', out) \<and> endpoint_wf ep' \<and>
      \<not> may_send now ep' \<and> ?I ep' out"
  proof (rule flush_stream_rule [OF wf, where I = ?I])
    fix coin send_ack ep1 ep2 and out1 out2 :: "Effect list"
    assume wf1: "endpoint_wf ep1" and I: "?I ep1 out1"
      and w: "frame_written coin send_ack (may_send now ep1) False now (ep_popped now ep1) ep2 out2"
    have same: "ep_segment_tx (ep_popped now ep1) = ep_segment_tx ep1" "ep_cc_state (ep_popped now ep1) = ep_cc_state ep1"
      by (simp_all add: ep_popped_def)
    have "may_send now ep1 \<Longrightarrow> stx_can_send (ep_segment_tx (ep_popped now ep1))"
      by (simp add: same may_send_def)
    from frame_written_transit [OF ep_popped_wf [OF wf1] this w] frame_written_cwnd [OF w] I same show "?I ep2 (out1 @ out2)"
      by (cases "may_send now ep1") (auto simp: may_send_def)
  qed (simp_all add: ep_popped_def)
  then show ?thesis
    using st by (auto simp: endpoint_flush_def may_send_def not_less)
qed

text \<open>An endpoint with a reliable packet in its queue.\<close>

definition demo_packet :: bytes where
  "demo_packet = [1, 2, 3]"

lemma Endpoint_new_parts:
  assumes "Endpoint_new config = Some ep"
  shows "SegmentTx_new 0 SEGMENT_WINDOW_SIZE = Some (ep_segment_tx ep)"
    "ftb_new 0 FRAGMENT_WINDOW_SIZE FRAGMENT_SIZE (ec_prio_config config) = Some (ep_fragment_tx ep)"
    "AimdReno_new FRAGMENT_SIZE = Some (ep_cc_state ep)"
  using assms by (auto simp: Endpoint_new_def bind_eq_Some_conv)

lemma demo_fragments:
  "map_option (\<lambda>ftb. ftb_next (ftb_pop_expired (ftb_enqueue ftb demo_packet SendReliable 0) 0) \<noteq> None)
     (ftb_new 0 FRAGMENT_WINDOW_SIZE FRAGMENT_SIZE (ec_prio_config demo_endpoint_config)) = Some True"
  by code_simp

definition demo_sender :: "Endpoint \<Rightarrow> Endpoint" where
  "demo_sender ep = endpoint_enqueue (fst (endpoint_init ep)) demo_packet SendReliable 0"

lemma demo_sender_ready:
  assumes new: "Endpoint_new demo_endpoint_config = Some ep0"
  shows "endpoint_wf (demo_sender ep0)" "ep_state_id (demo_sender ep0) = Active" "may_send 0 (demo_sender ep0)"
proof -
  note parts = Endpoint_new_parts [OF new]
  let ?ep = "demo_sender ep0"
  have "endpoint_wf ep0"
    using Endpoint_new_wf [OF demo_endpoint_prio] new by auto
  then have ep: "endpoint_wf ?ep" "ep_state_id ?ep = Active" "ep_cc_state ?ep = ep_cc_state ep0"
      "ep_segment_tx ?ep = ep_segment_tx ep0"
      "ep_fragment_tx ?ep = ftb_enqueue (ep_fragment_tx ep0) demo_packet SendReliable 0"
    by (simp_all add: demo_sender_def endpoint_enqueue_def endpoint_init_def endpoint_wf_def ftb_enqueue_inv)
  show "endpoint_wf ?ep" "ep_state_id ?ep = Active"
    by (rule ep)+
  have "stx_can_send (ep_segment_tx ep0)" "stx_bytes_in_transit (ep_segment_tx ep0) = 0"
    using parts(1) [symmetric]
    by (simp_all add: SegmentTx_new_def SEGMENT_WINDOW_SIZE_def stx_can_send_def stx_bytes_in_transit_def)
  moreover have "0 < cc_cwnd (ep_cc_state ep0)"
    using parts(3) [symmetric]
    by (simp add: AimdReno_new_def cc_cwnd_def FRAGMENT_SIZE_def INITIAL_CWND_MSS_def USIZE_MAX_def)
  ultimately show "may_send 0 ?ep"
    using demo_fragments parts(2) ep unfolding may_send_def by simp
qed

lemma demo_sending:
  "\<exists>ep. endpoint_wf ep \<and> ep_state_id ep = Active \<and> may_send 0 ep"
proof -
  obtain ep0 where "Endpoint_new demo_endpoint_config = Some ep0"
    using Endpoint_new_wf [OF demo_endpoint_prio] by blast
  from demo_sender_ready [OF this] show ?thesis
    by blast
qed

theorem flush_fills_window_witness:
  "\<exists>ep ep' out. may_send 0 ep \<and> endpoint_flush (\<lambda>k. True) 0 ep = Some (ep', out) \<and>
    (\<not> stx_can_send (ep_segment_tx ep') \<or>
     cc_cwnd (ep_cc_state ep) \<le> stx_bytes_in_transit (ep_segment_tx ep') \<or>
     ftb_next (ftb_pop_expired (ep_fragment_tx ep') 0) = None)"
proof -
  obtain ep where ep: "endpoint_wf ep" "ep_state_id ep = Active" "may_send 0 ep"
    using demo_sending by blast
  from flush_fills_window [OF ep(1,2), of "\<lambda>k. True" 0] ep(3) show ?thesis
    by blast
qed

section \<open>Frames between two endpoints\<close>

lemma receive_loop_datagrams:
  "\<forall>d \<in> set ds. length (dg_data d) \<le> FRAGMENT_SIZE \<Longrightarrow> drop (read_idx pr) (pr_buffer pr) = datagrams_enc ds \<Longrightarrow>
   read_idx pr \<le> length (pr_buffer pr) \<Longrightarrow> receive_loop pr dv = Some (fold receive_datagram ds dv)"
proof (induction ds arbitrary: pr dv)
  case Nil
  then have "PayloadReader_read Datagram_read pr = Some (None, pr)"
    by (simp add: PayloadReader_read_def datagrams_enc_def Datagram_read_def DATAGRAM_HEADER_SIZE_def)
  then show ?case
    by (subst receive_loop.simps) simp
next
  case (Cons d ds)
  let ?pr = "pr\<lparr>read_idx := read_idx pr + length (Datagram_enc d)\<rparr>"
  have d: "Datagram_valid d" "drop (read_idx pr) (pr_buffer pr) = Datagram_enc d @ datagrams_enc ds"
    using Cons.prems(1,2) by (simp_all add: Datagram_valid_def FRAGMENT_SIZE_def DATAGRAM_DATA_SIZE_MAX_def datagrams_enc_def)
  note read = datagram.PayloadReader_read_enc [OF d Cons.prems(3)]
  have "length (Datagram_enc d) \<le> length (drop (read_idx pr) (pr_buffer pr))"
    unfolding d(2) by simp
  then have "read_idx ?pr \<le> length (pr_buffer ?pr)"
    using Cons.prems(3) by simp
  moreover have "drop (read_idx ?pr) (pr_buffer ?pr) = drop (length (Datagram_enc d)) (drop (read_idx pr) (pr_buffer pr))"
    by (simp add: add.commute)
  then have "drop (read_idx ?pr) (pr_buffer ?pr) = datagrams_enc ds"
    unfolding d(2) by simp
  ultimately have "receive_loop ?pr (receive_datagram d dv) = Some (fold receive_datagram ds (receive_datagram d dv))"
    using Cons.IH Cons.prems(1) by simp
  with read show ?case
    by (subst receive_loop.simps) simp
qed

lemma receive_segment_datagrams:
  "\<forall>d \<in> set ds. length (dg_data d) \<le> FRAGMENT_SIZE \<Longrightarrow>
     receive_segment_bytes (datagrams_enc ds) dv = Some (fold receive_datagram ds dv)"
  by (simp add: receive_segment_bytes_def receive_loop_datagrams)

text \<open>
  Specification of the receiving side: what an active endpoint does with an acknowledgement
  and a segment, given as values and not as bytes.
\<close>

definition handle_segment :: "u32 \<Rightarrow> bool \<Rightarrow> bytes \<Rightarrow> Endpoint \<Rightarrow> (Endpoint \<times> bool \<times> bool \<times> Effect list) rust" where
  "handle_segment i nonce data ep = do {
     (segment_rx, segments, _) \<leftarrow> segment_rx_receive (ep_segment_rx ep) i nonce data;
     dv \<leftarrow> receive_segments segments (delivery_start ep);
     Some (delivery_store dv (ep\<lparr>ep_segment_rx := segment_rx\<rparr>), dv_send_ack dv, dv_ack_rel dv,
           map OnReceive (dv_packets dv)) }"

definition handle_stream_values ::
    "(nat \<Rightarrow> bool) \<Rightarrow> StreamAck option \<Rightarrow> u32 \<Rightarrow> bool \<Rightarrow> bytes \<Rightarrow> u64 \<Rightarrow> Endpoint \<Rightarrow> (Endpoint \<times> Effect list) rust" where
  "handle_stream_values coins ack i nonce data now ep = do {
     (ep, out_ack) \<leftarrow> (case ack of Some a \<Rightarrow> handle_stream_ack a now ep | None \<Rightarrow> Some (ep, []));
     (ep, send_ack, ack_rel, out_data) \<leftarrow> handle_segment i nonce data ep;
     (ep, out) \<leftarrow> flush_stream coins send_ack ack_rel now ep;
     Some (ep, out_ack @ out_data @ out) }"

lemma handle_stream_data_enc:
  assumes "drop (read_idx pr) (pr_buffer pr) = StreamSegmentHeader_enc \<lparr>ssh_id = i, ssh_nonce = nonce\<rparr> @ data"
    and "read_idx pr \<le> length (pr_buffer pr)"
  shows "handle_stream_data pr ep = handle_segment i nonce data ep"
proof -
  have "drop (read_idx pr + 5) (pr_buffer pr) = drop 5 (drop (read_idx pr) (pr_buffer pr))"
    by (simp add: add.commute)
  then have "drop (read_idx pr + 5) (pr_buffer pr) = data"
    unfolding assms(1) by simp
  then show ?thesis
    using stream_segment_header.PayloadReader_read_enc [OF _ assms]
    by (simp add: handle_stream_data_def handle_segment_def remaining_bytes_def)
qed

lemma handle_stream_frame_enc:
  assumes ft: "stream_frame_type (ack \<noteq> None) True = Some ft" and ack: "\<forall>a. ack = Some a \<longrightarrow> StreamAck_valid a"
  shows "handle_stream_frame coins ft ((case ack of Some a \<Rightarrow> StreamAck_enc a | None \<Rightarrow> []) @ segment_bytes i nonce ds) now ep =
    handle_stream_values coins ack i nonce (datagrams_enc ds) now ep"
proof (cases ack)
  case None
  let ?pr = "PayloadReader_new (segment_bytes i nonce ds)"
  have "handle_stream_data ?pr ep = handle_segment i nonce (datagrams_enc ds) ep"
    by (rule handle_stream_data_enc) (simp_all add: segment_bytes_def)
  then show ?thesis
    using ft None by (auto simp: stream_frame_type_def handle_stream_frame_def handle_stream_values_def)
next
  case (Some a)
  let ?bs = "StreamAck_enc a @ segment_bytes i nonce ds"
  let ?pr = "(PayloadReader_new ?bs)\<lparr>read_idx := 9\<rparr>"
  have data: "handle_stream_data ?pr ep1 = handle_segment i nonce (datagrams_enc ds) ep1" for ep1
    by (rule handle_stream_data_enc) (simp_all add: segment_bytes_def)
  have "PayloadReader_read (Serial_read STREAM_ACK_SIZE StreamAck_read) (PayloadReader_new ?bs) = Some (Some a, ?pr)"
    using stream_ack.PayloadReader_read_enc [of a "PayloadReader_new ?bs" "segment_bytes i nonce ds"] ack Some by simp
  then show ?thesis
    using ft Some data by (auto simp: stream_frame_type_def handle_stream_frame_def handle_stream_values_def)
qed

lemma ftb_flushed_popped:
  assumes "ftb_flushed now (ftb_pop_expired ftb now) ftb' ds"
  shows "ftb_flushed now ftb ftb' ds"
proof -
  obtain ops tr where "set ops \<subseteq> {UPop, UPopExpired now}"
      "unrel_tx_run ops (ftb_unrel (ftb_pop_expired ftb now)) = (ftb_unrel ftb', tr)"
      "filter dg_unrel ds = map (as_datagram True) tr"
    using assms by (auto simp: ftb_flushed_def)
  moreover obtain k tr' where "rel_pops k (ftb_rel ftb) = (ftb_rel ftb', tr')"
      "filter (\<lambda>d. \<not> dg_unrel d) ds = map (as_datagram False) tr'"
    using assms by (auto simp: ftb_flushed_def ftb_pop_expired_def)
  ultimately show ?thesis
    unfolding ftb_flushed_def
    by (intro conjI exI [of _ "UPopExpired now # ops"] exI [of _ tr] exI [of _ k] exI [of _ tr'])
      (simp_all add: ftb_pop_expired_def)
qed

text \<open>A sending round writes a frame that the other side reads back.\<close>

lemma sending_round:
  assumes wf: "endpoint_wf ep" and send: "may_send now ep" and rcv: "ep_state_id rcv = Active"
  shows "\<exists>ep' timers frame ft bs ds.
    flush_round coin send_ack ack_rel now ep = Some (ep', Some (timers @ [SendFrame frame], True)) \<and> endpoint_wf ep' \<and>
    ftb_flushed now (ep_fragment_tx ep) (ep_fragment_tx ep') ds \<and> ds \<noteq> [] \<and>
    verify_minimum_size frame \<and> verify_crc frame = Some True \<and> read_type frame = Some (Some ft) \<and> payload frame = Some bs \<and>
    endpoint_handle_frame coins ft bs now' rcv =
      handle_stream_values coins (if send_ack then Some (next_stream_ack ep ack_rel) else None)
        (stx_next_id (ep_segment_tx ep)) coin (datagrams_enc ds) now' rcv \<and>
    receive_segment_bytes (datagrams_enc ds) dv = Some (fold receive_datagram ds dv)"
proof -
  let ?ack = "if send_ack then Some (next_stream_ack ep ack_rel) else None" and ?i = "stx_next_id (ep_segment_tx ep)"
  obtain ep' out where round: "flush_round coin send_ack ack_rel now ep = Some (ep', Some (out, True))"
      "frame_written coin send_ack True ack_rel now (ep_popped now ep) ep' out" "endpoint_wf ep'"
    using flush_round_exact [OF wf, of send_ack now coin ack_rel] send by auto
  have pop: "next_stream_ack (ep_popped now ep) ack_rel = next_stream_ack ep ack_rel"
      "stx_next_id (ep_segment_tx (ep_popped now ep)) = ?i"
    by (simp_all add: ep_popped_def next_stream_ack_def)
  obtain timers ep1 buf ds where w: "out = timers @ [SendFrame (stream_frame ?ack (Some (?i, coin, ds)))]"
      "segment_sent coin now (ep_popped now ep) ds ep1 timers" "ep' = ep1\<lparr>ep_tx_buffer := buf\<rparr>"
      "ds = [] \<longrightarrow> ftb_next (ftb_pop_expired (ep_fragment_tx (ep_popped now ep)) now) = None"
    using round(2) unfolding frame_written_def pop if_True by blast
  have "ds \<noteq> []"
    using w(4) send by (auto simp: may_send_def ep_popped_def ftb_pop_expired_idem)
  have ds: "\<forall>d \<in> set ds. length (dg_data d) \<le> FRAGMENT_SIZE"
    using w(2) by (simp add: segment_sent_def)
  obtain tx ftb where arm: "(ep1, timers) = arm_timers ((ep_popped now ep)\<lparr>ep_segment_tx := tx, ep_fragment_tx := ftb\<rparr>)
        (stx_next_id (ep_segment_tx (ep_popped now ep))) now" "ftb_flushed now (ep_fragment_tx (ep_popped now ep)) ftb ds"
    using w(2) by (auto simp: segment_sent_def)
  have "ep_fragment_tx ep1 = ftb"
    using arg_cong [OF arm(1), of "ep_fragment_tx \<circ> fst"] by simp
  then have flushed: "ftb_flushed now (ep_fragment_tx ep) (ep_fragment_tx ep') ds"
    using arm(2) w(3) by (simp add: ep_popped_def ftb_flushed_popped)
  obtain ft where ft: "stream_frame_type (?ack \<noteq> None) True = Some ft"
    by (cases send_ack) (auto simp: stream_frame_type_def)
  let ?bs = "(case ?ack of Some a \<Rightarrow> StreamAck_enc a | None \<Rightarrow> []) @ segment_bytes ?i coin ds"
  have frame: "stream_frame ?ack (Some (?i, coin, ds)) = finished_frame (frame_type_bits ft # ?bs)"
    using ft by (simp add: stream_frame_def)
  have "ft \<in> {StreamSegment, StreamAckType, StreamSegmentAck}"
    using ft by (auto simp: stream_frame_type_def split: if_splits)
  then have "endpoint_handle_frame coins ft ?bs now' rcv = handle_stream_frame coins ft ?bs now' rcv"
    using rcv by (simp add: endpoint_handle_frame_def)
  also have "\<dots> = handle_stream_values coins ?ack ?i coin (datagrams_enc ds) now' rcv"
    by (rule handle_stream_frame_enc [OF ft]) (simp add: next_stream_ack_valid)
  finally have "endpoint_handle_frame coins ft ?bs now' rcv = handle_stream_values coins ?ack ?i coin (datagrams_enc ds) now' rcv" .
  moreover have "verify_minimum_size (finished_frame (frame_type_bits ft # ?bs))"
    by (simp add: verify_minimum_size_def serial_consts)
  moreover note receive_segment_datagrams [OF ds, of dv] \<open>ds \<noteq> []\<close> flushed round(3)
  moreover have "flush_round coin send_ack ack_rel now ep =
      Some (ep', Some (timers @ [SendFrame (finished_frame (frame_type_bits ft # ?bs))], True))"
    using round(1) w(1) frame by simp
  ultimately show ?thesis
    using finished_frame_checks(1) [of "frame_type_bits ft # ?bs"] finished_frame_checks(2,3) [of "frame_type_bits ft" ?bs]
    by (intro exI [of _ ep'] exI [of _ timers] exI [of _ "finished_frame (frame_type_bits ft # ?bs)"] exI [of _ ft]
        exI [of _ ?bs] exI [of _ ds]) simp
qed

text \<open>
  C10: the frame a sending round writes is accepted by the other side and understood as the
  values it was written from: the acknowledgement, the segment identifier and nonce, and a
  segment that reads back, datagram by datagram, as the fragments just taken off the send
  queues; at least one fragment is in it.
\<close>

theorem stream_frame_understood:
  assumes wf: "endpoint_wf ep" and send: "may_send now ep" and rcv: "ep_state_id rcv = Active"
  shows "\<exists>ep' timers frame ft bs ds.
    flush_round coin send_ack ack_rel now ep = Some (ep', Some (timers @ [SendFrame frame], True)) \<and>
    ftb_flushed now (ep_fragment_tx ep) (ep_fragment_tx ep') ds \<and> ds \<noteq> [] \<and>
    verify_minimum_size frame \<and> verify_crc frame = Some True \<and> read_type frame = Some (Some ft) \<and> payload frame = Some bs \<and>
    endpoint_handle_frame coins ft bs now' rcv =
      handle_stream_values coins (if send_ack then Some (next_stream_ack ep ack_rel) else None)
        (stx_next_id (ep_segment_tx ep)) coin (datagrams_enc ds) now' rcv \<and>
    receive_segment_bytes (datagrams_enc ds) dv = Some (fold receive_datagram ds dv)"
  using sending_round [OF assms] by metis

theorem stream_frame_understood_witness:
  "\<exists>ep ep' timers frame ft bs ds.
    flush_round True False False 0 ep = Some (ep', Some (timers @ [SendFrame frame], True)) \<and> ds \<noteq> [] \<and>
    verify_crc frame = Some True \<and> read_type frame = Some (Some ft) \<and> payload frame = Some bs \<and>
    endpoint_handle_frame (\<lambda>k. True) ft bs 5 ep =
      handle_stream_values (\<lambda>k. True) None (stx_next_id (ep_segment_tx ep)) True (datagrams_enc ds) 5 ep"
proof -
  obtain ep where ep: "endpoint_wf ep" "ep_state_id ep = Active" "may_send 0 ep"
    using demo_sending by blast
  from stream_frame_understood [OF ep(1,3,2), of True False False "\<lambda>k. True" 5 "delivery_start ep"] show ?thesis
    unfolding if_False by blast
qed

end
