(* ===== verification/Socket.thy ===== *)
theory Socket
  imports Redpine_Prelude
begin

text \<open>
  The sockets (\<^verbatim>\<open>src/socket.rs\<close>) and the clock (\<^verbatim>\<open>src/server/epoch.rs\<close>) of the two hosts.
  What the operating system does is an input: the answers of a non-blocking socket to
  successive reads are a list, which ends with "would block"; every other call (binding,
  polling, reading an address) has its result as an argument. Reading copies a datagram
  into the receive buffer, as much of it as fits.
\<close>

section \<open>Results of system calls\<close>

datatype IoErrorKind = WouldBlock | OtherError nat

type_synonym 'a io_result = "IoErrorKind + 'a"

text \<open>The question mark operator of the source.\<close>

fun io_bind :: "'a io_result \<Rightarrow> ('a \<Rightarrow> 'b io_result) \<Rightarrow> 'b io_result" where
  "io_bind (Inl e) f = Inl e"
| "io_bind (Inr x) f = f x"

lemma io_bind_Inr [simp]: "io_bind r f = Inr y \<longleftrightarrow> (\<exists>x. r = Inr x \<and> f x = Inr y)"
  by (cases r) simp_all

text \<open>\<^verbatim>\<open>SocketAddr\<close>: the octets and the port, and for version 6 flow information and scope.\<close>

datatype SocketAddr =
    V4 bytes u16
  | V6 bytes u16 u32 u32

section \<open>The operating system\<close>

text \<open>The next answer of a socket, and a datagram copied into a buffer.\<close>

fun os_answer :: "'a io_result list \<Rightarrow> 'a io_result list \<times> 'a io_result" where
  "os_answer [] = ([], Inl WouldBlock)"
| "os_answer (a # as) = (as, a)"

definition recv_into :: "bytes \<Rightarrow> bytes \<Rightarrow> bytes \<times> nat" where
  "recv_into buffer datagram =
     (take (length buffer) datagram @ drop (length datagram) buffer, min (length datagram) (length buffer))"

lemma recv_into_simps [simp]:
  "length (fst (recv_into buffer datagram)) = length buffer"
  "take (snd (recv_into buffer datagram)) (fst (recv_into buffer datagram)) = take (length buffer) datagram"
  by (simp_all add: recv_into_def min_def)

text \<open>What the calls that create a socket, and a wait for it, return.\<close>

record SocketOs =
  os_bind :: "unit io_result"
  os_set_nonblocking :: "unit io_result"
  os_connect :: "unit io_result"
  os_local_addr :: "SocketAddr io_result"
  os_peer_addr :: "SocketAddr io_result"
  os_poller_new :: "unit io_result"
  os_poller_add :: "unit io_result"

record PollOutcome =
  po_modify :: "unit io_result"
  po_wait :: "nat io_result"

section \<open>The socket of a server\<close>

record SocketRx =
  rxs_local_addr :: SocketAddr
  rxs_recv_buffer :: bytes

definition try_read_frame ::
    "(bytes \<times> SocketAddr) io_result list \<Rightarrow> SocketRx \<Rightarrow>
      (bytes \<times> SocketAddr) io_result list \<times> SocketRx \<times> (bytes \<times> SocketAddr) option io_result" where
  "try_read_frame answers rx =
     (case os_answer answers of
        (answers, Inr (datagram, sender_addr)) \<Rightarrow>
          (case recv_into (rxs_recv_buffer rx) datagram of
             (recv_buffer, frame_len) \<Rightarrow>
               let frame_bytes = take frame_len recv_buffer
               in (answers, rx\<lparr>rxs_recv_buffer := recv_buffer\<rparr>, Inr (Some (frame_bytes, sender_addr))))
      | (answers, Inl err) \<Rightarrow> (answers, rx, if err = WouldBlock then Inr None else Inl err))"

definition wait_for_frame ::
    "PollOutcome \<Rightarrow> (bytes \<times> SocketAddr) io_result list \<Rightarrow> SocketRx \<Rightarrow>
      (bytes \<times> SocketAddr) io_result list \<times> SocketRx \<times> (bytes \<times> SocketAddr) option io_result" where
  "wait_for_frame poll answers rx =
     (case io_bind (po_modify poll) (\<lambda>_. po_wait poll) of
        Inl err \<Rightarrow> (answers, rx, Inl err)
      | Inr n \<Rightarrow> if n > 0 then try_read_frame answers rx else (answers, rx, Inr None))"

definition socket_local_addr :: "SocketRx \<Rightarrow> SocketAddr" where
  "socket_local_addr rx = rxs_local_addr rx"

definition socket_new :: "SocketOs \<Rightarrow> nat \<Rightarrow> SocketRx io_result" where
  "socket_new os frame_size_max =
     io_bind (os_bind os) (\<lambda>_.
     io_bind (os_set_nonblocking os) (\<lambda>_.
     io_bind (os_local_addr os) (\<lambda>local_addr.
     io_bind (os_poller_new os) (\<lambda>_.
     io_bind (os_poller_add os) (\<lambda>_.
     Inr \<lparr>rxs_local_addr = local_addr, rxs_recv_buffer = replicate frame_size_max 0\<rparr>)))))"

section \<open>The socket of a client\<close>

record ConnectedSocketRx =
  crx_local_addr :: SocketAddr
  crx_peer_addr :: SocketAddr
  crx_recv_buffer :: bytes

definition connected_try_read_frame ::
    "bytes io_result list \<Rightarrow> ConnectedSocketRx \<Rightarrow> bytes io_result list \<times> ConnectedSocketRx \<times> bytes option io_result" where
  "connected_try_read_frame answers rx =
     (case os_answer answers of
        (answers, Inr datagram) \<Rightarrow>
          (case recv_into (crx_recv_buffer rx) datagram of
             (recv_buffer, frame_len) \<Rightarrow>
               let frame_bytes = take frame_len recv_buffer
               in (answers, rx\<lparr>crx_recv_buffer := recv_buffer\<rparr>, Inr (Some frame_bytes)))
      | (answers, Inl err) \<Rightarrow> (answers, rx, if err = WouldBlock then Inr None else Inl err))"

definition connected_wait_for_frame ::
    "PollOutcome \<Rightarrow> bytes io_result list \<Rightarrow> ConnectedSocketRx \<Rightarrow>
      bytes io_result list \<times> ConnectedSocketRx \<times> bytes option io_result" where
  "connected_wait_for_frame poll answers rx =
     (case io_bind (po_modify poll) (\<lambda>_. po_wait poll) of
        Inl err \<Rightarrow> (answers, rx, Inl err)
      | Inr n \<Rightarrow> if n > 0 then connected_try_read_frame answers rx else (answers, rx, Inr None))"

definition connected_local_addr :: "ConnectedSocketRx \<Rightarrow> SocketAddr" where
  "connected_local_addr rx = crx_local_addr rx"

definition connected_peer_addr :: "ConnectedSocketRx \<Rightarrow> SocketAddr" where
  "connected_peer_addr rx = crx_peer_addr rx"

definition socket_new_connected :: "SocketOs \<Rightarrow> nat \<Rightarrow> ConnectedSocketRx io_result" where
  "socket_new_connected os frame_size_max =
     io_bind (os_bind os) (\<lambda>_.
     io_bind (os_set_nonblocking os) (\<lambda>_.
     io_bind (os_connect os) (\<lambda>_.
     io_bind (os_local_addr os) (\<lambda>local_addr.
     io_bind (os_peer_addr os) (\<lambda>peer_addr.
     io_bind (os_poller_new os) (\<lambda>_.
     io_bind (os_poller_add os) (\<lambda>_.
     Inr \<lparr>crx_local_addr = local_addr, crx_peer_addr = peer_addr, crx_recv_buffer = replicate frame_size_max 0\<rparr>)))))))"

section \<open>What the hosts rely on\<close>

text \<open>The datagrams before the first answer that is none: those a reading loop gets to see.\<close>

fun datagrams :: "'d io_result list \<Rightarrow> 'd list" where
  "datagrams [] = []"
| "datagrams (Inr d # as) = d # datagrams as"
| "datagrams (Inl e # as) = []"

text \<open>
  A source of frames: a datagram is read as the frame that is left of it (\<open>cut\<close>) in a buffer
  whose size (\<open>room\<close>) never changes.
\<close>

locale frame_source =
  fixes read :: "'d io_result list \<Rightarrow> 'rx \<Rightarrow> 'd io_result list \<times> 'rx \<times> 'd option io_result"
    and room :: "'rx \<Rightarrow> nat"
    and cut :: "nat \<Rightarrow> 'd \<Rightarrow> 'd"
  assumes read_frame: "\<exists>rx'. room rx' = room rx \<and> read (Inr d # as) rx = (as, rx', Inr (Some (cut (room rx) d)))"
    and read_error: "read (Inl e # as) rx = (as, rx, if e = WouldBlock then Inr None else Inl e)"
    and read_none: "read [] rx = ([], rx, Inr None)"
begin

lemma read_step:
  "case datagrams as of
     [] \<Rightarrow> \<exists>as' r. read as rx = (as', rx, r) \<and> (\<forall>f. r \<noteq> Inr (Some f))
   | d # ds \<Rightarrow> \<exists>as' rx'. read as rx = (as', rx', Inr (Some (cut (room rx) d))) \<and> room rx' = room rx \<and> datagrams as' = ds"
proof (cases as rule: datagrams.cases)
  case (2 d as')
  with read_frame [of rx d as'] show ?thesis
    by auto
qed (auto simp: read_none read_error)

lemma read_shrinks:
  assumes "read as rx = (as', rx', Inr (Some f))"
  shows "length as' < length as"
proof (cases as rule: datagrams.cases)
  case (2 d bs)
  with read_frame [of rx d bs] assms show ?thesis
    by auto
qed (use assms in \<open>auto simp: read_none read_error split: if_splits\<close>)

end

interpretation server_socket: frame_source try_read_frame "\<lambda>rx. length (rxs_recv_buffer rx)" "\<lambda>n (d, addr). (take n d, addr)"
proof
  fix rx :: SocketRx and d :: "bytes \<times> SocketAddr" and as
  show "\<exists>rx'. length (rxs_recv_buffer rx') = length (rxs_recv_buffer rx) \<and>
      try_read_frame (Inr d # as) rx =
        (as, rx', Inr (Some ((\<lambda>n (d, addr). (take n d, addr)) (length (rxs_recv_buffer rx)) d)))"
    using recv_into_simps [of "rxs_recv_buffer rx" "fst d"]
    by (intro exI [of _ "rx\<lparr>rxs_recv_buffer := fst (recv_into (rxs_recv_buffer rx) (fst d))\<rparr>"])
      (cases d, simp add: try_read_frame_def case_prod_beta Let_def)
qed (simp_all add: try_read_frame_def)

interpretation client_socket: frame_source connected_try_read_frame "\<lambda>rx. length (crx_recv_buffer rx)" take
proof
  fix rx :: ConnectedSocketRx and d :: bytes and as
  show "\<exists>rx'. length (crx_recv_buffer rx') = length (crx_recv_buffer rx) \<and>
      connected_try_read_frame (Inr d # as) rx = (as, rx', Inr (Some (take (length (crx_recv_buffer rx)) d)))"
    using recv_into_simps [of "crx_recv_buffer rx" d]
    by (intro exI [of _ "rx\<lparr>crx_recv_buffer := fst (recv_into (crx_recv_buffer rx) d)\<rparr>"])
      (simp add: connected_try_read_frame_def case_prod_beta Let_def)
qed (simp_all add: connected_try_read_frame_def)

section \<open>The clock\<close>

text \<open>
  An \<^verbatim>\<open>Instant\<close> is a number of nanoseconds. The time elapsed since an instant is zero when
  the instant lies in the future; the milliseconds are truncated to 64 bits.
\<close>

type_synonym Instant = nat

record Epoch =
  epoch_time_base :: Instant

definition Epoch_new :: "Instant \<Rightarrow> Epoch" where
  "Epoch_new now = \<lparr>epoch_time_base = now\<rparr>"

definition time_now_ms :: "Epoch \<Rightarrow> Instant \<Rightarrow> u64" where
  "time_now_ms epoch now = word_of_nat ((now - epoch_time_base epoch) div 1000000)"

lemma time_now_ms_mono:
  assumes "now \<le> now'" and "now' < epoch_time_base epoch + 2 ^ 64 * 1000000"
  shows "time_now_ms epoch now \<le> time_now_ms epoch now'"
proof -
  let ?t = "\<lambda>now. (now - epoch_time_base epoch) div 1000000"
  have "?t now \<le> ?t now'"
    using assms(1) by (intro div_le_mono) simp
  moreover have "?t now' < 2 ^ 64"
    using assms(2) by (simp add: less_mult_imp_div_less)
  ultimately show ?thesis
    by (simp add: time_now_ms_def word_le_nat_alt unat_of_nat)
qed

section \<open>A system on which every call succeeds\<close>

definition demo_os :: SocketOs where
  "demo_os = \<lparr>os_bind = Inr (), os_set_nonblocking = Inr (), os_connect = Inr (), os_local_addr = Inr (V4 [127, 0, 0, 1] 8888),
     os_peer_addr = Inr (V4 [127, 0, 0, 1] 8889), os_poller_new = Inr (), os_poller_add = Inr ()\<rparr>"

lemma demo_os_ok:
  "socket_new demo_os n = Inr \<lparr>rxs_local_addr = V4 [127, 0, 0, 1] 8888, rxs_recv_buffer = replicate n 0\<rparr>"
  "socket_new_connected demo_os n = Inr \<lparr>crx_local_addr = V4 [127, 0, 0, 1] 8888, crx_peer_addr = V4 [127, 0, 0, 1] 8889,
     crx_recv_buffer = replicate n 0\<rparr>"
  by (simp_all add: socket_new_def socket_new_connected_def demo_os_def)

end
