(* ===== verification/Host.thy ===== *)
theory Host
  imports Endpoint_Props Socket "HOL-Library.AList"
begin

text \<open>
  What both hosts share: the errors they report (\<^verbatim>\<open>src/lib.rs\<close>), and facts about an
  endpoint's operations that the hosts rely on.
\<close>

datatype ErrorKind = Timeout | Capacity | Parameter

definition connection_params_compatible :: "ConnectionParams \<Rightarrow> ConnectionParams \<Rightarrow> bool" where
  "connection_params_compatible a b \<longleftrightarrow>
     packet_size_in_max a \<ge> packet_size_out_max b \<and> packet_size_in_max b \<ge> packet_size_out_max a"

text \<open>The time left to a waiting call after a round.\<close>

lemma time_left:
  fixes elapsed :: "nat \<Rightarrow> nat"
  assumes "remaining \<le> sum elapsed {k..<k + Suc fuel}"
  shows "remaining - elapsed k \<le> sum elapsed {Suc k..<Suc k + fuel}" "elapsed k < remaining \<Longrightarrow> 0 < fuel"
proof -
  have "remaining \<le> elapsed k + sum elapsed {Suc k..<Suc k + fuel}"
    using assms sum.atLeast_Suc_lessThan [of k "k + Suc fuel" elapsed] by simp
  then show "remaining - elapsed k \<le> sum elapsed {Suc k..<Suc k + fuel}" "elapsed k < remaining \<Longrightarrow> 0 < fuel"
    by (auto intro: gr0I)
qed

section \<open>Termination of an endpoint\<close>

text \<open>
  An endpoint becomes a zombie in a firing of its timer that asks for termination, and in no
  other way; as a zombie it does nothing.
\<close>

lemma handle_rto_timer_terminates:
  assumes wf: "endpoint_wf ep" and t: "timer_ok (Some t0) ep"
    and r: "endpoint_handle_rto_timer coins now ep = Some (ep', act, out)" and alive: "ep_state_id ep \<noteq> Zombie"
  shows "act = Terminate \<longleftrightarrow> ep_state_id ep' = Zombie" "act = Terminate \<Longrightarrow> timer_after out None = None"
proof -
  have "(act = Terminate \<longleftrightarrow> ep_state_id ep' = Zombie) \<and> (act = Terminate \<longrightarrow> timer_after out None = None)"
  proof (cases "ep_state_id ep")
    case Active
    then obtain ts where "ep_rto_timer_state ep = Some ts"
      using t by (auto simp: timer_ok_def)
    from rto_active [OF wf Active this, of coins now] r show ?thesis
      by (auto split: if_splits)
  next
    case Closing
    then obtain ts where "ep_rto_timer_state ep = Some ts"
      using t by (auto simp: timer_ok_def)
    from rto_closing [OF wf Closing this, of coins now] r show ?thesis
      by (auto split: if_splits)
  qed (use r t alive in \<open>auto simp: endpoint_handle_rto_timer_def timer_ok_def\<close>)
  then show "act = Terminate \<longleftrightarrow> ep_state_id ep' = Zombie" "act = Terminate \<Longrightarrow> timer_after out None = None"
    by auto
qed

lemma conn_step_not_zombie: "conn_step s out s' \<Longrightarrow> s \<noteq> Zombie \<Longrightarrow> OnTimeout \<notin> set out \<Longrightarrow> s \<noteq> Closed \<Longrightarrow> s' \<noteq> Zombie"
  by (induction rule: conn_step.induct) auto

lemma close_requested_state:
  assumes "close_requested bs now ep = Some (ep', out)"
  shows "ep_state_id ep' = Closed \<or> ep_state_id ep' = ep_state_id ep"
  using assms by (auto simp: close_requested_def send_close_ack_frame_def send_simple_frame_def enter_closed_def
      bind_eq_Some_conv split: if_splits)

lemma handle_frame_not_zombie:
  assumes wf: "endpoint_wf ep" and t: "timer_ok t ep" and bs: "length bs \<le> FRAME_SIZE_MAX"
    and r: "endpoint_handle_frame coins ft bs now ep = Some (ep', out)" and alive: "ep_state_id ep \<noteq> Zombie"
  shows "ep_state_id ep' \<noteq> Zombie"
proof (cases "ep_state_id ep")
  case Active
  have stream: "ep_state_id ep' = Active" if "ft \<in> {StreamSegment, StreamAckType, StreamSegmentAck}"
  proof -
    have "handle_stream_frame coins ft bs now ep = Some (ep', out)"
      using r Active that by (auto simp: endpoint_handle_frame_def)
    with handle_stream_frame_ok [OF wf t Active that bs, of coins now] show ?thesis
      by (auto simp: active_ok_def)
  qed
  moreover have "ep_state_id ep' = Active" if "ft = StreamSyncType"
    using that r Active handle_stream_sync_frame_ok [OF wf t Active, of coins bs now]
    by (auto simp: endpoint_handle_frame_def active_ok_def)
  ultimately show ?thesis
    using r Active close_requested_state [of bs now ep]
    by (auto simp: endpoint_handle_frame_def split: if_splits)
next
  case Closing
  with r close_requested_state [of bs now ep] show ?thesis
    by (auto simp: endpoint_handle_frame_def enter_closed_def bind_eq_Some_conv split: if_splits)
next
  case Closed
  with r show ?thesis
    by (auto simp: endpoint_handle_frame_def send_close_ack_frame_def send_simple_frame_def bind_eq_Some_conv
        split: if_splits)
qed (use r alive in \<open>auto simp: endpoint_handle_frame_def\<close>)

lemma flush_not_zombie:
  assumes "endpoint_wf ep" and "endpoint_flush coins now ep = Some (ep', out)"
  shows "ep_state_id ep' = ep_state_id ep"
  using assms flush_stream_facts [OF assms(1), of coins False False now]
  by (auto simp: endpoint_flush_def same_conn_def split: if_splits)

lemma disconnect_not_zombie:
  assumes "endpoint_disconnect now ep = Some (ep', out)"
  shows "ep_state_id ep' = ep_state_id ep \<or> ep_state_id ep' = Closing"
  using assms by (auto simp: endpoint_disconnect_def enter_closing_def send_close_frame_def send_simple_frame_def
      Let_def bind_eq_Some_conv split: if_splits)

lemma zombie_idle:
  assumes "ep_state_id ep = Zombie"
  shows "host_step c ep None = Some (ep, None, [])"
  using assms by (cases "(c, ep, None :: u64 option)" rule: host_step.cases)
    (auto simp: endpoint_enqueue_def endpoint_flush_def endpoint_disconnect_def endpoint_handle_frame_def)

text \<open>A host call that is not the timer neither ends an endpoint nor revives it.\<close>

lemma host_step_zombie:
  assumes wf: "endpoint_wf ep" and t: "timer_ok t ep" and c: "call_fits c" "fst c \<noteq> CallTimer"
    and z: "ep_state_id ep = Zombie \<Longrightarrow> t = None" and r: "host_step c ep t = Some (ep', t', out)"
  shows "ep_state_id ep' = Zombie \<longleftrightarrow> ep_state_id ep = Zombie" "ep_state_id ep' = Zombie \<Longrightarrow> t' = None"
proof -
  have alive: "ep_state_id ep' \<noteq> Zombie" if "ep_state_id ep \<noteq> Zombie"
    using r c that wf t
    by (cases "(c, ep, t)" rule: host_step.cases)
      (auto simp: endpoint_enqueue_def split: if_splits dest: flush_not_zombie disconnect_not_zombie handle_frame_not_zombie)
  show "ep_state_id ep' = Zombie \<longleftrightarrow> ep_state_id ep = Zombie" "ep_state_id ep' = Zombie \<Longrightarrow> t' = None"
    using alive z zombie_idle r by (cases "ep_state_id ep = Zombie"; auto)+
qed

section \<open>Frames\<close>

text \<open>The frames among the effects of an operation, and what the checks of a frame need.\<close>

fun sent_frames :: "Effect list \<Rightarrow> bytes list" where
  "sent_frames [] = []"
| "sent_frames (SendFrame bs # out) = bs # sent_frames out"
| "sent_frames (_ # out) = sent_frames out"

lemma frame_checks_total:
  assumes "verify_minimum_size bs"
  obtains ft b body where "read_type bs = Some ft" "verify_crc bs = Some b" "payload bs = Some body"
    "length body + 5 = length bs"
proof -
  have "5 \<le> length bs"
    using assms by (simp add: verify_minimum_size_def serial_consts)
  then show thesis
    using that by (cases bs) (auto simp: read_type_def verify_crc_def payload_def serial_consts Let_def)
qed

context serial
begin

lemma SimplePayloadRead_total: "\<exists>r. SimplePayloadRead_read sread bs = Some r"
  using sread_total [of bs] by (auto simp: SimplePayloadRead_read_def PayloadReader_read_def PayloadReader_new_def)

lemma SimpleFrameWrite_write_buffer:
  assumes "valid obj" and "length (enc obj) + FRAME_OVERHEAD_SIZE \<le> length dst"
  shows "\<exists>buf. SimpleFrameWrite_write sf swrite obj dst =
    Some (buf, finished_frame (frame_type_bits (FRAME_TYPE sf) # enc obj))"
  using SimpleFrameWrite_write_finished [OF assms, of sf] by auto

end

section \<open>Life cycles\<close>

lemma conn_steps_snoc: "conn_steps s xs s1 \<Longrightarrow> conn_step s1 ys s2 \<Longrightarrow> conn_steps s (xs @ ys) s2"
proof (induction rule: conn_steps.induct)
  case (conn_refl s)
  then show ?case
    using conn_next [OF _ conn_steps.conn_refl] by fastforce
next
  case (conn_next s xs s1 ys s2)
  then show ?case
    using conn_steps.conn_next [of s xs s1] by simp
qed

end
