(* ===== verification/Stream_Moves.thy ===== *)
theory Stream_Moves
  imports Endpoint_Flow Host
begin

text \<open>
  What a host call does to the streams of an endpoint, seen from outside: which operations
  of the two send queues it makes, what it hands to the segment receiver and to the receive
  buffers, and what the frames it sends contain.
\<close>

section \<open>What the frames of an endpoint contain\<close>

definition stream_types :: "FrameType set" where
  "stream_types = {StreamSegment, StreamAckType, StreamSegmentAck}"

definition stream_body :: "StreamAck option \<Rightarrow> (u32 \<times> bool \<times> Datagram list) option \<Rightarrow> bytes" where
  "stream_body ack seg =
     (case ack of Some a \<Rightarrow> StreamAck_enc a | None \<Rightarrow> []) @
     (case seg of Some (i, nonce, ds) \<Rightarrow> segment_bytes i nonce ds | None \<Rightarrow> [])"

text \<open>
  A frame whose acknowledgement, if it has one, satisfies \<open>K\<close>, and whose segment, if it has
  one, satisfies \<open>S\<close>; a synchronisation has an identifier that satisfies \<open>Y\<close>. Other frames have
  none of these.
\<close>

type_synonym SegmentPred = "u32 \<Rightarrow> bool \<Rightarrow> Datagram list \<Rightarrow> bool"

definition content_ok :: "(u32 option \<Rightarrow> bool) \<Rightarrow> SegmentPred \<Rightarrow> StreamAck option \<Rightarrow> (u32 \<times> bool \<times> Datagram list) option \<Rightarrow> bool" where
  "content_ok K S ack seg \<longleftrightarrow>
     (\<forall>a. ack = Some a \<longrightarrow> StreamAck_valid a \<and> K (sa_rel_fragment_id a)) \<and>
     (\<forall>i nonce ds. seg = Some (i, nonce, ds) \<longrightarrow> S i nonce ds)"

inductive frame_ok :: "(u32 option \<Rightarrow> bool) \<Rightarrow> SegmentPred \<Rightarrow> (u32 \<Rightarrow> bool) \<Rightarrow> FrameType \<Rightarrow> bytes \<Rightarrow> bool" for K S Y where
  frame_other: "ft \<notin> stream_types \<Longrightarrow> ft \<noteq> StreamSyncType \<Longrightarrow> frame_ok K S Y ft body"
| frame_sync: "Y i \<Longrightarrow> frame_ok K S Y StreamSyncType (be_u32 i)"
| frame_stream: "stream_frame_type (ack \<noteq> None) (seg \<noteq> None) = Some ft \<Longrightarrow> content_ok K S ack seg \<Longrightarrow>
    frame_ok K S Y ft (stream_body ack seg)"

definition frame_bytes_ok :: "(u32 option \<Rightarrow> bool) \<Rightarrow> SegmentPred \<Rightarrow> (u32 \<Rightarrow> bool) \<Rightarrow> bytes \<Rightarrow> bool" where
  "frame_bytes_ok K S Y bs \<longleftrightarrow> (\<exists>ft body. bs = finished_frame (frame_type_bits ft # body) \<and> frame_ok K S Y ft body)"

lemma stream_frame_type_stream: "stream_frame_type a b = Some ft \<Longrightarrow> ft \<in> stream_types"
  by (cases a; cases b) (auto simp: stream_frame_type_def stream_types_def)

lemma frame_ok_sync: "frame_ok K S Y StreamSyncType body \<Longrightarrow> \<exists>i. body = be_u32 i \<and> Y i"
  by (erule frame_ok.cases) (auto simp: stream_types_def dest: stream_frame_type_stream)

lemma content_ok_mono:
  "content_ok K S ack seg \<Longrightarrow> (\<And>r. K r \<Longrightarrow> K' r) \<Longrightarrow> (\<And>i nonce ds. S i nonce ds \<Longrightarrow> S' i nonce ds) \<Longrightarrow> content_ok K' S' ack seg"
  by (simp add: content_ok_def)

lemma frame_ok_mono:
  "frame_ok K S Y ft body \<Longrightarrow> (\<And>r. K r \<Longrightarrow> K' r) \<Longrightarrow> (\<And>i nonce ds. S i nonce ds \<Longrightarrow> S' i nonce ds) \<Longrightarrow>
     (\<And>i. Y i \<Longrightarrow> Y' i) \<Longrightarrow> frame_ok K' S' Y' ft body"
  by (induction rule: frame_ok.induct) (blast intro: frame_ok.intros content_ok_mono)+

lemma frame_bytes_ok_mono:
  "frame_bytes_ok K S Y bs \<Longrightarrow> (\<And>r. K r \<Longrightarrow> K' r) \<Longrightarrow> (\<And>i nonce ds. S i nonce ds \<Longrightarrow> S' i nonce ds) \<Longrightarrow>
     (\<And>i. Y i \<Longrightarrow> Y' i) \<Longrightarrow> frame_bytes_ok K' S' Y' bs"
  unfolding frame_bytes_ok_def by (blast intro: frame_ok_mono)

lemma frame_bytes_okD:
  assumes "frame_bytes_ok K S Y bs" and "read_type bs = Some (Some ft)" and "payload bs = Some body"
  shows "frame_ok K S Y ft body"
  using assms by (auto simp: frame_bytes_ok_def finished_frame_checks)

lemma stream_frame_bytes_ok:
  assumes "stream_frame_type (ack \<noteq> None) (seg \<noteq> None) = Some ft" and "content_ok K S ack seg"
  shows "frame_bytes_ok K S Y (stream_frame ack seg)"
  unfolding frame_bytes_ok_def
  using frame_stream [OF assms] assms(1)
  by (intro exI [of _ ft] exI [of _ "stream_body ack seg"]) (simp add: stream_frame_def stream_body_def)

section \<open>What a flush takes off the queues\<close>

lemma unrel_tx_run_append:
  "unrel_tx_run xs tx = (tx1, tr1) \<Longrightarrow> unrel_tx_run ys tx1 = (tx2, tr2) \<Longrightarrow> unrel_tx_run (xs @ ys) tx = (tx2, tr1 @ tr2)"
  by (induction xs tx arbitrary: tr1 rule: unrel_tx_run.induct) (auto split: prod.splits option.splits)

lemma rel_pops_append:
  "rel_pops j tx = (tx1, tr1) \<Longrightarrow> rel_pops k tx1 = (tx2, tr2) \<Longrightarrow> rel_pops (j + k) tx = (tx2, tr1 @ tr2)"
  by (induction j arbitrary: tx tr1) (auto split: prod.splits option.splits)

text \<open>Datagrams that carry what was taken off the two queues, each channel in order.\<close>

definition unrel_drained :: "UnrelTx \<Rightarrow> UnrelTx \<Rightarrow> (u32 \<times> FragmentRc) list \<Rightarrow> bool" where
  "unrel_drained tx tx' tr \<longleftrightarrow> (\<exists>ops. set ops \<subseteq> insert UPop (range UPopExpired) \<and> unrel_tx_run ops tx = (tx', tr))"

definition rel_drained :: "RelTx \<Rightarrow> RelTx \<Rightarrow> (u32 \<times> FragmentRc) list \<Rightarrow> bool" where
  "rel_drained tx tx' tr \<longleftrightarrow> (\<exists>k. rel_pops k tx = (tx', tr))"

definition drained :: "UnrelTx \<Rightarrow> RelTx \<Rightarrow> FragmentTxBuffers \<Rightarrow> Datagram list \<Rightarrow> bool" where
  "drained utx tx ftb' ds \<longleftrightarrow>
     (\<exists>utr. unrel_drained utx (ftb_unrel ftb') utr \<and> filter dg_unrel ds = map (as_datagram True) utr) \<and>
     (\<exists>tr. rel_drained tx (ftb_rel ftb') tr \<and> filter (\<lambda>d. \<not> dg_unrel d) ds = map (as_datagram False) tr)"

lemma unrel_drained_trans:
  assumes "unrel_drained a b tr1" and "unrel_drained b c tr2"
  shows "unrel_drained a c (tr1 @ tr2)"
proof -
  obtain xs ys where "set xs \<subseteq> insert UPop (range UPopExpired)" "unrel_tx_run xs a = (b, tr1)"
      "set ys \<subseteq> insert UPop (range UPopExpired)" "unrel_tx_run ys b = (c, tr2)"
    using assms unfolding unrel_drained_def by blast
  then show ?thesis
    unfolding unrel_drained_def using unrel_tx_run_append by (intro exI [of _ "xs @ ys"]) simp
qed

lemma rel_drained_trans: "rel_drained a b tr1 \<Longrightarrow> rel_drained b c tr2 \<Longrightarrow> rel_drained a c (tr1 @ tr2)"
  unfolding rel_drained_def using rel_pops_append by blast

lemma drained_trans:
  assumes "drained utx tx ftb1 ds1" and "drained (ftb_unrel ftb1) (ftb_rel ftb1) ftb2 ds2"
  shows "drained utx tx ftb2 (ds1 @ ds2)"
proof -
  obtain utr1 tr1 utr2 tr2 where
      "unrel_drained utx (ftb_unrel ftb1) utr1" "filter dg_unrel ds1 = map (as_datagram True) utr1"
      "rel_drained tx (ftb_rel ftb1) tr1" "filter (\<lambda>d. \<not> dg_unrel d) ds1 = map (as_datagram False) tr1"
      "unrel_drained (ftb_unrel ftb1) (ftb_unrel ftb2) utr2" "filter dg_unrel ds2 = map (as_datagram True) utr2"
      "rel_drained (ftb_rel ftb1) (ftb_rel ftb2) tr2" "filter (\<lambda>d. \<not> dg_unrel d) ds2 = map (as_datagram False) tr2"
    using assms unfolding drained_def by blast
  then show ?thesis
    unfolding drained_def using unrel_drained_trans rel_drained_trans
    by (intro conjI exI [of _ "utr1 @ utr2"] exI [of _ "tr1 @ tr2"]) simp_all
qed

lemma drained_Nil: "drained (ftb_unrel ftb) (ftb_rel ftb) ftb []"
proof -
  have "unrel_drained (ftb_unrel ftb) (ftb_unrel ftb) []"
    unfolding unrel_drained_def by (intro exI [of _ "[]"]) simp
  moreover have "rel_drained (ftb_rel ftb) (ftb_rel ftb) []"
    unfolding rel_drained_def by (intro exI [of _ 0]) simp
  ultimately show ?thesis
    by (simp add: drained_def)
qed

lemma drained_flushed:
  assumes "ftb_flushed now ftb ftb' ds"
  shows "drained (ftb_unrel ftb) (ftb_rel ftb) ftb' ds"
proof -
  obtain ops utr where u: "set ops \<subseteq> {UPop, UPopExpired now}"
      "unrel_tx_run ops (ftb_unrel ftb) = (ftb_unrel ftb', utr)" "filter dg_unrel ds = map (as_datagram True) utr"
    using assms by (auto simp: ftb_flushed_def)
  then have "unrel_drained (ftb_unrel ftb) (ftb_unrel ftb') utr"
    unfolding unrel_drained_def by (intro exI [of _ ops]) auto
  with u(3) assms show ?thesis
    unfolding drained_def ftb_flushed_def rel_drained_def by blast
qed

lemma drained_pop_expired: "drained (ftb_unrel ftb) (ftb_rel ftb) (ftb_pop_expired ftb now) []"
  using drained_flushed [OF ftb_flushed_Nil] .

lemma sent_frames_append [simp]: "sent_frames (xs @ ys) = sent_frames xs @ sent_frames ys"
  by (induction xs rule: sent_frames.induct) simp_all

text \<open>
  The frames of a flush: acknowledgements of the next reliable fragment expected, and
  datagrams just taken off the queues.
\<close>

definition acks_next :: "Endpoint \<Rightarrow> u32 option \<Rightarrow> bool" where
  "acks_next ep r \<longleftrightarrow> (\<forall>i. r = Some i \<longrightarrow> i = rel_rx_next_expected_id (ep_reliable_rx ep))"

text \<open>
  The segments \<open>gs\<close> of a flush, numbered from \<open>b\<close>, and the frames that carry them.
\<close>

definition numbered :: "u32 \<Rightarrow> (bool \<times> Datagram list) list \<Rightarrow> SegmentPred" where
  "numbered b gs i nonce ds \<longleftrightarrow> (\<exists>k < length gs. i = b + word_of_nat k \<and> gs ! k = (nonce, ds))"

definition segments_fit :: "(bool \<times> Datagram list) list \<Rightarrow> bool" where
  "segments_fit gs \<longleftrightarrow> (\<forall>(nonce, ds) \<in> set gs. length (datagrams_enc ds) \<le> FRAME_SIZE_MAX \<and>
     (\<forall>d \<in> set ds. length (dg_data d) \<le> FRAGMENT_SIZE))"

abbreviation datagrams_of :: "(bool \<times> Datagram list) list \<Rightarrow> Datagram list" where
  "datagrams_of gs \<equiv> concat (map snd gs)"

abbreviation ep_next_segment :: "Endpoint \<Rightarrow> u32" where
  "ep_next_segment ep \<equiv> stx_next_id (ep_segment_tx ep)"

definition flush_sends :: "Endpoint \<Rightarrow> Endpoint \<Rightarrow> Effect list \<Rightarrow> (bool \<times> Datagram list) list \<Rightarrow> bool" where
  "flush_sends ep ep' out gs \<longleftrightarrow>
     same_conn ep ep' \<and> segments_fit gs \<and> length gs \<le> length (sent_frames out) \<and>
     drained (ftb_unrel (ep_fragment_tx ep)) (ftb_rel (ep_fragment_tx ep)) (ep_fragment_tx ep') (datagrams_of gs) \<and>
     ep_next_segment ep' = ep_next_segment ep + word_of_nat (length gs) \<and>
     (\<forall>bs \<in> set (sent_frames out). frame_bytes_ok (acks_next ep) (numbered (ep_next_segment ep) gs) (\<lambda>i. False) bs)"

lemma numbered_left: "numbered b gs i nonce ds \<Longrightarrow> numbered b (gs @ hs) i nonce ds"
  unfolding numbered_def by (metis length_append nth_append trans_less_add1)

lemma numbered_right:
  assumes "numbered (b + word_of_nat (length gs)) hs i nonce ds"
  shows "numbered b (gs @ hs) i nonce ds"
proof -
  obtain k where "k < length hs" "i = b + word_of_nat (length gs) + word_of_nat k" "hs ! k = (nonce, ds)"
    using assms by (auto simp: numbered_def)
  then show ?thesis
    unfolding numbered_def by (intro exI [of _ "length gs + k"]) (simp add: nth_append algebra_simps)
qed

lemma stx_send_next: "stx_send tx coin n = Some tx' \<Longrightarrow> stx_next_id tx' = stx_next_id tx + 1"
  by (auto simp: stx_send_def compute_next_nonce_def stx_mark_sent_def Let_def bind_eq_Some_conv)

lemma frame_written_sends:
  assumes some: "send_ack \<or> send_data" and w: "frame_written coin send_ack send_data ack_rel now ep ep' out"
  shows "\<exists>gs. flush_sends ep ep' out gs"
proof -
  obtain ack timers ep1 seg buf where f: "ack = (if send_ack then Some (next_stream_ack ep ack_rel) else None)"
      "out = timers @ [SendFrame (stream_frame ack seg)]" "ep' = ep1\<lparr>ep_tx_buffer := buf\<rparr>"
      "if send_data then (\<exists>ds. seg = Some (ep_next_segment ep, coin, ds) \<and> segment_sent coin now ep ds ep1 timers)
       else seg = None \<and> timers = [] \<and> ep1 = ep" "length (stream_frame ack seg) \<le> FRAME_SIZE_MAX"
    using w unfolding frame_written_def by (cases send_data) auto
  have ack: "\<forall>a. ack = Some a \<longrightarrow> StreamAck_valid a \<and> acks_next ep (sa_rel_fragment_id a)"
    using f(1) next_stream_ack_valid [of ep ack_rel] by (auto simp: acks_next_def next_stream_ack_def case_prod_beta)
  obtain ft where ft: "stream_frame_type (ack \<noteq> None) (seg \<noteq> None) = Some ft"
    using some f(1,4) by (cases send_ack; cases send_data) (auto simp: stream_frame_type_def)
  show ?thesis
  proof (cases send_data)
    case True
    then obtain ds where seg: "seg = Some (ep_next_segment ep, coin, ds)" "segment_sent coin now ep ds ep1 timers"
      using f(4) by auto
    obtain tx ftb where arm: "(ep1, timers) = arm_timers (ep\<lparr>ep_segment_tx := tx, ep_fragment_tx := ftb\<rparr>) (ep_next_segment ep) now"
        "ftb_flushed now (ep_fragment_tx ep) ftb ds" "\<forall>d \<in> set ds. length (dg_data d) \<le> FRAGMENT_SIZE"
        "stx_send (ep_segment_tx ep) coin (datagrams_size ds) = Some tx"
      using seg(2) by (auto simp: segment_sent_def)
    have ep': "ep_fragment_tx ep' = ftb" "ep_segment_tx ep' = tx"
      using arg_cong [OF arm(1), of "ep_fragment_tx \<circ> fst"] arg_cong [OF arm(1), of "ep_segment_tx \<circ> fst"] f(3) by simp_all
    have "ep_next_segment ep' = ep_next_segment ep + 1"
      using stx_send_next [OF arm(4)] ep'(2) by simp
    moreover have "content_ok (acks_next ep) (numbered (ep_next_segment ep) [(coin, ds)]) ack seg"
      using ack seg(1) by (simp add: content_ok_def numbered_def)
    moreover have "sent_frames timers = []"
      using arg_cong [OF arm(1), of snd] by (simp add: arm_timers_def Let_def split: if_splits)
    moreover have "segments_fit [(coin, ds)]"
      using arm(3) f(5) seg(1) by (auto simp: segments_fit_def stream_frame_def segment_bytes_def split: option.splits)
    ultimately show ?thesis
      using stream_frame_bytes_ok [OF ft] drained_flushed [OF arm(2)] ep'(1) frame_written_facts(1) [OF w] f(2)
      by (intro exI [of _ "[(coin, ds)]"]) (simp add: flush_sends_def)
  next
    case False
    then have "content_ok (acks_next ep) (numbered (ep_next_segment ep) []) ack seg"
      using ack f(4) by (simp add: content_ok_def)
    then show ?thesis
      using stream_frame_bytes_ok [OF ft] frame_written_facts(1) [OF w] f(2-4) False
      by (intro exI [of _ "[]"]) (simp add: flush_sends_def segments_fit_def drained_Nil)
  qed
qed

lemma flush_sends_trans:
  assumes "flush_sends ep ep1 out1 gs1" and "flush_sends ep1 ep2 out2 gs2"
  shows "flush_sends ep ep2 (out1 @ out2) (gs1 @ gs2)"
proof -
  have same: "acks_next ep1 = acks_next ep" "ep_next_segment ep1 = ep_next_segment ep + word_of_nat (length gs1)"
    using assms(1) by (simp_all add: flush_sends_def same_conn_def acks_next_def fun_eq_iff)
  have "frame_bytes_ok (acks_next ep) (numbered (ep_next_segment ep) (gs1 @ gs2)) (\<lambda>i. False) bs"
    if "bs \<in> set (sent_frames out1)" for bs
    using that assms(1) by (auto simp: flush_sends_def intro: frame_bytes_ok_mono numbered_left)
  moreover have "frame_bytes_ok (acks_next ep) (numbered (ep_next_segment ep) (gs1 @ gs2)) (\<lambda>i. False) bs"
    if "bs \<in> set (sent_frames out2)" for bs
    using that assms(2) same by (auto simp: flush_sends_def intro: frame_bytes_ok_mono numbered_right)
  moreover have "drained (ftb_unrel (ep_fragment_tx ep)) (ftb_rel (ep_fragment_tx ep)) (ep_fragment_tx ep2) (datagrams_of (gs1 @ gs2))"
    using assms drained_trans unfolding flush_sends_def by fastforce
  ultimately show ?thesis
    using assms same_conn_trans [of ep ep1 ep2] same(2) by (auto simp: flush_sends_def segments_fit_def algebra_simps)
qed

lemma flush_sends_popped: "flush_sends ep (ep_popped now ep) [] []"
  by (simp add: flush_sends_def ep_popped_def same_conn_def segments_fit_def drained_pop_expired)

lemma flush_sends_refl: "flush_sends ep ep [] []"
  by (simp add: flush_sends_def same_conn_def segments_fit_def drained_Nil)

lemma flush_stream_sends:
  assumes "endpoint_wf ep" and "flush_stream coins send_ack ack_rel now ep = Some (ep', out)"
  shows "\<exists>gs. flush_sends ep ep' out gs"
proof -
  have "\<exists>ep' out. flush_stream coins send_ack ack_rel now ep = Some (ep', out) \<and> endpoint_wf ep' \<and>
      \<not> may_send now ep' \<and> (\<exists>gs. flush_sends ep ep' out gs)"
  proof (rule flush_stream_rule [OF assms(1)])
    show "\<exists>gs. flush_sends ep ep [] gs"
      using flush_sends_refl by blast
  next
    fix coin sa ep1 out1 ep2 out2
    assume I: "\<exists>gs. flush_sends ep ep1 out1 gs" and some: "sa \<or> may_send now ep1"
      and w: "frame_written coin sa (may_send now ep1) ack_rel now (ep_popped now ep1) ep2 out2"
    from I obtain gs1 where "flush_sends ep (ep_popped now ep1) (out1 @ []) (gs1 @ [])"
      using flush_sends_trans [OF _ flush_sends_popped] by blast
    moreover obtain gs2 where "flush_sends (ep_popped now ep1) ep2 out2 gs2"
      using frame_written_sends [OF some w] by blast
    ultimately show "\<exists>gs. flush_sends ep ep2 (out1 @ out2) gs"
      using flush_sends_trans [of ep "ep_popped now ep1" "out1 @ []"] by fastforce
  next
    fix ep1 out1
    assume "\<exists>gs. flush_sends ep ep1 out1 gs"
    then show "\<exists>gs. flush_sends ep (ep_popped now ep1) out1 gs"
      using flush_sends_trans [OF _ flush_sends_popped, of ep ep1 out1] by fastforce
  qed
  with assms(2) show ?thesis
    by simp
qed

section \<open>What a host call does\<close>

fun received :: "Effect list \<Rightarrow> bytes list" where
  "received [] = []"
| "received (OnReceive p # out) = p # received out"
| "received (_ # out) = received out"

lemma received_append [simp]: "received (xs @ ys) = received xs @ received ys"
  by (induction xs rule: received.induct) simp_all

lemma received_packets [simp]: "received (map OnReceive ps) = ps" "sent_frames (map OnReceive ps) = []"
  by (induction ps) simp_all

lemma received_callbacks: "callbacks out = [] \<Longrightarrow> received out = []"
  by (induction out rule: received.induct) (simp_all add: callbacks_def)

text \<open>
  What the segment receiver is given: a segment that satisfies \<open>S\<close>, a synchronisation that
  satisfies \<open>Y\<close>, or nothing; \<open>segs\<close> are the segments it delivers.
\<close>

inductive rx_given :: "SegmentPred \<Rightarrow> (u32 \<Rightarrow> bool) \<Rightarrow> SegmentRx \<Rightarrow> SegmentRx \<Rightarrow> bytes list \<Rightarrow> bool" for S Y where
  given_nothing: "rx_given S Y rx rx []"
| given_segment: "S i nonce ds \<Longrightarrow> segment_rx_receive rx i nonce (datagrams_enc ds) = Some (rx', segs, n) \<Longrightarrow> rx_given S Y rx rx' segs"
| given_sync: "Y i \<Longrightarrow> segment_rx_sync rx i = (rx', segs) \<Longrightarrow> rx_given S Y rx rx' segs"

definition receives :: "SegmentPred \<Rightarrow> (u32 \<Rightarrow> bool) \<Rightarrow> Endpoint \<Rightarrow> Endpoint \<Rightarrow> bytes list \<Rightarrow> bool" where
  "receives S Y ep ep' ps \<longleftrightarrow>
     (\<exists>segs dv. rx_given S Y (ep_segment_rx ep) (ep_segment_rx ep') segs \<and>
        receive_segments segs (delivery_start ep) = Some dv \<and> ps = dv_packets dv \<and> ep_reliable_rx ep' = dv_reliable_rx dv \<and>
        (ep_unreliable_rx ep' = dv_unreliable_rx dv \<or> ep_unreliable_rx ep' = unrel_rx_reset (dv_unreliable_rx dv)))"

text \<open>
  The first half of an operation, before it flushes: it brings the reliable send queue to
  \<open>tx\<close>, receives, and sends no stream frame.
\<close>

definition prepares :: "SegmentPred \<Rightarrow> (u32 \<Rightarrow> bool) \<Rightarrow> RelTx \<Rightarrow> Endpoint \<Rightarrow> Endpoint \<Rightarrow> Effect list \<Rightarrow> bool" where
  "prepares S Y tx ep ep' out \<longleftrightarrow>
     ftb_rel (ep_fragment_tx ep') = tx \<and> ftb_unrel (ep_fragment_tx ep') = ftb_unrel (ep_fragment_tx ep) \<and>
     ep_next_segment ep' = ep_next_segment ep \<and> receives S Y ep ep' (received out) \<and>
     (\<forall>bs \<in> set (sent_frames out). frame_bytes_ok (\<lambda>r. False) (\<lambda>i nonce ds. False) (\<lambda>i. i = ep_next_segment ep) bs)"

text \<open>A whole operation: preparation, then a flush that sends the segments \<open>gs\<close>.\<close>

definition moves ::
    "SegmentPred \<Rightarrow> (u32 \<Rightarrow> bool) \<Rightarrow> RelTx \<Rightarrow> Endpoint \<Rightarrow> Endpoint \<Rightarrow> Effect list \<Rightarrow> (bool \<times> Datagram list) list \<Rightarrow> bool" where
  "moves S Y tx ep ep' out gs \<longleftrightarrow>
     receives S Y ep ep' (received out) \<and> segments_fit gs \<and> length gs \<le> length (sent_frames out) \<and>
     drained (ftb_unrel (ep_fragment_tx ep)) tx (ep_fragment_tx ep') (datagrams_of gs) \<and>
     ep_next_segment ep' = ep_next_segment ep + word_of_nat (length gs) \<and>
     (\<forall>bs \<in> set (sent_frames out).
        frame_bytes_ok (acks_next ep') (numbered (ep_next_segment ep) gs) (\<lambda>i. i = ep_next_segment ep) bs)"

lemma receives_Nil:
  "ep_segment_rx ep' = ep_segment_rx ep \<Longrightarrow> delivery_start ep' = delivery_start ep \<Longrightarrow> receives S Y ep ep' []"
  unfolding receives_def
  by (intro exI [of _ "[]"] exI [of _ "delivery_start ep"]) (simp add: delivery_start_def given_nothing)

lemma receives_cong:
  "receives S Y ep ep1 ps \<Longrightarrow> delivery_start ep = delivery_start ep0 \<Longrightarrow> ep_segment_rx ep = ep_segment_rx ep0 \<Longrightarrow>
     delivery_start ep1 = delivery_start ep' \<Longrightarrow> ep_segment_rx ep1 = ep_segment_rx ep' \<Longrightarrow> receives S Y ep0 ep' ps"
  unfolding receives_def by (simp add: delivery_start_def)

lemma prepares_moves:
  assumes p: "prepares S Y tx ep ep1 out1" and f: "flush_sends ep1 ep' out2 gs" and cb: "callbacks out2 = []"
  shows "moves S Y tx ep ep' (out1 @ out2) gs"
proof -
  have rx: "ep_reliable_rx ep' = ep_reliable_rx ep1" "ep_segment_rx ep1 = ep_segment_rx ep'" "delivery_start ep1 = delivery_start ep'"
    using f by (simp_all add: flush_sends_def same_conn_def delivery_start_def)
  have acks: "acks_next ep1 = acks_next ep'"
    using rx by (simp add: acks_next_def fun_eq_iff)
  have "\<forall>bs \<in> set (sent_frames (out1 @ out2)).
      frame_bytes_ok (acks_next ep') (numbered (ep_next_segment ep) gs) (\<lambda>i. i = ep_next_segment ep) bs"
    using p f acks by (auto simp: prepares_def flush_sends_def intro: frame_bytes_ok_mono)
  moreover have "receives S Y ep ep' (received (out1 @ out2))"
    using p receives_cong [OF _ refl refl rx(3,2)] received_callbacks [OF cb] by (simp add: prepares_def)
  ultimately show ?thesis
    using p f by (auto simp: moves_def prepares_def flush_sends_def)
qed

lemma flush_moves:
  assumes "prepares S Y tx ep ep1 out1" and "endpoint_wf ep1" and "flush_stream coins sa ar now ep1 = Some (ep', out2)"
  shows "\<exists>gs. moves S Y tx ep ep' (out1 @ out2) gs"
proof -
  have "callbacks out2 = []"
    using flush_stream_facts [OF assms(2), of coins sa ar now] assms(3) by auto
  with prepares_moves [OF assms(1)] flush_stream_sends [OF assms(2,3)] show ?thesis
    by blast
qed

lemma moves_only:
  assumes "prepares S Y tx ep ep' out"
  shows "moves S Y tx ep ep' out []"
  using prepares_moves [OF assms flush_sends_refl] by simp

subsection \<open>Acknowledgements and segments\<close>

text \<open>What an operation other than a push does first to the reliable send queue.\<close>

inductive rel_fed :: "(u32 option \<Rightarrow> bool) \<Rightarrow> RelTx \<Rightarrow> RelTx \<Rightarrow> bool" for K where
  fed_same: "rel_fed K tx tx"
| fed_resend: "rel_fed K tx (rel_tx_resend_all tx)"
| fed_ack: "K (Some i) \<Longrightarrow> rel_tx_acknowledge tx i = Some (tx', ok) \<Longrightarrow> rel_fed K tx tx'"

text \<open>Effects and changes that the streams do not see.\<close>

definition quiet :: "Endpoint \<Rightarrow> Endpoint \<Rightarrow> Effect list \<Rightarrow> bool" where
  "quiet ep ep' out \<longleftrightarrow>
     ftb_unrel (ep_fragment_tx ep') = ftb_unrel (ep_fragment_tx ep) \<and> ep_segment_rx ep' = ep_segment_rx ep \<and>
     ep_next_segment ep' = ep_next_segment ep \<and> delivery_start ep' = delivery_start ep \<and> received out = [] \<and>
     (\<forall>bs \<in> set (sent_frames out). frame_bytes_ok (\<lambda>r. False) (\<lambda>i nonce ds. False) (\<lambda>i. i = ep_next_segment ep) bs)"

lemma quiet_prepares:
  assumes "quiet ep ep' out"
  shows "prepares S Y (ftb_rel (ep_fragment_tx ep')) ep ep' out"
  using assms receives_Nil by (auto simp: prepares_def quiet_def)

lemma quiet_then_prepares:
  "quiet ep ep1 out1 \<Longrightarrow> prepares S Y tx ep1 ep2 out2 \<Longrightarrow> prepares S Y tx ep ep2 (out1 @ out2)"
  using receives_cong [of S Y ep1 ep2 _ ep ep2] by (auto simp: prepares_def quiet_def)

lemma update_nonce_history_next: "update_nonce_history tx d i = Some tx' \<Longrightarrow> stx_next_id tx' = stx_next_id tx"
  unfolding update_nonce_history_def Let_def by (auto simp: bind_eq_Some_conv split: if_splits)

lemma update_ack_history_next: "stx_next_id (fst (update_ack_history tx d h c)) = stx_next_id tx"
  unfolding update_ack_history_def Let_def by simp

lemma stx_acknowledge_next:
  assumes "stx_acknowledge tx i h c = Some (tx', dropped)"
  shows "stx_next_id tx' = stx_next_id tx"
proof (cases "i - stx_base_id tx \<le> stx_next_id tx - stx_base_id tx")
  case True
  define released where "released = (if 0 < i - stx_base_id tx then do {
      total \<leftarrow> release_loop (unat (i - stx_base_id tx)) 0 tx (stx_transit_total tx);
      tx \<leftarrow> update_nonce_history (tx\<lparr>stx_transit_total := total\<rparr>) (i - stx_base_id tx) i;
      Some (tx\<lparr>stx_base_id := i\<rparr>) } else Some tx)"
  obtain tx1 where tx1: "released = Some tx1" "update_ack_history tx1 (i - stx_base_id tx) h c = (tx', dropped)"
    using assms True unfolding stx_acknowledge_def Let_def released_def [symmetric] by (auto simp: bind_eq_Some_conv)
  have "stx_next_id tx1 = stx_next_id tx"
    using tx1(1) unfolding released_def by (auto simp: bind_eq_Some_conv dest!: update_nonce_history_next split: if_splits)
  then show ?thesis
    using update_ack_history_next [of tx1 "i - stx_base_id tx" h c] tx1(2) by simp
qed (use assms in \<open>simp add: stx_acknowledge_def Let_def\<close>)

lemma handle_stream_ack_quiet:
  assumes r: "handle_stream_ack ack now ep = Some (ep', out)" and K: "K (sa_rel_fragment_id ack)"
  shows "quiet ep ep' out" "rel_fed K (ftb_rel (ep_fragment_tx ep)) (ftb_rel (ep_fragment_tx ep'))"
proof -
  obtain cc tx dropped ftb where ack: "ftb_acknowledge (ep_fragment_tx ep) (sa_rel_fragment_id ack) = Some ftb"
      "update_rto_timer (update_rtt (ep\<lparr>ep_cc_state := cc, ep_segment_tx := tx, ep_fragment_tx := ftb\<rparr>)
         (sa_segment_id ack) now) (sa_segment_id ack) now = (ep', out)"
      "stx_acknowledge (ep_segment_tx ep) (sa_segment_id ack) (ucast (sa_segment_history ack)) (sa_segment_checksum ack) = Some (tx, dropped)"
    using r by (auto simp: handle_stream_ack_def Let_def bind_eq_Some_conv)
  have ep': "ep_fragment_tx ep' = ftb" "ep_segment_rx ep' = ep_segment_rx ep" "delivery_start ep' = delivery_start ep"
      "received out = []" "sent_frames out = []" "ep_segment_tx ep' = tx"
    using ack(2) by (auto simp: update_rto_timer_def update_rtt_def delivery_start_def Let_def split: option.splits if_splits)
  have ftb: "ftb_unrel ftb = ftb_unrel (ep_fragment_tx ep)"
      "rel_fed K (ftb_rel (ep_fragment_tx ep)) (ftb_rel ftb)"
    using ack(1) K by (auto simp: ftb_acknowledge_def bind_eq_Some_conv fed_same intro: fed_ack split: option.splits)
  with ep' stx_acknowledge_next [OF ack(3)] show "quiet ep ep' out" "rel_fed K (ftb_rel (ep_fragment_tx ep)) (ftb_rel (ep_fragment_tx ep'))"
    by (simp_all add: quiet_def)
qed

lemma delivery_prepares:
  assumes "rx_given S Y (ep_segment_rx ep) rx segs" and "receive_segments segs (delivery_start ep) = Some dv"
  shows "prepares S Y (ftb_rel (ep_fragment_tx ep)) ep (delivery_store dv (ep\<lparr>ep_segment_rx := rx\<rparr>)) (map OnReceive (dv_packets dv))"
proof -
  have "receives S Y ep (delivery_store dv (ep\<lparr>ep_segment_rx := rx\<rparr>)) (dv_packets dv)"
    unfolding receives_def using assms by (intro exI [of _ segs] exI [of _ dv]) (simp add: delivery_store_def)
  then show ?thesis
    by (simp add: prepares_def) (simp add: delivery_store_def)
qed

lemma handle_segment_prepares:
  assumes "S i nonce ds" and "handle_segment i nonce (datagrams_enc ds) ep = Some (ep', send_ack, ack_rel, out)"
  shows "prepares S Y (ftb_rel (ep_fragment_tx ep)) ep ep' out"
proof -
  obtain rx segs n dv where r: "segment_rx_receive (ep_segment_rx ep) i nonce (datagrams_enc ds) = Some (rx, segs, n)"
      "receive_segments segs (delivery_start ep) = Some dv" "ep' = delivery_store dv (ep\<lparr>ep_segment_rx := rx\<rparr>)"
      "out = map OnReceive (dv_packets dv)"
    using assms(2) by (auto simp: handle_segment_def bind_eq_Some_conv)
  from delivery_prepares [OF given_segment [where S = S, OF assms(1) r(1)] r(2)] r(3,4) show ?thesis
    by blast
qed

lemma handle_stream_body:
  assumes ft: "stream_frame_type (ack \<noteq> None) (seg \<noteq> None) = Some ft" and ack: "\<forall>a. ack = Some a \<longrightarrow> StreamAck_valid a"
  shows "handle_stream_frame coins ft (stream_body ack seg) now ep = do {
     (ep, out_ack) \<leftarrow> (case ack of Some a \<Rightarrow> handle_stream_ack a now ep | None \<Rightarrow> Some (ep, []));
     (ep, send_ack, ack_rel, out_data) \<leftarrow> (case seg of Some (i, nonce, ds) \<Rightarrow> handle_segment i nonce (datagrams_enc ds) ep
        | None \<Rightarrow> Some (ep, False, False, []));
     (ep, out) \<leftarrow> flush_stream coins send_ack ack_rel now ep;
     Some (ep, out_ack @ out_data @ out) }"
proof (cases seg)
  case (Some x)
  then show ?thesis
    using handle_stream_frame_enc [of ack ft coins _ _ _ now ep] assms
    by (cases x) (simp add: stream_body_def handle_stream_values_def)
next
  case None
  then obtain a where a: "ack = Some a" "ft = StreamAckType"
    using ft by (cases ack) (auto simp: stream_frame_type_def)
  have "PayloadReader_read (Serial_read STREAM_ACK_SIZE StreamAck_read) (PayloadReader_new (StreamAck_enc a)) =
      Some (Some a, (PayloadReader_new (StreamAck_enc a))\<lparr>read_idx := 9\<rparr>)"
    using stream_ack.PayloadReader_read_enc [of a "PayloadReader_new (StreamAck_enc a)" "[]"] ack a by simp
  then show ?thesis
    using a None by (simp add: stream_body_def handle_stream_frame_def)
qed

lemma handle_stream_frame_moves:
  assumes wf: "endpoint_wf ep" and t: "timer_ok t ep" and st: "ep_state_id ep = Active" and fits: "length body \<le> FRAME_SIZE_MAX"
    and ok: "frame_ok K S Y ft body" and ft: "ft \<in> stream_types"
    and r: "handle_stream_frame coins ft body now ep = Some (ep', out)"
  shows "\<exists>tx gs. rel_fed K (ftb_rel (ep_fragment_tx ep)) tx \<and> moves S Y tx ep ep' out gs"
proof -
  obtain ack seg where body: "body = stream_body ack seg" "stream_frame_type (ack \<noteq> None) (seg \<noteq> None) = Some ft"
      "content_ok K S ack seg"
    using ok ft by (auto elim: frame_ok.cases simp: stream_types_def)
  have valid: "\<forall>a. ack = Some a \<longrightarrow> StreamAck_valid a"
    using body(3) by (simp add: content_ok_def)
  obtain ep1 out1 ep2 sa ar out2 out3 where run:
      "(case ack of Some a \<Rightarrow> handle_stream_ack a now ep | None \<Rightarrow> Some (ep, [])) = Some (ep1, out1)"
      "(case seg of Some (i, nonce, ds) \<Rightarrow> handle_segment i nonce (datagrams_enc ds) ep1
        | None \<Rightarrow> Some (ep1, False, False, [])) = Some (ep2, sa, ar, out2)"
      "flush_stream coins sa ar now ep2 = Some (ep', out3)" "out = out1 @ out2 @ out3"
    using r unfolding body(1) handle_stream_body [OF body(2) valid] by (auto simp: bind_eq_Some_conv)
  have acked: "quiet ep ep1 out1" "rel_fed K (ftb_rel (ep_fragment_tx ep)) (ftb_rel (ep_fragment_tx ep1))"
    using run(1) body(3) handle_stream_ack_quiet [of _ now ep ep1 out1 K]
    by (auto simp: content_ok_def quiet_def fed_same split: option.splits)
  have wf1: "endpoint_wf ep1" "timer_ok (timer_after out1 t) ep1" "ep_state_id ep1 = Active"
    using run(1) handle_stream_ack_ok [OF wf t st, of "the ack" now] wf t st
    by (cases ack; force simp: active_ok_def)+
  have "prepares S Y (ftb_rel (ep_fragment_tx ep1)) ep1 ep2 out2 \<and> endpoint_wf ep2"
  proof (cases seg)
    case None
    then show ?thesis
      using run(2) wf1(1) quiet_prepares [of ep1 ep1 "[]"] by (simp add: quiet_def)
  next
    case (Some x)
    obtain i nonce ds where x: "x = (i, nonce, ds)"
      by (cases x)
    have seg: "S i nonce ds" "handle_segment i nonce (datagrams_enc ds) ep1 = Some (ep2, sa, ar, out2)"
      using run(2) Some x body(3) by (auto simp: content_ok_def)
    have "length (datagrams_enc ds) \<le> FRAME_SIZE_MAX"
      using fits body(1) Some x by (simp add: stream_body_def segment_bytes_def)
    then obtain rx segs n where rx: "segment_rx_receive (ep_segment_rx ep1) i nonce (datagrams_enc ds) = Some (rx, segs, n)" "srx_wf rx"
      using segment_rx_receive_wf [of "ep_segment_rx ep1" "datagrams_enc ds" i nonce] wf1(1) by (auto simp: endpoint_wf_def)
    have "endpoint_wf ep2"
      using delivery_ok [OF wf1 rx(2), of segs] rx(1) seg(2) by (auto simp: handle_segment_def active_ok_def)
    with handle_segment_prepares [where S = S, OF seg] show ?thesis
      by blast
  qed
  then have "\<exists>gs. moves S Y (ftb_rel (ep_fragment_tx ep1)) ep ep' ((out1 @ out2) @ out3) gs"
    using quiet_then_prepares [OF acked(1)] flush_moves [OF _ _ run(3)] by blast
  with acked(2) run(4) show ?thesis
    by auto
qed

lemma handle_stream_sync_frame_moves:
  assumes wf: "endpoint_wf ep" and t: "timer_ok t ep" and st: "ep_state_id ep = Active" and Y: "Y i"
    and r: "handle_stream_sync_frame coins (be_u32 i) now ep = Some (ep', out)"
  shows "\<exists>gs. moves S Y (ftb_rel (ep_fragment_tx ep)) ep ep' out gs"
proof -
  obtain rx segs where rx: "segment_rx_sync (ep_segment_rx ep) i = (rx, segs)"
    by fastforce
  have "PayloadReader_read (Serial_read STREAM_SYNC_SIZE StreamSync_read) (PayloadReader_new (be_u32 i)) =
      Some (Some \<lparr>ss_next_segment_id = i\<rparr>, (PayloadReader_new (be_u32 i))\<lparr>read_idx := 4\<rparr>)"
    using stream_sync.PayloadReader_read_enc [where obj = "\<lparr>ss_next_segment_id = i\<rparr>" and pr = "PayloadReader_new (be_u32 i)" and rest = "[]"]
    by (simp add: StreamSync_enc_def)
  with r obtain dv ep1 out1 where run: "receive_segments segs (delivery_start ep) = Some dv"
      "ep1 = (delivery_store dv (ep\<lparr>ep_segment_rx := rx\<rparr>))\<lparr>ep_unreliable_rx :=
         unrel_rx_reset (ep_unreliable_rx (delivery_store dv (ep\<lparr>ep_segment_rx := rx\<rparr>)))\<rparr>"
      "flush_stream coins True True now ep1 = Some (ep', out1)" "out = map OnReceive (dv_packets dv) @ out1"
    using rx by (auto simp: handle_stream_sync_frame_def bind_eq_Some_conv Let_def)
  have "prepares S Y (ftb_rel (ep_fragment_tx ep)) ep (delivery_store dv (ep\<lparr>ep_segment_rx := rx\<rparr>)) (map OnReceive (dv_packets dv))"
    by (rule delivery_prepares [OF given_sync [where Y = Y, OF Y rx] run(1)])
  then have prep: "prepares S Y (ftb_rel (ep_fragment_tx ep)) ep ep1 (map OnReceive (dv_packets dv))"
    by (simp add: prepares_def receives_def run(2)) (auto simp: unrel_rx_reset_def)
  have "srx_wf rx"
    using segment_rx_sync_wf [of "ep_segment_rx ep" i] wf rx by (simp add: endpoint_wf_def)
  then have "endpoint_wf (delivery_store dv (ep\<lparr>ep_segment_rx := rx\<rparr>))"
    using delivery_ok [OF wf t st, of rx segs] run(1) by (auto simp: active_ok_def)
  then have "endpoint_wf ep1"
    by (simp add: run(2) endpoint_wf_def)
  from flush_moves [OF prep this run(3)] run(4) show ?thesis
    by simp
qed

subsection \<open>The other operations\<close>

lemma frame_bytes_okI: "frame_ok K S Y ft body \<Longrightarrow> frame_bytes_ok K S Y (finished_frame (frame_type_bits ft # body))"
  unfolding frame_bytes_ok_def by blast

lemma simple_frames_ok [simp]:
  "frame_bytes_ok K S Y (finished_frame (frame_type_bits Close # body))"
  "frame_bytes_ok K S Y (finished_frame (frame_type_bits CloseAck # body))"
  "Y i \<Longrightarrow> frame_bytes_ok K S Y (finished_frame (frame_type_bits StreamSyncType # be_u32 i))"
  by (intro frame_bytes_okI frame_other frame_sync; simp add: stream_types_def)+

text \<open>An operation that leaves the streams alone.\<close>

definition idle_streams :: "Endpoint \<Rightarrow> Endpoint \<Rightarrow> Effect list \<Rightarrow> bool" where
  "idle_streams ep ep' out \<longleftrightarrow> ep_fragment_tx ep' = ep_fragment_tx ep \<and> quiet ep ep' out"

lemmas idle_defs = idle_streams_def quiet_def delivery_start_def

lemma idle_moves:
  assumes "idle_streams ep ep' out"
  shows "\<exists>tx gs. rel_fed K (ftb_rel (ep_fragment_tx ep)) tx \<and> moves S Y tx ep ep' out gs"
  using assms moves_only [OF quiet_prepares [of ep ep' out S Y]] by (auto simp: idle_streams_def intro: fed_same)

lemma close_requested_idle:
  assumes wf: "endpoint_wf ep" and r: "close_requested body now ep = Some (ep', out)"
  shows "idle_streams ep ep' out"
  using r send_close_ack_frame_facts [OF wf]
  by (auto simp: close_requested_def enter_closed_def idle_defs bind_eq_Some_conv split: if_splits)

lemma disconnect_idle:
  assumes wf: "endpoint_wf ep" and r: "endpoint_disconnect now ep = Some (ep', out)"
  shows "idle_streams ep ep' out"
proof -
  let ?ep = "ep\<lparr>ep_state_id := Closing, ep_rto_timer_state := Some \<lparr>rts_rto_ms = ep_rto_ms ep, rts_rto_sum_ms = 0\<rparr>\<rparr>"
  have "endpoint_wf ?ep"
    using wf by (simp add: endpoint_wf_def)
  from send_close_frame_facts [OF this] r show ?thesis
    by (auto simp: endpoint_disconnect_def enter_closing_def idle_defs bind_eq_Some_conv Let_def split: if_splits)
qed

lemma handle_frame_idle:
  assumes wf: "endpoint_wf ep" and st: "ep_state_id ep \<noteq> Active"
    and r: "endpoint_handle_frame coins ft body now ep = Some (ep', out)"
  shows "idle_streams ep ep' out"
proof -
  have start: "idle_streams ep ep []"
    by (simp add: idle_defs)
  have ack: "send_close_ack_frame ep = Some (ep', out) \<Longrightarrow> idle_streams ep ep' out"
    using send_close_ack_frame_facts [OF wf] by (auto simp: idle_defs)
  have closed: "enter_closed now ep = (ep', out) \<Longrightarrow> idle_streams ep ep' out"
    by (auto simp: enter_closed_def idle_defs)
  have "close_requested body now ep = Some (ep', out) \<or> send_close_ack_frame ep = Some (ep', out) \<or>
      enter_closed now ep = (ep', out) \<or> ep' = ep \<and> out = []"
  proof (cases "ep_state_id ep")
    case Closing
    obtain b where "validate_close_ack_frame ep body = Some b"
      using validate_close_total by blast
    with r Closing show ?thesis
      by (cases b) (simp_all add: endpoint_handle_frame_def split: if_splits)
  next
    case Closed
    obtain b where "validate_close_frame ep body = Some b"
      using validate_close_total by blast
    with r Closed show ?thesis
      by (cases b) (simp_all add: endpoint_handle_frame_def split: if_splits)
  qed (use r st in \<open>simp_all add: endpoint_handle_frame_def\<close>)
  with start ack closed close_requested_idle [OF wf, of body now ep' out] show ?thesis
    by blast
qed

lemma handle_frame_moves:
  assumes wf: "endpoint_wf ep" and t: "timer_ok t ep" and fits: "length body \<le> FRAME_SIZE_MAX"
    and ok: "frame_ok K S Y ft body"
    and r: "endpoint_handle_frame coins ft body now ep = Some (ep', out)"
  shows "\<exists>tx gs. rel_fed K (ftb_rel (ep_fragment_tx ep)) tx \<and> moves S Y tx ep ep' out gs"
proof (cases "ep_state_id ep = Active")
  case st: True
  have "ft \<in> stream_types \<and> handle_stream_frame coins ft body now ep = Some (ep', out) \<or>
      ft = StreamSyncType \<and> handle_stream_sync_frame coins body now ep = Some (ep', out) \<or> close_requested body now ep = Some (ep', out) \<or>
      ep' = ep \<and> out = []"
    using r by (simp add: endpoint_handle_frame_def st stream_types_def split: if_splits)
  then consider (Stream) "ft \<in> stream_types" "handle_stream_frame coins ft body now ep = Some (ep', out)"
    | (Sync) "ft = StreamSyncType" "handle_stream_sync_frame coins body now ep = Some (ep', out)"
    | (Close) "close_requested body now ep = Some (ep', out)" | (Other) "ep' = ep" "out = []"
    by blast
  then show ?thesis
  proof cases
    case Stream
    from handle_stream_frame_moves [OF wf t st fits ok this] show ?thesis .
  next
    case Sync
    then obtain i where "body = be_u32 i" "Y i"
      using frame_ok_sync ok by blast
    with Sync show ?thesis
      using handle_stream_sync_frame_moves [where S = S, OF wf t st] fed_same by blast
  next
    case Close
    then show ?thesis
      using idle_moves [OF close_requested_idle [OF wf]] by blast
  next
    case Other
    then show ?thesis
      using idle_moves [of ep ep out] by (simp add: idle_defs)
  qed
next
  case False
  then show ?thesis
    using idle_moves [OF handle_frame_idle [OF wf _ r]] by blast
qed

lemma rto_timer_active_moves:
  assumes wf: "endpoint_wf ep" and st: "ep_state_id ep = Active" and ts: "ep_rto_timer_state ep = Some ts"
    and more: "\<not> ec_timeout_time_ms (ep_config ep) \<le> rto_sum_next ts"
    and r: "endpoint_handle_rto_timer coins now ep = Some (ep', act, out)"
  shows "\<exists>gs. moves S Y (rel_tx_resend_all (ftb_rel (ep_fragment_tx ep))) ep ep' out gs"
proof -
  let ?ts = "ts\<lparr>rts_rto_sum_ms := rto_sum_next ts\<rparr>"
  let ?ep = "ep\<lparr>ep_rto_timer_state := Some ?ts\<rparr>"
  have wf1: "endpoint_wf ?ep"
    using wf by (simp add: endpoint_wf_def)
  note bo = backoff_facts [OF wf1, of ?ts now]
  define ep1 where "ep1 = fst (backoff ?ts now ?ep)"
  define ep2 where "ep2 = ep1\<lparr>ep_cc_state := cc_handle_timeout (ep_cc_state ep1),
    ep_fragment_tx := ftb_handle_timeout (ep_fragment_tx ep1)\<rparr>"
  have wf2: "endpoint_wf ep2"
    using bo(1) cc_handle_timeout_value(2) ftb_handle_timeout_inv
    by (auto simp: ep2_def ep1_def [symmetric] endpoint_wf_def)
  have seg: "ep_segment_tx ep2 = ep_segment_tx ep1"
    by (simp add: ep2_def)
  obtain buf where sync: "send_stream_sync_frame (stx_next_id (ep_segment_tx ep2)) ep2 = Some (ep2\<lparr>ep_tx_buffer := buf\<rparr>,
      [SendFrame (finished_frame (frame_type_bits StreamSyncType # be_u32 (stx_next_id (ep_segment_tx ep2))))])"
      "length buf = FRAME_SIZE_MAX"
    using send_stream_sync_frame_facts [OF wf2] by blast
  let ?ep3 = "ep2\<lparr>ep_tx_buffer := buf\<rparr>"
  let ?out1 = "[SetRtoTimer (now + backoff_rto ?ep),
    SendFrame (finished_frame (frame_type_bits StreamSyncType # be_u32 (stx_next_id (ep_segment_tx ep1))))]"
  obtain out4 where fl: "flush_stream coins False False now ?ep3 = Some (ep', out4)" "out = ?out1 @ out4"
    using r st ts more sync(1) [unfolded seg] bo(4)
    by (auto simp: endpoint_handle_rto_timer_def bind_eq_Some_conv case_prod_beta Let_def
        simp flip: rto_sum_next_def ep1_def ep2_def)
  have "quiet ep ?ep3 ?out1" "ftb_rel (ep_fragment_tx ?ep3) = rel_tx_resend_all (ftb_rel (ep_fragment_tx ep))"
    by (simp_all add: ep2_def ep1_def backoff_def Let_def quiet_def delivery_start_def ftb_handle_timeout_def)
  with quiet_prepares [of ep ?ep3 ?out1 S Y] flush_moves [OF _ endpoint_wf_buffer [OF wf2 sync(2)] fl(1), of S Y]
  show ?thesis
    unfolding fl(2) by metis
qed

lemma rto_timer_moves:
  assumes wf: "endpoint_wf ep" and t: "timer_ok (Some t0) ep"
    and r: "endpoint_handle_rto_timer coins now ep = Some (ep', act, out)"
  shows "\<exists>tx gs. rel_fed K (ftb_rel (ep_fragment_tx ep)) tx \<and> moves S Y tx ep ep' out gs"
proof (cases "\<exists>ts. ep_state_id ep = Active \<and> ep_rto_timer_state ep = Some ts \<and>
    \<not> ec_timeout_time_ms (ep_config ep) \<le> rto_sum_next ts")
  case True
  with rto_timer_active_moves [OF wf _ _ _ r] fed_resend show ?thesis
    by blast
next
  case False
  have "idle_streams ep ep' out"
  proof (cases "ep_state_id ep")
    case Closing
    then obtain ts where ts: "ep_rto_timer_state ep = Some ts"
      using t by (auto simp: timer_ok_def)
    let ?ts = "ts\<lparr>rts_rto_sum_ms := rto_sum_next ts\<rparr>"
    have "endpoint_wf (ep\<lparr>ep_rto_timer_state := Some ?ts\<rparr>)"
      using wf by (simp add: endpoint_wf_def)
    from send_close_frame_facts [OF backoff_facts(1) [OF this, of ?ts now]] r Closing ts show ?thesis
      by (auto simp: endpoint_handle_rto_timer_def rto_sum_next_def backoff_def idle_defs Let_def bind_eq_Some_conv
          split: if_splits)
  qed (use False r in \<open>auto simp: endpoint_handle_rto_timer_def rto_sum_next_def idle_defs Let_def bind_eq_Some_conv\<close>)
  from idle_moves [OF this] show ?thesis .
qed

text \<open>
  Every host call but a push: an acknowledgement of \<open>K\<close> or a retransmission, a segment of \<open>S\<close> or
  a synchronisation of \<open>Y\<close> received, and then a flush.
\<close>

lemma host_step_moves:
  assumes wf: "endpoint_wf ep" and t: "timer_ok t ep" and c: "call_fits c"
    and frame: "\<And>ft body. fst c = CallFrame ft body \<Longrightarrow> frame_ok K S Y ft body"
    and push: "\<And>p mode. fst c \<noteq> CallEnqueue p mode" and r: "host_step c ep t = Some (ep', t', out)"
  shows "\<exists>tx gs. rel_fed K (ftb_rel (ep_fragment_tx ep)) tx \<and> moves S Y tx ep ep' out gs"
proof -
  obtain call now coins where call: "c = (call, now, coins)"
    by (cases c)
  have same: "idle_streams ep ep []"
    by (simp add: idle_defs)
  show ?thesis
  proof (cases call)
    case CallFlush
    have "prepares S Y (ftb_rel (ep_fragment_tx ep)) ep ep []"
      using quiet_prepares [of ep ep "[]"] same by (simp add: idle_streams_def)
    with CallFlush call r flush_moves [OF _ wf, of S Y _ ep "[]" coins False False now ep' out] idle_moves [OF same] show ?thesis
      by (auto simp: endpoint_flush_def intro: fed_same split: if_splits)
  next
    case CallDisconnect
    with call r disconnect_idle [OF wf] idle_moves show ?thesis
      by auto
  next
    case (CallFrame ft body)
    with call r c frame handle_frame_moves [OF wf t] show ?thesis
      by auto
  next
    case CallTimer
    with call r t rto_timer_moves [OF wf] idle_moves [OF same] show ?thesis
      by (cases t) auto
  next
    case (CallEnqueue p mode)
    with push [of p mode] call show ?thesis
      by simp
  qed
qed

end
