(* ===== verification/Reliable_Net.thy ===== *)
theory Reliable_Net
  imports Reliable
begin

text \<open>
  The two reliable buffers joined by a network that may lose, duplicate and reorder
  fragments and acknowledgements: everything ever sent stays available, and a step may
  deliver any of it, any number of times or never. The only assumption on the network is
  the one every wrapping sequence number makes, that a message is not delivered so late
  that a full turn of the 32-bit identifiers lies in between.
\<close>

section \<open>The network\<close>

text \<open>
  \<open>net_acked\<close> and \<open>net_received\<close> count the fragments that left the send buffer and
  that entered the receive buffer; messages carry the unwrapped index of their
  identifier. These numbers are not in the code: they only state the invariant.
\<close>

record RelNet =
  net_tx :: RelTx
  net_rx :: RelRx
  net_pushed :: "bytes list"
  net_delivered :: "bytes list"
  net_acked :: nat
  net_received :: nat
  net_wire :: "(nat \<times> u32 \<times> FragmentRef) set"
  net_acks :: "(nat \<times> u32) set"

definition net_init :: "RelTx \<Rightarrow> RelRx \<Rightarrow> RelNet" where
  "net_init tx rx = \<lparr>net_tx = tx, net_rx = rx, net_pushed = [], net_delivered = [],
     net_acked = 0, net_received = 0, net_wire = {}, net_acks = {}\<rparr>"

definition net_push :: "bytes \<Rightarrow> RelNet \<Rightarrow> RelNet" where
  "net_push p s = s\<lparr>net_tx := rel_tx_push (net_tx s) p, net_pushed := net_pushed s @ [p]\<rparr>"

definition net_send :: "RelTx \<Rightarrow> u32 \<Rightarrow> FragmentRc \<Rightarrow> RelNet \<Rightarrow> RelNet" where
  "net_send tx' i f s = s\<lparr>net_tx := tx',
     net_wire := insert (net_acked s + rtx_next_delta (net_tx s), i, FragmentRef_from f) (net_wire s)\<rparr>"

definition net_resend :: "RelNet \<Rightarrow> RelNet" where
  "net_resend s = s\<lparr>net_tx := rel_tx_resend_all (net_tx s)\<rparr>"

definition net_deliver :: "u32 \<Rightarrow> FragmentRef \<Rightarrow> RelNet \<Rightarrow> RelNet" where
  "net_deliver i f s =
     (case rel_rx_receive (net_rx s) i f of (rx', p) \<Rightarrow>
        s\<lparr>net_rx := rx', net_delivered := net_delivered s @ (case p of None \<Rightarrow> [] | Some p \<Rightarrow> [p]),
          net_received := net_received s +
            (if rrx_next_fragment_id rx' = rrx_next_fragment_id (net_rx s) then 0 else 1)\<rparr>)"

definition net_ack_emit :: "RelNet \<Rightarrow> RelNet" where
  "net_ack_emit s =
     s\<lparr>net_acks := insert (net_received s, rel_rx_next_expected_id (net_rx s)) (net_acks s)\<rparr>"

definition net_ack_deliver :: "RelTx \<Rightarrow> RelNet \<Rightarrow> RelNet" where
  "net_ack_deliver tx' s = s\<lparr>net_tx := tx',
     net_acked := net_acked s + seq_delta (rtx_base (net_tx s)) (rtx_base tx')\<rparr>"

inductive rel_send_step :: "RelNet \<Rightarrow> RelNet \<Rightarrow> bool" where
  send: "rel_tx_pop_sendable (net_tx s) = (tx', Some (i, f)) \<Longrightarrow> rel_send_step s (net_send tx' i f s)"
| resend: "rel_send_step s (net_resend s)"
| deliver: "(n, i, f) \<in> net_wire s \<Longrightarrow> net_received s < n + 2 ^ 32 \<Longrightarrow>
    rel_send_step s (net_deliver i f s)"
| ack_emit: "rel_send_step s (net_ack_emit s)"
| ack_deliver: "(a, i) \<in> net_acks s \<Longrightarrow>
    net_acked s + unat (win_size (rtx_send_window (net_tx s))) < a + 2 ^ 32 \<Longrightarrow>
    rel_tx_acknowledge (net_tx s) i = Some (tx', ok) \<Longrightarrow> rel_send_step s (net_ack_deliver tx' s)"

inductive rel_step :: "RelNet \<Rightarrow> RelNet \<Rightarrow> bool" where
  push: "rel_step s (net_push p s)"
| network: "rel_send_step s s' \<Longrightarrow> rel_step s s'"

section \<open>The invariant\<close>

definition net_fragments :: "RelNet \<Rightarrow> FragmentRc list" where
  "net_fragments s = concat (map (packet_fragments (rtx_fragment_size (net_tx s))) (net_pushed s))"

lemmas net_defs = net_push_def net_send_def net_resend_def net_deliver_def net_ack_emit_def
  net_ack_deliver_def

definition net_tx_inv :: "u32 \<Rightarrow> nat \<Rightarrow> RelNet \<Rightarrow> bool" where
  "net_tx_inv b n s \<longleftrightarrow>
     rel_tx_inv (net_tx s) \<and> rtx_fragment_size (net_tx s) = n \<and>
     rtx_fragments (net_tx s) = drop (net_acked s) (net_fragments s) \<and>
     net_acked s \<le> length (net_fragments s) \<and>
     rtx_base (net_tx s) = b + word_of_nat (net_acked s)"

definition net_top :: "RelNet \<Rightarrow> nat" where
  "net_top s = net_acked s + rtx_max_delta (net_tx s)"

definition net_wire_inv :: "u32 \<Rightarrow> RelNet \<Rightarrow> bool" where
  "net_wire_inv b s \<longleftrightarrow>
     (\<forall>(k, i, f) \<in> net_wire s. k < net_top s \<and> i = b + word_of_nat k \<and>
        f = FragmentRef_from (net_fragments s ! k)) \<and>
     (\<forall>(a, i) \<in> net_acks s. a \<le> net_received s \<and> i = b + word_of_nat a)"

definition net_rx_inv :: "u32 \<Rightarrow> nat \<Rightarrow> RelNet \<Rightarrow> bool" where
  "net_rx_inv b n s \<longleftrightarrow>
     net_acked s \<le> net_received s \<and> net_received s \<le> net_top s \<and>
     feed rel_rx_receive \<lparr>rrx_fragment_size = n, rrx_next_fragment_id = b, rrx_current_build = None\<rparr> b
       (map FragmentRef_from (take (net_received s) (net_fragments s))) = (net_rx s, net_delivered s) \<and>
     rrx_next_fragment_id (net_rx s) = b + word_of_nat (net_received s) \<and>
     rrx_fragment_size (net_rx s) = n"

definition net_inv :: "u32 \<Rightarrow> nat \<Rightarrow> RelNet \<Rightarrow> bool" where
  "net_inv b n s \<longleftrightarrow> net_tx_inv b n s \<and> net_wire_inv b s \<and> net_rx_inv b n s"

lemma net_top_le:
  assumes "net_tx_inv b n s"
  shows "net_top s \<le> length (net_fragments s)"
  using assms by (auto simp: net_tx_inv_def rel_tx_inv_def net_top_def)

text \<open>Every fragment the sender cuts has the shape the receiver demands.\<close>

lemma good_cut_valid: "good_cut n first p fs \<Longrightarrow> f \<in> set fs \<Longrightarrow> fragment_is_valid f n"
  by (induction fs arbitrary: first p) (auto simp: fragment_is_valid_iff split: if_splits)

lemma net_fragments_valid:
  assumes "net_tx_inv b n s" and "k < length (net_fragments s)"
  shows "fragment_is_valid (FragmentRef_from (net_fragments s ! k)) n"
proof -
  have n: "0 < n" "rtx_fragment_size (net_tx s) = n"
    using assms(1) by (auto simp: net_tx_inv_def rel_tx_inv_def)
  have "net_fragments s ! k \<in> set (net_fragments s)"
    using assms(2) by simp
  then obtain p where "net_fragments s ! k \<in> set (packet_fragments n p)"
    using n by (auto simp: net_fragments_def)
  then show ?thesis
    using good_cut_valid [OF packet_fragments_good_cut [OF n(1), of p]] by simp
qed

lemma net_fragments_push:
  "net_fragments (net_push p s) =
     net_fragments s @ packet_fragments (rtx_fragment_size (net_tx s)) p"
  by (simp add: net_fragments_def net_push_def rel_tx_push_def)

lemma net_push_inv:
  assumes inv: "net_inv b n s"
  shows "net_inv b n (net_push p s)"
proof -
  have top: "net_top (net_push p s) = net_top s"
    by (simp add: net_top_def net_push_def rel_tx_push_def)
  have le: "net_top s \<le> length (net_fragments s)"
    using inv net_top_le by (auto simp: net_inv_def)
  have "net_tx_inv b n (net_push p s)"
    using inv rel_tx_push_inv [of "net_tx s" p]
    by (simp add: net_inv_def net_tx_inv_def net_fragments_push) (simp add: net_push_def rel_tx_push_def)
  moreover have "net_wire_inv b (net_push p s)"
  proof -
    have "net_wire (net_push p s) = net_wire s" "net_acks (net_push p s) = net_acks s"
      "net_received (net_push p s) = net_received s"
      by (simp_all add: net_push_def)
    moreover have "k < net_top s \<Longrightarrow> net_fragments (net_push p s) ! k = net_fragments s ! k" for k
      using le by (simp add: net_fragments_push nth_append)
    ultimately show ?thesis
      using inv unfolding net_inv_def net_wire_inv_def top by auto
  qed
  moreover have "net_rx_inv b n (net_push p s)"
    using inv le by (simp add: net_inv_def net_rx_inv_def top net_fragments_push) (simp add: net_push_def)
  ultimately show ?thesis
    by (simp add: net_inv_def)
qed

lemma net_fragments_cong:
  "net_pushed s' = net_pushed s \<Longrightarrow> rtx_fragment_size (net_tx s') = rtx_fragment_size (net_tx s) \<Longrightarrow>
    net_fragments s' = net_fragments s"
  by (simp add: net_fragments_def)

lemma net_send_inv:
  assumes inv: "net_inv b n s" and pop: "rel_tx_pop_sendable (net_tx s) = (tx', Some (i, f))"
  shows "net_inv b n (net_send tx' i f s)"
proof -
  have txi: "rel_tx_inv (net_tx s)"
    using inv by (simp add: net_inv_def net_tx_inv_def)
  have peek: "rel_tx_peek_sendable (net_tx s) = Some (i, f)"
    using rel_queue.pop_peek [of "net_tx s"] pop by simp
  note deltas = rel_tx_pop_deltas [OF txi, unfolded peek pop, simplified]
  note frame = rel_tx_pop_frame [of "net_tx s", unfolded pop, simplified]
  let ?k = "net_acked s + rtx_next_delta (net_tx s)"
  have frags: "net_fragments (net_send tx' i f s) = net_fragments s"
    by (rule net_fragments_cong) (simp_all add: net_send_def frame)
  have top: "net_top (net_send tx' i f s) = max (net_top s) (?k + 1)"
    using deltas(2) by (simp add: net_top_def net_send_def frame)
  have i: "i = b + word_of_nat ?k" and f: "f = net_fragments s ! ?k"
    using inv peek seq_delta_plus [of "rtx_base (net_tx s)" "rtx_next_send_id (net_tx s)"]
    by (auto simp: net_inv_def net_tx_inv_def rel_tx_peek_iff algebra_simps split: if_splits)
  have "net_tx_inv b n (net_send tx' i f s)"
    using inv rel_tx_pop_inv [OF txi] pop
    by (simp add: net_inv_def net_tx_inv_def frags) (simp add: net_send_def frame)
  moreover have "net_wire_inv b (net_send tx' i f s)"
    using inv unfolding net_inv_def net_wire_inv_def frags top by (auto simp: net_send_def f i)
  moreover have "net_rx_inv b n (net_send tx' i f s)"
    using inv unfolding net_inv_def net_rx_inv_def frags top by (auto simp: net_send_def)
  ultimately show ?thesis
    by (simp add: net_inv_def)
qed

lemma net_resend_inv:
  assumes inv: "net_inv b n s"
  shows "net_inv b n (net_resend s)"
proof -
  have frags: "net_fragments (net_resend s) = net_fragments s"
    by (rule net_fragments_cong) (simp_all add: net_resend_def rel_tx_resend_all_def)
  have top: "net_top (net_resend s) = net_top s"
    by (simp add: net_top_def net_resend_def rel_tx_resend_all_def)
  show ?thesis
    using inv unfolding net_inv_def net_tx_inv_def net_wire_inv_def net_rx_inv_def frags top
    by (simp add: net_resend_def rel_tx_resend_all_inv) (simp add: rel_tx_resend_all_def)
qed

text \<open>A fresh message with the expected identifier is the expected fragment.\<close>

lemma net_deliver_index:
  assumes inv: "net_inv b n s" and wire: "(k, i, f) \<in> net_wire s"
    and fresh: "net_received s < k + 2 ^ 32" and next_id: "i = rrx_next_fragment_id (net_rx s)"
  shows "k = net_received s"
proof -
  have k: "k < net_top s" "i = b + word_of_nat k"
    using inv wire by (auto simp: net_inv_def net_wire_inv_def)
  have rxi: "net_acked s \<le> net_received s" "rrx_next_fragment_id (net_rx s) = b + word_of_nat (net_received s)"
    using inv by (simp_all add: net_inv_def net_rx_inv_def)
  have "k < net_received s + 4294967296"
    using seq_delta_less [of "rtx_base (net_tx s)" "rtx_max_ack_id (net_tx s)"] k(1) rxi
    by (simp add: net_top_def)
  then show ?thesis
    using fresh next_id k(2) rxi seq_index_inject [of k "net_received s" b] by simp
qed

lemma net_deliver_inv:
  assumes inv: "net_inv b n s" and wire: "(k, i, f) \<in> net_wire s" and fresh: "net_received s < k + 2 ^ 32"
  shows "net_inv b n (net_deliver i f s) \<and> (k = net_received s \<longrightarrow> net_received (net_deliver i f s) = k + 1)"
proof (cases "i = rrx_next_fragment_id (net_rx s)")
  case False
  then have "net_deliver i f s = s"
    by (simp add: net_deliver_def rel_rx_receive_def)
  moreover have "k \<noteq> net_received s"
    using inv wire False by (auto simp: net_inv_def net_wire_inv_def net_rx_inv_def)
  ultimately show ?thesis
    using inv by simp
next
  case True
  note kr = net_deliver_index [OF inv wire fresh True]
  have k: "k < net_top s" "f = FragmentRef_from (net_fragments s ! k)"
    using inv wire by (auto simp: net_inv_def net_wire_inv_def)
  have txi: "net_tx_inv b n s" and rxi: "net_rx_inv b n s"
    using inv by (simp_all add: net_inv_def)
  have len: "k < length (net_fragments s)"
    using k(1) net_top_le [OF txi] by simp
  have valid: "fragment_is_valid f (rrx_fragment_size (net_rx s))"
    using net_fragments_valid [OF txi len] k(2) rxi by (simp add: net_rx_inv_def)
  obtain rx' out where rcv: "rel_rx_receive (net_rx s) i f = (rx', out)"
    by fastforce
  have rx': "rrx_next_fragment_id rx' = i + 1" "rrx_fragment_size rx' = n"
    using rcv True valid rxi by (auto simp: rel_rx_receive_def net_rx_inv_def Let_def split: if_splits)
  have del: "net_deliver i f s =
      s\<lparr>net_rx := rx', net_delivered := net_delivered s @ (case out of None \<Rightarrow> [] | Some p \<Rightarrow> [p]),
        net_received := net_received s + 1\<rparr>"
    using rx' True rcv by (simp add: net_deliver_def)
  have frags: "net_fragments (net_deliver i f s) = net_fragments s"
    by (rule net_fragments_cong) (simp_all add: del)
  have top: "net_top (net_deliver i f s) = net_top s"
    by (simp add: net_top_def del)
  have feed': "feed rel_rx_receive \<lparr>rrx_fragment_size = n, rrx_next_fragment_id = b, rrx_current_build = None\<rparr> b
       (map FragmentRef_from (take (net_received s + 1) (net_fragments s))) =
      (rx', net_delivered s @ (case out of None \<Rightarrow> [] | Some p \<Rightarrow> [p]))"
    using rxi len kr rcv True k(2)
    by (simp add: take_Suc_conv_app_nth feed_append net_rx_inv_def split: option.splits)
  have "net_rx_inv b n (net_deliver i f s)"
    using rxi k(1) kr rx' True feed' unfolding net_rx_inv_def frags top unfolding del
    by (simp add: algebra_simps)
  moreover have "net_tx_inv b n (net_deliver i f s)" "net_wire_inv b (net_deliver i f s)"
    using inv unfolding net_inv_def net_tx_inv_def net_wire_inv_def frags top by (auto simp: del)
  ultimately show ?thesis
    using kr by (simp add: net_inv_def del)
qed

lemma net_ack_emit_inv: "net_inv b n s \<Longrightarrow> net_inv b n (net_ack_emit s)"
  by (auto simp: net_inv_def net_tx_inv_def net_wire_inv_def net_rx_inv_def net_ack_emit_def
      net_top_def net_fragments_def rel_rx_next_expected_id_def)

text \<open>
  A fresh acknowledgement with index \<open>a\<close> moves the window to \<open>a\<close> if it is not behind
  it, and is ignored otherwise.
\<close>

lemma net_ack_move:
  assumes inv: "net_inv b n s" and inv': "rel_tx_inv tx'"
    and same: "rtx_fragment_size tx' = rtx_fragment_size (net_tx s)"
      "rtx_max_ack_id tx' = rtx_max_ack_id (net_tx s)"
    and frags': "rtx_fragments tx' = drop d (rtx_fragments (net_tx s))"
    and base': "rtx_base tx' = rtx_base (net_tx s) + word_of_nat d"
    and d: "d \<le> rtx_max_delta (net_tx s)" "net_acked s + d \<le> net_received s"
  shows "net_inv b n (net_ack_deliver tx' s)"
    and "net_acked (net_ack_deliver tx' s) = net_acked s + d"
proof -
  let ?tx = "net_tx s" and ?s' = "net_ack_deliver tx' s"
  have "d < 4294967296"
    using d(1) seq_delta_less [of "rtx_base ?tx" "rtx_max_ack_id ?tx"] by simp
  then have delta: "seq_delta (rtx_base ?tx) (rtx_base tx') = d"
    by (simp add: base')
  then show "net_acked ?s' = net_acked s + d"
    by (simp add: net_ack_deliver_def)
  have frags: "net_fragments ?s' = net_fragments s"
    by (rule net_fragments_cong) (simp_all add: net_ack_deliver_def same)
  have "seq_delta (rtx_base tx') (rtx_max_ack_id ?tx) = rtx_max_delta ?tx - d"
    using seq_delta_rebase [of "rtx_base ?tx" "rtx_base tx'" "rtx_max_ack_id ?tx"] delta d(1) by simp
  then have top: "net_top ?s' = net_top s"
    using same d(1) delta by (simp add: net_top_def net_ack_deliver_def)
  show "net_inv b n ?s'"
    using inv inv' same frags' base' d delta net_top_le [of b n s]
    unfolding net_inv_def net_tx_inv_def net_wire_inv_def net_rx_inv_def frags top
    by (auto simp: net_ack_deliver_def net_top_def algebra_simps)
qed

lemma net_ack_deliver_inv:
  assumes inv: "net_inv b n s" and acks: "(a, i) \<in> net_acks s"
    and fresh: "net_acked s + unat (win_size (rtx_send_window (net_tx s))) < a + 2 ^ 32"
    and ack: "rel_tx_acknowledge (net_tx s) i = Some (tx', ok)"
  shows "net_inv b n (net_ack_deliver tx' s) \<and>
    (net_acked s \<le> a \<longrightarrow> net_acked (net_ack_deliver tx' s) = a)"
proof -
  let ?tx = "net_tx s"
  have a: "a \<le> net_received s" "i = b + word_of_nat a"
    using inv acks by (auto simp: net_inv_def net_wire_inv_def)
  have inv_tx: "rel_tx_inv ?tx" and base: "rtx_base ?tx = b + word_of_nat (net_acked s)"
    using inv by (simp_all add: net_inv_def net_tx_inv_def)
  have rec: "net_received s \<le> net_acked s + rtx_max_delta ?tx"
    using inv by (simp add: net_inv_def net_rx_inv_def net_top_def)
  have inv': "rel_tx_inv tx'"
    using rel_tx_acknowledge_inv [OF inv_tx, of i] ack by simp
  note move = net_ack_move [OF inv inv']
  consider (dup) "a = net_acked s" | (adv) d where "a = net_acked s + d" "0 < d" | (old) "a < net_acked s"
    by (metis add_diff_inverse_nat linorder_neqE_nat not_less_iff_gr_or_eq zero_less_diff)
  then show ?thesis
  proof cases
    case dup
    then have "rtx_fragment_size tx' = rtx_fragment_size ?tx" "rtx_fragments tx' = rtx_fragments ?tx"
      "rtx_base tx' = rtx_base ?tx" "rtx_max_ack_id tx' = rtx_max_ack_id ?tx"
      using ack a base rel_tx_acknowledge_duplicate [of ?tx]
      by (auto simp: Let_def rel_tx_resend_all_def split: if_splits)
    with move [of 0] a dup show ?thesis
      by simp
  next
    case adv
    then have d: "d \<le> rtx_max_delta ?tx"
      using a(1) rec by simp
    then have "d < 4294967296"
      using seq_delta_less [of "rtx_base ?tx" "rtx_max_ack_id ?tx"] by simp
    moreover have i: "i = rtx_base ?tx + word_of_nat d"
      using a(2) adv base by (simp add: algebra_simps)
    ultimately have sd: "seq_delta (rtx_base ?tx) i = d"
      by simp
    with adv have "i \<noteq> rtx_base ?tx"
      by auto
    from rel_tx_acknowledge_advance [OF inv_tx this] sd d ack
    have "rtx_fragment_size tx' = rtx_fragment_size ?tx" "rtx_max_ack_id tx' = rtx_max_ack_id ?tx"
      "rtx_fragments tx' = drop d (rtx_fragments ?tx)" "rtx_base tx' = i"
      by auto
    from move [OF this(1-3)] this(4) i d a(1) adv show ?thesis
      by simp
  next
    case old
    have "unat (win_size (rtx_send_window ?tx)) < seq_delta (rtx_base ?tx) i"
      using seq_delta_index_behind [of a "net_acked s" b] old fresh base a(2) by simp
    then have "rtx_max_delta ?tx < seq_delta (rtx_base ?tx) i" "i \<noteq> rtx_base ?tx"
      using inv_tx by (auto simp: rel_tx_inv_def)
    then have "tx' = ?tx"
      using rel_tx_acknowledge_reject ack by simp
    with old inv show ?thesis
      by (simp add: net_ack_deliver_def)
  qed
qed

lemma rel_send_step_inv:
  assumes "rel_send_step s s'" and inv: "net_inv b n s"
  shows "net_inv b n s'"
  using assms(1)
proof cases
  case (send tx' i f)
  with net_send_inv [OF inv] show ?thesis by simp
next
  case (deliver k i f)
  with net_deliver_inv [OF inv] show ?thesis by blast
next
  case (ack_deliver a i tx' ok)
  with net_ack_deliver_inv [OF inv] show ?thesis by blast
qed (simp_all add: inv net_resend_inv net_ack_emit_inv)

lemma rel_step_inv: "rel_step s s' \<Longrightarrow> net_inv b n s \<Longrightarrow> net_inv b n s'"
  by (erule rel_step.cases) (auto intro: net_push_inv rel_send_step_inv)

lemma rel_steps_inv: "rel_step\<^sup>*\<^sup>* s s' \<Longrightarrow> net_inv b n s \<Longrightarrow> net_inv b n s'"
  by (induction rule: rtranclp_induct) (use rel_step_inv in blast)+

lemma net_init_inv:
  assumes "rel_tx_new b n w = Some tx" and "rel_rx_new b n = Some rx"
  shows "net_inv b n (net_init tx rx)"
  using assms
  by (auto simp: net_inv_def net_tx_inv_def net_wire_inv_def net_rx_inv_def net_init_def net_top_def
      net_fragments_def rel_tx_new_inv)
    (auto simp: rel_tx_new_def rel_rx_new_def Window_new_def)

section \<open>In-order delivery\<close>

lemma net_inv_feed_all:
  assumes inv: "net_inv b n s"
  shows "\<exists>rx'. feed rel_rx_receive \<lparr>rrx_fragment_size = n, rrx_next_fragment_id = b, rrx_current_build = None\<rparr> b
    (map FragmentRef_from (net_fragments s)) = (rx', net_pushed s)"
proof -
  have "0 < n" "rtx_fragment_size (net_tx s) = n"
    using inv by (auto simp: net_inv_def net_tx_inv_def rel_tx_inv_def)
  then show ?thesis
    using rel_rx.feed_packets [of "\<lparr>rrx_fragment_size = n, rrx_next_fragment_id = b, rrx_current_build = None\<rparr>" b
        "net_pushed s"]
    by (auto simp: net_fragments_def rel_rx_ready_def)
qed

lemma feed_take_prefix:
  assumes "feed receive rx i (map g xs) = (rx1, ps)" and "feed receive rx i (map g (take k xs)) = (rx2, qs)"
  shows "prefix qs ps"
proof -
  have "map g xs = map g (take k xs) @ map g (drop k xs)"
    by (simp flip: map_append)
  with assms feed_append [of receive rx i "map g (take k xs)" "map g (drop k xs)"] show ?thesis
    by (auto split: prod.splits)
qed

lemma net_inv_prefix: "net_inv b n s \<Longrightarrow> prefix (net_delivered s) (net_pushed s)"
  using net_inv_feed_all feed_take_prefix by (fastforce simp: net_inv_def net_rx_inv_def)

lemma net_inv_all_received:
  assumes inv: "net_inv b n s" and "net_received s = length (net_fragments s)"
  shows "net_delivered s = net_pushed s"
  using net_inv_feed_all [OF inv] assms by (auto simp: net_inv_def net_rx_inv_def)

section \<open>Progress\<close>

text \<open>
  One round of acknowledgement, retransmission and delivery makes the receiver accept one
  more fragment.
\<close>

lemma net_round_ack:
  assumes inv: "net_inv b n s"
  shows "\<exists>s'. rel_send_step\<^sup>*\<^sup>* s s' \<and> net_inv b n s' \<and> net_acked s' = net_received s' \<and>
    net_received s' = net_received s \<and> net_pushed s' = net_pushed s \<and> net_fragments s' = net_fragments s"
proof -
  let ?s1 = "net_ack_emit s"
  have inv1: "net_inv b n ?s1"
    by (rule net_ack_emit_inv [OF inv])
  let ?i = "rel_rx_next_expected_id (net_rx s)"
  have mem: "(net_received s, ?i) \<in> net_acks ?s1"
    by (simp add: net_ack_emit_def)
  obtain tx' ok where ack: "rel_tx_acknowledge (net_tx ?s1) ?i = Some (tx', ok)"
    using rel_tx_acknowledge_inv inv1 by (fastforce simp: net_inv_def net_tx_inv_def)
  let ?s2 = "net_ack_deliver tx' ?s1"
  have le: "net_acked ?s1 \<le> net_received s"
    using inv by (simp add: net_inv_def net_rx_inv_def net_ack_emit_def)
  moreover have "unat (win_size (rtx_send_window (net_tx ?s1))) < 2 ^ 32"
    using seq_delta_less [of 0 "win_size (rtx_send_window (net_tx ?s1))"] by (simp add: seq_delta_def)
  ultimately have fresh: "net_acked ?s1 + unat (win_size (rtx_send_window (net_tx ?s1))) < net_received s + 2 ^ 32"
    by simp
  note acked = net_ack_deliver_inv [OF inv1 mem fresh ack]
  have same: "net_received ?s2 = net_received s" "net_pushed ?s2 = net_pushed s"
    by (simp_all add: net_ack_deliver_def net_ack_emit_def)
  have "rtx_fragment_size (net_tx ?s2) = rtx_fragment_size (net_tx s)"
    using acked inv by (simp add: net_inv_def net_tx_inv_def)
  then have "net_fragments ?s2 = net_fragments s"
    by (intro net_fragments_cong same)
  moreover have "rel_send_step\<^sup>*\<^sup>* s ?s2"
    using rel_send_step.ack_emit rel_send_step.ack_deliver [OF mem fresh ack]
    by (meson converse_rtranclp_into_rtranclp r_into_rtranclp)
  ultimately show ?thesis
    using acked le same by auto
qed

lemma net_round_send:
  assumes inv: "net_inv b n s" and "net_acked s = net_received s" and "net_received s < length (net_fragments s)"
  shows "\<exists>s'. rel_send_step\<^sup>*\<^sup>* s s' \<and> net_inv b n s' \<and> net_received s' = net_received s + 1 \<and>
    net_pushed s' = net_pushed s \<and> net_fragments s' = net_fragments s"
proof -
  let ?s1 = "net_resend s"
  have inv1: "net_inv b n ?s1"
    by (rule net_resend_inv [OF inv])
  have next_0: "rtx_next_delta (net_tx ?s1) = 0" "net_acked ?s1 = net_received s"
    using assms(2) by (simp_all add: net_resend_def rel_tx_resend_all_def)
  have "length (rtx_fragments (net_tx s)) > 0" "unat (win_size (rtx_send_window (net_tx s))) > 0"
    using inv assms(2,3) by (auto simp: net_inv_def net_tx_inv_def rel_tx_inv_def unat_gt_0 word_neq_0_conv)
  then have "rel_tx_peek_sendable (net_tx ?s1) \<noteq> None"
    using next_0 by (simp add: rel_tx_peek_iff) (simp add: net_resend_def rel_tx_resend_all_def)
  then obtain tx' i f where pop: "rel_tx_pop_sendable (net_tx ?s1) = (tx', Some (i, f))"
    using rel_queue.pop_peek [of "net_tx ?s1"] by (cases "rel_tx_pop_sendable (net_tx ?s1)") auto
  let ?s2 = "net_send tx' i f ?s1"
  have inv2: "net_inv b n ?s2"
    by (rule net_send_inv [OF inv1 pop])
  have mem: "(net_received s, i, FragmentRef_from f) \<in> net_wire ?s2"
    using next_0 by (simp add: net_send_def)
  have fresh: "net_received ?s2 < net_received s + 2 ^ 32"
    by (simp add: net_send_def net_resend_def)
  let ?s3 = "net_deliver i (FragmentRef_from f) ?s2"
  have received: "net_inv b n ?s3" "net_received ?s3 = net_received s + 1"
    using net_deliver_inv [OF inv2 mem fresh] by (simp_all add: net_send_def net_resend_def)
  have "net_pushed ?s3 = net_pushed s"
    by (simp add: net_deliver_def net_send_def net_resend_def split: prod.splits)
  moreover have "rtx_fragment_size (net_tx ?s3) = rtx_fragment_size (net_tx s)"
    using received inv by (simp add: net_inv_def net_tx_inv_def)
  moreover have "rel_send_step\<^sup>*\<^sup>* s ?s3"
    using rel_send_step.resend rel_send_step.send [OF pop] rel_send_step.deliver [OF mem fresh]
    by (meson converse_rtranclp_into_rtranclp r_into_rtranclp)
  ultimately show ?thesis
    using received net_fragments_cong by blast
qed

lemma net_inv_progress:
  assumes "net_inv b n s"
  shows "\<exists>s'. rel_send_step\<^sup>*\<^sup>* s s' \<and> net_pushed s' = net_pushed s \<and> net_delivered s' = net_pushed s"
  using assms
proof (induction "length (net_fragments s) - net_received s" arbitrary: s rule: less_induct)
  case less
  show ?case
  proof (cases "net_received s < length (net_fragments s)")
    case False
    moreover have "net_received s \<le> length (net_fragments s)"
      using less.prems net_top_le by (fastforce simp: net_inv_def net_rx_inv_def)
    ultimately show ?thesis
      using net_inv_all_received [OF less.prems] by auto
  next
    case True
    obtain s1 where s1: "rel_send_step\<^sup>*\<^sup>* s s1" "net_inv b n s1" "net_acked s1 = net_received s1"
        "net_received s1 = net_received s" "net_pushed s1 = net_pushed s" "net_fragments s1 = net_fragments s"
      using net_round_ack [OF less.prems] by blast
    then obtain s2 where s2: "rel_send_step\<^sup>*\<^sup>* s1 s2" "net_inv b n s2" "net_received s2 = net_received s + 1"
        "net_pushed s2 = net_pushed s" "net_fragments s2 = net_fragments s"
      using net_round_send [OF s1(2,3)] True by auto
    have "length (net_fragments s2) - net_received s2 < length (net_fragments s) - net_received s"
      using True unfolding s2(3,5) by linarith
    with less.hyps [of s2] s2 obtain s' where "rel_send_step\<^sup>*\<^sup>* s2 s'" "net_pushed s' = net_pushed s"
        "net_delivered s' = net_pushed s"
      by auto
    with s1(1) s2(1) show ?thesis
      by (meson rtranclp_trans)
  qed
qed

section \<open>The guarantees of a reliable channel\<close>

text \<open>
  C7: whatever the network loses, repeats or reorders, and however the sender interleaves
  pushes, transmissions, retransmissions and acknowledgements, the packets the receive
  buffer hands out are an initial part of the packets pushed: complete, unchanged, in
  order and without duplicates.
\<close>

theorem reliable_in_order_delivery:
  assumes "rel_tx_new b n w = Some tx" and "rel_rx_new b n = Some rx"
    and "rel_step\<^sup>*\<^sup>* (net_init tx rx) s"
  shows "prefix (net_delivered s) (net_pushed s)"
  using net_inv_prefix rel_steps_inv [OF assms(3) net_init_inv [OF assms(1,2)]] by blast

lemma demo_new:
  "rel_tx_new 4294967295 2 4 = Some \<lparr>rtx_fragments = [], rtx_next_send_id = 4294967295,
     rtx_max_ack_id = 4294967295, rtx_fragment_size = 2,
     rtx_send_window = \<lparr>win_base_id = 4294967295, win_size = 4\<rparr>, rtx_duplicate_ack_count = 0\<rparr>"
  "rel_rx_new 4294967295 2 = Some \<lparr>rrx_fragment_size = 2, rrx_next_fragment_id = 4294967295,
     rrx_current_build = None\<rparr>"
  by (simp_all add: rel_tx_new_def rel_rx_new_def Window_new_def)

lemma demo_packet:
  "packet_fragments 2 [1] = [\<lparr>fr_first = True, fr_last = True, fr_data = [1], fr_range = (0, 1)\<rparr>]"
  by (simp add: packet_fragments_def fragment_loop.simps)

theorem reliable_in_order_delivery_witness:
  "\<exists>s. rel_step\<^sup>*\<^sup>* (net_init (the (rel_tx_new 4294967295 2 4)) (the (rel_rx_new 4294967295 2))) s \<and>
    net_delivered s = [[1]] \<and> prefix (net_delivered s) (net_pushed s)"
proof -
  define s0 where "s0 = net_init (the (rel_tx_new 4294967295 2 4)) (the (rel_rx_new 4294967295 2))"
  define s1 where "s1 = net_push [1] s0"
  define f where "f = \<lparr>fr_first = True, fr_last = True, fr_data = [1 :: u8], fr_range = (0, 1)\<rparr>"
  define tx2 where "tx2 = fst (rel_tx_pop_sendable (net_tx s1))"
  define s2 where "s2 = net_send tx2 4294967295 f s1"
  define s3 where "s3 = net_deliver 4294967295 (FragmentRef_from f) s2"
  have s1: "net_tx s1 = \<lparr>rtx_fragments = [f], rtx_next_send_id = 4294967295, rtx_max_ack_id = 4294967295,
      rtx_fragment_size = 2, rtx_send_window = \<lparr>win_base_id = 4294967295, win_size = 4\<rparr>,
      rtx_duplicate_ack_count = 0\<rparr>"
    by (simp add: s1_def s0_def net_init_def net_push_def demo_new rel_tx_push_def demo_packet f_def)
  have "rel_step s0 s1"
    by (simp add: s1_def rel_step.push)
  moreover have "rel_tx_pop_sendable (net_tx s1) = (tx2, Some (4294967295, f))"
    by (simp add: tx2_def s1 rel_tx_pop_sendable_def Window_contains_def)
  then have "rel_step s1 s2"
    unfolding s2_def by (intro rel_step.network rel_send_step.send)
  moreover have "rel_send_step s2 s3"
    unfolding s3_def
    by (rule rel_send_step.deliver [of 0]) (simp_all add: s2_def net_send_def s1, simp_all add: s1_def s0_def net_init_def net_push_def)
  then have "rel_step s2 s3"
    by (rule rel_step.network)
  ultimately have run: "rel_step\<^sup>*\<^sup>* s0 s3"
    by (meson converse_rtranclp_into_rtranclp r_into_rtranclp)
  then have "prefix (net_delivered s3) (net_pushed s3)"
    unfolding s0_def
    by (intro reliable_in_order_delivery [of 4294967295 2 4]) (simp_all add: demo_new)
  moreover have "net_delivered s3 = [[1]]"
    by (simp add: s3_def s2_def s1_def s0_def net_deliver_def net_send_def net_init_def net_push_def demo_new
        rel_rx_receive_def fragment_is_valid_def FragmentRef_from_def fragment_data_def f_def)
  ultimately show ?thesis
    using run unfolding s0_def by blast
qed

text \<open>
  C8: the channel never gets stuck: from every state it can reach, with every message so
  far lost if need be, acknowledgements, retransmissions and deliveries lead to a state in
  which every packet pushed has been handed out.
\<close>

theorem reliable_delivery_completes:
  assumes "rel_tx_new b n w = Some tx" and "rel_rx_new b n = Some rx"
    and "rel_step\<^sup>*\<^sup>* (net_init tx rx) s"
  shows "\<exists>s'. rel_send_step\<^sup>*\<^sup>* s s' \<and> net_delivered s' = net_pushed s"
  using net_inv_progress rel_steps_inv [OF assms(3) net_init_inv [OF assms(1,2)]] by blast

theorem reliable_delivery_completes_witness:
  "\<exists>s'. rel_send_step\<^sup>*\<^sup>* (net_push [1, 2, 3] (net_init (the (rel_tx_new 4294967295 2 4))
      (the (rel_rx_new 4294967295 2)))) s' \<and> net_delivered s' = [[1, 2, 3]]"
proof -
  let ?s = "net_init (the (rel_tx_new 4294967295 2 4)) (the (rel_rx_new 4294967295 2))"
  have "rel_step\<^sup>*\<^sup>* ?s (net_push [1, 2, 3] ?s)"
    by (rule r_into_rtranclp) (rule rel_step.push)
  from reliable_delivery_completes [OF _ _ this, of 4294967295 2 4] show ?thesis
    by (simp add: demo_new) (simp add: net_push_def net_init_def)
qed

end
