(* ===== verification/Unreliable_Net.thy ===== *)
theory Unreliable_Net
  imports Unreliable
begin

text \<open>
  The two unreliable buffers with the segment layer in between: fragments may be lost and the
  receiver may be reset at any time, but what arrives does so in the order it was sent. Here
  the fragments go by their index; the identifiers of the code wrap.
\<close>

section \<open>Packets in the fragments sent\<close>

text \<open>The fragments of packets, each cut short where the packet expired.\<close>

definition blocks :: "nat \<Rightarrow> FragmentRef list list \<Rightarrow> bytes list \<Rightarrow> bool" where
  "blocks n = list_all2 (\<lambda>e p. prefix e (map FragmentRef_from (packet_fragments n p)))"

lemma good_cut_prefix_last:
  "good_cut n first p cs \<Longrightarrow> prefix fs cs \<Longrightarrow> fs \<noteq> [] \<Longrightarrow> ref_last (last fs) \<Longrightarrow>
     concat (map ref_data fs) = p \<and> fs = cs"
proof (induction cs arbitrary: first p fs)
  case (Cons f cs)
  then obtain fs' where fs: "fs = f # fs'" "prefix fs' cs"
    by (cases fs) auto
  show ?case
  proof (cases "fs' = []")
    case True
    with Cons.prems fs show ?thesis
      by (auto split: if_splits)
  next
    case False
    then have "cs \<noteq> []"
      using fs(2) by auto
    with Cons.prems(1) obtain rest where "p = ref_data f @ rest" "good_cut n False rest cs"
      by auto
    with Cons.IH [of False rest fs'] fs False Cons.prems(4) show ?thesis
      by auto
  qed
qed simp

lemma block_first:
  assumes "prefix e (map FragmentRef_from (packet_fragments n p))" and "0 < n"
  shows "e \<noteq> [] \<Longrightarrow> ref_first (hd e)" "f \<in> set (tl e) \<Longrightarrow> \<not> ref_first f"
proof -
  obtain f0 cs where cs: "map FragmentRef_from (packet_fragments n p) = f0 # cs"
    by (cases "packet_fragments n p") (use packet_fragments_not_Nil [of n p] in auto)
  have "good_cut n True p (f0 # cs)"
    using packet_fragments_good_cut [OF assms(2), of p] cs by simp
  then have f0: "ref_first f0" "\<forall>f \<in> set cs. \<not> ref_first f"
    using good_cut_not_first by (auto split: if_splits)
  show "e \<noteq> [] \<Longrightarrow> ref_first (hd e)"
    using assms(1) cs f0(1) by (cases e) auto
  show "f \<in> set (tl e) \<Longrightarrow> \<not> ref_first f"
    using assms(1) cs f0(2) by (cases e) (auto dest: set_mono_prefix)
qed

lemma blocks_first: "blocks n es ps \<Longrightarrow> 0 < n \<Longrightarrow> concat es \<noteq> [] \<Longrightarrow> ref_first (hd (concat es))"
  unfolding blocks_def
proof (induction rule: list_all2_induct)
  case (Cons e es p ps)
  then show ?case
    using block_first(1) [OF Cons.hyps(1)] by (cases "e = []") auto
qed simp

text \<open>
  Fragments in a row, the first of them marked first and no other, the last marked last, are
  one whole packet.
\<close>

lemma packet_in_blocks:
  assumes "blocks n es ps" and "0 < n" and "concat es = xs @ fs @ ys"
    and "fs \<noteq> []" and "ref_first (hd fs)" and "\<forall>f \<in> set (tl fs). \<not> ref_first f" and "ref_last (last fs)"
  shows "\<exists>q < length ps. concat (map ref_data fs) = ps ! q \<and> length (concat (take q es)) = length xs \<and>
    length (concat (take (Suc q) es)) = length xs + length fs"
  using assms(1,3) unfolding blocks_def
proof (induction arbitrary: xs rule: list_all2_induct)
  case (Cons e es p ps)
  have blocks: "blocks n es ps"
    using Cons.hyps by (simp add: blocks_def)
  have row: "e @ concat es = xs @ fs @ ys"
    using Cons.prems by simp
  show ?case
  proof (cases "length e \<le> length xs")
    case True
    then have "concat es = drop (length e) xs @ fs @ ys"
      using arg_cong [OF row, of "drop (length e)"] by simp
    from Cons.IH [OF this] obtain q where "q < length ps" "concat (map ref_data fs) = ps ! q"
        "length (concat (take q es)) = length xs - length e" "length (concat (take (Suc q) es)) = length xs - length e + length fs"
      by auto
    with True show ?thesis
      by (intro exI [of _ "Suc q"]) simp
  next
    case False
    then have "hd fs = e ! length xs"
      using arg_cong [OF row, of "\<lambda>l. l ! length xs"] assms(4) by (simp add: nth_append hd_append hd_conv_nth)
    moreover have "e ! length xs \<in> set (tl e)" if "xs \<noteq> []"
      using False that by (cases e; cases xs) auto
    ultimately have xs: "xs = []"
      using block_first(2) [OF Cons.hyps(1) assms(2)] assms(5) by fastforce
    show ?thesis
    proof (cases "length fs \<le> length e")
      case True
      then have "fs = take (length fs) e"
        using arg_cong [OF row, of "take (length fs)"] xs by simp
      then have "prefix fs e"
        by (metis take_is_prefix)
      moreover from this have "prefix fs (map FragmentRef_from (packet_fragments n p))"
        by (rule prefix_order.trans [OF _ Cons.hyps(1)])
      from good_cut_prefix_last [OF packet_fragments_good_cut [OF assms(2)] this assms(4,7)]
      have p: "concat (map ref_data fs) = p" "fs = map FragmentRef_from (packet_fragments n p)"
        by blast+
      ultimately have "e = fs"
        using Cons.hyps(1) by (simp add: prefix_order.antisym)
      with p(1) xs show ?thesis
        by (intro exI [of _ 0]) simp
    next
      case longer: False
      then have rest: "concat es = drop (length e) fs @ ys" "drop (length e) fs \<noteq> []"
        using arg_cong [OF row, of "drop (length e)"] xs by simp_all
      then have "ref_first (hd (drop (length e) fs))"
        using blocks_first [OF blocks assms(2)] by simp
      moreover have "hd (drop (length e) fs) \<in> set (tl fs)"
        using rest(2) False xs by (cases fs; cases e) (auto simp: hd_drop_conv_nth)
      ultimately show ?thesis
        using assms(6) by blast
    qed
  qed
qed (use assms(4) in simp)

section \<open>The invariant\<close>

text \<open>
  What the receiver builds is a row of fragments sent that may still become a packet.
\<close>

definition row_of :: "FragmentRef list \<Rightarrow> nat \<Rightarrow> FragmentRef list \<Rightarrow> bool" where
  "row_of sent j fs \<longleftrightarrow> take (length fs) (drop j sent) = fs \<and> fs \<noteq> [] \<and> ref_first (hd fs) \<and>
     (\<forall>f \<in> set (tl fs). \<not> ref_first f)"

lemma row_of_one: "k < length sent \<Longrightarrow> ref_first (sent ! k) \<Longrightarrow> row_of sent k [sent ! k]"
  by (simp add: row_of_def take_Suc hd_drop_conv_nth)

lemma row_of_length:
  assumes "row_of sent j fs"
  shows "j + length fs \<le> length sent"
proof -
  have "length (take (length fs) (drop j sent)) = length fs" "fs \<noteq> []"
    using assms by (simp_all add: row_of_def)
  then show ?thesis
    by (cases "j < length sent") auto
qed

lemma row_of_more:
  assumes "row_of sent j fs" and "j + length fs < length sent" and "\<not> ref_first (sent ! (j + length fs))"
  shows "row_of sent j (fs @ [sent ! (j + length fs)])"
proof -
  have "take (Suc (length fs)) (drop j sent) = fs @ [sent ! (j + length fs)]"
    using assms(1,2) take_Suc_conv_app_nth [of "length fs" "drop j sent"] by (simp add: row_of_def)
  with assms(1,3) show ?thesis
    by (simp add: row_of_def)
qed

lemma row_of_packet:
  assumes "blocks n es ps" and "0 < n" and "row_of (concat es) j fs" and "ref_last (last fs)"
  shows "\<exists>q < length ps. concat (map ref_data fs) = ps ! q \<and> length (concat (take q es)) = j \<and>
    length (concat (take (Suc q) es)) = j + length fs"
proof -
  have "concat es = take j (concat es) @ fs @ drop (length fs) (drop j (concat es))"
    using assms(3) unfolding row_of_def by (metis append_take_drop_id)
  moreover have "length (take j (concat es)) = j"
    using row_of_length [OF assms(3)] by simp
  ultimately show ?thesis
    using packet_in_blocks [OF assms(1,2)] assms(3,4) unfolding row_of_def by metis
qed

lemma concat_take_mono: "k \<le> m \<Longrightarrow> length (concat (take k es)) \<le> length (concat (take m es))"
  by (metis concat_append length_append le_add1 take_add le_Suc_ex)

text \<open>
  The packets \<open>us\<close> handed out are among those of the first blocks, which end before \<open>lim\<close>; the
  packet being built starts there; nothing was received from \<open>pos\<close> on.
\<close>

definition urx_order :: "FragmentRef list list \<Rightarrow> bytes list \<Rightarrow> UnrelRx \<Rightarrow> bytes list \<Rightarrow> nat \<Rightarrow> bool" where
  "urx_order es ps rx us pos \<longleftrightarrow> (\<exists>m lim. subseq us (take m ps) \<and> length (concat (take m es)) \<le> lim \<and> lim \<le> pos \<and>
     (\<forall>b. urx_current_build rx = Some b \<longrightarrow>
        (\<exists>fs. row_of (concat es) lim fs \<and> b = concat (map ref_data fs) \<and> urx_base_id rx = word_of_nat (lim + length fs))))"

lemma urx_order_mono: "urx_order es ps rx us pos \<Longrightarrow> pos \<le> pos' \<Longrightarrow> urx_order es ps rx us pos'"
  unfolding urx_order_def by (meson le_trans)

lemma urx_order_packet:
  assumes "blocks n es ps" and "0 < n" and "row_of (concat es) lim fs" and "ref_last (last fs)"
    and "subseq us (take m ps)" and "length (concat (take m es)) \<le> lim" and "lim + length fs \<le> pos" and "urx_current_build rx = None"
  shows "urx_order es ps rx (us @ [concat (map ref_data fs)]) pos"
proof -
  obtain q where q: "q < length ps" "concat (map ref_data fs) = ps ! q" "length (concat (take q es)) = lim"
      "length (concat (take (Suc q) es)) = lim + length fs"
    using row_of_packet [OF assms(1-4)] by blast
  have "m \<le> q"
  proof (rule ccontr)
    assume "\<not> m \<le> q"
    then have "length (concat (take (Suc q) es)) \<le> length (concat (take m es))"
      by (intro concat_take_mono) simp
    then have "length fs = 0"
      using q(4) assms(6) by linarith
    then show False
      using assms(3) by (simp add: row_of_def)
  qed
  then have "prefix (take m ps) (take q ps)"
    by (metis min.absorb1 take_is_prefix take_take)
  then have "subseq us (take q ps)"
    using assms(5) prefix_imp_subseq subseq_order.order_trans by blast
  then have "subseq (us @ [ps ! q]) (take (Suc q) ps)"
    using q(1) by (simp add: take_Suc_conv_app_nth)
  with q assms(7,8) show ?thesis
    unfolding urx_order_def by (intro exI [of _ "Suc q"] exI [of _ "lim + length fs"]) simp
qed

text \<open>A fragment that goes on with a packet, or starts one.\<close>

lemma urx_order_row:
  assumes ord: "subseq us (take m ps)" "length (concat (take m es)) \<le> lim" and blocks: "blocks n es ps" "0 < n"
    and row: "row_of (concat es) lim fs" "lim + length fs = Suc k"
    and rx': "ref_last (last fs) \<Longrightarrow> urx_current_build rx' = None \<and> out = Some (concat (map ref_data fs))"
      "\<not> ref_last (last fs) \<Longrightarrow> urx_current_build rx' = Some (concat (map ref_data fs)) \<and> urx_base_id rx' = word_of_nat (Suc k) \<and> out = None"
  shows "urx_order es ps rx' (us @ (case out of None \<Rightarrow> [] | Some p \<Rightarrow> [p])) (Suc k)"
proof (cases "ref_last (last fs)")
  case True
  with urx_order_packet [OF blocks row(1) True ord, of "Suc k" rx'] row(2) rx'(1) show ?thesis
    by simp
next
  case False
  with rx'(2) row(2) have "urx_base_id rx' = word_of_nat (lim + length fs)" "urx_current_build rx' = Some (concat (map ref_data fs))"
      "out = None" "lim \<le> Suc k"
    by simp_all
  with ord row(1) show ?thesis
    unfolding urx_order_def by (simp only: option.case append_Nil2) blast
qed

lemma unrel_rx_receive_order:
  assumes ord: "urx_order es ps rx us pos" and blocks: "blocks n es ps" "0 < n"
    and k: "pos \<le> k" "k < length (concat es)" "length (concat es) < 2 ^ 32"
    and r: "unrel_rx_receive rx (word_of_nat k) (concat es ! k) = (rx', out)"
  shows "urx_order es ps rx' (us @ (case out of None \<Rightarrow> [] | Some p \<Rightarrow> [p])) (Suc k)"
proof -
  let ?E = "concat es" and ?f = "concat es ! k"
  obtain m lim where ml: "subseq us (take m ps)" "length (concat (take m es)) \<le> lim" "lim \<le> pos"
      "\<forall>b. urx_current_build rx = Some b \<longrightarrow>
        (\<exists>fs. row_of ?E lim fs \<and> b = concat (map ref_data fs) \<and> urx_base_id rx = word_of_nat (lim + length fs))"
    using ord unfolding urx_order_def by blast
  consider (ignored) "rx' = rx" "out = None" | (first) "ref_first ?f" "fragment_is_valid ?f (urx_fragment_size rx)"
    | (next_one) b where "\<not> ref_first ?f" "fragment_is_valid ?f (urx_fragment_size rx)" "urx_current_build rx = Some b"
      "word_of_nat k = urx_base_id rx"
    using r by (auto simp: unrel_rx_receive_def split: option.splits if_splits)
  then show ?thesis
  proof cases
    case ignored
    with urx_order_mono [OF ord] k(1) show ?thesis
      by simp
  next
    case first
    have "length (concat (take m es)) \<le> k"
      using ml(2,3) k(1) by simp
    from urx_order_row [OF ml(1) this blocks row_of_one [OF k(2) first(1)], of k rx' out] r first show ?thesis
      by (cases "ref_last ?f") (auto simp: unrel_rx_receive_def add.commute)
  next
    case next_one
    then obtain fs where fs: "row_of ?E lim fs" "b = concat (map ref_data fs)" "word_of_nat k = (word_of_nat (lim + length fs) :: u32)"
      using ml(4) by auto
    have kl: "k = lim + length fs"
      using seq_index_inject [of k "lim + length fs" 0] row_of_length [OF fs(1)] k(2,3) fs(3) by simp
    then have "row_of ?E lim (fs @ [?f])"
      using row_of_more [OF fs(1)] k(2) next_one(1) by simp
    from urx_order_row [OF ml(1,2) blocks this, of k rx' out] r next_one fs(2) kl show ?thesis
      by (cases "ref_last ?f") (auto simp: unrel_rx_receive_def Let_def add.commute)
  qed
qed

section \<open>A log of what was received\<close>

text \<open>
  The indices of the fragments that reached the receiver, and \<open>None\<close> for a reset.
\<close>

fun unrel_log :: "FragmentRc list \<Rightarrow> nat option list \<Rightarrow> UnrelRx \<Rightarrow> UnrelRx \<times> bytes list" where
  "unrel_log sent [] rx = (rx, [])"
| "unrel_log sent (None # evs) rx = unrel_log sent evs (unrel_rx_reset rx)"
| "unrel_log sent (Some k # evs) rx =
     (case unrel_rx_receive rx (word_of_nat k) (FragmentRef_from (sent ! k)) of (rx, r) \<Rightarrow>
      case unrel_log sent evs rx of (rx, ps) \<Rightarrow> (rx, (case r of None \<Rightarrow> [] | Some p \<Rightarrow> [p]) @ ps))"

fun log_indices :: "nat option list \<Rightarrow> nat list" where
  "log_indices [] = []"
| "log_indices (None # evs) = log_indices evs"
| "log_indices (Some k # evs) = k # log_indices evs"

definition log_below :: "nat \<Rightarrow> nat option list \<Rightarrow> bool" where
  "log_below pos evs \<longleftrightarrow> sorted_wrt (<) (log_indices evs) \<and> (\<forall>k \<in> set (log_indices evs). k < pos)"

lemma log_indices_append [simp]: "log_indices (xs @ ys) = log_indices xs @ log_indices ys"
  by (induction xs rule: log_indices.induct) simp_all

lemma log_below_snoc:
  "log_below pos evs \<Longrightarrow> pos \<le> k \<Longrightarrow> log_below (Suc k) (evs @ [Some k])" "log_below pos evs \<Longrightarrow> log_below pos (evs @ [None])"
  by (fastforce simp: log_below_def sorted_wrt_append)+

lemma log_below_mono: "log_below pos evs \<Longrightarrow> pos \<le> pos' \<Longrightarrow> log_below pos' evs"
  by (fastforce simp: log_below_def)

lemma unrel_log_append:
  "unrel_log sent (xs @ ys) rx =
     (case unrel_log sent xs rx of (rx, ps) \<Rightarrow> case unrel_log sent ys rx of (rx, qs) \<Rightarrow> (rx, ps @ qs))"
  by (induction sent xs rx rule: unrel_log.induct) (simp_all split: prod.splits)

lemma unrel_log_extend:
  "\<forall>k \<in> set (log_indices evs). k < length sent \<Longrightarrow> unrel_log (sent @ zs) evs rx = unrel_log sent evs rx"
  by (induction sent evs rx rule: unrel_log.induct) (simp_all add: nth_append split: prod.splits)

lemma unrel_log_order:
  assumes "blocks n es ps" and "0 < n" and "map FragmentRef_from sent = concat es" and "length sent < 2 ^ 32"
    and "urx_order es ps rx us pos" and "sorted_wrt (<) (log_indices evs)"
    and "\<forall>k \<in> set (log_indices evs). pos \<le> k \<and> k < length sent"
  shows "\<exists>pos'. urx_order es ps (fst (unrel_log sent evs rx)) (us @ snd (unrel_log sent evs rx)) pos'"
  using assms(5-7)
proof (induction evs arbitrary: rx us pos rule: log_indices.induct)
  case (2 evs)
  have "urx_order es ps (unrel_rx_reset rx) us pos"
    using 2(2) by (auto simp: urx_order_def)
  from 2(1) [OF this] 2(3,4) show ?case
    by simp
next
  case (3 k evs)
  obtain rx1 r where r: "unrel_rx_receive rx (word_of_nat k) (FragmentRef_from (sent ! k)) = (rx1, r)"
    by fastforce
  have len: "length (concat es) = length sent"
    using arg_cong [OF assms(3), of length] by simp
  have "FragmentRef_from (sent ! k) = concat es ! k"
    using 3(4) by (simp flip: assms(3))
  then have "urx_order es ps rx1 (us @ (case r of None \<Rightarrow> [] | Some p \<Rightarrow> [p])) (Suc k)"
    using unrel_rx_receive_order [OF 3(2) assms(1,2), of k rx1 r] r 3(4) assms(4) len by simp
  from 3(1) [OF this] 3(3,4) r show ?case
    by (auto simp: Suc_le_eq split: prod.splits)
qed auto

lemma unrel_log_subseq:
  assumes "blocks n es ps" and "0 < n" and "map FragmentRef_from sent = concat es" and "length sent < 2 ^ 32"
    and "urx_current_build rx = None" and "log_below (length sent) evs"
  shows "subseq (snd (unrel_log sent evs rx)) ps"
proof -
  have "urx_order es ps rx [] 0"
    using assms(5) unfolding urx_order_def by (intro exI [of _ 0]) simp
  then obtain pos m where "subseq (snd (unrel_log sent evs rx)) (take m ps)"
    using unrel_log_order [OF assms(1-4), of rx "[]" 0 evs] assms(6) by (auto simp: log_below_def urx_order_def)
  then show ?thesis
    by (meson prefix_imp_subseq subseq_order.order_trans take_is_prefix)
qed

section \<open>The sender\<close>

text \<open>The state of the send buffer after the packets \<open>ps\<close> were pushed and the fragments \<open>sent\<close> sent.\<close>

definition utx_inv :: "nat \<Rightarrow> bytes list \<Rightarrow> FragmentRc list \<Rightarrow> UnrelTx \<Rightarrow> bool" where
  "utx_inv n ps sent tx \<longleftrightarrow>
     0 < n \<and> utx_fragment_size tx = n \<and> utx_next_fragment_id tx = word_of_nat (length sent) \<and>
     sends n ps sent (utx_fragments tx)"

text \<open>The fragments sent, with the identifiers they were given.\<close>

definition tagged :: "FragmentRc list \<Rightarrow> (u32 \<times> FragmentRc) list" where
  "tagged sent = map (\<lambda>k. (word_of_nat k, sent ! k)) [0..<length sent]"

lemma utx_init: "unrel_tx_new 0 n = Some tx \<Longrightarrow> utx_inv n [] [] tx"
  by (auto simp: utx_inv_def unrel_tx_new_def sends_Nil)

lemma utx_push: "utx_inv n ps sent tx \<Longrightarrow> utx_inv n (ps @ [p]) sent (unrel_tx_push tx p t)"
  by (auto simp: utx_inv_def unrel_tx_push_def intro: sends_push)

lemma unrel_tx_run_frame:
  "unrel_tx_run ops tx = (tx', tr) \<Longrightarrow> utx_fragment_size tx' = utx_fragment_size tx \<and>
     utx_next_fragment_id tx' = utx_next_fragment_id tx + word_of_nat (length tr)"
proof (induction ops tx arbitrary: tr rule: unrel_tx_run.induct)
  case (4 ops tx)
  then show ?case
    by (fastforce simp: unrel_tx_pop_sendable_def split: prod.splits list.splits)
qed (auto simp: unrel_tx_push_def unrel_tx_pop_expired_def)

lemma utx_drain:
  assumes inv: "utx_inv n ps sent tx" and run: "unrel_tx_run ops tx = (tx', tr)" and ops: "pushed_packets ops = []"
  shows "utx_inv n ps (sent @ map snd tr) tx'" "tagged (sent @ map snd tr) = tagged sent @ tr"
proof -
  have "sends n ps (sent @ map snd tr) (utx_fragments tx')"
    using unrel_tx_run_sends [OF run, of ps sent] inv ops by (simp add: utx_inv_def)
  then show "utx_inv n ps (sent @ map snd tr) tx'"
    using inv unrel_tx_run_frame [OF run] by (simp add: utx_inv_def)
  have "map fst tr = map (\<lambda>k. word_of_nat (length sent + k)) [0..<length tr]"
    using unrel_tx_run_ids [OF run] inv by (simp add: utx_inv_def)
  then have "fst (tr ! k) = word_of_nat (length sent + k)" if "k < length tr" for k
    using that arg_cong [where f = "\<lambda>l. l ! k"] by (fastforce dest: arg_cong [where f = "\<lambda>l. l ! k"])
  then show "tagged (sent @ map snd tr) = tagged sent @ tr"
    by (intro nth_equalityI) (auto simp: tagged_def nth_append prod_eq_iff)
qed

lemma utx_blocks:
  assumes "utx_inv n ps sent tx"
  obtains es where "blocks n es ps" "map FragmentRef_from sent = concat es"
proof -
  obtain es where es: "list_all2 (\<lambda>e p. prefix e (packet_fragments n p)) es ps" "sent = concat es"
    using sends_parts assms unfolding utx_inv_def by blast
  have "blocks n (map (map FragmentRef_from) es) ps"
    using es(1) by (auto simp: blocks_def list_all2_map1 elim!: list_all2_mono intro: map_mono_prefix)
  then show thesis
    using that es(2) by (simp add: map_concat)
qed

text \<open>No more is sent than was pushed.\<close>

lemma utx_sent_le:
  assumes "utx_inv n ps sent tx"
  shows "length sent \<le> length (concat (map (packet_fragments n) ps))"
proof -
  obtain es where es: "list_all2 (\<lambda>e p. prefix e (packet_fragments n p)) es ps" "sent = concat es"
    using assms sends_parts unfolding utx_inv_def by blast
  then show ?thesis
    unfolding es(2) by (induction rule: list_all2_induct) (auto dest: prefix_length_le)
qed

end
