(* ===== verification/Stream_Buffers.thy ===== *)
theory Stream_Buffers
  imports Stream_Moves Reliable_Net Unreliable_Net
begin

text \<open>
  The buffers between two endpoints under whole host calls: the reliable buffers under what a
  flush takes off the queue and what an acknowledgement does, the segment receiver under any
  of the segments sent so far, and both receive buffers under the segments it passes on.
\<close>

section \<open>The reliable buffers under a whole call\<close>

text \<open>A later state of the buffers: everything that was under way stays so.\<close>

definition net_later :: "RelNet \<Rightarrow> RelNet \<Rightarrow> bool" where
  "net_later s s' \<longleftrightarrow> net_wire s \<subseteq> net_wire s' \<and> net_acks s \<subseteq> net_acks s' \<and>
     win_size (rtx_send_window (net_tx s')) = win_size (rtx_send_window (net_tx s))"

lemma net_later_refl [simp]: "net_later s s"
  by (simp add: net_later_def)

lemma net_later_trans: "net_later a b \<Longrightarrow> net_later b c \<Longrightarrow> net_later a c"
  by (auto simp: net_later_def)

lemma shuffles_snoc:
  "zs \<in> shuffles xs ys \<Longrightarrow> zs @ [z] \<in> shuffles (xs @ [z]) ys"
  "zs \<in> shuffles xs ys \<Longrightarrow> zs @ [z] \<in> shuffles xs (ys @ [z])"
proof -
  have *: "zs \<in> shuffles xs ys \<Longrightarrow> zs @ [z] \<in> shuffles (xs @ [z]) ys" for zs xs ys :: "'b list" and z
  proof (induction zs arbitrary: xs ys)
    case (Cons x zs)
    from Cons.prems consider xs' where "xs = x # xs'" "zs \<in> shuffles xs' ys" | ys' where "ys = x # ys'" "zs \<in> shuffles xs ys'"
      unfolding Cons_in_shuffles_iff by (metis list.collapse)
    then show ?case
      by cases (simp_all add: Cons.IH Cons_in_shuffles_leftI Cons_in_shuffles_rightI)
  qed simp
  from * [of zs xs ys z] show "zs \<in> shuffles xs ys \<Longrightarrow> zs @ [z] \<in> shuffles (xs @ [z]) ys" .
  from * [of zs ys xs z] show "zs \<in> shuffles xs ys \<Longrightarrow> zs @ [z] \<in> shuffles xs (ys @ [z])"
    by (simp add: shuffles_commutes)
qed

text \<open>What is sent: the fragments a flush took off the queue.\<close>

lemma net_pops:
  assumes "net_inv b n s" and "rel_pops k (net_tx s) = (tx', tr)"
  shows "\<exists>s'. net_inv b n s' \<and> net_later s s' \<and> net_tx s' = tx' \<and> net_rx s' = net_rx s \<and> net_pushed s' = net_pushed s \<and>
    net_delivered s' = net_delivered s \<and> (\<forall>(i, f) \<in> set tr. \<exists>m. (m, i, FragmentRef_from f) \<in> net_wire s')"
  using assms
proof (induction k arbitrary: s tr)
  case (Suc k)
  obtain tx1 r where pop: "rel_tx_pop_sendable (net_tx s) = (tx1, r)"
    by fastforce
  obtain tr1 where tr1: "rel_pops k tx1 = (tx', tr1)" "tr = (case r of None \<Rightarrow> tr1 | Some x \<Rightarrow> x # tr1)"
    using Suc.prems(2) pop by (auto split: prod.splits)
  show ?case
  proof (cases r)
    case None
    then have "tx1 = net_tx s"
      using pop rel_queue.pop_peek [of "net_tx s"] rel_queue.pop_None [of "net_tx s"] by simp
    with Suc.IH [OF Suc.prems(1)] tr1 None show ?thesis
      by simp
  next
    case (Some x)
    obtain i f where x: "x = (i, f)"
      by (cases x)
    let ?s = "net_send tx1 i f s"
    have inv: "net_inv b n ?s"
      using net_send_inv [OF Suc.prems(1)] pop Some x by simp
    have "rtx_send_window tx1 = rtx_send_window (net_tx s)"
      using rel_tx_pop_frame(2) [of "net_tx s"] pop by simp
    then have later: "net_later s ?s"
      by (auto simp: net_later_def net_send_def)
    have "rel_pops k (net_tx ?s) = (tx', tr1)"
      using tr1(1) by (simp add: net_send_def)
    from Suc.IH [OF inv this] obtain s' where s': "net_inv b n s'" "net_later ?s s'" "net_tx s' = tx'" "net_rx s' = net_rx ?s"
        "net_pushed s' = net_pushed ?s" "net_delivered s' = net_delivered ?s"
        "\<forall>(i, f) \<in> set tr1. \<exists>m. (m, i, FragmentRef_from f) \<in> net_wire s'"
      by blast
    have "\<exists>m. (m, i, FragmentRef_from f) \<in> net_wire s'"
      using s'(2) by (auto simp: net_later_def net_send_def)
    with s' net_later_trans [OF later s'(2)] tr1(2) Some x show ?thesis
      by (intro exI [of _ s']) (simp add: net_send_def)
  qed
qed (auto intro: net_later_refl)

text \<open>What an acknowledgement or a timeout does to the sender.\<close>

definition ack_known :: "RelNet \<Rightarrow> u32 option \<Rightarrow> bool" where
  "ack_known s r \<longleftrightarrow> (\<forall>i. r = Some i \<longrightarrow> (\<exists>m. (m, i) \<in> net_acks s))"

lemma rel_tx_acknowledge_window:
  "rel_tx_acknowledge tx i = Some (tx', ok) \<Longrightarrow> win_size (rtx_send_window tx') = win_size (rtx_send_window tx)"
  by (auto simp: rel_tx_acknowledge_def rel_tx_resend_all_def Let_def split: if_splits)

lemma net_fed:
  assumes fed: "rel_fed (ack_known s) (net_tx s) tx" and inv: "net_inv b n s"
    and young: "length (net_fragments s) + unat (win_size (rtx_send_window (net_tx s))) < 2 ^ 32"
  shows "\<exists>s'. net_inv b n s' \<and> net_later s s' \<and> net_tx s' = tx \<and> net_rx s' = net_rx s \<and> net_pushed s' = net_pushed s \<and>
    net_delivered s' = net_delivered s"
  using fed
proof cases
  case fed_same
  with inv show ?thesis
    by (intro exI [of _ s]) simp
next
  case fed_resend
  with net_resend_inv [OF inv] show ?thesis
    by (intro exI [of _ "net_resend s"]) (simp add: net_later_def net_resend_def rel_tx_resend_all_def)
next
  case (fed_ack i ok)
  then obtain m where m: "(m, i) \<in> net_acks s"
    by (auto simp: ack_known_def)
  have "net_acked s + unat (win_size (rtx_send_window (net_tx s))) < m + 2 ^ 32"
    using young inv by (simp add: net_inv_def net_tx_inv_def)
  from net_ack_deliver_inv [OF inv m this fed_ack(2)] rel_tx_acknowledge_window [OF fed_ack(2)] show ?thesis
    by (intro exI [of _ "net_ack_deliver tx s"]) (simp add: net_later_def net_ack_deliver_def)
qed

text \<open>Both in a row: what a call does to the sender.\<close>

lemma net_call:
  assumes "rel_fed (ack_known s) (net_tx s) tx" and "rel_drained tx tx' tr" and "net_inv b n s"
    and "length (net_fragments s) + unat (win_size (rtx_send_window (net_tx s))) < 2 ^ 32"
  shows "\<exists>s'. net_inv b n s' \<and> net_later s s' \<and> net_tx s' = tx' \<and> net_rx s' = net_rx s \<and> net_pushed s' = net_pushed s \<and>
    net_delivered s' = net_delivered s \<and> (\<forall>(i, f) \<in> set tr. \<exists>m. (m, i, FragmentRef_from f) \<in> net_wire s')"
proof -
  obtain s1 where s1: "net_inv b n s1" "net_later s s1" "net_tx s1 = tx" "net_rx s1 = net_rx s" "net_pushed s1 = net_pushed s"
      "net_delivered s1 = net_delivered s"
    using net_fed [OF assms(1,3,4)] by blast
  obtain k where "rel_pops k (net_tx s1) = (tx', tr)"
    using assms(2) s1(3) by (auto simp: rel_drained_def)
  from net_pops [OF s1(1) this] obtain s2 where s2: "net_inv b n s2" "net_later s1 s2" "net_tx s2 = tx'" "net_rx s2 = net_rx s1"
      "net_pushed s2 = net_pushed s1" "net_delivered s2 = net_delivered s1"
      "\<forall>(i, f) \<in> set tr. \<exists>m. (m, i, FragmentRef_from f) \<in> net_wire s2"
    by blast
  with s1(4-6) net_later_trans [OF s1(2) s2(2)] show ?thesis
    by (intro exI [of _ s2]) simp
qed

section \<open>The segments of a connection\<close>

text \<open>
  \<open>segs\<close> are all the segments sent so far, each with its nonce; the segment receiver is
  described by their indices.
\<close>

type_synonym Segments = "(bool \<times> Datagram list) list"

definition seg_ghost :: "Segments \<Rightarrow> RxGhost" where
  "seg_ghost segs = \<lparr>gh_start = 0, gh_sent = (\<lambda>n. if n < length segs then datagrams_enc (snd (segs ! n)) else []),
     gh_nonce = (\<lambda>n. n < length segs \<and> fst (segs ! n)), gh_window = unat SEGMENT_WINDOW_SIZE, gh_size = FRAME_SIZE_MAX\<rparr>"

definition srx_inv :: "Segments \<Rightarrow> nat \<Rightarrow> SegmentRx \<Rightarrow> bool" where
  "srx_inv segs B rx \<longleftrightarrow> B \<le> length segs \<and>
     (\<exists>buf D. srx_state (seg_ghost segs) B buf D rx \<and> set buf \<union> D \<subseteq> {..<length segs})"

definition sync_known :: "Segments \<Rightarrow> u32 \<Rightarrow> bool" where
  "sync_known segs i \<longleftrightarrow> (\<exists>k \<le> length segs. i = word_of_nat k)"

lemma srx_inv_extend:
  assumes "srx_inv segs B rx"
  shows "srx_inv (segs @ more_segs) B rx"
proof -
  obtain buf D where st: "srx_state (seg_ghost segs) B buf D rx" "set buf \<union> D \<subseteq> {..<length segs}" and B: "B \<le> length segs"
    using assms by (auto simp: srx_inv_def)
  let ?g = "seg_ghost segs" and ?h = "seg_ghost (segs @ more_segs)"
  have same: "gh_sent ?h m = gh_sent ?g m \<and> gh_nonce ?h m = gh_nonce ?g m" if "m < length segs" for m
    using that by (simp add: seg_ghost_def nth_append)
  have const: "gh_start ?h = gh_start ?g" "gh_window ?h = gh_window ?g" "gh_size ?h = gh_size ?g"
    by (simp_all add: seg_ghost_def)
  have slots: "slot_holds ?h slot (buf ! j) = slot_holds ?g slot (buf ! j)" if "j < length buf" for slot j
  proof -
    have "buf ! j < length segs"
      using st(2) nth_mem [OF that] by auto
    from same [OF this] const(1) show ?thesis
      by (simp add: slot_holds_def)
  qed
  have "history_of (gh_nonce ?h) B D rx = history_of (gh_nonce ?g) B D rx"
    using same st(2) by (auto simp: history_of_def history_bits_def)
  then have "srx_state ?h B buf D rx"
    using st(1) slots const
    by (auto simp: srx_state_def srx_rel_def srx_core_def slots_hold_def srx_buf_def)
  with st(2) B show ?thesis
    unfolding srx_inv_def by (intro conjI exI [of _ buf] exI [of _ D]) auto
qed

lemma spec_drain_base: "spec_drain B buf = (B', buf', out) \<Longrightarrow> B' = B \<or> B' - 1 \<in> set out"
  by (induction B buf arbitrary: out rule: spec_drain.induct) (fastforce split: if_splits prod.splits)+

lemma spec_receive_base: "spec_receive w B buf n = (B', buf', out) \<Longrightarrow> B' = B \<or> B' - 1 \<in> set out"
  unfolding spec_receive_def by (auto split: if_splits prod.splits list.splits dest!: spec_drain_base)

lemma spec_sync_base: "spec_sync g B buf n = (B', buf', out) \<Longrightarrow> B' = B \<or> B' = n"
  by (auto simp: spec_sync_def Let_def split: if_splits)

text \<open>The segment receiver passes on segments in order, from its base on.\<close>

lemma srx_inv_next:
  assumes inv: "srx_state (seg_ghost segs) B' buf' (D \<union> set out) rx'" and old: "set buf \<union> D \<subseteq> {..<length segs}"
    and outcome: "spec_outcome B N (B', buf', out)" and N: "N \<subseteq> {..<length segs}" and B': "B' \<le> length segs"
  shows "\<exists>B' ns. srx_inv segs B' rx' \<and> map (gh_sent (seg_ghost segs)) out = map (\<lambda>n. datagrams_enc (snd (segs ! n))) ns \<and>
    B \<le> B' \<and> sorted_wrt (<) ns \<and> (\<forall>n \<in> set ns. B \<le> n \<and> n < B' \<and> n < length segs)"
proof -
  have sub: "set out \<union> set buf' \<subseteq> {..<length segs}"
    using outcome N by (auto simp: spec_outcome_def)
  then have "srx_inv segs B' rx'"
    unfolding srx_inv_def using inv B' old by (intro conjI exI [of _ buf'] exI [of _ "D \<union> set out"]) auto
  moreover have "map (gh_sent (seg_ghost segs)) out = map (\<lambda>n. datagrams_enc (snd (segs ! n))) out"
    using sub by (auto simp: seg_ghost_def)
  ultimately show ?thesis
    using outcome sub by (intro exI [of _ B'] exI [of _ out]) (auto simp: spec_outcome_def)
qed

lemma rx_given_delivers:
  assumes inv: "srx_inv segs B rx" and fit: "segments_fit segs" and young: "length segs + unat SEGMENT_WINDOW_SIZE < 2 ^ 32"
    and given: "rx_given (numbered 0 segs) (sync_known segs) rx rx' bss"
  shows "\<exists>B' ns. srx_inv segs B' rx' \<and> bss = map (\<lambda>n. datagrams_enc (snd (segs ! n))) ns \<and> B \<le> B' \<and> sorted_wrt (<) ns \<and>
    (\<forall>n \<in> set ns. B \<le> n \<and> n < B' \<and> n < length segs)"
proof -
  let ?g = "seg_ghost segs"
  obtain buf D where st: "srx_state ?g B buf D rx" "set buf \<union> D \<subseteq> {..<length segs}" and B: "B \<le> length segs"
    using inv by (auto simp: srx_inv_def)
  note buf = srx_state_parts(3,4) [OF st(1)]
  have fresh: "rx_fresh (gh_window ?g) B n" if "n \<le> length segs" for n
    using that B young by (simp add: rx_fresh_def seg_ghost_def)
  show ?thesis
    using given
  proof cases
    case given_nothing
    with inv show ?thesis
      by (intro exI [of _ B] exI [of _ "[]"]) simp
  next
    case (given_segment i nonce ds n')
    then obtain n where n: "n < length segs" "i = word_of_nat n" "segs ! n = (nonce, ds)"
      by (auto simp: numbered_def)
    obtain B' buf' out where spec: "spec_receive (gh_window ?g) B buf n = (B', buf', out)"
      by (metis prod.exhaust)
    have "length (gh_sent ?g n) \<le> gh_size ?g"
      using fit n nth_mem [OF n(1)] by (auto simp: seg_ghost_def segments_fit_def)
    from receive_refines [OF st(1) fresh [OF less_imp_le [OF n(1)]] this spec] given_segment(2) n
    have rx': "bss = map (gh_sent ?g) out" "srx_state ?g B' buf' (D \<union> set out) rx'"
      by (auto simp: receives_to_def seg_ghost_def)
    have outcome: "spec_outcome B (insert n (set buf)) (B', buf', out)"
      using spec_receive_outcome [of buf B n "gh_window ?g"] buf spec by (simp add: srx_buf_def)
    have "insert n (set buf) \<subseteq> {..<length segs}"
      using n(1) st(2) by auto
    moreover from this have "set out \<subseteq> {..<length segs}"
      using outcome by (auto simp: spec_outcome_def)
    then have "B' \<le> length segs"
      using spec_receive_base [OF spec] B by auto
    ultimately show ?thesis
      using srx_inv_next [OF rx'(2) st(2) outcome] rx'(1) by simp
  next
    case (given_sync i)
    then obtain n where n: "n \<le> length segs" "i = word_of_nat n"
      by (auto simp: sync_known_def)
    obtain B' buf' out where spec: "spec_sync ?g B buf n = (B', buf', out)"
      by (metis prod.exhaust)
    from sync_refines [OF st(1) fresh [OF n(1)] spec] given_sync(2) n
    have rx': "bss = map (gh_sent ?g) out" "srx_state ?g B' buf' (D \<union> set out) rx'"
      by (auto simp: seg_ghost_def)
    have outcome: "spec_outcome B (set buf) (B', buf', out)"
      using spec_sync_outcome [of buf B ?g n] buf spec by (simp add: srx_buf_def)
    have "B' \<le> length segs"
      using spec_sync_base [OF spec] B n(1) by auto
    with srx_inv_next [OF rx'(2) st(2) outcome] st(2) rx'(1) show ?thesis
      by simp
  qed
qed

section \<open>The datagrams of a connection\<close>

text \<open>
  The unreliable datagrams of the segments, in order, are the fragments \<open>sent\<close>; the reliable
  ones are under way in \<open>r\<close>.
\<close>

definition sent_inv :: "RelNet \<Rightarrow> FragmentRc list \<Rightarrow> Segments \<Rightarrow> bool" where
  "sent_inv r sent segs \<longleftrightarrow> segments_fit segs \<and>
     filter dg_unrel (datagrams_of segs) = map (as_datagram True) (tagged sent) \<and>
     (\<forall>d \<in> set (datagrams_of segs). \<not> dg_unrel d \<longrightarrow> (\<exists>m. (m, dg_id d, datagram_fragment d) \<in> net_wire r))"

text \<open>How many unreliable datagrams the segments before the \<open>n\<close>-th have.\<close>

definition unrel_before :: "Segments \<Rightarrow> nat \<Rightarrow> nat" where
  "unrel_before segs n = length (filter dg_unrel (datagrams_of (take n segs)))"

abbreviation nth_fragment :: "FragmentRc list \<Rightarrow> nat \<Rightarrow> Datagram" where
  "nth_fragment sent j \<equiv> as_datagram True (word_of_nat j, sent ! j)"

lemma as_datagram_fragment: "datagram_fragment (as_datagram u (i, f)) = FragmentRef_from f" "dg_id (as_datagram u (i, f)) = i"
    "dg_unrel (as_datagram u x) = u"
  by (simp_all add: datagram_fragment_def as_datagram_def FragmentRef_from_def)

lemma unrel_before_mono: "m \<le> n \<Longrightarrow> unrel_before segs m \<le> unrel_before segs n"
  unfolding unrel_before_def by (metis concat_append filter_append le_add1 le_iff_add length_append map_append take_add)

lemma unrel_before_append: "n \<le> length segs \<Longrightarrow> unrel_before (segs @ gs) n = unrel_before segs n"
  by (simp add: unrel_before_def)

lemma unrel_before_le:
  assumes "sent_inv r sent segs"
  shows "unrel_before segs n \<le> length sent"
proof -
  have "length (filter dg_unrel (datagrams_of segs)) = length sent"
    using assms by (simp add: sent_inv_def tagged_def)
  then show ?thesis
    using unrel_before_mono [of n "max n (length segs)" segs] by (simp add: unrel_before_def)
qed

lemma segment_fragments:
  assumes "sent_inv r sent segs" and "n < length segs"
  shows "filter dg_unrel (snd (segs ! n)) = map (nth_fragment sent) [unrel_before segs n..<unrel_before segs (Suc n)]"
proof -
  let ?k = "unrel_before segs n" and ?u = "filter dg_unrel (snd (segs ! n))"
  have next_k: "unrel_before segs (Suc n) = ?k + length ?u"
    using assms(2) by (simp add: unrel_before_def take_Suc_conv_app_nth)
  have "segs = take n segs @ segs ! n # drop (Suc n) segs"
    by (rule id_take_nth_drop [OF assms(2)])
  then have "filter dg_unrel (datagrams_of segs) =
      filter dg_unrel (datagrams_of (take n segs)) @ ?u @ filter dg_unrel (datagrams_of (drop (Suc n) segs))"
    by (metis concat.simps(2) concat_append filter_append list.simps(9) map_append)
  then have "?u = take (length ?u) (drop ?k (filter dg_unrel (datagrams_of segs)))"
    by (simp add: unrel_before_def)
  moreover have "filter dg_unrel (datagrams_of segs) = map (nth_fragment sent) [0..<length sent]"
    using assms(1) by (simp add: sent_inv_def tagged_def)
  moreover have "?k + length ?u \<le> length sent"
    using unrel_before_le [OF assms(1), of "Suc n"] next_k by simp
  ultimately have "?u = map (nth_fragment sent) [?k..<?k + length ?u]"
    by (simp add: take_map drop_map)
  with next_k show ?thesis
    by simp
qed

section \<open>What is handed out\<close>

text \<open>
  The packets handed out: those of the reliable channel in order, among them others that the
  unreliable receiver built from fragments before the \<open>k\<close>-th, each of which it saw at most
  once and in order.
\<close>

definition handed_out :: "FragmentRc list \<Rightarrow> nat \<Rightarrow> UnrelRx \<Rightarrow> RelNet \<Rightarrow> bytes list \<Rightarrow> bool" where
  "handed_out sent k rx r ps \<longleftrightarrow> (\<exists>rx0 evs us. urx_current_build rx0 = None \<and> log_below k evs \<and>
     unrel_log sent evs rx0 = (rx, us) \<and> ps \<in> shuffles (net_delivered r) us)"

lemma handed_out_start: "urx_current_build rx = None \<Longrightarrow> net_delivered r = [] \<Longrightarrow> handed_out sent 0 rx r []"
  unfolding handed_out_def by (intro exI [of _ rx] exI [of _ "[]"]) (simp add: log_below_def)

lemma handed_out_mono: "handed_out sent k rx r ps \<Longrightarrow> k \<le> k' \<Longrightarrow> net_delivered r' = net_delivered r \<Longrightarrow> handed_out sent k' rx r' ps"
  unfolding handed_out_def by (metis log_below_mono)

lemma handed_out_extend:
  assumes "handed_out sent k rx r ps" and "k \<le> length sent"
  shows "handed_out (sent @ fs) k rx r ps"
proof -
  obtain rx0 evs us where h: "urx_current_build rx0 = None" "log_below k evs" "unrel_log sent evs rx0 = (rx, us)"
      "ps \<in> shuffles (net_delivered r) us"
    using assms(1) by (auto simp: handed_out_def)
  have "unrel_log (sent @ fs) evs rx0 = unrel_log sent evs rx0"
    using h(2) assms(2) by (intro unrel_log_extend) (auto simp: log_below_def)
  with h show ?thesis
    unfolding handed_out_def by (intro exI [of _ rx0] exI [of _ evs] exI [of _ us]) simp
qed

lemma handed_out_reset:
  assumes "handed_out sent k rx r ps"
  shows "handed_out sent k (unrel_rx_reset rx) r ps"
proof -
  obtain rx0 evs us where h: "urx_current_build rx0 = None" "log_below k evs" "unrel_log sent evs rx0 = (rx, us)"
      "ps \<in> shuffles (net_delivered r) us"
    using assms(1) by (auto simp: handed_out_def)
  with log_below_snoc(2) [OF h(2)] show ?thesis
    unfolding handed_out_def
    by (intro exI [of _ rx0] exI [of _ "evs @ [None]"] exI [of _ us]) (simp add: unrel_log_append)
qed

lemma handed_out_unrel:
  assumes "handed_out sent k rx r ps" and "unrel_rx_receive rx (word_of_nat k) (FragmentRef_from (sent ! k)) = (rx', p)"
  shows "handed_out sent (Suc k) rx' r (ps @ (case p of None \<Rightarrow> [] | Some q \<Rightarrow> [q]))"
proof -
  obtain rx0 evs us where h: "urx_current_build rx0 = None" "log_below k evs" "unrel_log sent evs rx0 = (rx, us)"
      "ps \<in> shuffles (net_delivered r) us"
    using assms(1) by (auto simp: handed_out_def)
  let ?us = "us @ (case p of None \<Rightarrow> [] | Some q \<Rightarrow> [q])"
  have "ps @ (case p of None \<Rightarrow> [] | Some q \<Rightarrow> [q]) \<in> shuffles (net_delivered r) ?us"
    using h(4) shuffles_snoc(2) by (cases p) auto
  with h log_below_snoc(1) [OF h(2) order_refl] assms(2) show ?thesis
    unfolding handed_out_def
    by (intro exI [of _ rx0] exI [of _ "evs @ [Some k]"] exI [of _ ?us]) (simp add: unrel_log_append)
qed

lemma handed_out_rel:
  assumes "handed_out sent k rx r ps" and "net_delivered r' = net_delivered r @ (case p of None \<Rightarrow> [] | Some q \<Rightarrow> [q])"
  shows "handed_out sent k rx r' (ps @ (case p of None \<Rightarrow> [] | Some q \<Rightarrow> [q]))"
proof -
  obtain rx0 evs us where h: "urx_current_build rx0 = None" "log_below k evs" "unrel_log sent evs rx0 = (rx, us)"
      "ps \<in> shuffles (net_delivered r) us"
    using assms(1) by (auto simp: handed_out_def)
  have "ps @ (case p of None \<Rightarrow> [] | Some q \<Rightarrow> [q]) \<in> shuffles (net_delivered r') us"
    using h(4) assms(2) shuffles_snoc(1) by (cases p) auto
  with h show ?thesis
    unfolding handed_out_def by blast
qed

text \<open>Everything but the receiving end is as it was.\<close>

definition net_same :: "RelNet \<Rightarrow> RelNet \<Rightarrow> bool" where
  "net_same r r' \<longleftrightarrow> net_wire r' = net_wire r \<and> net_acks r' = net_acks r \<and> net_tx r' = net_tx r \<and> net_pushed r' = net_pushed r"

definition receiving :: "FragmentRc list \<Rightarrow> nat \<Rightarrow> bytes list \<Rightarrow> RelNet \<Rightarrow> Delivery \<Rightarrow> bool" where
  "receiving sent k ps r dv \<longleftrightarrow> net_inv 0 FRAGMENT_SIZE r \<and> length (net_fragments r) < 2 ^ 32 \<and>
     net_rx r = dv_reliable_rx dv \<and> handed_out sent k (dv_unreliable_rx dv) r (ps @ dv_packets dv)"

lemma receive_unreliable:
  assumes inv: "receiving sent k ps r dv" and d: "d = nth_fragment sent k"
  shows "receiving sent (Suc k) ps r (receive_datagram d dv)"
proof -
  obtain rx p where r: "unrel_rx_receive (dv_unreliable_rx dv) (word_of_nat k) (FragmentRef_from (sent ! k)) = (rx, p)"
    by fastforce
  have "handed_out sent k (dv_unreliable_rx dv) r (ps @ dv_packets dv)"
    using inv by (simp add: receiving_def)
  from handed_out_unrel [OF this r] inv d r show ?thesis
    by (cases p) (simp_all add: receiving_def receive_datagram_def as_datagram_fragment)
qed

lemma receive_reliable:
  assumes inv: "receiving sent k ps r dv" and wire: "(m, dg_id d, datagram_fragment d) \<in> net_wire r" and d: "\<not> dg_unrel d"
  shows "\<exists>r'. net_same r r' \<and> receiving sent k ps r' (receive_datagram d dv)"
proof -
  obtain rx p where p: "rel_rx_receive (dv_reliable_rx dv) (dg_id d) (datagram_fragment d) = (rx, p)"
    by fastforce
  let ?r = "net_deliver (dg_id d) (datagram_fragment d) r"
  have net: "net_inv 0 FRAGMENT_SIZE r" "length (net_fragments r) < 2 ^ 32" "net_rx r = dv_reliable_rx dv"
      "handed_out sent k (dv_unreliable_rx dv) r (ps @ dv_packets dv)"
    using inv by (simp_all add: receiving_def)
  have "net_received r \<le> length (net_fragments r)"
    using net(1) net_top_le [of 0 FRAGMENT_SIZE r] by (simp add: net_inv_def net_rx_inv_def)
  then have r': "net_inv 0 FRAGMENT_SIZE ?r"
    using net_deliver_inv [OF net(1) wire] net(2) by simp
  have same: "net_same r ?r" "net_rx ?r = rx" "net_delivered ?r = net_delivered r @ (case p of None \<Rightarrow> [] | Some p \<Rightarrow> [p])"
    using p net(3) by (simp_all add: net_same_def net_deliver_def)
  have frags: "net_fragments ?r = net_fragments r"
    using same(1) by (intro net_fragments_cong) (simp_all add: net_same_def)
  show ?thesis
    using same r' net(2) frags d p handed_out_rel [OF net(4) same(3)]
    by (intro exI [of _ ?r]) (cases p; simp add: receiving_def receive_datagram_def)
qed

lemma receive_datagrams:
  assumes "receiving sent k ps r dv" and "filter dg_unrel ds = map (nth_fragment sent) [k..<k']" and "k \<le> k'"
    and "\<forall>d \<in> set ds. \<not> dg_unrel d \<longrightarrow> (\<exists>m. (m, dg_id d, datagram_fragment d) \<in> net_wire r)"
  shows "\<exists>r'. net_same r r' \<and> receiving sent k' ps r' (fold receive_datagram ds dv)"
  using assms
proof (induction ds arbitrary: k r dv)
  case Nil
  then have "k = k'"
    by auto
  with Nil show ?case
    by (intro exI [of _ r]) (simp add: net_same_def)
next
  case (Cons d ds)
  show ?case
  proof (cases "dg_unrel d")
    case True
    with Cons.prems(2) have k: "k < k'"
      by (cases "k < k'") simp_all
    with True Cons.prems(2) have "d = nth_fragment sent k" "filter dg_unrel ds = map (nth_fragment sent) [Suc k..<k']"
      by (simp_all add: upt_conv_Cons)
    with Cons.IH [of "Suc k" r "receive_datagram d dv"] receive_unreliable [OF Cons.prems(1)] k Cons.prems(4) show ?thesis
      by simp
  next
    case False
    obtain r1 where r1: "net_same r r1" "receiving sent k ps r1 (receive_datagram d dv)"
      using receive_reliable [OF Cons.prems(1) _ False] Cons.prems(4) False by auto
    have "\<forall>d \<in> set ds. \<not> dg_unrel d \<longrightarrow> (\<exists>m. (m, dg_id d, datagram_fragment d) \<in> net_wire r1)"
      using Cons.prems(4) r1(1) by (simp add: net_same_def)
    from Cons.IH [OF r1(2) _ Cons.prems(3) this] Cons.prems(2) False r1(1) show ?thesis
      by (auto simp: net_same_def)
  qed
qed

text \<open>Segments in order, from \<open>B\<close> on and before \<open>B'\<close>.\<close>

lemma receive_in_order:
  assumes "receiving sent (unrel_before segs B) ps r dv" and "sent_inv r sent segs"
    and "receive_segments (map (\<lambda>n. datagrams_enc (snd (segs ! n))) ns) dv = Some dv'"
    and "sorted_wrt (<) ns" and "B \<le> B'" and "\<forall>n \<in> set ns. B \<le> n \<and> n < B' \<and> n < length segs"
  shows "\<exists>r'. net_same r r' \<and> receiving sent (unrel_before segs B') ps r' dv'"
  using assms
proof (induction ns arbitrary: B r dv)
  case Nil
  then have "receiving sent (unrel_before segs B') ps r dv'"
    using handed_out_mono [OF _ unrel_before_mono [of B B' segs] refl] by (auto simp: receiving_def)
  then show ?case
    by (intro exI [of _ r]) (simp add: net_same_def)
next
  case (Cons n ns)
  have n: "B \<le> n" "n < B'" "n < length segs"
    using Cons.prems(6) by simp_all
  have at_n: "receiving sent (unrel_before segs n) ps r dv"
    using Cons.prems(1) handed_out_mono [OF _ unrel_before_mono [OF n(1)] refl] by (auto simp: receiving_def)
  have fit: "\<forall>d \<in> set (snd (segs ! n)). length (dg_data d) \<le> FRAGMENT_SIZE"
    using Cons.prems(2) nth_mem [OF n(3)] by (fastforce simp: sent_inv_def segments_fit_def)
  have "\<forall>d \<in> set (snd (segs ! n)). \<not> dg_unrel d \<longrightarrow> (\<exists>m. (m, dg_id d, datagram_fragment d) \<in> net_wire r)"
    using Cons.prems(2) nth_mem [OF n(3)] by (fastforce simp: sent_inv_def)
  from receive_datagrams [OF at_n segment_fragments [OF Cons.prems(2) n(3)] unrel_before_mono this]
  obtain r1 where r1: "net_same r r1" "receiving sent (unrel_before segs (Suc n)) ps r1 (fold receive_datagram (snd (segs ! n)) dv)"
    by auto
  have "sent_inv r1 sent segs"
    using Cons.prems(2) r1(1) by (simp add: sent_inv_def net_same_def)
  moreover have "receive_segments (map (\<lambda>n. datagrams_enc (snd (segs ! n))) ns) (fold receive_datagram (snd (segs ! n)) dv) = Some dv'"
    using Cons.prems(3) receive_segment_datagrams [OF fit] by simp
  ultimately obtain r2 where "net_same r1 r2" "receiving sent (unrel_before segs B') ps r2 dv'"
    using Cons.IH [OF r1(2)] Cons.prems(4,6) n(2) by (auto simp: Suc_le_eq)
  with r1(1) show ?case
    by (intro exI [of _ r2]) (simp add: net_same_def)
qed

end
