(* ===== verification/Stream_Net.thy ===== *)
theory Stream_Net
  imports Stream_Buffers
begin

text \<open>
  Two endpoints joined by a network that may lose, duplicate, delay and reorder their frames,
  but does not invent any. What one accepts as reliable packets the other hands out in the
  same order, whatever happens in between, and of the unreliable packets some, in order and
  at most once: the proof carries a run of the endpoints over to runs of the reliable buffers,
  of the segment receiver and of the unreliable buffers, whose invariants give the result.
\<close>

section \<open>A connection over a network\<close>

text \<open>
  \<open>cn_a\<close> sends to \<open>cn_b\<close>; each has the timer its host keeps for it. The frames either of them
  ever sent stay in \<open>cn_ab\<close> and \<open>cn_ba\<close>. The packets \<open>cn_a\<close> accepted and those \<open>cn_b\<close> handed out
  are recorded in order.
\<close>

record ConnNet =
  cn_a :: Endpoint
  cn_ta :: "u64 option"
  cn_b :: Endpoint
  cn_tb :: "u64 option"
  cn_ab :: "bytes list"
  cn_ba :: "bytes list"
  cn_rel :: "bytes list"
  cn_unrel :: "bytes list"
  cn_received :: "bytes list"

definition conn_net_start :: "EndpointConfig \<Rightarrow> EndpointConfig \<Rightarrow> ConnNet rust" where
  "conn_net_start config_a config_b = do {
     a \<leftarrow> Endpoint_new config_a;
     b \<leftarrow> Endpoint_new config_b;
     Some \<lparr>cn_a = fst (endpoint_init a), cn_ta = None, cn_b = fst (endpoint_init b), cn_tb = None,
       cn_ab = [], cn_ba = [], cn_rel = [], cn_unrel = [], cn_received = []\<rparr> }"

text \<open>
  A host passes on the type and the body of a frame that satisfies its checks; the frame is
  one of those the other side sent.
\<close>

definition genuine :: "bytes list \<Rightarrow> TimedCall \<Rightarrow> bool" where
  "genuine wire c \<longleftrightarrow> (\<forall>ft body. fst c = CallFrame ft body \<longrightarrow>
     (\<exists>bs \<in> set wire. verify_minimum_size bs \<and> verify_crc bs = Some True \<and> read_type bs = Some (Some ft) \<and> payload bs = Some body))"

fun accepted :: "Endpoint \<Rightarrow> HostCall \<Rightarrow> (SendMode \<times> bytes) option" where
  "accepted ep (CallEnqueue p mode) = (if ep_state_id ep = Active then Some (mode, p) else None)"
| "accepted ep _ = None"

definition queued_rel :: "Endpoint \<Rightarrow> HostCall \<Rightarrow> bytes list" where
  "queued_rel ep c = (case accepted ep c of Some (SendReliable, p) \<Rightarrow> [p] | _ \<Rightarrow> [])"

definition queued_unrel :: "Endpoint \<Rightarrow> HostCall \<Rightarrow> bytes list" where
  "queued_unrel ep c = (case accepted ep c of Some (SendUnreliable timeout, p) \<Rightarrow> [p] | _ \<Rightarrow> [])"

inductive conn_net_step :: "ConnNet \<Rightarrow> ConnNet \<Rightarrow> bool" where
  a_call: "genuine (cn_ba s) c \<Longrightarrow> host_step c (cn_a s) (cn_ta s) = Some (ep, t, out) \<Longrightarrow>
    conn_net_step s (s\<lparr>cn_a := ep, cn_ta := t, cn_ab := cn_ab s @ sent_frames out,
      cn_rel := cn_rel s @ queued_rel (cn_a s) (fst c), cn_unrel := cn_unrel s @ queued_unrel (cn_a s) (fst c)\<rparr>)"
| b_call: "genuine (cn_ab s) c \<Longrightarrow> host_step c (cn_b s) (cn_tb s) = Some (ep, t, out) \<Longrightarrow>
    conn_net_step s (s\<lparr>cn_b := ep, cn_tb := t, cn_ba := cn_ba s @ sent_frames out,
      cn_received := cn_received s @ received out\<rparr>)"

text \<open>
  The fragments queued so far on each channel, and the frames sent, are fewer than the
  identifiers there are, less a window.
\<close>

definition fragment_count :: "bytes list \<Rightarrow> nat" where
  "fragment_count ps = length (concat (map (packet_fragments FRAGMENT_SIZE) ps))"

definition cn_young :: "ConnNet \<Rightarrow> bool" where
  "cn_young s \<longleftrightarrow> fragment_count (cn_rel s) + unat FRAGMENT_WINDOW_SIZE < 2 ^ 32 \<and> fragment_count (cn_unrel s) < 2 ^ 32 \<and>
     length (cn_ab s) + unat SEGMENT_WINDOW_SIZE < 2 ^ 32"

section \<open>The invariant\<close>

definition wire_ok :: "(u32 option \<Rightarrow> bool) \<Rightarrow> SegmentPred \<Rightarrow> (u32 \<Rightarrow> bool) \<Rightarrow> bytes list \<Rightarrow> bool" where
  "wire_ok K S Y wire \<longleftrightarrow> (\<forall>bs \<in> set wire. length bs \<le> FRAME_SIZE_MAX \<and> frame_bytes_ok K S Y bs)"

text \<open>The run of the reliable buffers that a run of the endpoints contains.\<close>

definition cn_rel_net :: "RelNet \<Rightarrow> ConnNet \<Rightarrow> bool" where
  "cn_rel_net r s \<longleftrightarrow>
     net_inv 0 FRAGMENT_SIZE r \<and> win_size (rtx_send_window (ftb_rel (ep_fragment_tx (cn_a s)))) = FRAGMENT_WINDOW_SIZE \<and>
     net_tx r = ftb_rel (ep_fragment_tx (cn_a s)) \<and> net_rx r = ep_reliable_rx (cn_b s) \<and> net_pushed r = cn_rel s"

abbreviation any :: "'a \<Rightarrow> bool" where
  "any \<equiv> \<lambda>x. True"

abbreviation any_segment :: SegmentPred where
  "any_segment \<equiv> \<lambda>i nonce ds. True"

text \<open>
  \<open>sent\<close> are the unreliable fragments and \<open>segs\<close> the segments sent so far; the segments before
  the \<open>B\<close>-th are done with.
\<close>

definition cn_sender :: "RelNet \<Rightarrow> FragmentRc list \<Rightarrow> Segments \<Rightarrow> ConnNet \<Rightarrow> bool" where
  "cn_sender r sent segs s \<longleftrightarrow>
     utx_inv FRAGMENT_SIZE (cn_unrel s) sent (ftb_unrel (ep_fragment_tx (cn_a s))) \<and> sent_inv r sent segs \<and>
     length segs \<le> length (cn_ab s) \<and> ep_next_segment (cn_a s) = word_of_nat (length segs) \<and>
     endpoint_wf (cn_a s) \<and> timer_ok (cn_ta s) (cn_a s) \<and> wire_ok any (numbered 0 segs) (sync_known segs) (cn_ab s)"

definition cn_receiver :: "RelNet \<Rightarrow> FragmentRc list \<Rightarrow> Segments \<Rightarrow> nat \<Rightarrow> ConnNet \<Rightarrow> bool" where
  "cn_receiver r sent segs B s \<longleftrightarrow>
     srx_inv segs B (ep_segment_rx (cn_b s)) \<and> endpoint_wf (cn_b s) \<and> timer_ok (cn_tb s) (cn_b s) \<and>
     wire_ok (ack_known r) any_segment any (cn_ba s) \<and>
     handed_out sent (unrel_before segs B) (ep_unreliable_rx (cn_b s)) r (cn_received s)"

definition cn_inv :: "RelNet \<Rightarrow> FragmentRc list \<Rightarrow> Segments \<Rightarrow> nat \<Rightarrow> ConnNet \<Rightarrow> bool" where
  "cn_inv r sent segs B s \<longleftrightarrow> cn_rel_net r s \<and> cn_sender r sent segs s \<and> cn_receiver r sent segs B s"

lemmas cn_inv_defs = cn_inv_def cn_sender_def cn_receiver_def

lemma wire_ok_mono:
  "wire_ok K S Y wire \<Longrightarrow> (\<And>r. K r \<Longrightarrow> K' r) \<Longrightarrow> (\<And>i nonce ds. S i nonce ds \<Longrightarrow> S' i nonce ds) \<Longrightarrow> (\<And>i. Y i \<Longrightarrow> Y' i) \<Longrightarrow>
     wire_ok K' S' Y' wire"
  unfolding wire_ok_def by (blast intro: frame_bytes_ok_mono)

lemma wire_ok_append [simp]: "wire_ok K S Y (xs @ ys) \<longleftrightarrow> wire_ok K S Y xs \<and> wire_ok K S Y ys"
  by (auto simp: wire_ok_def)

lemma ack_known_mono: "ack_known s r \<Longrightarrow> net_acks s \<subseteq> net_acks s' \<Longrightarrow> ack_known s' r"
  by (auto simp: ack_known_def)

lemma sync_known_append: "sync_known segs i \<Longrightarrow> sync_known (segs @ gs) i"
  by (auto simp: sync_known_def intro: trans_le_add1)

text \<open>A call with a genuine frame is one the endpoint can take.\<close>

lemma genuine_fits:
  assumes "wire_ok K S Y wire" and "genuine wire c"
  shows "call_fits c" "fst c = CallFrame ft body \<Longrightarrow> frame_ok K S Y ft body"
proof -
  have frame: "length body \<le> FRAME_SIZE_MAX \<and> frame_ok K S Y ft body" if c: "fst c = CallFrame ft body" for ft body
  proof -
    obtain bs where bs: "bs \<in> set wire" "verify_minimum_size bs" "read_type bs = Some (Some ft)" "payload bs = Some body"
      using assms(2) c unfolding genuine_def by blast
    have ok: "length bs \<le> FRAME_SIZE_MAX" "frame_bytes_ok K S Y bs"
      using assms(1) bs(1) by (simp_all add: wire_ok_def)
    have "length body \<le> length bs"
      using frame_checks_total [OF bs(2)] bs(4) by fastforce
    with ok(1) frame_bytes_okD [OF ok(2) bs(3,4)] show ?thesis
      by simp
  qed
  show "fst c = CallFrame ft body \<Longrightarrow> frame_ok K S Y ft body"
    using frame by blast
  show "call_fits c"
    using frame by (cases c rule: call_fits.cases) auto
qed

lemma sent_frames_iff: "bs \<in> set (sent_frames out) \<longleftrightarrow> SendFrame bs \<in> set out"
  by (induction out rule: sent_frames.induct) auto

text \<open>A call keeps an endpoint in order, and what it sends fits a frame.\<close>

lemma host_step_sides:
  assumes "endpoint_wf ep" and "timer_ok t ep" and "call_fits c" and "host_step c ep t = Some (ep', t', out)"
  shows "endpoint_wf ep'" "timer_ok t' ep'" "\<forall>bs \<in> set (sent_frames out). length bs \<le> FRAME_SIZE_MAX"
proof -
  show "endpoint_wf ep'" "timer_ok t' ep'"
    using host_step_ok [OF assms(1-3)] assms(4) by auto
  have "frames_fit out"
    using host_step_ok [OF assms(1-3)] assms(4) by auto
  then show "\<forall>bs \<in> set (sent_frames out). length bs \<le> FRAME_SIZE_MAX"
    by (simp add: frames_fit_def sent_frames_iff)
qed

lemma no_push: "set ops \<subseteq> insert UPop (range UPopExpired) \<Longrightarrow> pushed_packets ops = []"
  by (induction ops rule: pushed_packets.induct) auto

text \<open>The facts about the buffers that the invariant holds.\<close>

lemma cn_rel_netD:
  assumes "cn_rel_net r s"
  shows "net_inv 0 FRAGMENT_SIZE r" "win_size (rtx_send_window (net_tx r)) = FRAGMENT_WINDOW_SIZE"
    "net_tx r = ftb_rel (ep_fragment_tx (cn_a s))" "net_rx r = ep_reliable_rx (cn_b s)" "net_pushed r = cn_rel s"
    "length (net_fragments r) = fragment_count (cn_rel s)"
proof -
  show "length (net_fragments r) = fragment_count (cn_rel s)"
    using assms by (auto simp: cn_rel_net_def net_fragments_def net_inv_def net_tx_inv_def fragment_count_def)
qed (use assms in \<open>simp_all add: cn_rel_net_def\<close>)

text \<open>The segments a flush added, and the fragments in them.\<close>

lemma sent_inv_flush:
  assumes "sent_inv r sent segs" and "net_wire r \<subseteq> net_wire r'" and "segments_fit gs"
    and "filter dg_unrel (datagrams_of gs) = map (as_datagram True) utr" and "tagged (sent @ map snd utr) = tagged sent @ utr"
    and "filter (\<lambda>d. \<not> dg_unrel d) (datagrams_of gs) = map (as_datagram False) tr"
    and "\<forall>(i, f) \<in> set tr. \<exists>m. (m, i, FragmentRef_from f) \<in> net_wire r'"
  shows "sent_inv r' (sent @ map snd utr) (segs @ gs)"
proof -
  have "\<exists>m. (m, dg_id d, datagram_fragment d) \<in> net_wire r'" if "d \<in> set (datagrams_of gs)" "\<not> dg_unrel d" for d
  proof -
    have "d \<in> set (filter (\<lambda>d. \<not> dg_unrel d) (datagrams_of gs))"
      using that by simp
    then obtain i f where "(i, f) \<in> set tr" "d = as_datagram False (i, f)"
      unfolding assms(6) by auto
    with assms(7) show ?thesis
      by (auto simp: as_datagram_fragment)
  qed
  moreover have "\<exists>m. (m, dg_id d, datagram_fragment d) \<in> net_wire r'" if "d \<in> set (datagrams_of segs)" "\<not> dg_unrel d" for d
    using assms(1,2) that unfolding sent_inv_def by blast
  moreover have "segments_fit (segs @ gs)"
    using assms(1,3) by (auto simp: sent_inv_def segments_fit_def)
  moreover have "filter dg_unrel (datagrams_of (segs @ gs)) = map (as_datagram True) (tagged (sent @ map snd utr))"
    using assms(1,4,5) by (simp add: sent_inv_def)
  moreover have "set (datagrams_of (segs @ gs)) = set (datagrams_of segs) \<union> set (datagrams_of gs)"
    by simp
  ultimately show ?thesis
    unfolding sent_inv_def by blast
qed

text \<open>The other side does not notice.\<close>

lemma cn_receiver_later:
  assumes rx: "cn_receiver r sent segs B s" and sent: "sent_inv r sent segs" and later: "net_later r r'"
    and same: "net_delivered r' = net_delivered r" "cn_b s' = cn_b s" "cn_tb s' = cn_tb s" "cn_ba s' = cn_ba s" "cn_received s' = cn_received s"
  shows "cn_receiver r' (sent @ fs) (segs @ gs) B s'"
proof -
  have B: "B \<le> length segs"
    using rx by (simp add: cn_receiver_def srx_inv_def)
  have "handed_out (sent @ fs) (unrel_before segs B) (ep_unreliable_rx (cn_b s)) r (cn_received s)"
    using rx handed_out_extend [OF _ unrel_before_le [OF sent]] by (simp add: cn_receiver_def)
  then have "handed_out (sent @ fs) (unrel_before (segs @ gs) B) (ep_unreliable_rx (cn_b s)) r' (cn_received s)"
    using handed_out_mono [where r' = r'] same(1) unrel_before_append [OF B] by simp
  moreover have "wire_ok (ack_known r') any_segment any (cn_ba s)"
    using rx wire_ok_mono [of "ack_known r" any_segment any "cn_ba s" "ack_known r'" any_segment any] ack_known_mono [of r _ r'] later
    by (simp add: cn_receiver_def net_later_def)
  ultimately show ?thesis
    using rx srx_inv_extend same(2-5) by (simp add: cn_receiver_def)
qed

text \<open>The frames of a flush carry its segments, which come after those sent before.\<close>

lemma wire_ok_flush:
  assumes "wire_ok any (numbered 0 segs) (sync_known segs) wire" and "i = word_of_nat (length segs)"
    and "\<forall>bs \<in> set frames. frame_bytes_ok K (numbered i gs) (\<lambda>j. j = i) bs"
    and "\<forall>bs \<in> set frames. length bs \<le> FRAME_SIZE_MAX"
  shows "wire_ok any (numbered 0 (segs @ gs)) (sync_known (segs @ gs)) (wire @ frames)"
proof -
  let ?S = "numbered 0 (segs @ gs)" and ?Y = "sync_known (segs @ gs)"
  have "numbered i gs j nonce ds \<Longrightarrow> ?S j nonce ds" for j nonce ds
    using numbered_right [of 0 segs gs] assms(2) by simp
  moreover have "?Y i"
    unfolding sync_known_def assms(2) by (intro exI [of _ "length segs"]) simp
  ultimately have "frame_bytes_ok any ?S ?Y bs" if "bs \<in> set frames" for bs
    using frame_bytes_ok_mono [OF bspec [OF assms(3) that], of any ?S ?Y] by blast
  moreover have "wire_ok any ?S ?Y wire"
    using wire_ok_mono [OF assms(1), of any ?S ?Y] numbered_left sync_known_append by blast
  ultimately show ?thesis
    using assms(4) by (auto simp: wire_ok_def)
qed

text \<open>A call on the sending side, other than a push.\<close>

lemma a_call_inv:
  assumes inv: "cn_inv r sent segs B s" and young: "cn_young s" and gen: "genuine (cn_ba s) c" and push: "\<forall>p mode. fst c \<noteq> CallEnqueue p mode"
    and run: "host_step c (cn_a s) (cn_ta s) = Some (ep, t, out)"
  shows "\<exists>r' sent' segs'. cn_inv r' sent' segs' B (s\<lparr>cn_a := ep, cn_ta := t, cn_ab := cn_ab s @ sent_frames out\<rparr>)"
proof -
  let ?a = "cn_a s" and ?s = "s\<lparr>cn_a := ep, cn_ta := t, cn_ab := cn_ab s @ sent_frames out\<rparr>"
  have tx_side: "cn_sender r sent segs s" and rx_side: "cn_receiver r sent segs B s" and rel: "cn_rel_net r s"
    using inv by (simp_all add: cn_inv_def)
  have a: "endpoint_wf ?a" "timer_ok (cn_ta s) ?a" "utx_inv FRAGMENT_SIZE (cn_unrel s) sent (ftb_unrel (ep_fragment_tx ?a))"
      "sent_inv r sent segs" "ep_next_segment ?a = word_of_nat (length segs)" "length segs \<le> length (cn_ab s)"
      "wire_ok any (numbered 0 segs) (sync_known segs) (cn_ab s)" and wire: "wire_ok (ack_known r) any_segment any (cn_ba s)"
    using tx_side rx_side by (simp_all add: cn_sender_def cn_receiver_def)
  note fits = genuine_fits [OF wire gen] and net = cn_rel_netD [OF rel]
  note sides = host_step_sides [OF a(1,2) fits(1) run]
  obtain tx gs where tx: "rel_fed (ack_known r) (ftb_rel (ep_fragment_tx ?a)) tx" "moves any_segment any tx ?a ep out gs"
    using host_step_moves [OF a(1,2) fits(1) fits(2) _ run] push by blast
  obtain ops utr tr where m: "set ops \<subseteq> insert UPop (range UPopExpired)"
      "unrel_tx_run ops (ftb_unrel (ep_fragment_tx ?a)) = (ftb_unrel (ep_fragment_tx ep), utr)"
      "filter dg_unrel (datagrams_of gs) = map (as_datagram True) utr"
      "rel_drained tx (ftb_rel (ep_fragment_tx ep)) tr" "filter (\<lambda>d. \<not> dg_unrel d) (datagrams_of gs) = map (as_datagram False) tr"
    using tx(2) unfolding moves_def drained_def unrel_drained_def by blast
  have g: "segments_fit gs" "length gs \<le> length (sent_frames out)" "ep_next_segment ep = ep_next_segment ?a + word_of_nat (length gs)"
      "\<forall>bs \<in> set (sent_frames out). frame_bytes_ok (acks_next ep) (numbered (ep_next_segment ?a) gs) (\<lambda>i. i = ep_next_segment ?a) bs"
    using tx(2) by (simp_all add: moves_def)
  obtain r' where r': "net_inv 0 FRAGMENT_SIZE r'" "net_later r r'" "net_tx r' = ftb_rel (ep_fragment_tx ep)" "net_rx r' = net_rx r"
      "net_pushed r' = net_pushed r" "net_delivered r' = net_delivered r"
      "\<forall>(i, f) \<in> set tr. \<exists>m. (m, i, FragmentRef_from f) \<in> net_wire r'"
    using net_call [OF tx(1) [folded net(3)] m(4) net(1)] young net(2,6) by (auto simp: cn_young_def)
  let ?sent = "sent @ map snd utr" and ?segs = "segs @ gs"
  note drain = utx_drain [OF a(3) m(2) no_push [OF m(1)]]
  have "cn_rel_net r' ?s"
    using net r'(1-5) by (simp add: cn_rel_net_def net_later_def)
  moreover have "sent_inv r' ?sent ?segs"
    using sent_inv_flush [OF a(4) _ g(1) m(3) drain(2) m(5) r'(7)] r'(2) by (simp add: net_later_def)
  then have "cn_sender r' ?sent ?segs ?s"
    using drain(1) g(2,3) a(5,6) sides(1,2) wire_ok_flush [OF a(7,5) g(4) sides(3)] by (simp add: cn_sender_def)
  moreover have "cn_receiver r' ?sent ?segs B ?s"
    by (rule cn_receiver_later [OF rx_side a(4) r'(2,6)]) simp_all
  ultimately show ?thesis
    unfolding cn_inv_def by (intro exI [of _ r'] exI [of _ ?sent] exI [of _ ?segs]) simp
qed

text \<open>A push on the sending side.\<close>

lemma a_push_inv:
  assumes inv: "cn_inv r sent segs B s"
  shows "\<exists>r'. cn_inv r' sent segs B (s\<lparr>cn_a := endpoint_enqueue (cn_a s) p mode now,
    cn_rel := cn_rel s @ queued_rel (cn_a s) (CallEnqueue p mode),
    cn_unrel := cn_unrel s @ queued_unrel (cn_a s) (CallEnqueue p mode)\<rparr>)"
proof (cases "ep_state_id (cn_a s) = Active")
  case False
  with inv show ?thesis
    by (intro exI [of _ r]) (simp add: endpoint_enqueue_def queued_rel_def queued_unrel_def)
next
  case True
  let ?a = "endpoint_enqueue (cn_a s) p mode now"
  have side: "endpoint_wf ?a" "timer_ok (cn_ta s) ?a" "ep_next_segment ?a = ep_next_segment (cn_a s)"
    using inv endpoint_enqueue_ok [of "cn_a s" "cn_ta s" p mode now]
    by (simp_all add: cn_inv_defs op_ok_def) (simp add: endpoint_enqueue_def)
  show ?thesis
  proof (cases mode)
    case SendReliable
    have same: "sent_inv (net_push p r) = sent_inv r" "ack_known (net_push p r) = ack_known r"
        "handed_out a k b (net_push p r) = handed_out a k b r" for a k b
      by (simp_all add: fun_eq_iff sent_inv_def ack_known_def handed_out_def net_push_def)
    have "net_inv 0 FRAGMENT_SIZE (net_push p r)"
      using inv net_push_inv by (simp add: cn_inv_def cn_rel_net_def)
    then have "cn_rel_net (net_push p r) (s\<lparr>cn_a := ?a, cn_rel := cn_rel s @ [p]\<rparr>)"
      using inv True SendReliable
      by (simp add: cn_inv_def cn_rel_net_def endpoint_enqueue_def ftb_enqueue_def) (simp add: net_push_def rel_tx_push_def)
    moreover have "ftb_unrel (ep_fragment_tx ?a) = ftb_unrel (ep_fragment_tx (cn_a s))"
      using SendReliable by (simp add: endpoint_enqueue_def ftb_enqueue_def)
    ultimately show ?thesis
      using inv side True SendReliable
      by (intro exI [of _ "net_push p r"]) (simp add: cn_inv_defs same queued_rel_def queued_unrel_def cn_rel_net_def)
  next
    case (SendUnreliable timeout)
    have "utx_inv FRAGMENT_SIZE (cn_unrel s @ [p]) sent (ftb_unrel (ep_fragment_tx ?a))"
        "ftb_rel (ep_fragment_tx ?a) = ftb_rel (ep_fragment_tx (cn_a s))"
      using inv utx_push True SendUnreliable by (simp_all add: cn_inv_defs endpoint_enqueue_def ftb_enqueue_def)
    with inv side True SendUnreliable show ?thesis
      by (intro exI [of _ r]) (simp add: cn_inv_defs cn_rel_net_def queued_rel_def queued_unrel_def)
  qed
qed

text \<open>A call on the receiving side.\<close>

lemma receives_inv:
  assumes inv: "cn_inv r sent segs B s" and young: "cn_young s"
    and rcv: "receives (numbered 0 segs) (sync_known segs) (cn_b s) ep ps"
  shows "\<exists>r' B'. net_same r r' \<and> net_inv 0 FRAGMENT_SIZE r' \<and> net_rx r' = ep_reliable_rx ep \<and> srx_inv segs B' (ep_segment_rx ep) \<and>
    handed_out sent (unrel_before segs B') (ep_unreliable_rx ep) r' (cn_received s @ ps)"
proof -
  have sent: "sent_inv r sent segs" "length segs + unat SEGMENT_WINDOW_SIZE < 2 ^ 32" "srx_inv segs B (ep_segment_rx (cn_b s))"
    using inv young by (simp_all add: cn_inv_defs cn_young_def)
  then have fit: "segments_fit segs"
    by (simp add: sent_inv_def)
  note net = cn_rel_netD [of r s]
  obtain bss dv where dv: "rx_given (numbered 0 segs) (sync_known segs) (ep_segment_rx (cn_b s)) (ep_segment_rx ep) bss"
      "receive_segments bss (delivery_start (cn_b s)) = Some dv" "ps = dv_packets dv" "ep_reliable_rx ep = dv_reliable_rx dv"
      "ep_unreliable_rx ep = dv_unreliable_rx dv \<or> ep_unreliable_rx ep = unrel_rx_reset (dv_unreliable_rx dv)"
    using rcv by (auto simp: receives_def)
  obtain B' ns where ns: "srx_inv segs B' (ep_segment_rx ep)" "bss = map (\<lambda>n. datagrams_enc (snd (segs ! n))) ns" "B \<le> B'"
      "sorted_wrt (<) ns" "\<forall>n \<in> set ns. B \<le> n \<and> n < B' \<and> n < length segs"
    using rx_given_delivers [OF sent(3) fit sent(2) dv(1)] by blast
  have "receiving sent (unrel_before segs B) (cn_received s) r (delivery_start (cn_b s))"
    using inv young net by (simp add: receiving_def cn_inv_defs cn_young_def delivery_start_def)
  from receive_in_order [OF this sent(1) dv(2) [unfolded ns(2)] ns(4,3,5)]
  obtain r' where r': "net_same r r'" "receiving sent (unrel_before segs B') (cn_received s) r' dv"
    by blast
  moreover from this(2) have "handed_out sent (unrel_before segs B') (ep_unreliable_rx ep) r' (cn_received s @ ps)"
    using dv(3,5) handed_out_reset by (auto simp: receiving_def)
  ultimately show ?thesis
    using ns(1) dv(4) by (intro exI [of _ r'] exI [of _ B']) (simp add: receiving_def)
qed

lemma b_call_inv:
  assumes inv: "cn_inv r sent segs B s" and young: "cn_young s" and gen: "genuine (cn_ab s) c" and push: "\<forall>p mode. fst c \<noteq> CallEnqueue p mode"
    and run: "host_step c (cn_b s) (cn_tb s) = Some (ep, t, out)"
  shows "\<exists>r' B'. cn_inv r' sent segs B'
    (s\<lparr>cn_b := ep, cn_tb := t, cn_ba := cn_ba s @ sent_frames out, cn_received := cn_received s @ received out\<rparr>)"
proof -
  let ?b = "cn_b s" and ?S = "numbered 0 segs" and ?Y = "sync_known segs"
  have side: "endpoint_wf ?b" "timer_ok (cn_tb s) ?b" and wire: "wire_ok any ?S ?Y (cn_ab s)"
      "wire_ok (ack_known r) any_segment any (cn_ba s)"
    using inv by (simp_all add: cn_inv_defs)
  note fits = genuine_fits [OF wire(1) gen]
  obtain tx gs where m: "moves ?S ?Y tx ?b ep out gs"
    using host_step_moves [OF side fits(1) fits(2) _ run] push by blast
  obtain r1 B' where r1: "net_same r r1" "net_inv 0 FRAGMENT_SIZE r1" "net_rx r1 = ep_reliable_rx ep"
      "srx_inv segs B' (ep_segment_rx ep)"
      "handed_out sent (unrel_before segs B') (ep_unreliable_rx ep) r1 (cn_received s @ received out)"
    using receives_inv [OF inv young, of ep "received out"] m by (auto simp: moves_def)
  let ?r = "net_ack_emit r1"
  have r2: "net_inv 0 FRAGMENT_SIZE ?r" "net_wire ?r = net_wire r" "net_acks r \<subseteq> net_acks ?r" "net_tx ?r = net_tx r"
      "net_pushed ?r = net_pushed r" "net_rx ?r = ep_reliable_rx ep" "net_delivered ?r = net_delivered r1"
    using net_ack_emit_inv [OF r1(2)] r1(1,3) by (auto simp: net_ack_emit_def net_same_def)
  have "ack_known ?r i" if "acks_next ep i" for i
    using that r1(3) by (auto simp: acks_next_def ack_known_def net_ack_emit_def)
  then have "frame_bytes_ok (ack_known ?r) any_segment any bs" if "bs \<in> set (sent_frames out)" for bs
    using m that unfolding moves_def by (blast intro: frame_bytes_ok_mono)
  then have "wire_ok (ack_known ?r) any_segment any (sent_frames out)"
    using host_step_sides(3) [OF side fits(1) run] by (simp add: wire_ok_def)
  moreover have "wire_ok (ack_known ?r) any_segment any (cn_ba s)"
    using wire_ok_mono [OF wire(2), of "ack_known ?r" any_segment any] ack_known_mono [OF _ r2(3)] by simp
  moreover have "sent_inv ?r sent segs"
    using inv r2(2) by (simp add: cn_inv_defs sent_inv_def)
  moreover have "handed_out sent (unrel_before segs B') (ep_unreliable_rx ep) ?r (cn_received s @ received out)"
    using handed_out_mono [OF r1(5) order_refl r2(7)] .
  ultimately show ?thesis
    using inv r1(4) r2(1,4-6) host_step_sides(1,2) [OF side fits(1) run]
    by (intro exI [of _ ?r] exI [of _ B']) (simp add: cn_inv_defs cn_rel_net_def)
qed

lemma b_push_inv:
  assumes "cn_inv r sent segs B s"
  shows "cn_inv r sent segs B (s\<lparr>cn_b := endpoint_enqueue (cn_b s) p mode now\<rparr>)"
proof -
  have "endpoint_wf (endpoint_enqueue (cn_b s) p mode now)" "timer_ok (cn_tb s) (endpoint_enqueue (cn_b s) p mode now)"
    using assms endpoint_enqueue_ok [of "cn_b s" "cn_tb s" p mode now] by (simp_all add: cn_inv_defs op_ok_def)
  with assms show ?thesis
    by (simp add: cn_inv_defs cn_rel_net_def) (simp add: endpoint_enqueue_def)
qed

lemma conn_net_step_inv:
  assumes "conn_net_step s s'" and "cn_young s" and "cn_inv r sent segs B s"
  shows "\<exists>r' sent' segs' B'. cn_inv r' sent' segs' B' s'"
  using assms(1)
proof cases
  case (a_call c ep t out)
  obtain call now coins where c: "c = (call, now, coins)"
    by (cases c)
  show ?thesis
  proof (cases call)
    case (CallEnqueue p mode)
    with a_call c have "s' = s\<lparr>cn_a := endpoint_enqueue (cn_a s) p mode now,
        cn_rel := cn_rel s @ queued_rel (cn_a s) (CallEnqueue p mode),
        cn_unrel := cn_unrel s @ queued_unrel (cn_a s) (CallEnqueue p mode)\<rparr>"
      by auto
    with a_push_inv [OF assms(3), of p mode now] show ?thesis
      by blast
  qed (use a_call_inv [OF assms(3,2) a_call(2) _ a_call(3)] a_call(1) c in \<open>simp_all add: queued_rel_def queued_unrel_def, blast+\<close>)
next
  case (b_call c ep t out)
  obtain call now coins where c: "c = (call, now, coins)"
    by (cases c)
  show ?thesis
  proof (cases call)
    case (CallEnqueue p mode)
    with b_call c have "s' = s\<lparr>cn_b := endpoint_enqueue (cn_b s) p mode now\<rparr>"
      by auto
    with b_push_inv [OF assms(3), of p mode now] show ?thesis
      by blast
  qed (use b_call_inv [OF assms(3,2) b_call(2) _ b_call(3)] b_call(1) c in auto)
qed

lemma conn_net_step_young: "conn_net_step s s' \<Longrightarrow> cn_young s' \<Longrightarrow> cn_young s"
  by (induction rule: conn_net_step.induct) (auto simp: cn_young_def fragment_count_def)

lemma conn_net_steps_inv:
  "conn_net_step\<^sup>*\<^sup>* s s' \<Longrightarrow> cn_young s' \<Longrightarrow> cn_inv r sent segs B s \<Longrightarrow> \<exists>r' sent' segs' B'. cn_inv r' sent' segs' B' s'"
proof (induction rule: rtranclp_induct)
  case (step s1 s2)
  have young: "cn_young s1"
    by (rule conn_net_step_young [OF step.hyps(2) step.prems(1)])
  with step.IH step.prems(2) conn_net_step_inv [OF step.hyps(2) young] show ?case
    by blast
qed blast

lemma ftb_new_parts:
  assumes "ftb_new b w n config = Some ftb"
  shows "rel_tx_new b n w = Some (ftb_rel ftb)" "unrel_tx_new b n = Some (ftb_unrel ftb)"
  using assms by (auto simp: ftb_new_def bind_eq_Some_conv)

lemma rel_tx_new_window: "rel_tx_new b n w = Some tx \<Longrightarrow> win_size (rtx_send_window tx) = w"
  by (auto simp: rel_tx_new_def Window_new_def)

lemma srx_inv_new: "srx_inv segs 0 (SegmentRx_new 0 SEGMENT_WINDOW_SIZE FRAME_SIZE_MAX)"
proof -
  let ?g = "seg_ghost segs"
  have "srx_state ?g 0 [] {} (SegmentRx_new 0 SEGMENT_WINDOW_SIZE FRAME_SIZE_MAX)"
    using SegmentRx_new_state [of ?g] by (simp add: seg_ghost_def)
  then show ?thesis
    unfolding srx_inv_def by (intro conjI exI [of _ "[]"] exI [of _ "{}"]) simp_all
qed

lemma conn_net_start_inv:
  assumes "prio_Config_new ws_a burst_a = Some (ec_prio_config config_a)"
    and "prio_Config_new ws_b burst_b = Some (ec_prio_config config_b)" and "conn_net_start config_a config_b = Some s"
  shows "\<exists>r. cn_inv r [] [] 0 s"
proof -
  obtain a where a: "Endpoint_new config_a = Some a" "endpoint_wf a" "ep_state_id a = PreInit" "ep_rto_timer_state a = None"
    using Endpoint_new_wf [OF assms(1)] by blast
  obtain b where b: "Endpoint_new config_b = Some b" "endpoint_wf b" "ep_state_id b = PreInit" "ep_rto_timer_state b = None"
    using Endpoint_new_wf [OF assms(2)] by blast
  have s: "s = \<lparr>cn_a = a\<lparr>ep_state_id := Active\<rparr>, cn_ta = None, cn_b = b\<lparr>ep_state_id := Active\<rparr>, cn_tb = None,
      cn_ab = [], cn_ba = [], cn_rel = [], cn_unrel = [], cn_received = []\<rparr>"
    using assms(3) a(1) b(1) by (simp add: conn_net_start_def endpoint_init_def)
  have side: "endpoint_wf (ep\<lparr>ep_state_id := Active\<rparr>)" "timer_ok None (ep\<lparr>ep_state_id := Active\<rparr>)"
    if "endpoint_wf ep" "ep_rto_timer_state ep = None" for ep
    using that by (simp_all add: endpoint_wf_def timer_ok_def)
  have tx: "rel_tx_new 0 FRAGMENT_SIZE FRAGMENT_WINDOW_SIZE = Some (ftb_rel (ep_fragment_tx a))"
      "unrel_tx_new 0 FRAGMENT_SIZE = Some (ftb_unrel (ep_fragment_tx a))"
    using ftb_new_parts [OF Endpoint_new_parts(2) [OF a(1)]] by simp_all
  have seg: "ep_next_segment a = 0"
    using Endpoint_new_parts(1) [OF a(1), symmetric] by (simp add: SegmentTx_new_def SEGMENT_WINDOW_SIZE_def)
  have rx_b: "rel_rx_new 0 FRAGMENT_SIZE = Some (ep_reliable_rx b)" "unrel_rx_new 0 FRAGMENT_SIZE = Some (ep_unreliable_rx b)"
      "ep_segment_rx b = SegmentRx_new 0 SEGMENT_WINDOW_SIZE FRAME_SIZE_MAX"
    using b(1) by (auto simp: Endpoint_new_def bind_eq_Some_conv)
  let ?r = "net_init (ftb_rel (ep_fragment_tx a)) (ep_reliable_rx b)"
  have "cn_rel_net ?r s"
    using net_init_inv [OF tx(1) rx_b(1)] rel_tx_new_window [OF tx(1)] by (simp add: cn_rel_net_def s) (simp add: net_init_def)
  moreover have "cn_sender ?r [] [] s"
    using utx_init [OF tx(2)] side [OF a(2,4)] seg
    by (simp add: cn_sender_def s sent_inv_def tagged_def segments_fit_def wire_ok_def)
  moreover have "urx_current_build (ep_unreliable_rx b) = None"
    using rx_b(2) [symmetric] by (simp add: unrel_rx_new_def FRAGMENT_SIZE_def)
  then have "cn_receiver ?r [] [] 0 s"
    using srx_inv_new [of "[]"] side [OF b(2,4)] rx_b(3) handed_out_start [of "ep_unreliable_rx b" ?r]
    by (simp add: cn_receiver_def s unrel_before_def wire_ok_def net_init_def)
  ultimately show ?thesis
    unfolding cn_inv_def by blast
qed

section \<open>Delivery from end to end\<close>

lemma conn_net_delivery:
  assumes "prio_Config_new ws_a burst_a = Some (ec_prio_config config_a)"
    and "prio_Config_new ws_b burst_b = Some (ec_prio_config config_b)"
    and "conn_net_start config_a config_b = Some s0" and "conn_net_step\<^sup>*\<^sup>* s0 s" and "cn_young s"
  shows "\<exists>ps us. cn_received s \<in> shuffles ps us \<and> prefix ps (cn_rel s) \<and> subseq us (cn_unrel s)"
proof -
  obtain r sent segs B where inv: "cn_inv r sent segs B s"
    using conn_net_start_inv [OF assms(1-3)] conn_net_steps_inv [OF assms(4,5)] by blast
  then have utx: "utx_inv FRAGMENT_SIZE (cn_unrel s) sent (ftb_unrel (ep_fragment_tx (cn_a s)))" and sent: "sent_inv r sent segs"
    by (simp_all add: cn_inv_defs)
  obtain rx0 evs rx us where us: "urx_current_build rx0 = None" "log_below (unrel_before segs B) evs"
      "unrel_log sent evs rx0 = (rx, us)" "cn_received s \<in> shuffles (net_delivered r) us"
    using inv by (auto simp: cn_inv_defs handed_out_def)
  obtain es where es: "blocks FRAGMENT_SIZE es (cn_unrel s)" "map FragmentRef_from sent = concat es"
    using utx_blocks [OF utx] .
  have "length sent < 2 ^ 32"
    using utx_sent_le [OF utx] assms(5) by (simp add: cn_young_def fragment_count_def)
  then have "subseq us (cn_unrel s)"
    using unrel_log_subseq [OF es(1) _ es(2) _ us(1) log_below_mono [OF us(2) unrel_before_le [OF sent]]] us(3)
    by (simp add: FRAGMENT_SIZE_def)
  moreover have "prefix (net_delivered r) (cn_rel s)"
    using inv net_inv_prefix [of 0 FRAGMENT_SIZE r] by (simp add: cn_inv_def cn_rel_net_def)
  ultimately show ?thesis
    using us(4) by blast
qed

text \<open>
  C3: between two endpoints, whatever calls their hosts make and whatever the network does to
  the frames, short of inventing some, what the receiving endpoint hands out are the packets
  that were queued as reliable, in order, without a gap and without a repetition, and between
  them packets that were queued as unreliable, each of them whole, in the order they were
  queued in and at most once. The bounds on the number of fragments and frames are those of
  the 32-bit identifiers.
\<close>

theorem delivery_end_to_end:
  assumes "prio_Config_new ws_a burst_a = Some (ec_prio_config config_a)"
    and "prio_Config_new ws_b burst_b = Some (ec_prio_config config_b)"
    and "conn_net_start config_a config_b = Some s0" and "conn_net_step\<^sup>*\<^sup>* s0 s" and "cn_young s"
  shows "\<exists>ps us. cn_received s \<in> shuffles ps us \<and> prefix ps (cn_rel s) \<and> subseq us (cn_unrel s)"
  using conn_net_delivery [OF assms] .

text \<open>A run in which a packet is queued, sent in a frame and handed out by the other side.\<close>

lemma frame_written_one:
  assumes "frame_written coin send_ack send_data ack_rel now ep ep' out"
  shows "length (sent_frames out) = 1"
proof -
  obtain timers frame where out: "out = timers @ [SendFrame frame]" "send_data \<longrightarrow> (\<exists>ds ep1. segment_sent coin now ep ds ep1 timers)"
      "\<not> send_data \<longrightarrow> timers = []"
    using assms unfolding frame_written_def by (cases send_data) (simp_all, blast+)
  have "sent_frames timers = []" if sent: "segment_sent coin now ep ds ep1 timers" for ds ep1
  proof -
    obtain x i where "(ep1, timers) = arm_timers x i now"
      using sent unfolding segment_sent_def by blast
    then have "timers = snd (arm_timers x i now)"
      by (metis snd_conv)
    then show ?thesis
      by (simp add: arm_timers_def Let_def)
  qed
  with out show ?thesis
    by (cases send_data) auto
qed

text \<open>A flush sends no more frames than the window has room for.\<close>

lemma flush_stream_frames:
  "endpoint_wf ep \<Longrightarrow> flush_stream coins send_ack ack_rel now ep = Some (ep', out) \<Longrightarrow>
     length (sent_frames out) \<le> segment_room ep + of_bool send_ack"
proof (induction coins send_ack ack_rel now ep arbitrary: out rule: flush_stream.induct)
  case (1 coins send_ack ack_rel now ep)
  note exact = flush_round_exact [OF 1(2), of send_ack now "coins 0" ack_rel]
  show ?case
  proof (cases "send_ack \<or> may_send now ep")
    case True
    then obtain ep1 out1 where round: "flush_round (coins 0) send_ack ack_rel now ep = Some (ep1, Some (out1, may_send now ep))"
        "length (sent_frames out1) = 1" "endpoint_wf ep1"
      using exact frame_written_one by auto
    obtain out2 where rest: "flush_stream (if may_send now ep then coins \<circ> Suc else coins) False ack_rel now ep1 = Some (ep', out2)"
        "out = out1 @ out2"
      using 1(3) round(1) by (subst (asm) flush_stream.simps) (auto simp: bind_eq_Some_conv)
    from 1(1) [OF round(1) refl refl refl round(3) rest(1)] flush_round_room [OF round(1)] round(2) rest(2) show ?thesis
      by simp
  next
    case False
    with exact 1(3) show ?thesis
      by (subst (asm) flush_stream.simps) simp
  qed
qed

lemma flush_stream_first:
  assumes "flush_round (coins 0) sa ar now ep = Some (ep1, Some (out1, True))" and "endpoint_wf ep1"
  shows "\<exists>ep' out. flush_stream coins sa ar now ep = Some (ep', out1 @ out)"
  using assms flush_stream_facts [OF assms(2), of "coins \<circ> Suc" False ar now] by (subst flush_stream.simps) auto

lemma unrel_run_empty:
  "utx_fragments tx = [] \<Longrightarrow> pushed_packets ops = [] \<Longrightarrow> snd (unrel_tx_run ops tx) = []"
  by (induction ops tx rule: unrel_tx_run.induct)
    (auto simp: unrel_tx_pop_sendable_def unrel_tx_pop_expired_def split: prod.splits)

lemma rel_pops_none: "rel_tx_peek_sendable tx = None \<Longrightarrow> rel_pops k tx = (tx, [])"
  by (induction k) (simp_all add: rel_tx_pop_iff)

abbreviation demo_fragment :: FragmentRc where
  "demo_fragment \<equiv> \<lparr>fr_first = True, fr_last = True, fr_data = demo_packet, fr_range = (0, 3)\<rparr>"

lemma demo_cut: "packet_fragments FRAGMENT_SIZE demo_packet = [demo_fragment]"
  by (simp add: packet_fragments_def demo_packet_def fragment_loop.simps FRAGMENT_SIZE_def)

lemma demo_pops:
  assumes "rel_tx_new 0 FRAGMENT_SIZE FRAGMENT_WINDOW_SIZE = Some tx" and "rel_pops k (rel_tx_push tx demo_packet) = (tx', tr)"
  shows "tr = [] \<or> tr = [(0, demo_fragment)]"
proof -
  let ?tx = "rel_tx_push tx demo_packet"
  have peek: "rel_tx_peek_sendable ?tx = Some (0, demo_fragment)" "rel_tx_peek_sendable (fst (rel_tx_pop_sendable ?tx)) = None"
    using assms(1)
    by (auto simp: rel_tx_new_def Window_new_def rel_tx_push_def rel_tx_pop_iff rel_tx_peek_iff demo_cut FRAGMENT_WINDOW_SIZE_def
        seq_delta_def split: if_splits)
  show ?thesis
  proof (cases k)
    case (Suc j)
    obtain tx1 where "rel_tx_pop_sendable ?tx = (tx1, Some (0, demo_fragment))"
      using rel_queue.pop_peek [of ?tx] peek(1) by (metis prod.collapse)
    with Suc assms(2) rel_pops_none [of tx1 j] peek(2) show ?thesis
      by simp
  qed (use assms(2) in simp)
qed

lemma demo_datagrams:
  assumes new: "Endpoint_new demo_endpoint_config = Some ep" and flushed: "ftb_flushed 0 (ep_fragment_tx (demo_sender ep)) ftb ds" "ds \<noteq> []"
  shows "ds = [as_datagram False (0, demo_fragment)]"
proof -
  note parts = ftb_new_parts [OF Endpoint_new_parts(2) [OF new]]
  have ftb: "ftb_rel (ep_fragment_tx (demo_sender ep)) = rel_tx_push (ftb_rel (ep_fragment_tx ep)) demo_packet"
      "ftb_unrel (ep_fragment_tx (demo_sender ep)) = ftb_unrel (ep_fragment_tx ep)"
    by (simp_all add: demo_sender_def endpoint_enqueue_def endpoint_init_def ftb_enqueue_def)
  have "utx_fragments (ftb_unrel (ep_fragment_tx ep)) = []"
    using parts(2) [symmetric] by (simp add: unrel_tx_new_def FRAGMENT_SIZE_def)
  moreover obtain ops utr where "set ops \<subseteq> {UPop, UPopExpired 0}"
      "unrel_tx_run ops (ftb_unrel (ep_fragment_tx ep)) = (ftb_unrel ftb, utr)" "filter dg_unrel ds = map (as_datagram True) utr"
    using flushed(1) unfolding ftb_flushed_def ftb by blast
  moreover from this(1) have "pushed_packets ops = []"
    by (intro no_push) auto
  ultimately have "filter dg_unrel ds = []"
    using unrel_run_empty [of "ftb_unrel (ep_fragment_tx ep)" ops] by simp
  then have unrel: "filter (\<lambda>d. \<not> dg_unrel d) ds = ds"
    by (simp add: filter_empty_conv)
  obtain k tr where "rel_pops k (rel_tx_push (ftb_rel (ep_fragment_tx ep)) demo_packet) = (ftb_rel ftb, tr)"
      "filter (\<lambda>d. \<not> dg_unrel d) ds = map (as_datagram False) tr"
    using flushed(1) unfolding ftb_flushed_def ftb by blast
  with demo_pops [OF parts(1)] unrel flushed(2) show ?thesis
    by fastforce
qed

lemma receive_next_empty:
  assumes "srx_len rx = 0" and "Window_contains (srx_window rx) (srx_base rx)"
  shows "\<exists>rx' n. segment_rx_receive rx (srx_base rx) nonce data = Some (rx', [data], n)"
proof -
  let ?rx = "advance_window_past (srx_base rx) (push_history_ack nonce rx)"
  have "srx_len ?rx = 0"
    using assms(1) by (simp add: push_history_ack_def advance_window_past_def)
  then have "deliver_ready ?rx = (?rx, [])"
    by (subst deliver_ready.simps) simp
  with assms(2) show ?thesis
    unfolding segment_rx_receive_def Let_def if_P [OF assms(2)] if_P [OF refl] by simp
qed

lemma demo_room:
  assumes "Endpoint_new demo_endpoint_config = Some ep"
  shows "segment_room ep \<le> 4096" "segment_room (demo_sender ep) \<le> 4096" "stx_next_id (ep_segment_tx (demo_sender ep)) = 0"
  using Endpoint_new_parts(1) [OF assms, symmetric]
  by (simp_all add: segment_room_def demo_sender_def endpoint_enqueue_def endpoint_init_def SegmentTx_new_def SEGMENT_WINDOW_SIZE_def)

lemma demo_received:
  assumes new: "Endpoint_new demo_endpoint_config = Some ep"
  defines "b \<equiv> fst (endpoint_init ep)" and "data \<equiv> datagrams_enc [as_datagram False (0, demo_fragment)]"
  shows "\<exists>b' out. handle_stream_values coins None 0 nonce data now b = Some (b', out) \<and> received out = [demo_packet] \<and>
    length (sent_frames out) \<le> 4097"
proof -
  have wf: "endpoint_wf b" "timer_ok None b" "ep_state_id b = Active"
    using Endpoint_new_wf [OF demo_endpoint_prio] new by (auto simp: b_def endpoint_init_def endpoint_wf_def timer_ok_def)
  have srx: "ep_segment_rx b = SegmentRx_new 0 SEGMENT_WINDOW_SIZE FRAME_SIZE_MAX"
      "rel_rx_new 0 FRAGMENT_SIZE = Some (ep_reliable_rx b)"
    using new by (auto simp: b_def endpoint_init_def Endpoint_new_def bind_eq_Some_conv)
  have rrx: "rrx_next_fragment_id (ep_reliable_rx b) = 0" "rrx_current_build (ep_reliable_rx b) = None"
      "rrx_fragment_size (ep_reliable_rx b) = FRAGMENT_SIZE"
    using srx(2) [symmetric] by (simp_all add: rel_rx_new_def FRAGMENT_SIZE_def)
  obtain rx n where rx: "segment_rx_receive (ep_segment_rx b) 0 nonce data = Some (rx, [data], n)"
    using receive_next_empty [of "ep_segment_rx b" nonce data] unfolding srx(1)
    by (auto simp: SegmentRx_new_def Window_contains_def Window_new_def SEGMENT_WINDOW_SIZE_def Let_def)
  let ?dv = "receive_datagram (as_datagram False (0, demo_fragment)) (delivery_start b)"
  have "receive_segments [data] (delivery_start b) = Some ?dv"
    unfolding data_def by (simp add: receive_segment_datagrams as_datagram_def fragment_data_def demo_packet_def FRAGMENT_SIZE_def)
  moreover have "dv_packets ?dv = [demo_packet]"
    using rrx by (simp add: receive_datagram_def as_datagram_fragment rel_rx_receive_def fragment_is_valid_iff FragmentRef_from_def
        fragment_data_def delivery_start_def demo_packet_def FRAGMENT_SIZE_def)
  ultimately have seg: "handle_segment 0 nonce data b = Some (delivery_store ?dv (b\<lparr>ep_segment_rx := rx\<rparr>),
      dv_send_ack ?dv, dv_ack_rel ?dv, [OnReceive demo_packet])"
    using rx by (simp add: handle_segment_def)
  have "srx_wf rx"
    using segment_rx_receive_wf [of "ep_segment_rx b" data 0 nonce] wf(1) rx
    by (auto simp: endpoint_wf_def data_def datagrams_enc_def as_datagram_def Datagram_enc_def FRAME_SIZE_MAX_def fragment_data_def demo_packet_def)
  then have wf1: "endpoint_wf (delivery_store ?dv (b\<lparr>ep_segment_rx := rx\<rparr>))" (is "endpoint_wf ?b")
    using delivery_ok [OF wf, of rx "[data]"] \<open>receive_segments [data] (delivery_start b) = Some ?dv\<close> by (auto simp: active_ok_def)
  obtain b' out where f: "flush_stream coins (dv_send_ack ?dv) (dv_ack_rel ?dv) now ?b = Some (b', out)" "received out = []"
    using flush_stream_facts [OF wf1, of coins "dv_send_ack ?dv" "dv_ack_rel ?dv" now] by (auto dest: received_callbacks)
  have "segment_room ?b \<le> 4096"
    using demo_room(1) [OF new] by (simp add: segment_room_def delivery_store_def b_def endpoint_init_def)
  then have "length (sent_frames out) \<le> 4097"
    using flush_stream_frames [OF wf1 f(1)] by (cases "dv_send_ack ?dv") simp_all
  with f seg show ?thesis
    by (simp add: handle_stream_values_def)
qed

text \<open>The packet leaves one endpoint in a frame of its first flush, and the other hands it out.\<close>

lemma demo_exchange:
  assumes new: "Endpoint_new demo_endpoint_config = Some ep"
  obtains a' out_a frame ft bs b' out_b where "endpoint_flush (\<lambda>k. True) 0 (demo_sender ep) = Some (a', out_a)"
    "frame \<in> set (sent_frames out_a)" "length (sent_frames out_a) \<le> 4096" "frames_fit out_a" "received out_a = []"
    "verify_minimum_size frame" "verify_crc frame = Some True" "read_type frame = Some (Some ft)" "payload frame = Some bs"
    "endpoint_handle_frame (\<lambda>k. True) ft bs now (fst (endpoint_init ep)) = Some (b', out_b)" "received out_b = [demo_packet]"
    "length (sent_frames out_b) \<le> 4097"
proof -
  let ?a = "demo_sender ep" and ?b = "fst (endpoint_init ep)"
  note ready = demo_sender_ready [OF new]
  have Active: "ep_state_id ?b = Active"
    by (simp add: endpoint_init_def)
  obtain ep1 timers frame ft bs ds where round:
      "flush_round True False False 0 ?a = Some (ep1, Some (timers @ [SendFrame frame], True))" "endpoint_wf ep1"
      "ftb_flushed 0 (ep_fragment_tx ?a) (ep_fragment_tx ep1) ds" "ds \<noteq> []"
      "verify_minimum_size frame" "verify_crc frame = Some True" "read_type frame = Some (Some ft)" "payload frame = Some bs"
      "endpoint_handle_frame (\<lambda>k. True) ft bs now ?b =
        handle_stream_values (\<lambda>k. True) None (stx_next_id (ep_segment_tx ?a)) True (datagrams_enc ds) now ?b"
    using sending_round [OF ready(1,3) Active, of True False False "\<lambda>k. True" now "delivery_start ?b"] unfolding if_False by blast
  obtain b' out_b where b': "endpoint_handle_frame (\<lambda>k. True) ft bs now ?b = Some (b', out_b)" "received out_b = [demo_packet]"
      "length (sent_frames out_b) \<le> 4097"
    using demo_received [OF new, of "\<lambda>k. True" True now] demo_datagrams [OF new round(3,4)] round(9) demo_room(3) [OF new] by auto
  obtain a' out where a': "flush_stream (\<lambda>k. True) False False 0 ?a = Some (a', (timers @ [SendFrame frame]) @ out)"
    using flush_stream_first [of "\<lambda>k. True" False False 0 ?a] round(1,2) by auto
  let ?out = "(timers @ [SendFrame frame]) @ out"
  have "ep_rto_timer_state ?a = None"
    using Endpoint_new_wf [OF demo_endpoint_prio] new by (auto simp: demo_sender_def endpoint_enqueue_def endpoint_init_def)
  then have "timer_ok None ?a"
    by (simp add: timer_ok_def ready(2))
  then have "frames_fit ?out"
    using flush_op_ok [OF ready(1) _ ready(2), of None "\<lambda>k. True" False False 0] a' by (auto simp: op_ok_def)
  moreover have "received ?out = []"
    using flush_stream_facts [OF ready(1), of "\<lambda>k. True" False False 0] a' by (auto dest: received_callbacks)
  moreover have "length (sent_frames ?out) \<le> 4096"
    using flush_stream_frames [OF ready(1) a'] demo_room(2) [OF new] by simp
  moreover have "endpoint_flush (\<lambda>k. True) 0 ?a = Some (a', ?out)"
    using a' ready(2) by (simp add: endpoint_flush_def)
  ultimately show thesis
    using that [of a' ?out frame ft bs b' out_b] round(5-8) b' by simp
qed

lemma demo_delivered:
  "\<exists>s0 s. conn_net_start demo_endpoint_config demo_endpoint_config = Some s0 \<and> conn_net_step\<^sup>*\<^sup>* s0 s \<and>
     cn_rel s = [demo_packet] \<and> cn_unrel s = [] \<and> cn_received s = [demo_packet] \<and> length (cn_ab s) \<le> 4096"
proof -
  obtain ep where new: "Endpoint_new demo_endpoint_config = Some ep"
    using Endpoint_new_wf [OF demo_endpoint_prio] by blast
  let ?a = "demo_sender ep" and ?b = "fst (endpoint_init ep)"
  obtain a' out_a frame ft bs b' out_b where ex: "endpoint_flush (\<lambda>k. True) 0 ?a = Some (a', out_a)"
      "frame \<in> set (sent_frames out_a)" "length (sent_frames out_a) \<le> 4096" "frames_fit out_a" "received out_a = []"
      "verify_minimum_size frame" "verify_crc frame = Some True" "read_type frame = Some (Some ft)" "payload frame = Some bs"
      "endpoint_handle_frame (\<lambda>k. True) ft bs 5 ?b = Some (b', out_b)" "received out_b = [demo_packet]"
      "length (sent_frames out_b) \<le> 4097"
    by (rule demo_exchange [OF new])
  define s0 where "s0 = \<lparr>cn_a = ?b, cn_ta = None, cn_b = ?b, cn_tb = None, cn_ab = [], cn_ba = [], cn_rel = [], cn_unrel = [],
    cn_received = []\<rparr>"
  define s1 where "s1 = s0\<lparr>cn_a := ?a, cn_rel := [demo_packet]\<rparr>"
  define s2 where "s2 = s1\<lparr>cn_a := a', cn_ta := timer_after out_a None, cn_ab := sent_frames out_a\<rparr>"
  define s3 where "s3 = s2\<lparr>cn_b := b', cn_tb := timer_after out_b None, cn_ba := sent_frames out_b, cn_received := [demo_packet]\<rparr>"
  have "conn_net_step s0 s1"
    using a_call [of s0 "(CallEnqueue demo_packet SendReliable, 0, \<lambda>k. True)" ?a None "[]"]
    by (simp add: s0_def s1_def genuine_def demo_sender_def queued_rel_def queued_unrel_def endpoint_init_def)
  moreover have "conn_net_step s1 s2"
    using a_call [of s1 "(CallFlush, 0, \<lambda>k. True)" a' "timer_after out_a None" out_a] ex(1)
    by (simp add: s0_def s1_def s2_def genuine_def queued_rel_def queued_unrel_def)
  moreover have "genuine (cn_ab s2) (CallFrame ft bs, 5, \<lambda>k. True)"
    using ex(2,6-9) by (auto simp: genuine_def s2_def)
  then have "conn_net_step s2 s3"
    using b_call [of s2 "(CallFrame ft bs, 5, \<lambda>k. True)" b' "timer_after out_b None" out_b] ex(10,11)
    by (simp add: s0_def s1_def s2_def s3_def)
  ultimately have "conn_net_step\<^sup>*\<^sup>* s0 s3"
    by (meson converse_rtranclp_into_rtranclp rtranclp.rtrancl_refl)
  moreover have "conn_net_start demo_endpoint_config demo_endpoint_config = Some s0"
    by (simp add: conn_net_start_def new s0_def)
  ultimately show ?thesis
    using ex(3) by (intro exI [of _ s0] exI [of _ s3]) (simp add: s0_def s1_def s2_def s3_def)
qed

theorem delivery_end_to_end_witness:
  "\<exists>s0 s ps us. conn_net_start demo_endpoint_config demo_endpoint_config = Some s0 \<and> conn_net_step\<^sup>*\<^sup>* s0 s \<and>
     cn_received s = [demo_packet] \<and> cn_unrel s = [] \<and>
     cn_received s \<in> shuffles ps us \<and> prefix ps (cn_rel s) \<and> subseq us (cn_unrel s)"
proof -
  obtain s0 s where s: "conn_net_start demo_endpoint_config demo_endpoint_config = Some s0" "conn_net_step\<^sup>*\<^sup>* s0 s"
      "cn_rel s = [demo_packet]" "cn_unrel s = []" "cn_received s = [demo_packet]" "length (cn_ab s) \<le> 4096"
    using demo_delivered by blast
  have "cn_young s"
    by (simp add: cn_young_def fragment_count_def s(3,4) demo_cut FRAGMENT_WINDOW_SIZE_def SEGMENT_WINDOW_SIZE_def
        order.strict_trans1 [OF add_right_mono [OF s(6)]])
  from delivery_end_to_end [OF demo_endpoint_prio demo_endpoint_prio s(1,2) this] s(1,2,4,5) show ?thesis
    by blast
qed

end
