(* ===== verification/Pair_Net.thy ===== *)
theory Pair_Net
  imports Stream_Net
begin

text \<open>
  The same connection seen from both sides: each side sends to the other. A host that makes a
  call on its endpoint moves its side, which is a step of the network in either direction.
\<close>

abbreviation packets_out :: "Effect list \<Rightarrow> bytes list" where
  "packets_out \<equiv> received"

section \<open>One side\<close>

text \<open>
  An endpoint with the timer its host keeps, the frames it sent, the packets it accepted on each
  channel and those it handed out.
\<close>

record Side =
  sd_ep :: Endpoint
  sd_timer :: "u64 option"
  sd_sent :: "bytes list"
  sd_rel :: "bytes list"
  sd_unrel :: "bytes list"
  sd_received :: "bytes list"

definition fresh_side :: "EndpointConfig \<Rightarrow> Side \<Rightarrow> bool" where
  "fresh_side config s \<longleftrightarrow> (\<exists>ep. Endpoint_new config = Some ep \<and>
     s = \<lparr>sd_ep = fst (endpoint_init ep), sd_timer = None, sd_sent = [], sd_rel = [], sd_unrel = [], sd_received = []\<rparr>)"

definition side_after :: "TimedCall \<Rightarrow> Endpoint \<Rightarrow> u64 option \<Rightarrow> Effect list \<Rightarrow> Side \<Rightarrow> Side" where
  "side_after c ep t out s = s\<lparr>sd_ep := ep, sd_timer := t, sd_sent := sd_sent s @ sent_frames out,
     sd_rel := sd_rel s @ queued_rel (sd_ep s) (fst c), sd_unrel := sd_unrel s @ queued_unrel (sd_ep s) (fst c),
     sd_received := sd_received s @ received out\<rparr>"

inductive side_step :: "bytes list \<Rightarrow> Side \<Rightarrow> Side \<Rightarrow> bool" for wire where
  side_call: "genuine wire c \<Longrightarrow> host_step c (sd_ep s) (sd_timer s) = Some (ep, t, out) \<Longrightarrow> side_step wire s (side_after c ep t out s)"

abbreviation side_steps :: "bytes list \<Rightarrow> Side \<Rightarrow> Side \<Rightarrow> bool" where
  "side_steps wire \<equiv> (side_step wire)\<^sup>*\<^sup>*"

lemma genuine_other: "(\<And>ft body. fst c \<noteq> CallFrame ft body) \<Longrightarrow> genuine wire c"
  by (simp add: genuine_def)

section \<open>Two sides\<close>

definition view :: "Side \<Rightarrow> Side \<Rightarrow> ConnNet" where
  "view a b = \<lparr>cn_a = sd_ep a, cn_ta = sd_timer a, cn_b = sd_ep b, cn_tb = sd_timer b, cn_ab = sd_sent a, cn_ba = sd_sent b,
     cn_rel = sd_rel a, cn_unrel = sd_unrel a, cn_received = sd_received b\<rparr>"

lemma side_step_views:
  assumes "side_step (sd_sent b) a a'"
  shows "conn_net_step (view a b) (view a' b)" "conn_net_step (view b a) (view b a')"
proof -
  obtain c ep t out where s: "genuine (sd_sent b) c" "host_step c (sd_ep a) (sd_timer a) = Some (ep, t, out)" "a' = side_after c ep t out a"
    using assms by (auto elim: side_step.cases)
  show "conn_net_step (view a b) (view a' b)"
    using a_call [of "view a b" c ep t out] s by (simp add: view_def side_after_def)
  show "conn_net_step (view b a) (view b a')"
    using b_call [of "view b a" c ep t out] s by (simp add: view_def side_after_def)
qed

definition runs_from :: "EndpointConfig \<Rightarrow> EndpointConfig \<Rightarrow> Side \<Rightarrow> Side \<Rightarrow> bool" where
  "runs_from ca cb a b \<longleftrightarrow> (\<exists>s. conn_net_start ca cb = Some s \<and> conn_net_step\<^sup>*\<^sup>* s (view a b))"

definition paired :: "EndpointConfig \<Rightarrow> EndpointConfig \<Rightarrow> Side \<Rightarrow> Side \<Rightarrow> bool" where
  "paired ca cb a b \<longleftrightarrow> runs_from ca cb a b \<and> runs_from cb ca b a"

lemma paired_sym: "paired ca cb a b \<longleftrightarrow> paired cb ca b a"
  by (auto simp: paired_def)

lemma paired_start:
  assumes "fresh_side ca a" and "fresh_side cb b"
  shows "paired ca cb a b"
proof -
  have "conn_net_start ca cb = Some (view a b)" "conn_net_start cb ca = Some (view b a)"
    using assms by (auto simp: fresh_side_def conn_net_start_def view_def)
  then show ?thesis
    by (auto simp: paired_def runs_from_def)
qed

lemma paired_step:
  assumes "paired ca cb a b" and "side_step (sd_sent b) a a'"
  shows "paired ca cb a' b"
  using assms(1) side_step_views [OF assms(2)] unfolding paired_def runs_from_def
  by (meson rtranclp.rtrancl_into_rtrancl)

lemma paired_steps: "side_steps (sd_sent b) a a' \<Longrightarrow> paired ca cb a b \<Longrightarrow> paired ca cb a' b"
  by (induction rule: rtranclp_induct) (auto intro: paired_step)

text \<open>What one side hands out the other accepted.\<close>

lemma paired_delivery:
  assumes "paired ca cb a b" and "prio_Config_new ws_a burst_a = Some (ec_prio_config ca)"
    and "prio_Config_new ws_b burst_b = Some (ec_prio_config cb)" and "cn_young (view a b)"
  shows "\<exists>ps us. sd_received b \<in> shuffles ps us \<and> prefix ps (sd_rel a) \<and> subseq us (sd_unrel a)"
proof -
  obtain s where "conn_net_start ca cb = Some s" "conn_net_step\<^sup>*\<^sup>* s (view a b)"
    using assms(1) by (auto simp: paired_def runs_from_def)
  from conn_net_delivery [OF assms(2,3) this assms(4)] show ?thesis
    by (simp add: view_def)
qed

text \<open>Packets queued in a row on an open connection.\<close>

definition reliable_of :: "(bytes \<times> SendMode) list \<Rightarrow> bytes list" where
  "reliable_of q = map fst (filter (\<lambda>(p, mode). mode = SendReliable) q)"

definition unreliable_of :: "(bytes \<times> SendMode) list \<Rightarrow> bytes list" where
  "unreliable_of q = map fst (filter (\<lambda>(p, mode). mode \<noteq> SendReliable) q)"

lemma reliable_of_append [simp]:
  "reliable_of [] = []" "unreliable_of [] = []"
  "reliable_of (xs @ ys) = reliable_of xs @ reliable_of ys" "unreliable_of (xs @ ys) = unreliable_of xs @ unreliable_of ys"
  by (simp_all add: reliable_of_def unreliable_of_def)

definition taken :: "Endpoint \<Rightarrow> HostCall \<Rightarrow> (bytes \<times> SendMode) list" where
  "taken ep c = (case accepted ep c of Some (mode, p) \<Rightarrow> [(p, mode)] | None \<Rightarrow> [])"

lemma taken_channels: "reliable_of (taken ep c) = queued_rel ep c" "unreliable_of (taken ep c) = queued_unrel ep c"
  by (auto simp: taken_def reliable_of_def unreliable_of_def queued_rel_def queued_unrel_def split: option.splits prod.splits SendMode.splits)

lemma enqueue_steps:
  "ep_state_id (sd_ep s) = Active \<Longrightarrow>
     side_steps wire s (s\<lparr>sd_ep := fold (\<lambda>(packet, mode) ep. endpoint_enqueue ep packet mode now) q (sd_ep s),
       sd_rel := sd_rel s @ reliable_of q, sd_unrel := sd_unrel s @ unreliable_of q\<rparr>)"
proof (induction q arbitrary: s)
  case (Cons x q)
  obtain p mode where x: "x = (p, mode)"
    by (cases x)
  let ?c = "(CallEnqueue p mode, now, \<lambda>k. True)" and ?ep = "endpoint_enqueue (sd_ep s) p mode now"
  let ?s = "side_after ?c ?ep (sd_timer s) [] s"
  have "side_step wire s ?s"
    by (rule side_call) (simp_all add: genuine_other)
  moreover have "queued_rel (sd_ep s) (CallEnqueue p mode) = reliable_of [x]" "queued_unrel (sd_ep s) (CallEnqueue p mode) = unreliable_of [x]"
    using Cons.prems x taken_channels [of "sd_ep s" "CallEnqueue p mode"] by (simp_all add: taken_def)
  moreover have "ep_state_id (sd_ep ?s) = Active"
    using Cons.prems by (simp add: side_after_def endpoint_enqueue_def)
  ultimately show ?case
    using Cons.IH [of ?s] x reliable_of_append(3,4) [of "[x]" q]
    by (auto simp: side_after_def intro: converse_rtranclp_into_rtranclp)
qed simp

end
