(* ===== verification/Client.thy ===== *)
theory Client
  imports Host
begin

text \<open>
  The client (\<^verbatim>\<open>src/client.rs\<close>): its handshake, the endpoint once it is connected,
  its timer and its events. The frames sent are a list; the answers of the socket, the
  readings of the clock and random numbers are arguments.
\<close>

section \<open>Configuration and state\<close>

definition CLIENT_FRAME_SIZE_MAX :: nat where "CLIENT_FRAME_SIZE_MAX = 1472"
definition HANDSHAKE_TIMEOUT_DEFAULT_MS :: u64 where "HANDSHAKE_TIMEOUT_DEFAULT_MS = 10000"
definition HANDSHAKE_TIMEOUT_MIN_MS :: u64 where "HANDSHAKE_TIMEOUT_MIN_MS = 2000"
definition HANDSHAKE_RESEND_TIMEOUT_MS :: u64 where "HANDSHAKE_RESEND_TIMEOUT_MS = 2000"
definition CLIENT_TIMEOUT_DEFAULT_MS :: u64 where "CLIENT_TIMEOUT_DEFAULT_MS = 10000"
definition CLIENT_TIMEOUT_MIN_MS :: u64 where "CLIENT_TIMEOUT_MIN_MS = 2000"

record ClientConfig =
  clc_handshake_timeout_ms :: u64
  clc_connection_timeout_ms :: u64
  clc_channel_balance :: ChannelBalanceConfig

definition ClientConfig_default :: ClientConfig where
  "ClientConfig_default =
     \<lparr>clc_handshake_timeout_ms = HANDSHAKE_TIMEOUT_DEFAULT_MS,
      clc_connection_timeout_ms = CLIENT_TIMEOUT_DEFAULT_MS,
      clc_channel_balance = ChannelBalanceConfig_default\<rparr>"

definition ClientConfig_validate :: "ClientConfig \<Rightarrow> unit rust" where
  "ClientConfig_validate config = do {
     rust_assert (clc_handshake_timeout_ms config \<ge> HANDSHAKE_TIMEOUT_MIN_MS);
     rust_assert (clc_connection_timeout_ms config \<ge> CLIENT_TIMEOUT_MIN_MS);
     ChannelBalanceConfig_validate (clc_channel_balance config) }"

datatype HandshakePhase = PhaseAlpha | PhaseBeta

record HandshakeState =
  hs_phase :: HandshakePhase
  hs_timeout_time_ms :: u64
  hs_timeout_ms :: u64
  hs_packet_buffer :: "(bytes \<times> SendMode) list"
  hs_frame :: bytes
  hs_local_nonce :: u32

datatype ClientState =
    CsHandshake HandshakeState
  | CsActive Endpoint
  | CsQuiescent

datatype ClientEvent =
    ClConnect
  | ClDisconnect
  | ClReceive bytes
  | ClError ErrorKind

record Client =
  cli_config :: ClientConfig
  cli_state :: ClientState
  cli_rto_timer :: "u64 option"
  cli_events :: "ClientEvent list"
  cli_sent :: "bytes list"

definition client_send_frame :: "bytes \<Rightarrow> Client \<Rightarrow> Client" where
  "client_send_frame frame_bytes cli = cli\<lparr>cli_sent := cli_sent cli @ [frame_bytes]\<rparr>"

definition client_push_event :: "ClientEvent \<Rightarrow> Client \<Rightarrow> Client" where
  "client_push_event event cli = cli\<lparr>cli_events := cli_events cli @ [event]\<rparr>"

text \<open>The methods of \<^verbatim>\<open>EndpointContext\<close>.\<close>

fun client_context :: "Effect \<Rightarrow> Client \<Rightarrow> Client" where
  "client_context (SendFrame frame_bytes) cli = client_send_frame frame_bytes cli"
| "client_context (SetRtoTimer time_ms) cli = cli\<lparr>cli_rto_timer := Some time_ms\<rparr>"
| "client_context UnsetRtoTimer cli = cli\<lparr>cli_rto_timer := None\<rparr>"
| "client_context OnConnect cli = client_push_event ClConnect cli"
| "client_context OnDisconnect cli = client_push_event ClDisconnect cli"
| "client_context (OnReceive packet_bytes) cli = client_push_event (ClReceive packet_bytes) cli"
| "client_context OnTimeout cli = client_push_event (ClError Timeout) cli"

text \<open>The endpoint after an operation, and the effects of the operation.\<close>

definition client_with :: "Endpoint \<Rightarrow> Effect list \<Rightarrow> Client \<Rightarrow> Client" where
  "client_with ep out cli = fold client_context out (cli\<lparr>cli_state := CsActive ep\<rparr>)"

section \<open>Timeouts\<close>

definition client_next_timer_timeout :: "u64 \<Rightarrow> Client \<Rightarrow> u64 option" where
  "client_next_timer_timeout now_ms cli =
     (case cli_rto_timer cli of
        Some t_ms \<Rightarrow> Some (if now_ms \<le> t_ms then t_ms - now_ms else 0)
      | None \<Rightarrow> None)"

definition process_timeout :: "(nat \<Rightarrow> bool) \<Rightarrow> u64 \<Rightarrow> Client \<Rightarrow> Client rust" where
  "process_timeout coins now_ms cli =
     (case cli_state cli of
        CsHandshake state \<Rightarrow>
          if now_ms \<ge> hs_timeout_time_ms state
          then Some ((client_push_event (ClError Timeout) cli)\<lparr>cli_state := CsQuiescent\<rparr>)
          else
            (let cli = cli\<lparr>cli_rto_timer := Some (now_ms + HANDSHAKE_RESEND_TIMEOUT_MS)\<rparr>
             in Some (case hs_phase state of
                        PhaseAlpha \<Rightarrow> client_send_frame (hs_frame state) cli
                      | PhaseBeta \<Rightarrow> client_send_frame (hs_frame state) cli))
      | CsActive endpoint \<Rightarrow> do {
          (endpoint, action, out) \<leftarrow> endpoint_handle_rto_timer coins now_ms endpoint;
          let cli = client_with endpoint out cli;
          case action of
            Continue \<Rightarrow> Some cli
          | Terminate \<Rightarrow> Some (cli\<lparr>cli_state := CsQuiescent\<rparr>) }
      | CsQuiescent \<Rightarrow> Some cli)"

definition process_timeouts :: "(nat \<Rightarrow> bool) \<Rightarrow> u64 \<Rightarrow> Client \<Rightarrow> Client rust" where
  "process_timeouts coins now_ms cli =
     (case cli_rto_timer cli of
        Some timeout_ms \<Rightarrow>
          if now_ms \<ge> timeout_ms then process_timeout coins now_ms (cli\<lparr>cli_rto_timer := None\<rparr>) else Some cli
      | None \<Rightarrow> Some cli)"

section \<open>The handshake\<close>

definition handle_handshake_alpha_ack :: "bytes \<Rightarrow> u64 \<Rightarrow> Client \<Rightarrow> Client rust" where
  "handle_handshake_alpha_ack payload_bytes now_ms cli =
     (case cli_state cli of
        CsHandshake state \<Rightarrow>
          if hs_phase state = PhaseAlpha then do {
            r \<leftarrow> SimplePayloadRead_read (Serial_read HANDSHAKE_ALPHA_ACK_SIZE HandshakeAlphaAckFrame_read) payload_bytes;
            case r of
              Some frame \<Rightarrow> do {
                let client_params = \<lparr>packet_size_in_max = 0xFFFFFFFF, packet_size_out_max = 0xFFFFFFFF\<rparr>;
                let nonce_valid = (haa_client_nonce frame = hs_local_nonce state);
                let params_compatible = connection_params_compatible client_params (haa_server_params frame);
                if nonce_valid \<and> params_compatible then do {
                  handshake_frame \<leftarrow> SimpleFrameWrite_write_boxed HandshakeBeta_SF
                    (Serial_write HANDSHAKE_BETA_SIZE HandshakeBetaFrame_write)
                    \<lparr>hb_client_params = client_params, hb_client_nonce = haa_client_nonce frame,
                     hb_server_nonce = haa_server_nonce frame, hb_server_timestamp = haa_server_timestamp frame,
                     hb_server_mac = haa_server_mac frame\<rparr>;
                  let state = state\<lparr>hs_phase := PhaseBeta, hs_timeout_time_ms := now_ms + hs_timeout_ms state,
                                     hs_frame := handshake_frame\<rparr>;
                  let cli = cli\<lparr>cli_state := CsHandshake state,
                                 cli_rto_timer := Some (now_ms + HANDSHAKE_RESEND_TIMEOUT_MS)\<rparr>;
                  Some (client_send_frame (hs_frame state) cli) }
                else Some cli }
            | None \<Rightarrow> Some cli }
          else Some cli
      | _ \<Rightarrow> Some cli)"

text \<open>The connection, once the server has accepted: the packets buffered so far are enqueued in order.\<close>

definition client_connected :: "(nat \<Rightarrow> bool) \<Rightarrow> u64 \<Rightarrow> HandshakeState \<Rightarrow> Client \<Rightarrow> Client rust" where
  "client_connected coins now_ms state cli = do {
     let cli = cli\<lparr>cli_rto_timer := None\<rparr>;
     let packet_buffer = hs_packet_buffer state;
     prio_config \<leftarrow> prio_Config_from (clc_channel_balance (cli_config cli));
     let endpoint_config =
       \<lparr>ec_timeout_time_ms = clc_connection_timeout_ms (cli_config cli), ec_prio_config = prio_config\<rparr>;
     endpoint \<leftarrow> Endpoint_new endpoint_config;
     let (endpoint, out) = endpoint_init endpoint;
     let endpoint = fold (\<lambda>(packet, mode) endpoint. endpoint_enqueue endpoint packet mode now_ms) packet_buffer endpoint;
     (endpoint, out') \<leftarrow> endpoint_flush coins now_ms endpoint;
     Some (client_with endpoint (out @ out') cli) }"

definition client_error_kind :: "HandshakeErrorKind \<Rightarrow> ErrorKind" where
  "client_error_kind kind = (case kind of HsCapacity \<Rightarrow> Capacity | HsParameter \<Rightarrow> Parameter)"

definition handle_handshake_beta_ack :: "(nat \<Rightarrow> bool) \<Rightarrow> bytes \<Rightarrow> u64 \<Rightarrow> Client \<Rightarrow> Client rust" where
  "handle_handshake_beta_ack coins payload_bytes now_ms cli =
     (case cli_state cli of
        CsHandshake state \<Rightarrow>
          if hs_phase state = PhaseBeta then do {
            r \<leftarrow> SimplePayloadRead_read (Serial_read HANDSHAKE_BETA_ACK_SIZE HandshakeBetaAckFrame_read) payload_bytes;
            case r of
              Some frame \<Rightarrow>
                if hba_client_nonce frame = hs_local_nonce state then
                  case hba_error frame of
                    None \<Rightarrow> client_connected coins now_ms state cli
                  | Some kind \<Rightarrow>
                      Some ((client_push_event (ClError (client_error_kind kind)) cli)\<lparr>cli_state := CsQuiescent\<rparr>)
                else Some cli
            | None \<Rightarrow> Some cli }
          else Some cli
      | _ \<Rightarrow> Some cli)"

section \<open>Frames and calls\<close>

definition client_handle_frame_other :: "(nat \<Rightarrow> bool) \<Rightarrow> FrameType \<Rightarrow> bytes \<Rightarrow> u64 \<Rightarrow> Client \<Rightarrow> Client rust" where
  "client_handle_frame_other coins frame_type payload_bytes now_ms cli =
     (case cli_state cli of
        CsActive endpoint \<Rightarrow> do {
          (endpoint, out) \<leftarrow> endpoint_handle_frame coins frame_type payload_bytes now_ms endpoint;
          Some (client_with endpoint out cli) }
      | _ \<Rightarrow> Some cli)"

record ClientReceived =
  cr_bytes :: bytes
  cr_now_ms :: u64
  cr_coins :: "nat \<Rightarrow> bool"

definition client_handle_frame :: "ClientReceived \<Rightarrow> Client \<Rightarrow> Client rust" where
  "client_handle_frame cr cli =
     (if \<not> verify_minimum_size (cr_bytes cr) then Some cli
      else do {
        frame_type \<leftarrow> read_type (cr_bytes cr);
        case frame_type of
          Some ft \<Rightarrow> do {
            valid \<leftarrow> verify_crc (cr_bytes cr);
            if \<not> valid then Some cli
            else do {
              payload_bytes \<leftarrow> payload (cr_bytes cr);
              if ft = HandshakeAlphaAck then handle_handshake_alpha_ack payload_bytes (cr_now_ms cr) cli
              else if ft = HandshakeBetaAck then handle_handshake_beta_ack (cr_coins cr) payload_bytes (cr_now_ms cr) cli
              else client_handle_frame_other (cr_coins cr) ft payload_bytes (cr_now_ms cr) cli } }
        | None \<Rightarrow> Some cli })"

text \<open>
  The reading loop: \<open>answers\<close> is what the socket answers to its reads, \<open>env k\<close> the clock and the
  random bits that the handling of the \<open>k\<close>-th frame reads.
\<close>

definition client_time_now_ms :: "Instant \<Rightarrow> Instant \<Rightarrow> u64" where
  "client_time_now_ms time_ref now = word_of_nat ((now - time_ref) div 1000000)"

record ClientFrameEnv =
  cfe_now :: Instant
  cfe_coins :: "nat \<Rightarrow> bool"

definition client_received :: "Instant \<Rightarrow> ClientFrameEnv \<Rightarrow> bytes \<Rightarrow> ClientReceived" where
  "client_received time_ref fe frame_bytes =
     \<lparr>cr_bytes = frame_bytes, cr_now_ms = client_time_now_ms time_ref (cfe_now fe), cr_coins = cfe_coins fe\<rparr>"

function client_handle_frames ::
    "Instant \<Rightarrow> (nat \<Rightarrow> ClientFrameEnv) \<Rightarrow> bytes io_result list \<Rightarrow> ConnectedSocketRx \<Rightarrow> Client \<Rightarrow> (ConnectedSocketRx \<times> Client) rust" where
  "client_handle_frames time_ref env answers socket_rx cli =
     (case connected_try_read_frame answers socket_rx of
        (answers, socket_rx, Inr (Some frame_bytes)) \<Rightarrow>
          client_handle_frame (client_received time_ref (env 0) frame_bytes) cli \<bind> (\<lambda>cli.
          client_handle_frames time_ref (env \<circ> Suc) answers socket_rx cli)
      | (answers, socket_rx, _) \<Rightarrow> Some (socket_rx, cli))"
  by pat_completeness auto
termination
  by (relation "measure (\<lambda>(time_ref, env, answers, rx, cli). length answers)")
    (auto dest: client_socket.read_shrinks [OF sym])

declare client_handle_frames.simps [simp del]

definition client_handle_frames_wait ::
    "Instant \<Rightarrow> (nat \<Rightarrow> ClientFrameEnv) \<Rightarrow> PollOutcome \<Rightarrow> bytes io_result list \<Rightarrow> ConnectedSocketRx \<Rightarrow> Client \<Rightarrow>
      (ConnectedSocketRx \<times> Client) rust" where
  "client_handle_frames_wait time_ref env poll answers socket_rx cli =
     (case connected_wait_for_frame poll answers socket_rx of
        (answers, socket_rx, Inr (Some frame_bytes)) \<Rightarrow>
          client_handle_frame (client_received time_ref (env 0) frame_bytes) cli \<bind>
          client_handle_frames time_ref (env \<circ> Suc) answers socket_rx
      | (answers, socket_rx, _) \<Rightarrow> Some (socket_rx, cli))"

definition client_enqueue :: "u64 \<Rightarrow> bytes \<Rightarrow> SendMode \<Rightarrow> Client \<Rightarrow> Client" where
  "client_enqueue now_ms packet_bytes mode cli =
     (case cli_state cli of
        CsHandshake state \<Rightarrow>
          cli\<lparr>cli_state := CsHandshake (state\<lparr>hs_packet_buffer := hs_packet_buffer state @ [(packet_bytes, mode)]\<rparr>)\<rparr>
      | CsActive endpoint \<Rightarrow> cli\<lparr>cli_state := CsActive (endpoint_enqueue endpoint packet_bytes mode now_ms)\<rparr>
      | CsQuiescent \<Rightarrow> cli)"

definition client_send :: "(nat \<Rightarrow> bool) \<Rightarrow> u64 \<Rightarrow> bytes \<Rightarrow> SendMode \<Rightarrow> Client \<Rightarrow> Client rust" where
  "client_send coins now_ms packet_bytes mode cli =
     (case cli_state cli of
        CsHandshake state \<Rightarrow>
          Some (cli\<lparr>cli_state := CsHandshake (state\<lparr>hs_packet_buffer := hs_packet_buffer state @ [(packet_bytes, mode)]\<rparr>)\<rparr>)
      | CsActive endpoint \<Rightarrow> do {
          (endpoint, out) \<leftarrow> endpoint_flush coins now_ms (endpoint_enqueue endpoint packet_bytes mode now_ms);
          Some (client_with endpoint out cli) }
      | CsQuiescent \<Rightarrow> Some cli)"

definition client_flush :: "(nat \<Rightarrow> bool) \<Rightarrow> u64 \<Rightarrow> Client \<Rightarrow> Client rust" where
  "client_flush coins now_ms cli =
     (case cli_state cli of
        CsActive endpoint \<Rightarrow> do {
          (endpoint, out) \<leftarrow> endpoint_flush coins now_ms endpoint;
          Some (client_with endpoint out cli) }
      | _ \<Rightarrow> Some cli)"

definition client_disconnect :: "u64 \<Rightarrow> Client \<Rightarrow> Client rust" where
  "client_disconnect now_ms cli =
     (case cli_state cli of
        CsActive endpoint \<Rightarrow> do {
          (endpoint, out) \<leftarrow> endpoint_disconnect now_ms endpoint;
          Some (client_with endpoint out cli) }
      | _ \<Rightarrow> Some cli)"

section \<open>The client object\<close>

definition Client_new :: "u32 \<Rightarrow> ClientConfig \<Rightarrow> Client rust" where
  "Client_new random config = do {
     let local_nonce = random;
     handshake_frame \<leftarrow> write_handshake_alpha
       \<lparr>ha_protocol_id = PROTOCOL_ID, ha_client_nonce = local_nonce\<rparr> CLIENT_FRAME_SIZE_MAX;
     let state =
       \<lparr>hs_phase = PhaseAlpha, hs_timeout_time_ms = clc_handshake_timeout_ms config,
        hs_timeout_ms = clc_handshake_timeout_ms config, hs_packet_buffer = [], hs_frame = handshake_frame,
        hs_local_nonce = local_nonce\<rparr>;
     Some \<lparr>cli_config = config, cli_state = CsHandshake state, cli_rto_timer = Some HANDSHAKE_RESEND_TIMEOUT_MS,
       cli_events = [], cli_sent = [handshake_frame]\<rparr> }"

record ClientObj =
  co_core :: Client
  co_time_ref :: Instant
  co_socket_rx :: ConnectedSocketRx

text \<open>
  Connecting panics on an invalid configuration and forwards the errors of the socket.
  \<open>random\<close> is the nonce drawn, \<open>now\<close> the time of creation.
\<close>

definition Client_connect_with_config :: "SocketOs \<Rightarrow> Instant \<Rightarrow> u32 \<Rightarrow> ClientConfig \<Rightarrow> ClientObj io_result rust" where
  "Client_connect_with_config os now random config = do {
     ClientConfig_validate config;
     case socket_new_connected os CLIENT_FRAME_SIZE_MAX of
       Inl err \<Rightarrow> Some (Inl err)
     | Inr socket_rx \<Rightarrow> do {
         core \<leftarrow> Client_new random config;
         Some (Inr \<lparr>co_core = core, co_time_ref = now, co_socket_rx = socket_rx\<rparr>) } }"

definition Client_connect :: "SocketOs \<Rightarrow> Instant \<Rightarrow> u32 \<Rightarrow> ClientObj io_result rust" where
  "Client_connect os now random = Client_connect_with_config os now random ClientConfig_default"

definition client_pop_event :: "Client \<Rightarrow> Client \<times> ClientEvent option" where
  "client_pop_event cli =
     (case cli_events cli of [] \<Rightarrow> (cli, None) | e # es \<Rightarrow> (cli\<lparr>cli_events := es\<rparr>, Some e))"

definition client_obj_pop_event :: "ClientObj \<Rightarrow> ClientObj \<times> ClientEvent option" where
  "client_obj_pop_event co = (case client_pop_event (co_core co) of (core, event) \<Rightarrow> (co\<lparr>co_core := core\<rparr>, event))"

text \<open>Between two looks at the event queue: the answers of socket and poller, the clock, random bits.\<close>

record ClientRound =
  cw_answers :: "bytes io_result list"
  cw_poll :: PollOutcome
  cw_env :: "nat \<Rightarrow> ClientFrameEnv"
  cw_now :: Instant
  cw_coins :: "nat \<Rightarrow> bool"

definition client_round :: "bool \<Rightarrow> ClientRound \<Rightarrow> ClientObj \<Rightarrow> ClientObj rust" where
  "client_round wait r co = do {
     (socket_rx, core) \<leftarrow>
       (if wait then client_handle_frames_wait (co_time_ref co) (cw_env r) (cw_poll r) (cw_answers r) (co_socket_rx co) (co_core co)
        else client_handle_frames (co_time_ref co) (cw_env r) (cw_answers r) (co_socket_rx co) (co_core co));
     core \<leftarrow> process_timeouts (cw_coins r) (client_time_now_ms (co_time_ref co) (cw_now r)) core;
     Some (co\<lparr>co_core := core, co_socket_rx := socket_rx\<rparr>) }"

definition client_poll_event :: "ClientRound \<Rightarrow> ClientObj \<Rightarrow> (ClientObj \<times> ClientEvent option) rust" where
  "client_poll_event r co = do {
     co \<leftarrow> (if cli_events (co_core co) = [] then client_round False r co else Some co);
     Some (client_obj_pop_event co) }"

text \<open>
  The waiting loops, as those of the server: \<open>world k w\<close> is the \<open>k\<close>-th round when the
  socket is read with the timeout \<open>w\<close> (in milliseconds), \<open>clock k\<close> the time before it,
  \<open>elapsed k\<close> its duration, and \<open>fuel\<close> bounds the rounds.
\<close>

definition client_wait_limit :: "Instant \<Rightarrow> ClientObj \<Rightarrow> nat option" where
  "client_wait_limit now co =
     map_option unat (client_next_timer_timeout (client_time_now_ms (co_time_ref co) now) (co_core co))"

fun client_wait_event ::
    "nat \<Rightarrow> (nat \<Rightarrow> nat option \<Rightarrow> ClientRound) \<Rightarrow> (nat \<Rightarrow> Instant) \<Rightarrow> nat \<Rightarrow> ClientObj \<Rightarrow>
      (ClientObj \<times> ClientEvent option) rust" where
  "client_wait_event 0 world clock k co = Some (co, None)"
| "client_wait_event (Suc fuel) world clock k co = do {
     co \<leftarrow> client_round True (world k (client_wait_limit (clock k) co)) co;
     case client_obj_pop_event co of
       (co, Some event) \<Rightarrow> Some (co, Some event)
     | (co, None) \<Rightarrow> client_wait_event fuel world clock (Suc k) co }"

fun client_wait_timeout_loop ::
    "nat \<Rightarrow> (nat \<Rightarrow> nat option \<Rightarrow> ClientRound) \<Rightarrow> (nat \<Rightarrow> Instant) \<Rightarrow> (nat \<Rightarrow> nat) \<Rightarrow> nat \<Rightarrow> nat \<Rightarrow> ClientObj \<Rightarrow>
      ClientObj option rust" where
  "client_wait_timeout_loop 0 world clock elapsed k remaining co = Some None"
| "client_wait_timeout_loop (Suc fuel) world clock elapsed k remaining co = do {
     let wait = (case client_wait_limit (clock k) co of Some t \<Rightarrow> min remaining t | None \<Rightarrow> remaining);
     co \<leftarrow> client_round True (world k (Some wait)) co;
     if cli_events (co_core co) \<noteq> [] then Some (Some co)
     else if elapsed k \<ge> remaining then Some (Some co)
     else client_wait_timeout_loop fuel world clock elapsed (Suc k) (remaining - elapsed k) co }"

definition client_wait_event_timeout ::
    "nat \<Rightarrow> (nat \<Rightarrow> nat option \<Rightarrow> ClientRound) \<Rightarrow> (nat \<Rightarrow> Instant) \<Rightarrow> (nat \<Rightarrow> nat) \<Rightarrow> nat \<Rightarrow> ClientObj \<Rightarrow>
      (ClientObj \<times> ClientEvent option) option rust" where
  "client_wait_event_timeout fuel world clock elapsed timeout co =
     (if cli_events (co_core co) = []
      then map_option (map_option client_obj_pop_event) (client_wait_timeout_loop fuel world clock elapsed 0 timeout co)
      else Some (Some (client_obj_pop_event co)))"

definition client_local_addr :: "ClientObj \<Rightarrow> SocketAddr" where
  "client_local_addr co = connected_local_addr (co_socket_rx co)"

definition client_server_addr :: "ClientObj \<Rightarrow> SocketAddr" where
  "client_server_addr co = connected_peer_addr (co_socket_rx co)"

end
