(* ===== verification/Client_Props.thy ===== *)
theory Client_Props
  imports Client
begin

text \<open>
  The invariant of the client over all runs, its events, and what it takes to advance its
  handshake.
\<close>

section \<open>The endpoint in its context\<close>

fun client_events :: "Effect list \<Rightarrow> ClientEvent list" where
  "client_events [] = []"
| "client_events (OnConnect # out) = ClConnect # client_events out"
| "client_events (OnDisconnect # out) = ClDisconnect # client_events out"
| "client_events (OnReceive bs # out) = ClReceive bs # client_events out"
| "client_events (OnTimeout # out) = ClError Timeout # client_events out"
| "client_events (_ # out) = client_events out"

lemma client_events_simps [simp]:
  "client_events (xs @ ys) = client_events xs @ client_events ys"
  "client_events (map OnReceive ps) = map ClReceive ps"
  "client_events (callbacks xs) = client_events xs"
proof -
  show "client_events (xs @ ys) = client_events xs @ client_events ys"
    by (induction xs rule: client_events.induct) simp_all
  show "client_events (map OnReceive ps) = map ClReceive ps"
    by (induction ps) simp_all
  show "client_events (callbacks xs) = client_events xs"
    by (induction xs rule: client_events.induct) simp_all
qed

lemma client_context_fold:
  "fold client_context out cli = cli\<lparr>cli_rto_timer := timer_after out (cli_rto_timer cli),
     cli_events := cli_events cli @ client_events out, cli_sent := cli_sent cli @ sent_frames out\<rparr>"
proof (induction out arbitrary: cli)
  case (Cons x out)
  then show ?case
    by (cases x) (simp_all add: client_send_frame_def client_push_event_def)
qed simp

lemma client_with_exact:
  "client_with ep out cli = cli\<lparr>cli_state := CsActive ep, cli_rto_timer := timer_after out (cli_rto_timer cli),
     cli_events := cli_events cli @ client_events out, cli_sent := cli_sent cli @ sent_frames out\<rparr>"
  by (simp add: client_with_def client_context_fold)

section \<open>The invariant\<close>

definition client_history :: "ClientEvent list \<Rightarrow> StateId \<Rightarrow> bool" where
  "client_history es s \<longleftrightarrow> (\<exists>xs. es = client_events (OnConnect # xs) \<and> conn_steps Active xs s)"

definition client_inv :: "ClientEvent list \<Rightarrow> Client \<Rightarrow> bool" where
  "client_inv hist cli \<longleftrightarrow> ClientConfig_validate (cli_config cli) = Some () \<and>
     (case cli_state cli of
        CsHandshake hs \<Rightarrow> hist @ cli_events cli = []
      | CsActive ep \<Rightarrow> endpoint_wf ep \<and> timer_ok (cli_rto_timer cli) ep \<and> ep_state_id ep \<notin> {PreInit, Zombie} \<and>
          client_history (hist @ cli_events cli) (ep_state_id ep)
      | CsQuiescent \<Rightarrow> (\<exists>k. hist @ cli_events cli = [ClError k]) \<or> client_history (hist @ cli_events cli) Zombie)"

lemma client_history_step:
  assumes "client_history es s" and "conn_step s (callbacks out) s'"
  shows "client_history (es @ client_events out) s'"
proof -
  obtain xs where "es = client_events (OnConnect # xs)" "conn_steps Active xs s"
    using assms(1) by (auto simp: client_history_def)
  with conn_steps_snoc [OF _ assms(2)] show ?thesis
    unfolding client_history_def by (intro exI [of _ "xs @ callbacks out"]) simp
qed

text \<open>A call on the active endpoint is a host call.\<close>

definition client_call :: "TimedCall \<Rightarrow> Client \<Rightarrow> Client rust" where
  "client_call c cli =
     (case cli_state cli of
        CsActive ep \<Rightarrow> map_option (\<lambda>(ep, t, out). client_with ep out cli) (host_step c ep (cli_rto_timer cli))
      | _ \<Rightarrow> Some cli)"

lemma client_calls:
  "client_handle_frame_other coins ft bs now cli = client_call (CallFrame ft bs, now, coins) cli"
  "client_flush coins now cli = client_call (CallFlush, now, coins) cli"
  "client_disconnect now cli = client_call (CallDisconnect, now, coins) cli"
  by (auto simp: client_call_def client_handle_frame_other_def client_flush_def client_disconnect_def
      split: ClientState.splits Option.bind_splits)

lemma inv_client_call:
  assumes inv: "client_inv hist cli" and c: "call_fits c" "fst c \<noteq> CallTimer"
  shows "\<exists>cli'. client_call c cli = Some cli' \<and> client_inv hist cli'"
proof (cases "cli_state cli")
  case (CsActive ep)
  have ep: "endpoint_wf ep" "timer_ok (cli_rto_timer cli) ep" "ep_state_id ep \<noteq> PreInit" "ep_state_id ep \<noteq> Zombie"
      "client_history (hist @ cli_events cli) (ep_state_id ep)"
    using inv CsActive by (simp_all add: client_inv_def)
  obtain ep' t out where s: "host_step c ep (cli_rto_timer cli) = Some (ep', t, out)" "endpoint_wf ep'" "timer_ok t ep'"
      "conn_step (ep_state_id ep) (callbacks out) (ep_state_id ep')"
    using host_step_ok [OF ep(1,2) c(1)] by blast
  have z: "ep_state_id ep' \<noteq> Zombie"
    using host_step_zombie(1) [OF ep(1,2) c _ s(1)] ep(4) by blast
  have "t = timer_after out (cli_rto_timer cli)"
    using s(1) c(2) by (cases "(c, ep, cli_rto_timer cli)" rule: host_step.cases) auto
  with s z ep(3) client_history_step [OF ep(5) s(4)] have "client_inv hist (client_with ep' out cli)"
    using inv by (auto simp: client_inv_def client_with_exact)
  with s(1) CsActive show ?thesis
    by (simp add: client_call_def)
qed (use inv in \<open>simp_all add: client_call_def\<close>)

lemma inv_client_enqueue:
  assumes "client_inv hist cli"
  shows "client_inv hist (client_enqueue now bs mode cli)"
proof (cases "cli_state cli")
  case (CsActive ep)
  with assms have ep: "endpoint_wf ep" "timer_ok (cli_rto_timer cli) ep"
    by (simp_all add: client_inv_def)
  have "ep_state_id (endpoint_enqueue ep bs mode now) = ep_state_id ep"
    by (simp add: endpoint_enqueue_def)
  with assms CsActive endpoint_enqueue_ok [OF ep, of bs mode now] show ?thesis
    by (simp add: client_enqueue_def client_inv_def op_ok_def)
qed (use assms in \<open>simp_all add: client_enqueue_def client_inv_def\<close>)

lemma client_send_calls: "client_send coins now bs mode cli = client_flush coins now (client_enqueue now bs mode cli)"
  by (cases "cli_state cli") (simp_all add: client_send_def client_flush_def client_enqueue_def client_with_def)

section \<open>Timeouts\<close>

lemma inv_process_timeout:
  assumes inv: "client_inv hist cli" and timer: "cli_rto_timer cli = Some t"
  shows "\<exists>cli'. process_timeout coins now (cli\<lparr>cli_rto_timer := None\<rparr>) = Some cli' \<and> client_inv hist cli'"
proof (cases "cli_state cli")
  case (CsHandshake hs)
  with inv show ?thesis
    by (auto simp: process_timeout_def client_inv_def client_push_event_def client_send_frame_def Let_def
        split: HandshakePhase.splits)
next
  case (CsActive ep)
  have ep: "endpoint_wf ep" "timer_ok (Some t) ep" "ep_state_id ep \<noteq> PreInit" "ep_state_id ep \<noteq> Zombie"
      "client_history (hist @ cli_events cli) (ep_state_id ep)"
    using inv CsActive timer by (simp_all add: client_inv_def)
  obtain ep' act out where r: "endpoint_handle_rto_timer coins now ep = Some (ep', act, out)" "op_ok None ep ep' out"
    using endpoint_handle_rto_timer_ok [OF ep(1,2)] by blast
  note ends = handle_rto_timer_terminates [OF ep(1,2) r(1) ep(4)]
  have hist: "client_history ((hist @ cli_events cli) @ client_events out) (ep_state_id ep')"
    using client_history_step [OF ep(5)] r(2) by (simp add: op_ok_def)
  have "ep_state_id ep' \<noteq> PreInit"
    using r(2) ep(3) by (auto simp: op_ok_def)
  with r ends hist inv CsActive show ?thesis
    by (cases act) (simp_all add: process_timeout_def client_with_exact client_inv_def op_ok_def Let_def)
qed (use inv in \<open>simp add: process_timeout_def client_inv_def\<close>)

lemma inv_process_timeouts:
  assumes inv: "client_inv hist cli"
  shows "\<exists>cli'. process_timeouts coins now cli = Some cli' \<and> client_inv hist cli'"
proof (cases "cli_rto_timer cli")
  case (Some t)
  from inv_process_timeout [OF inv Some, of coins now] inv show ?thesis
    using Some by (simp add: process_timeouts_def)
qed (use inv in \<open>simp add: process_timeouts_def\<close>)

section \<open>The handshake\<close>

lemma client_prio:
  assumes "ClientConfig_validate config = Some ()"
  obtains prio ws burst where "prio_Config_from (clc_channel_balance config) = Some prio" "prio_Config_new ws burst = Some prio"
  using assms by (auto simp: ClientConfig_validate_def ChannelBalanceConfig_validate_def prio_Config_from_def
      bind_eq_Some_conv)

lemma enqueue_all:
  "endpoint_wf ep \<Longrightarrow> ep_state_id ep = Active \<Longrightarrow> ep_rto_timer_state ep = None \<Longrightarrow>
   let ep' = fold (\<lambda>(packet, mode) ep. endpoint_enqueue ep packet mode now) ps ep
   in endpoint_wf ep' \<and> ep_state_id ep' = Active \<and> ep_rto_timer_state ep' = None"
proof (induction ps arbitrary: ep)
  case (Cons p ps)
  obtain packet mode where p: "p = (packet, mode)"
    by fastforce
  have "endpoint_wf (endpoint_enqueue ep packet mode now)" "ep_state_id (endpoint_enqueue ep packet mode now) = Active"
      "ep_rto_timer_state (endpoint_enqueue ep packet mode now) = None"
    using Cons.prems by (simp_all add: endpoint_enqueue_def endpoint_wf_def ftb_enqueue_inv)
  with Cons.IH p show ?case
    by simp
qed simp

lemma client_connected_ok:
  assumes "ClientConfig_validate (cli_config cli) = Some ()"
  shows "\<exists>ep t sent. client_connected coins now hs cli = Some (cli\<lparr>cli_state := CsActive ep, cli_rto_timer := t,
      cli_events := cli_events cli @ [ClConnect], cli_sent := cli_sent cli @ sent\<rparr>) \<and>
    endpoint_wf ep \<and> ep_state_id ep = Active \<and> timer_ok t ep"
proof -
  obtain prio ws burst where prio: "prio_Config_from (clc_channel_balance (cli_config cli)) = Some prio"
      "prio_Config_new ws burst = Some prio"
    using client_prio [OF assms] by blast
  let ?ec = "\<lparr>ec_timeout_time_ms = clc_connection_timeout_ms (cli_config cli), ec_prio_config = prio\<rparr>"
  obtain ep0 where ep0: "Endpoint_new ?ec = Some ep0" "endpoint_wf ep0" "ep_rto_timer_state ep0 = None"
    using Endpoint_new_wf [of ws burst ?ec] prio(2) by auto
  define ep1 where "ep1 = fold (\<lambda>(packet, mode) ep. endpoint_enqueue ep packet mode now) (hs_packet_buffer hs)
    (ep0\<lparr>ep_state_id := Active\<rparr>)"
  have ep1: "endpoint_wf ep1" "ep_state_id ep1 = Active" "ep_rto_timer_state ep1 = None"
    using enqueue_all [of "ep0\<lparr>ep_state_id := Active\<rparr>" now "hs_packet_buffer hs"] ep0(2,3)
    by (simp_all add: ep1_def endpoint_wf_def Let_def)
  then have "timer_ok None ep1"
    by (simp add: timer_ok_def)
  from flush_op_ok [OF ep1(1) this ep1(2), of coins False False now] obtain ep2 out where
      f: "flush_stream coins False False now ep1 = Some (ep2, out)" "op_ok None ep1 ep2 out" "same_conn ep1 ep2" "callbacks out = []"
    by blast
  have "client_events out = []"
    using client_events_simps(3) [of out] f(4) by simp
  then have "client_connected coins now hs cli = Some (cli\<lparr>cli_state := CsActive ep2, cli_rto_timer := timer_after out None,
      cli_events := cli_events cli @ [ClConnect], cli_sent := cli_sent cli @ sent_frames out\<rparr>)"
    using prio(1) ep0(1) f(1) ep1(2)
    by (simp add: client_connected_def endpoint_init_def endpoint_flush_def client_with_exact Let_def flip: ep1_def)
  moreover have "endpoint_wf ep2" "ep_state_id ep2 = Active" "timer_ok (timer_after out None) ep2"
    using f(2,3) ep1(2) by (simp_all add: op_ok_def same_conn_def)
  ultimately show ?thesis
    by blast
qed

lemma beta_boxed:
  "SimpleFrameWrite_write_boxed HandshakeBeta_SF (Serial_write HANDSHAKE_BETA_SIZE HandshakeBetaFrame_write) f =
     Some (finished_frame (frame_type_bits HandshakeBeta # HandshakeBetaFrame_enc f))"
  using handshake_beta.SimpleFrameWrite_write_boxed_value [of HandshakeBeta_SF f]
  by (simp add: HandshakeBeta_SF_def HANDSHAKE_BETA_SIZE_def HandshakeBetaFrame_enc_def)

lemma inv_alpha_ack:
  assumes inv: "client_inv hist cli"
  shows "\<exists>cli'. handle_handshake_alpha_ack bs now cli = Some cli' \<and> client_inv hist cli'"
proof (cases "cli_state cli")
  case (CsHandshake hs)
  obtain r where "SimplePayloadRead_read (Serial_read HANDSHAKE_ALPHA_ACK_SIZE HandshakeAlphaAckFrame_read) bs = Some r"
    using handshake_alpha_ack.SimplePayloadRead_total by blast
  with CsHandshake inv show ?thesis
    by (cases r) (simp_all add: handle_handshake_alpha_ack_def beta_boxed client_send_frame_def client_inv_def Let_def)
qed (use inv in \<open>simp_all add: handle_handshake_alpha_ack_def\<close>)

lemma inv_beta_ack:
  assumes inv: "client_inv hist cli"
  shows "\<exists>cli'. handle_handshake_beta_ack coins bs now cli = Some cli' \<and> client_inv hist cli'"
proof (cases "cli_state cli")
  case (CsHandshake hs)
  have start: "ClientConfig_validate (cli_config cli) = Some ()" "hist @ cli_events cli = []"
    using inv CsHandshake by (simp_all add: client_inv_def)
  obtain ep t sent where conn: "client_connected coins now hs cli = Some (cli\<lparr>cli_state := CsActive ep, cli_rto_timer := t,
      cli_events := cli_events cli @ [ClConnect], cli_sent := cli_sent cli @ sent\<rparr>)"
      "endpoint_wf ep" "ep_state_id ep = Active" "timer_ok t ep"
    using client_connected_ok [OF start(1)] by blast
  have "client_history [ClConnect] Active"
    unfolding client_history_def by (intro exI [of _ "[]"]) (simp add: conn_refl)
  then have connected: "client_inv hist (cli\<lparr>cli_state := CsActive ep, cli_rto_timer := t,
      cli_events := cli_events cli @ [ClConnect], cli_sent := cli_sent cli @ sent\<rparr>)"
    using conn start by (simp add: client_inv_def)
  obtain r where "SimplePayloadRead_read (Serial_read HANDSHAKE_BETA_ACK_SIZE HandshakeBetaAckFrame_read) bs = Some r"
    using handshake_beta_ack.SimplePayloadRead_total by blast
  with CsHandshake inv start conn(1) connected show ?thesis
    by (cases r) (auto simp: handle_handshake_beta_ack_def client_push_event_def client_inv_def split: option.splits)
qed (use inv in \<open>simp_all add: handle_handshake_beta_ack_def\<close>)

section \<open>Frames\<close>

definition client_received_ok :: "ClientReceived \<Rightarrow> bool" where
  "client_received_ok cr \<longleftrightarrow> length (cr_bytes cr) \<le> CLIENT_FRAME_SIZE_MAX"

lemma inv_client_handle_frame:
  assumes inv: "client_inv hist cli" and cr: "client_received_ok cr"
  shows "\<exists>cli'. client_handle_frame cr cli = Some cli' \<and> client_inv hist cli'"
proof (cases "verify_minimum_size (cr_bytes cr)")
  case True
  obtain ft b body where f: "read_type (cr_bytes cr) = Some ft" "verify_crc (cr_bytes cr) = Some b"
      "payload (cr_bytes cr) = Some body" "length body + 5 = length (cr_bytes cr)"
    using frame_checks_total [OF True] by blast
  have fits: "call_fits (CallFrame t body, cr_now_ms cr, cr_coins cr)" for t
    using f(4) cr by (simp add: client_received_ok_def CLIENT_FRAME_SIZE_MAX_def FRAME_SIZE_MAX_def)
  have other: "\<exists>cli'. client_handle_frame_other (cr_coins cr) t body (cr_now_ms cr) cli = Some cli' \<and> client_inv hist cli'" for t
    using inv_client_call [OF inv fits [of t]] by (simp add: client_calls)
  show ?thesis
    using True f(1-3) inv inv_alpha_ack [OF inv, of body "cr_now_ms cr"]
      inv_beta_ack [OF inv, of "cr_coins cr" body "cr_now_ms cr"] other
    by (cases ft; cases b) (simp_all add: client_handle_frame_def)
qed (use inv in \<open>simp add: client_handle_frame_def\<close>)

section \<open>A new client\<close>

text \<open>The first frame of a client.\<close>

definition alpha_frame :: "u32 \<Rightarrow> bytes" where
  "alpha_frame nonce =
     the (write_handshake_alpha \<lparr>ha_protocol_id = PROTOCOL_ID, ha_client_nonce = nonce\<rparr> CLIENT_FRAME_SIZE_MAX)"

lemma write_alpha_total:
  "\<exists>bs. write_handshake_alpha f CLIENT_FRAME_SIZE_MAX = Some bs"
proof -
  let ?buf = "replicate 1472 0 :: bytes"
  obtain fw where fw: "FrameWriter_new ?buf HandshakeAlpha = Some fw" "fw_holds fw 1472 [frame_type_bits HandshakeAlpha]"
    using FrameWriter_new_holds [of ?buf HandshakeAlpha] by (auto simp: serial_consts)
  obtain fw' where "FrameWriter_write (Serial_write HANDSHAKE_ALPHA_SIZE HandshakeAlphaFrame_write) fw f = Some (fw', True)"
      "fw_holds fw' 1472 ([frame_type_bits HandshakeAlpha] @ HandshakeAlphaFrame_enc f)"
    using handshake_alpha.FrameWriter_write_fits [OF fw(2), of f] by (auto simp: HandshakeAlphaFrame_enc_def serial_consts)
  with fw(1) show ?thesis
    by (simp add: write_handshake_alpha_def CLIENT_FRAME_SIZE_MAX_def HANDSHAKE_ALPHA_FRAME_SIZE_MAX_def FrameWriter_finalize_holds)
qed

lemma client_new_exact:
  "Client_new random config = Some \<lparr>cli_config = config, cli_state = CsHandshake
      \<lparr>hs_phase = PhaseAlpha, hs_timeout_time_ms = clc_handshake_timeout_ms config,
       hs_timeout_ms = clc_handshake_timeout_ms config, hs_packet_buffer = [], hs_frame = alpha_frame random,
       hs_local_nonce = random\<rparr>,
     cli_rto_timer = Some HANDSHAKE_RESEND_TIMEOUT_MS, cli_events = [], cli_sent = [alpha_frame random]\<rparr>"
  using write_alpha_total [of "\<lparr>ha_protocol_id = PROTOCOL_ID, ha_client_nonce = random\<rparr>"]
  by (auto simp: Client_new_def alpha_frame_def Let_def)

lemma demo_client_config: "ClientConfig_validate ClientConfig_default = Some ()"
  by (simp add: ClientConfig_validate_def ClientConfig_default_def HANDSHAKE_TIMEOUT_DEFAULT_MS_def HANDSHAKE_TIMEOUT_MIN_MS_def
      CLIENT_TIMEOUT_DEFAULT_MS_def CLIENT_TIMEOUT_MIN_MS_def ChannelBalanceConfig_validate_def
      ChannelBalanceConfig_default_def prio_Config_from_def prio_Config_new_def CHANNEL_COUNT_def WEIGHT_MAX_def
      BURST_SIZE_MAX_def DATA_SIZE_MAX_def Let_def)

section \<open>The nonce\<close>

text \<open>
  C17: the handshake of a client moves only for a sender who has seen its frames: a received
  frame that changes a connecting client is an acknowledgement of the phase it is in and
  carries the nonce the client drew.
\<close>

theorem handshake_needs_nonce:
  assumes st: "cli_state cli = CsHandshake hs" and r: "client_handle_frame cr cli = Some cli'" and moved: "cli' \<noteq> cli"
  shows "(hs_phase hs = PhaseAlpha \<and> read_type (cr_bytes cr) = Some (Some HandshakeAlphaAck) \<and>
      (\<exists>f. (payload (cr_bytes cr) \<bind> SimplePayloadRead_read (Serial_read HANDSHAKE_ALPHA_ACK_SIZE HandshakeAlphaAckFrame_read)) =
         Some (Some f) \<and> haa_client_nonce f = hs_local_nonce hs)) \<or>
    (hs_phase hs = PhaseBeta \<and> read_type (cr_bytes cr) = Some (Some HandshakeBetaAck) \<and>
      (\<exists>f. (payload (cr_bytes cr) \<bind> SimplePayloadRead_read (Serial_read HANDSHAKE_BETA_ACK_SIZE HandshakeBetaAckFrame_read)) =
         Some (Some f) \<and> hba_client_nonce f = hs_local_nonce hs))"
proof -
  obtain ft body where f: "read_type (cr_bytes cr) = Some (Some ft)" "payload (cr_bytes cr) = Some body"
      "(if ft = HandshakeAlphaAck then handle_handshake_alpha_ack body (cr_now_ms cr) cli
        else if ft = HandshakeBetaAck then handle_handshake_beta_ack (cr_coins cr) body (cr_now_ms cr) cli
        else client_handle_frame_other (cr_coins cr) ft body (cr_now_ms cr) cli) = Some cli'"
    using r moved by (auto simp: client_handle_frame_def bind_eq_Some_conv split: if_splits option.splits)
  consider "ft = HandshakeAlphaAck" | "ft = HandshakeBetaAck" | "ft \<noteq> HandshakeAlphaAck" "ft \<noteq> HandshakeBetaAck"
    by blast
  then show ?thesis
  proof cases
    case 1
    with f st moved show ?thesis
      by (auto simp: handle_handshake_alpha_ack_def bind_eq_Some_conv Let_def split: if_splits option.splits)
  next
    case 2
    with f st moved show ?thesis
      by (auto simp: handle_handshake_beta_ack_def bind_eq_Some_conv split: if_splits option.splits)
  next
    case 3
    with f st moved show ?thesis
      by (simp add: client_handle_frame_other_def)
  qed
qed

end
