(* ===== verification/Client_Runs.thy ===== *)
theory Client_Runs
  imports Client_Props
begin

text \<open>
  Runs of a client object against an arbitrary network, clock and application, as those of
  the server: nothing aborts, the invariant holds, and the events come in order.
\<close>

section \<open>What the reading loop handles\<close>

fun client_process :: "ClientReceived list \<Rightarrow> Client \<Rightarrow> Client rust" where
  "client_process [] cli = Some cli"
| "client_process (cr # crs) cli = client_handle_frame cr cli \<bind> client_process crs"

fun client_receive_all :: "Instant \<Rightarrow> nat \<Rightarrow> (nat \<Rightarrow> ClientFrameEnv) \<Rightarrow> bytes list \<Rightarrow> ClientReceived list" where
  "client_receive_all time_ref n env [] = []"
| "client_receive_all time_ref n env (d # ds) =
     client_received time_ref (env 0) (take n d) # client_receive_all time_ref n (env \<circ> Suc) ds"

abbreviation connected_room :: "ConnectedSocketRx \<Rightarrow> nat" where
  "connected_room rx \<equiv> length (crx_recv_buffer rx)"

lemma client_handle_frames_exact:
  "\<exists>rx'. connected_room rx' = connected_room rx \<and> client_handle_frames time_ref env answers rx cli =
     map_option (Pair rx') (client_process (client_receive_all time_ref (connected_room rx) env (datagrams answers)) cli)"
proof (induction "datagrams answers" arbitrary: env answers rx cli)
  case Nil
  with client_socket.read_step [of answers rx] obtain as' r where
      "connected_try_read_frame answers rx = (as', rx, r)" "\<forall>f. r \<noteq> Inr (Some f)"
    by auto
  with Nil show ?case
    by (intro exI [of _ rx]) (auto simp: client_handle_frames.simps [of time_ref env answers rx cli] split: sum.splits option.splits)
next
  case (Cons d ds)
  then have eq: "datagrams answers = d # ds"
    by simp
  from client_socket.read_step [of answers rx, unfolded eq] obtain as' rx' where
      r: "connected_try_read_frame answers rx = (as', rx', Inr (Some (take (connected_room rx) d)))"
        "connected_room rx' = connected_room rx" "datagrams as' = ds"
    by auto
  let ?cr = "client_received time_ref (env 0) (take (connected_room rx) d)"
  have step: "client_handle_frames time_ref env answers rx cli =
      client_handle_frame ?cr cli \<bind> client_handle_frames time_ref (env \<circ> Suc) as' rx'"
    by (simp add: client_handle_frames.simps [of time_ref env answers rx cli] r(1))
  show ?case
  proof (cases "client_handle_frame ?cr cli")
    case None
    with step show ?thesis
      by (auto simp: eq)
  next
    case (Some cli1)
    with step Cons(1) [OF r(3) [symmetric], of rx' "env \<circ> Suc" cli1] r(2,3) show ?thesis
      by (auto simp: eq)
  qed
qed

lemma client_handle_frames_wait_exact:
  "\<exists>rx'. connected_room rx' = connected_room rx \<and> client_handle_frames_wait time_ref env poll answers rx cli =
     map_option (Pair rx') (client_process (client_receive_all time_ref (connected_room rx) env
       (if \<exists>n > 0. io_bind (po_modify poll) (\<lambda>_. po_wait poll) = Inr n then datagrams answers else [])) cli)"
proof (cases "\<exists>n > 0. io_bind (po_modify poll) (\<lambda>_. po_wait poll) = Inr n")
  case True
  then have "client_handle_frames_wait time_ref env poll answers rx cli = client_handle_frames time_ref env answers rx cli"
    by (auto simp: client_handle_frames_wait_def connected_wait_for_frame_def client_handle_frames.simps [of time_ref env answers rx cli])
  with True client_handle_frames_exact [of rx time_ref env answers cli] show ?thesis
    by simp
next
  case False
  then have "client_handle_frames_wait time_ref env poll answers rx cli = Some (rx, cli)"
    by (cases "io_bind (po_modify poll) (\<lambda>_. po_wait poll)")
      (auto simp: client_handle_frames_wait_def connected_wait_for_frame_def simp del: io_bind_Inr)
  with False show ?thesis
    by (intro exI [of _ rx]) (simp only: if_False client_receive_all.simps client_process.simps option.map simp_thms)
qed

section \<open>The invariant of the client object\<close>

definition client_obj_inv :: "ClientEvent list \<Rightarrow> ClientObj \<Rightarrow> bool" where
  "client_obj_inv hist co \<longleftrightarrow> client_inv hist (co_core co) \<and> connected_room (co_socket_rx co) = CLIENT_FRAME_SIZE_MAX"

lemma inv_client_process:
  "client_inv hist cli \<Longrightarrow> \<forall>cr \<in> set crs. client_received_ok cr \<Longrightarrow>
     \<exists>cli'. client_process crs cli = Some cli' \<and> client_inv hist cli'"
proof (induction crs arbitrary: cli)
  case (Cons cr crs)
  have "client_received_ok cr"
    using Cons.prems(2) by simp
  from inv_client_handle_frame [OF Cons.prems(1) this] obtain cli1 where
      "client_handle_frame cr cli = Some cli1" "client_inv hist cli1"
    by blast
  with Cons.IH [of cli1] Cons.prems(2) show ?case
    by simp
qed simp

lemma client_received_all_fit: "\<forall>cr \<in> set (client_receive_all time_ref CLIENT_FRAME_SIZE_MAX env ds). client_received_ok cr"
  by (induction ds arbitrary: env) (simp_all add: client_received_ok_def client_received_def)

lemma inv_client_round:
  assumes "client_obj_inv hist co"
  shows "\<exists>co'. client_round wait r co = Some co' \<and> client_obj_inv hist co'"
proof -
  let ?t = "co_time_ref co"
  have inv: "client_inv hist (co_core co)" and room: "connected_room (co_socket_rx co) = CLIENT_FRAME_SIZE_MAX"
    using assms by (simp_all add: client_obj_inv_def)
  obtain rx' ds where f: "connected_room rx' = CLIENT_FRAME_SIZE_MAX"
      "(if wait then client_handle_frames_wait ?t (cw_env r) (cw_poll r) (cw_answers r) (co_socket_rx co) (co_core co)
        else client_handle_frames ?t (cw_env r) (cw_answers r) (co_socket_rx co) (co_core co)) =
       map_option (Pair rx') (client_process (client_receive_all ?t CLIENT_FRAME_SIZE_MAX (cw_env r) ds) (co_core co))"
    using client_handle_frames_exact [of "co_socket_rx co" ?t "cw_env r" "cw_answers r" "co_core co"]
      client_handle_frames_wait_exact [of "co_socket_rx co" ?t "cw_env r" "cw_poll r" "cw_answers r" "co_core co"] room
    by (cases wait) auto
  obtain cli1 where cli1: "client_process (client_receive_all ?t CLIENT_FRAME_SIZE_MAX (cw_env r) ds) (co_core co) = Some cli1"
      "client_inv hist cli1"
    using inv_client_process [OF inv client_received_all_fit] by blast
  from inv_process_timeouts [OF cli1(2), of "cw_coins r" "client_time_now_ms ?t (cw_now r)"] f cli1(1) show ?thesis
    by (auto simp: client_round_def client_obj_inv_def simp del: if_split)
qed

lemma inv_client_pop_event:
  assumes "client_obj_inv hist co" and "client_obj_pop_event co = (co', e)"
  shows "client_obj_inv (hist @ (case e of Some e \<Rightarrow> [e] | None \<Rightarrow> [])) co'"
  using assms by (cases "cli_events (co_core co)")
    (auto simp: client_obj_pop_event_def client_pop_event_def client_obj_inv_def client_inv_def split: ClientState.splits)

lemma inv_client_poll_event:
  assumes inv: "client_obj_inv hist co"
  shows "\<exists>co' e. client_poll_event r co = Some (co', e) \<and>
    client_obj_inv (hist @ (case e of Some e \<Rightarrow> [e] | None \<Rightarrow> [])) co'"
proof -
  obtain co1 where "(if cli_events (co_core co) = [] then client_round False r co else Some co) = Some co1" "client_obj_inv hist co1"
    using inv_client_round [OF inv] inv by (cases "cli_events (co_core co) = []") auto
  then show ?thesis
    using inv_client_pop_event [of hist co1] by (cases "client_obj_pop_event co1") (simp add: client_poll_event_def)
qed

lemma inv_client_wait_event:
  "client_obj_inv hist co \<Longrightarrow> \<exists>co' e. client_wait_event fuel world clock k co = Some (co', e) \<and>
     client_obj_inv (hist @ (case e of Some e \<Rightarrow> [e] | None \<Rightarrow> [])) co'"
proof (induction fuel arbitrary: k co)
  case (Suc fuel)
  obtain co1 where r: "client_round True (world k (client_wait_limit (clock k) co)) co = Some co1" "client_obj_inv hist co1"
    using inv_client_round [OF Suc.prems] by blast
  obtain co2 e where p: "client_obj_pop_event co1 = (co2, e)"
    by fastforce
  with inv_client_pop_event [OF r(2) p] Suc.IH [of co2 "Suc k"] r(1) show ?case
    by (cases e) simp_all
qed simp

section \<open>Runs\<close>

datatype ClientInput =
    CiPoll ClientRound
  | CiWait nat "nat \<Rightarrow> nat option \<Rightarrow> ClientRound" "nat \<Rightarrow> Instant"
  | CiEnqueue bytes SendMode Instant
  | CiFlush "nat \<Rightarrow> bool" Instant
  | CiSend bytes SendMode "nat \<Rightarrow> bool" Instant
  | CiDisconnect Instant

definition on_client :: "(u64 \<Rightarrow> Client \<Rightarrow> Client rust) \<Rightarrow> Instant \<Rightarrow> ClientObj \<Rightarrow> (ClientObj \<times> ClientEvent list) rust" where
  "on_client op now co =
     map_option (\<lambda>core. (co\<lparr>co_core := core\<rparr>, [])) (op (client_time_now_ms (co_time_ref co) now) (co_core co))"

definition client_event_list :: "(ClientObj \<times> ClientEvent option) rust \<Rightarrow> (ClientObj \<times> ClientEvent list) rust" where
  "client_event_list r = map_option (\<lambda>(co, e). (co, case e of Some e \<Rightarrow> [e] | None \<Rightarrow> [])) r"

fun client_step :: "ClientInput \<Rightarrow> ClientObj \<Rightarrow> (ClientObj \<times> ClientEvent list) rust" where
  "client_step (CiPoll r) co = client_event_list (client_poll_event r co)"
| "client_step (CiWait fuel world clock) co = client_event_list (client_wait_event fuel world clock 0 co)"
| "client_step (CiEnqueue bs mode now) co = on_client (\<lambda>now cli. Some (client_enqueue now bs mode cli)) now co"
| "client_step (CiFlush coins now) co = on_client (client_flush coins) now co"
| "client_step (CiSend bs mode coins now) co = on_client (\<lambda>now. client_send coins now bs mode) now co"
| "client_step (CiDisconnect now) co = on_client client_disconnect now co"

fun client_run :: "ClientInput list \<Rightarrow> ClientObj \<Rightarrow> (ClientObj \<times> ClientEvent list) rust" where
  "client_run [] co = Some (co, [])"
| "client_run (i # is) co = do {
     (co, es) \<leftarrow> client_step i co;
     (co, es') \<leftarrow> client_run is co;
     Some (co, es @ es') }"

definition client_start ::
    "SocketOs \<Rightarrow> Instant \<Rightarrow> u32 \<Rightarrow> ClientConfig \<Rightarrow> ClientInput list \<Rightarrow> (ClientObj \<times> ClientEvent list) io_result rust" where
  "client_start os now random config is = do {
     r \<leftarrow> Client_connect_with_config os now random config;
     case r of
       Inl err \<Rightarrow> Some (Inl err)
     | Inr co \<Rightarrow> map_option Inr (client_run is co) }"

lemma on_client_inv:
  assumes "client_obj_inv hist co"
    and "\<And>now. \<exists>cli'. op now (co_core co) = Some cli' \<and> client_inv hist cli'"
  shows "\<exists>co' es. on_client op now co = Some (co', es) \<and> client_obj_inv (hist @ es) co'"
  using assms(1) assms(2) [of "client_time_now_ms (co_time_ref co) now"] by (auto simp: on_client_def client_obj_inv_def)

lemma inv_client_step:
  assumes inv: "client_obj_inv hist co"
  shows "\<exists>co' es. client_step i co = Some (co', es) \<and> client_obj_inv (hist @ es) co'"
proof (cases i)
  case (CiPoll r)
  with inv_client_poll_event [OF inv, of r] show ?thesis
    by (auto simp: client_event_list_def)
next
  case (CiWait fuel world clock)
  with inv_client_wait_event [OF inv, of fuel world clock 0] show ?thesis
    by (auto simp: client_event_list_def)
next
  case (CiEnqueue bs mode now)
  with on_client_inv [OF inv, of "\<lambda>now cli. Some (client_enqueue now bs mode cli)"] inv_client_enqueue [of hist "co_core co"] inv
  show ?thesis
    by (simp add: client_obj_inv_def)
next
  case (CiFlush coins now)
  have "\<exists>cli'. client_flush coins t (co_core co) = Some cli' \<and> client_inv hist cli'" for t
    using inv_client_call [of hist "co_core co" "(CallFlush, t, coins)"] inv by (auto simp: client_calls client_obj_inv_def)
  with CiFlush on_client_inv [OF inv] show ?thesis
    by simp
next
  case (CiSend bs mode coins now)
  have "\<exists>cli'. client_send coins t bs mode (co_core co) = Some cli' \<and> client_inv hist cli'" for t
    using inv_client_call [OF inv_client_enqueue [of hist "co_core co" t bs mode], of "(CallFlush, t, coins)"] inv
    by (auto simp: client_calls client_send_calls client_obj_inv_def)
  with CiSend on_client_inv [OF inv, of "\<lambda>now. client_send coins now bs mode"] show ?thesis
    by simp
next
  case (CiDisconnect now)
  have "\<exists>cli'. client_disconnect t (co_core co) = Some cli' \<and> client_inv hist cli'" for t
    using inv_client_call [of hist "co_core co" "(CallDisconnect, t, \<lambda>_. True)"] inv
    by (auto simp: client_calls(3) [of t _ "\<lambda>_. True"] client_obj_inv_def)
  with CiDisconnect on_client_inv [OF inv] show ?thesis
    by simp
qed

lemma inv_client_run:
  "client_obj_inv hist co \<Longrightarrow> \<exists>co' es. client_run is co = Some (co', es) \<and> client_obj_inv (hist @ es) co'"
proof (induction "is" arbitrary: co hist)
  case (Cons i "is")
  obtain co1 es where s: "client_step i co = Some (co1, es)" "client_obj_inv (hist @ es) co1"
    using inv_client_step [OF Cons.prems] by blast
  obtain co2 es' where "client_run is co1 = Some (co2, es')" "client_obj_inv ((hist @ es) @ es') co2"
    using Cons.IH [OF s(2)] by blast
  with s(1) show ?case
    by simp
qed simp

lemma client_start_inv:
  assumes "ClientConfig_validate config = Some ()" and "socket_new_connected os CLIENT_FRAME_SIZE_MAX = Inr rx"
  shows "\<exists>co es. client_start os now random config is = Some (Inr (co, es)) \<and> client_obj_inv es co"
proof -
  obtain cli where cli: "Client_new random config = Some cli" "client_inv [] cli"
    using client_new_exact [of random config] assms(1) by (simp add: client_inv_def)
  have "connected_room rx = CLIENT_FRAME_SIZE_MAX"
    using assms(2) by (auto simp: socket_new_connected_def)
  then have "client_obj_inv [] \<lparr>co_core = cli, co_time_ref = now, co_socket_rx = rx\<rparr>"
    using cli(2) by (simp add: client_obj_inv_def)
  from inv_client_run [OF this, of "is"] assms cli(1) show ?thesis
    by (auto simp: client_start_def Client_connect_with_config_def)
qed

text \<open>A run with junk, an oversized datagram and a refused connection.\<close>

definition demo_client_round :: "bytes io_result list \<Rightarrow> Instant \<Rightarrow> ClientRound" where
  "demo_client_round answers now = \<lparr>cw_answers = answers, cw_poll = \<lparr>po_modify = Inr (), po_wait = Inr 1\<rparr>,
     cw_env = (\<lambda>k. \<lparr>cfe_now = now, cfe_coins = (\<lambda>_. True)\<rparr>), cw_now = now, cw_coins = (\<lambda>_. True)\<rparr>"

definition demo_client_inputs :: "ClientInput list" where
  "demo_client_inputs =
     [CiSend [1, 2] SendReliable (\<lambda>_. True) 1000000,
      CiPoll (demo_client_round [Inr [1, 2, 3], Inr (replicate 33 1), Inr (replicate 9000 0), Inl (OtherError 111)] 2500000000),
      CiDisconnect 2600000000, CiWait 2 (\<lambda>_ _. demo_client_round [] 10500000000) (\<lambda>_. 2600000000)]"

section \<open>Waiting\<close>

lemma client_wait_timeout_loop_returns:
  "client_obj_inv es co \<Longrightarrow> remaining \<le> sum elapsed {k..<k + fuel} \<Longrightarrow> 0 < fuel \<Longrightarrow>
     \<exists>co'. client_wait_timeout_loop fuel world clock elapsed k remaining co = Some (Some co') \<and> client_obj_inv es co'"
proof (induction fuel arbitrary: k remaining co)
  case (Suc fuel)
  let ?wait = "case client_wait_limit (clock k) co of Some t \<Rightarrow> min remaining t | None \<Rightarrow> remaining"
  from inv_client_round [OF Suc.prems(1), of True] obtain co1 where
      r: "client_round True (world k (Some ?wait)) co = Some co1" "client_obj_inv es co1"
    by blast
  show ?case
  proof (cases "cli_events (co_core co1) = [] \<and> elapsed k < remaining")
    case True
    then have "remaining - elapsed k \<le> sum elapsed {Suc k..<Suc k + fuel}" "0 < fuel"
      using time_left [OF Suc.prems(2)] by simp_all
    from Suc.IH [OF r(2) this] True r(1) show ?thesis
      by simp
  next
    case False
    with r show ?thesis
      by (auto simp: not_less)
  qed
qed simp

text \<open>Waiting with a timeout returns once the rounds have lasted that long, and leaves the client in order.\<close>

lemma client_wait_event_timeout_returns:
  assumes inv: "client_obj_inv es co" and enough: "timeout \<le> sum elapsed {..<fuel}" "0 < fuel"
  shows "\<exists>co' event. client_wait_event_timeout fuel world clock elapsed timeout co = Some (Some (co', event)) \<and>
    client_obj_inv (es @ (case event of Some e \<Rightarrow> [e] | None \<Rightarrow> [])) co'"
proof -
  have "timeout \<le> sum elapsed {0..<0 + fuel}"
    using enough(1) by (simp add: atLeast0LessThan)
  from client_wait_timeout_loop_returns [OF inv this enough(2), of world clock] obtain co1 where
      co1: "(if cli_events (co_core co) = [] then client_wait_timeout_loop fuel world clock elapsed 0 timeout co else Some (Some co)) =
        Some (Some co1)" "client_obj_inv es co1"
    using inv by (cases "cli_events (co_core co) = []") auto
  obtain co' e where p: "client_obj_pop_event co1 = (co', e)"
    by fastforce
  with inv_client_pop_event [OF co1(2) p] co1(1) show ?thesis
    by (auto simp: client_wait_event_timeout_def split: if_splits)
qed

section \<open>Events\<close>

lemma client_history_shape:
  assumes hist: "client_history es s"
  shows "\<exists>ps fin. es = ClConnect # map ClReceive ps @ fin \<and>
    fin \<in> {[], [ClDisconnect], [ClError Timeout]} \<and> (fin = [] \<longleftrightarrow> conn_open s) \<and> (fin = [ClError Timeout] \<longrightarrow> s = Zombie)"
proof -
  obtain xs where xs: "es = client_events (OnConnect # xs)" "conn_steps Active xs s"
    using hist by (auto simp: client_history_def)
  obtain ps fin where f: "xs = map OnReceive ps @ fin" "fin = [] \<or> fin = [OnDisconnect] \<or> fin = [OnTimeout]" "(fin = []) = conn_open s"
    using conn_steps_shape [OF xs(2)] by (auto simp: conn_open_def)
  have "fin = [OnTimeout] \<longrightarrow> s = Zombie"
    using xs(2) unfolding f(1) by (auto dest: conn_steps_timeout)
  with xs(1) f show ?thesis
    by (intro exI [of _ ps] exI [of _ "client_events fin"]) auto
qed

lemma client_inv_shape:
  assumes "client_inv es cli"
  shows "case cli_state cli of
     CsHandshake hs \<Rightarrow> es @ cli_events cli = []
   | CsActive ep \<Rightarrow> \<exists>ps fin. es @ cli_events cli = ClConnect # map ClReceive ps @ fin \<and>
       fin \<in> {[], [ClDisconnect]} \<and> (fin = [] \<longleftrightarrow> conn_open (ep_state_id ep))
   | CsQuiescent \<Rightarrow> (\<exists>k. es @ cli_events cli = [ClError k]) \<or>
       (\<exists>ps fin. es @ cli_events cli = ClConnect # map ClReceive ps @ [fin] \<and> fin \<in> {ClDisconnect, ClError Timeout})"
proof (cases "cli_state cli")
  case (CsActive ep)
  then have "client_history (es @ cli_events cli) (ep_state_id ep)" "ep_state_id ep \<noteq> Zombie"
    using assms by (simp_all add: client_inv_def)
  with client_history_shape [OF this(1)] CsActive show ?thesis
    by auto
next
  case CsQuiescent
  then show ?thesis
    using assms client_history_shape [of "es @ cli_events cli" Zombie] by (auto simp: client_inv_def conn_open_def)
qed (use assms in \<open>simp add: client_inv_def\<close>)

text \<open>
  C16: a client never aborts, whatever its socket answers and whatever the application calls
  (the errors of creating the socket go to the caller), and over all polls and waits the
  application sees nothing while the handshake lasts, then either one error, or a connect
  event, packets and at most one end.
\<close>

theorem client_event_order:
  assumes "ClientConfig_validate config = Some ()"
  shows "case socket_new_connected os CLIENT_FRAME_SIZE_MAX of
      Inl err \<Rightarrow> client_start os now random config is = Some (Inl err)
    | Inr rx \<Rightarrow> \<exists>co es cli. client_start os now random config is = Some (Inr (co, es)) \<and> cli = co_core co \<and>
        (case cli_state cli of
           CsHandshake hs \<Rightarrow> es @ cli_events cli = []
         | CsActive ep \<Rightarrow> \<exists>ps fin. es @ cli_events cli = ClConnect # map ClReceive ps @ fin \<and>
             fin \<in> {[], [ClDisconnect]} \<and> (fin = [] \<longleftrightarrow> conn_open (ep_state_id ep))
         | CsQuiescent \<Rightarrow> (\<exists>k. es @ cli_events cli = [ClError k]) \<or>
             (\<exists>ps fin. es @ cli_events cli = ClConnect # map ClReceive ps @ [fin] \<and> fin \<in> {ClDisconnect, ClError Timeout}))"
proof (cases "socket_new_connected os CLIENT_FRAME_SIZE_MAX")
  case (Inl err)
  with assms show ?thesis
    by (simp add: client_start_def Client_connect_with_config_def)
next
  case (Inr rx)
  obtain co es where run: "client_start os now random config is = Some (Inr (co, es))" "client_inv es (co_core co)"
    using client_start_inv [OF assms Inr] unfolding client_obj_inv_def by blast
  from run(1) client_inv_shape [OF run(2)] Inr show ?thesis
    by (simp only: sum.case) blast
qed

theorem client_event_order_witness:
  "\<exists>co es. client_start demo_os 0 77 ClientConfig_default demo_client_inputs = Some (Inr (co, es))"
  using client_event_order [OF demo_client_config, of demo_os 0 77 demo_client_inputs] by (auto simp: demo_os_ok)

end
