(* ===== verification/Client_Side.thy ===== *)
theory Client_Side
  imports Pair_Net Client_Runs
begin

text \<open>
  A client as one side of a connection: its operations, each of which is a sequence of calls
  on its endpoint or a step of its handshake.
\<close>

section \<open>Operations\<close>

text \<open>What a client does in one piece: it handles a frame or its timer, is called, or hands out an event.\<close>

datatype ClientOp =
    CoFrame ClientReceived
  | CoTimeouts "nat \<Rightarrow> bool" u64
  | CoEnqueue u64 bytes SendMode
  | CoSend "nat \<Rightarrow> bool" u64 bytes SendMode
  | CoFlush "nat \<Rightarrow> bool" u64
  | CoDisconnect u64
  | CoPop

abbreviation no_events :: "'a rust \<Rightarrow> ('a \<times> 'e list) rust" where
  "no_events r \<equiv> map_option (\<lambda>x. (x, [])) r"

fun client_op :: "ClientOp \<Rightarrow> Client \<Rightarrow> (Client \<times> ClientEvent list) rust" where
  "client_op (CoFrame cr) cli = no_events (client_handle_frame cr cli)"
| "client_op (CoTimeouts coins now) cli = no_events (process_timeouts coins now cli)"
| "client_op (CoEnqueue now p mode) cli = Some (client_enqueue now p mode cli, [])"
| "client_op (CoSend coins now p mode) cli = no_events (client_send coins now p mode cli)"
| "client_op (CoFlush coins now) cli = no_events (client_flush coins now cli)"
| "client_op (CoDisconnect now) cli = no_events (client_disconnect now cli)"
| "client_op CoPop cli = Some (case client_pop_event cli of (cli, e) \<Rightarrow> (cli, case e of Some e \<Rightarrow> [e] | None \<Rightarrow> []))"

text \<open>The packets an operation hands to the client, if the client still takes any.\<close>

definition client_accepts :: "Client \<Rightarrow> bool" where
  "client_accepts cli = (case cli_state cli of CsHandshake hs \<Rightarrow> True | CsActive ep \<Rightarrow> ep_state_id ep = Active | CsQuiescent \<Rightarrow> False)"

fun client_takes :: "ClientOp \<Rightarrow> Client \<Rightarrow> (bytes \<times> SendMode) list" where
  "client_takes (CoEnqueue now p mode) cli = (if client_accepts cli then [(p, mode)] else [])"
| "client_takes (CoSend coins now p mode) cli = (if client_accepts cli then [(p, mode)] else [])"
| "client_takes _ cli = []"

fun client_packets :: "ClientEvent list \<Rightarrow> bytes list" where
  "client_packets [] = []"
| "client_packets (ClReceive p # es) = p # client_packets es"
| "client_packets (_ # es) = client_packets es"

lemma client_packets_append [simp]: "client_packets (xs @ ys) = client_packets xs @ client_packets ys"
  by (induction xs rule: client_packets.induct) simp_all

lemma client_packets_events [simp]: "client_packets (client_events out) = received out"
  by (induction out rule: client_events.induct) simp_all

lemma inv_client_op:
  assumes inv: "client_inv hist cli" and fits: "\<And>cr. op = CoFrame cr \<Longrightarrow> client_received_ok cr"
  shows "\<exists>cli' es. client_op op cli = Some (cli', es) \<and> client_inv (hist @ es) cli'"
proof (cases op)
  case (CoFrame cr)
  with inv_client_handle_frame [OF inv fits] show ?thesis
    by auto
next
  case (CoTimeouts coins now)
  with inv_process_timeouts [OF inv, of coins now] show ?thesis
    by auto
next
  case (CoSend coins now p mode)
  with inv_client_call [OF inv_client_enqueue [OF inv], of "(CallFlush, now, coins)" now p mode] show ?thesis
    by (auto simp: client_send_calls client_calls)
next
  case (CoFlush coins now)
  with inv_client_call [OF inv, of "(CallFlush, now, coins)"] show ?thesis
    by (auto simp: client_calls)
next
  case (CoDisconnect now)
  with inv_client_call [OF inv, of "(CallDisconnect, now, \<lambda>_. True)"] show ?thesis
    by (auto simp: client_calls(3) [of now _ "\<lambda>_. True"])
next
  case CoPop
  with inv show ?thesis
    by (cases "cli_events cli") (auto simp: client_pop_event_def client_inv_def split: ClientState.splits)
qed (use inv_client_enqueue [OF inv] in simp)

section \<open>A client and its side\<close>

definition handshake_frame :: "bytes \<Rightarrow> bool" where
  "handshake_frame bs \<longleftrightarrow> read_type bs = Some (Some HandshakeAlpha) \<or> read_type bs = Some (Some HandshakeBeta)"

definition handshake_ack :: "bytes \<Rightarrow> bool" where
  "handshake_ack bs \<longleftrightarrow> read_type bs = Some (Some HandshakeAlphaAck) \<or> read_type bs = Some (Some HandshakeBetaAck)"

text \<open>The configuration of the endpoint that the client will make.\<close>

definition client_ec :: "ClientConfig \<Rightarrow> EndpointConfig \<Rightarrow> bool" where
  "client_ec config ec \<longleftrightarrow> prio_Config_from (clc_channel_balance config) = Some (ec_prio_config ec) \<and>
     ec_timeout_time_ms ec = clc_connection_timeout_ms config"

text \<open>
  The side is that of the endpoint, once there is one; before, it is fresh and the packets taken
  are in the buffer of the handshake. The other frames of a client are those of its handshake.
\<close>

definition client_is :: "EndpointConfig \<Rightarrow> ClientEvent list \<Rightarrow> (bytes \<times> SendMode) list \<Rightarrow> Client \<Rightarrow> Side \<Rightarrow> bool" where
  "client_is ec hist q cli a \<longleftrightarrow>
     client_ec (cli_config cli) ec \<and> length (sd_sent a) \<le> length (cli_sent cli) \<and>
     (\<forall>bs \<in> set (cli_sent cli). bs \<in> set (sd_sent a) \<or> handshake_frame bs) \<and>
     sd_received a = client_packets (hist @ cli_events cli) \<and>
     (case cli_state cli of
        CsHandshake hs \<Rightarrow> fresh_side ec a \<and> handshake_frame (hs_frame hs) \<and> hs_packet_buffer hs = q
      | CsActive ep \<Rightarrow> sd_ep a = ep \<and> sd_timer a = cli_rto_timer cli \<and> sd_rel a = reliable_of q \<and> sd_unrel a = unreliable_of q
      | CsQuiescent \<Rightarrow> prefix (sd_rel a) (reliable_of q) \<and> subseq (sd_unrel a) (unreliable_of q))"

lemma client_is_active:
  "cli_state cli = CsActive ep \<Longrightarrow> client_is ec hist q cli a \<longleftrightarrow>
     client_ec (cli_config cli) ec \<and> length (sd_sent a) \<le> length (cli_sent cli) \<and>
     (\<forall>bs \<in> set (cli_sent cli). bs \<in> set (sd_sent a) \<or> handshake_frame bs) \<and>
     sd_received a = client_packets (hist @ cli_events cli) \<and>
     sd_ep a = ep \<and> sd_timer a = cli_rto_timer cli \<and> sd_rel a = reliable_of q \<and> sd_unrel a = unreliable_of q"
  by (simp add: client_is_def)

text \<open>A call on the endpoint.\<close>

lemma client_with_is:
  assumes "client_is ec hist q cli a" and "cli_state cli = CsActive ep" and "host_step c ep (cli_rto_timer cli) = Some (ep', t, out)"
    and "t = timer_after out t0"
  shows "client_is ec hist (q @ taken ep (fst c)) (client_with ep' out (cli\<lparr>cli_rto_timer := t0\<rparr>)) (side_after c ep' t out a)"
  using assms by (auto simp: client_is_active client_is_def client_with_exact side_after_def taken_channels)

lemma client_call_side:
  assumes "client_is ec hist q cli a" and "cli_state cli = CsActive ep" and c: "genuine wire c" "fst c \<noteq> CallTimer"
    and r: "client_call c cli = Some cli'"
  shows "\<exists>a'. side_step wire a a' \<and> client_is ec hist (q @ taken ep (fst c)) cli' a'"
proof -
  obtain ep' t out where s: "host_step c ep (cli_rto_timer cli) = Some (ep', t, out)" "cli' = client_with ep' out cli"
    using r assms(2) by (auto simp: client_call_def)
  have "t = timer_after out (cli_rto_timer cli)"
    using s(1) c(2) by (cases "(c, ep, cli_rto_timer cli)" rule: host_step.cases) auto
  from client_with_is [OF assms(1,2) s(1) this] s(2) have "client_is ec hist (q @ taken ep (fst c)) cli' (side_after c ep' t out a)"
    by simp
  moreover have "side_step wire a (side_after c ep' t out a)"
    using assms(1,2) s(1) by (intro side_call [OF c(1)]) (simp add: client_is_active)
  ultimately show ?thesis
    by blast
qed

text \<open>A call that changes nothing as long as there is no endpoint.\<close>

lemma client_call_steps:
  assumes is_a: "client_is ec hist q cli a" and c: "genuine wire c" "fst c \<noteq> CallTimer" "\<And>p mode. fst c \<noteq> CallEnqueue p mode"
    and r: "client_call c cli = Some cli'"
  shows "\<exists>a'. side_steps wire a a' \<and> client_is ec hist q cli' a'"
proof (cases "cli_state cli")
  case (CsActive ep)
  have "taken ep (fst c) = []"
  proof (cases "fst c")
    case (CallEnqueue p mode)
    with c(3) show ?thesis
      by blast
  qed (simp_all add: taken_def)
  with client_call_side [OF is_a CsActive c(1,2) r] show ?thesis
    by auto
qed (use r is_a in \<open>auto simp: client_call_def\<close>)

lemma client_enqueue_steps:
  assumes is_a: "client_is ec hist q cli a"
  shows "\<exists>a'. side_steps wire a a' \<and>
    client_is ec hist (q @ (if client_accepts cli then [(p, mode)] else [])) (client_enqueue now p mode cli) a'"
proof (cases "cli_state cli")
  case (CsHandshake hs)
  with is_a show ?thesis
    by (intro exI [of _ a]) (simp add: client_is_def client_enqueue_def client_accepts_def)
next
  case (CsActive ep)
  let ?c = "(CallEnqueue p mode, now, \<lambda>k. True)"
  have "client_call ?c cli = Some (client_enqueue now p mode cli)"
    using CsActive by (simp add: client_call_def client_enqueue_def client_with_def)
  from client_call_side [OF is_a CsActive _ _ this, of wire] CsActive show ?thesis
    by (auto simp: genuine_other taken_def client_accepts_def)
next
  case CsQuiescent
  with is_a show ?thesis
    by (intro exI [of _ a]) (simp add: client_enqueue_def client_accepts_def)
qed

section \<open>The handshake\<close>

lemma client_connected_steps:
  assumes is_a: "client_is ec hist q cli a" and inv: "client_inv hist cli" and st: "cli_state cli = CsHandshake hs"
    and r: "client_connected coins now hs cli = Some cli'"
  shows "\<exists>a'. side_steps wire a a' \<and> client_is ec hist q cli' a'"
proof -
  have a: "fresh_side ec a" "client_ec (cli_config cli) ec" "hs_packet_buffer hs = q"
    using is_a st by (simp_all add: client_is_def)
  obtain ep0 where ep0: "Endpoint_new ec = Some ep0"
      "a = \<lparr>sd_ep = fst (endpoint_init ep0), sd_timer = None, sd_sent = [], sd_rel = [], sd_unrel = [], sd_received = []\<rparr>"
    using a(1) by (auto simp: fresh_side_def)
  define ep1 where "ep1 = fold (\<lambda>(packet, mode) ep. endpoint_enqueue ep packet mode now) q (fst (endpoint_init ep0))"
  let ?a1 = "a\<lparr>sd_ep := ep1, sd_rel := reliable_of q, sd_unrel := unreliable_of q\<rparr>"
  have ec: "\<lparr>ec_timeout_time_ms = clc_connection_timeout_ms (cli_config cli), ec_prio_config = ec_prio_config ec\<rparr> = ec"
    using a(2) by (simp add: client_ec_def)
  have prio: "prio_Config_from (clc_channel_balance (cli_config cli)) = Some (ec_prio_config ec)"
    using a(2) by (simp add: client_ec_def)
  obtain ep2 out where f: "endpoint_flush coins now ep1 = Some (ep2, out)" "cli' = client_with ep2 (OnConnect # out) (cli\<lparr>cli_rto_timer := None\<rparr>)"
    using r a(3) prio ep0(1) ec
    by (auto simp: client_connected_def endpoint_init_def ep1_def bind_eq_Some_conv)
  have "side_steps wire a ?a1"
    using enqueue_steps [where s = a and wire = wire and now = now and q = q] by (simp add: ep0(2) ep1_def endpoint_init_def)
  moreover have "side_step wire ?a1 (side_after (CallFlush, now, coins) ep2 (timer_after out None) out ?a1)"
    by (rule side_call) (simp_all add: genuine_other f(1) ep0(2))
  moreover have "hist @ cli_events cli = []"
    using inv st by (simp add: client_inv_def)
  then have "client_is ec hist q cli' (side_after (CallFlush, now, coins) ep2 (timer_after out None) out ?a1)"
    using is_a st f(2) by (auto simp: client_is_def client_with_exact side_after_def ep0(2) queued_rel_def queued_unrel_def)
  ultimately show ?thesis
    by (meson rtranclp.rtrancl_into_rtrancl)
qed

lemma alpha_ack_side:
  assumes is_a: "client_is ec hist q cli a" and r: "handle_handshake_alpha_ack body now cli = Some cli'"
  shows "client_is ec hist q cli' a"
proof (cases "cli_state cli")
  case (CsHandshake hs)
  let ?params = "\<lparr>packet_size_in_max = 0xFFFFFFFF, packet_size_out_max = 0xFFFFFFFF\<rparr> :: ConnectionParams"
  obtain x where x: "SimplePayloadRead_read (Serial_read HANDSHAKE_ALPHA_ACK_SIZE HandshakeAlphaAckFrame_read) body = Some x"
    using handshake_alpha_ack.SimplePayloadRead_total by blast
  have beta: "handshake_frame (finished_frame (frame_type_bits HandshakeBeta # HandshakeBetaFrame_enc f))" for f
    by (simp add: handshake_frame_def finished_frame_checks)
  show ?thesis
  proof (cases "\<exists>f. hs_phase hs = PhaseAlpha \<and> x = Some f \<and> haa_client_nonce f = hs_local_nonce hs \<and>
      connection_params_compatible ?params (haa_server_params f)")
    case True
    then obtain f where f: "hs_phase hs = PhaseAlpha" "x = Some f" "haa_client_nonce f = hs_local_nonce hs"
        "connection_params_compatible ?params (haa_server_params f)"
      by blast
    with r CsHandshake x is_a beta show ?thesis
      by (auto simp: handle_handshake_alpha_ack_def beta_boxed Let_def client_is_def client_send_frame_def)
  next
    case False
    with r CsHandshake x have "cli' = cli"
      by (cases x) (auto simp: handle_handshake_alpha_ack_def Let_def split: if_splits)
    with is_a show ?thesis
      by simp
  qed
qed (use r is_a in \<open>simp_all add: handle_handshake_alpha_ack_def\<close>)

lemma beta_ack_side:
  assumes is_a: "client_is ec hist q cli a" and inv: "client_inv hist cli" and r: "handle_handshake_beta_ack coins body now cli = Some cli'"
  shows "\<exists>a'. side_steps wire a a' \<and> client_is ec hist q cli' a'"
proof (cases "cli_state cli")
  case (CsHandshake hs)
  then have "cli' = cli \<or> client_connected coins now hs cli = Some cli' \<or>
      (\<exists>kind. cli' = (client_push_event (ClError kind) cli)\<lparr>cli_state := CsQuiescent\<rparr>)"
    using r by (auto simp: handle_handshake_beta_ack_def bind_eq_Some_conv split: if_splits option.splits)
  then consider "cli' = cli" | "client_connected coins now hs cli = Some cli'"
    | kind where "cli' = (client_push_event (ClError kind) cli)\<lparr>cli_state := CsQuiescent\<rparr>"
    by blast
  then show ?thesis
  proof cases
    case 2
    with client_connected_steps [OF is_a inv CsHandshake] show ?thesis
      by blast
  next
    case 3
    with is_a CsHandshake have "client_is ec hist q cli' a"
      by (auto simp: client_is_def client_push_event_def fresh_side_def)
    then show ?thesis
      by blast
  qed (use is_a in blast)
qed (use r is_a in \<open>auto simp: handle_handshake_beta_ack_def\<close>)

section \<open>Frames and timers\<close>

lemma client_other_side:
  assumes is_a: "client_is ec hist q cli a" and bs: "bs \<in> set wire" "verify_minimum_size bs" "verify_crc bs = Some True"
      "read_type bs = Some (Some ft)" "payload bs = Some body"
    and r: "client_handle_frame_other coins ft body now cli = Some cli'"
  shows "\<exists>a'. side_steps wire a a' \<and> client_is ec hist q cli' a'"
proof -
  have "genuine wire (CallFrame ft body, now, coins)"
    using bs by (auto simp: genuine_def)
  with client_call_steps [OF is_a, of wire "(CallFrame ft body, now, coins)"] r show ?thesis
    by (simp add: client_calls)
qed

lemma client_frame_side:
  assumes is_a: "client_is ec hist q cli a" and inv: "client_inv hist cli" and wire: "cr_bytes cr \<in> set wire \<or> handshake_ack (cr_bytes cr)"
    and r: "client_handle_frame cr cli = Some cli'"
  shows "\<exists>a'. side_steps wire a a' \<and> client_is ec hist q cli' a'"
proof (cases "verify_minimum_size (cr_bytes cr)")
  case True
  obtain x b body where f: "read_type (cr_bytes cr) = Some x" "verify_crc (cr_bytes cr) = Some b" "payload (cr_bytes cr) = Some body"
    using frame_checks_total [OF True] by blast
  show ?thesis
  proof (cases "b \<and> x \<noteq> None")
    case ok: True
    then obtain ft where ft: "x = Some ft"
      by blast
    then have "(if ft = HandshakeAlphaAck then handle_handshake_alpha_ack body (cr_now_ms cr) cli
        else if ft = HandshakeBetaAck then handle_handshake_beta_ack (cr_coins cr) body (cr_now_ms cr) cli
        else client_handle_frame_other (cr_coins cr) ft body (cr_now_ms cr) cli) = Some cli'"
      using r True f ok by (simp add: client_handle_frame_def)
    moreover have "cr_bytes cr \<in> set wire" if "ft \<noteq> HandshakeAlphaAck" "ft \<noteq> HandshakeBetaAck"
      using that wire f(1) ft by (simp add: handshake_ack_def)
    ultimately show ?thesis
      using alpha_ack_side [OF is_a] beta_ack_side [OF is_a inv, of "cr_coins cr" body "cr_now_ms cr" cli' wire]
        client_other_side [OF is_a, of "cr_bytes cr" wire ft body] True f ok ft
      by (cases "ft = HandshakeAlphaAck"; cases "ft = HandshakeBetaAck") (simp_all, blast+)
  next
    case False
    with r True f have "cli' = cli"
      by (cases b; cases x) (auto simp: client_handle_frame_def)
    with is_a show ?thesis
      by blast
  qed
next
  case False
  with r have "cli' = cli"
    by (simp add: client_handle_frame_def)
  with is_a show ?thesis
    by blast
qed

lemma client_timeout_side:
  assumes is_a: "client_is ec hist q cli a" and r: "process_timeouts coins now cli = Some cli'"
  shows "\<exists>a'. side_steps wire a a' \<and> client_is ec hist q cli' a'"
proof (cases "\<exists>t. cli_rto_timer cli = Some t \<and> t \<le> now")
  case False
  then have "cli' = cli"
    using r by (auto simp: process_timeouts_def split: option.splits if_splits)
  with is_a show ?thesis
    by blast
next
  case True
  then obtain t where t: "cli_rto_timer cli = Some t" "process_timeout coins now (cli\<lparr>cli_rto_timer := None\<rparr>) = Some cli'"
    using r by (auto simp: process_timeouts_def)
  show ?thesis
  proof (cases "cli_state cli")
    case (CsHandshake hs)
    then have "client_is ec hist q cli' a"
      using t(2) is_a
      by (auto simp: process_timeout_def client_is_def client_push_event_def client_send_frame_def fresh_side_def Let_def
          split: if_splits HandshakePhase.splits)
    then show ?thesis
      by blast
  next
    case (CsActive ep)
    let ?c = "(CallTimer, now, coins)"
    obtain ep' act out where e: "endpoint_handle_rto_timer coins now ep = Some (ep', act, out)"
      using t(2) CsActive by (auto simp: process_timeout_def bind_eq_Some_conv)
    let ?cli = "client_with ep' out (cli\<lparr>cli_rto_timer := None\<rparr>)"
    have cli': "cli' = (case act of Continue \<Rightarrow> ?cli | Terminate \<Rightarrow> ?cli\<lparr>cli_state := CsQuiescent\<rparr>)"
      using t(2) CsActive e by (cases act) (simp_all add: process_timeout_def)
    have h: "host_step ?c ep (cli_rto_timer cli) = Some (ep', timer_after out None, out)"
      using e t(1) by simp
    let ?a = "side_after ?c ep' (timer_after out None) out a"
    have "client_is ec hist q ?cli ?a"
      using client_with_is [OF is_a CsActive h refl] by (simp add: taken_def)
    then have "client_is ec hist q cli' ?a"
      using cli' by (cases act) (simp_all add: client_is_def client_with_exact)
    moreover have "side_step wire a ?a"
      using is_a CsActive h by (intro side_call genuine_other) (simp_all add: client_is_active)
    ultimately show ?thesis
      by blast
  next
    case CsQuiescent
    with t(2) is_a show ?thesis
      by (auto simp: process_timeout_def client_is_def)
  qed
qed

text \<open>Every operation of a client moves its side by calls on its endpoint.\<close>

definition client_hears :: "bytes list \<Rightarrow> ClientOp \<Rightarrow> bool" where
  "client_hears wire op \<longleftrightarrow> (\<forall>cr. op = CoFrame cr \<longrightarrow> client_received_ok cr \<and> (cr_bytes cr \<in> set wire \<or> handshake_ack (cr_bytes cr)))"

lemma client_op_side:
  assumes is_a: "client_is ec hist q cli a" and inv: "client_inv hist cli" and wire: "client_hears wire op"
    and r: "client_op op cli = Some (cli', es)"
  shows "\<exists>a'. side_steps wire a a' \<and> client_is ec (hist @ es) (q @ client_takes op cli) cli' a'"
proof (cases op)
  case (CoFrame cr)
  with client_frame_side [OF is_a inv] wire r show ?thesis
    by (auto simp: client_hears_def)
next
  case (CoTimeouts coins now)
  with client_timeout_side [OF is_a] r show ?thesis
    by auto
next
  case (CoEnqueue now p mode)
  with client_enqueue_steps [OF is_a] r show ?thesis
    by auto
next
  case (CoSend coins now p mode)
  obtain a1 where a1: "side_steps wire a a1" "client_is ec hist (q @ client_takes op cli) (client_enqueue now p mode cli) a1"
    using client_enqueue_steps [OF is_a, of wire p mode now] CoSend by auto
  have "client_call (CallFlush, now, coins) (client_enqueue now p mode cli) = Some cli'" "es = []"
    using r CoSend by (auto simp: client_send_calls client_calls)
  with client_call_steps [OF a1(2), of wire "(CallFlush, now, coins)"] a1(1) show ?thesis
    by (auto simp: genuine_other intro: rtranclp_trans)
next
  case (CoFlush coins now)
  with client_call_steps [OF is_a, of wire "(CallFlush, now, coins)"] r show ?thesis
    by (auto simp: client_calls genuine_other)
next
  case (CoDisconnect now)
  with client_call_steps [OF is_a, of wire "(CallDisconnect, now, \<lambda>_. True)"] r show ?thesis
    by (auto simp: client_calls(3) [of now _ "\<lambda>_. True"] genuine_other)
next
  case CoPop
  have "hist @ cli_events cli = (hist @ es) @ cli_events cli'" "cli_state cli' = cli_state cli" "cli_config cli' = cli_config cli"
      "cli_sent cli' = cli_sent cli" "cli_rto_timer cli' = cli_rto_timer cli"
    using r CoPop by (cases "cli_events cli"; auto simp: client_pop_event_def)+
  then have "client_is ec (hist @ es) q cli' a"
    using is_a by (simp only: client_is_def) blast
  with CoPop show ?thesis
    by auto
qed

text \<open>A new client.\<close>

lemma client_is_new:
  assumes "ClientConfig_validate config = Some ()" and "Client_new random config = Some cli"
  obtains ec a ws burst where "client_ec config ec" "prio_Config_new ws burst = Some (ec_prio_config ec)" "fresh_side ec a"
    "client_is ec [] [] cli a" "client_inv [] cli"
proof -
  obtain prio ws burst where prio: "prio_Config_from (clc_channel_balance config) = Some prio" "prio_Config_new ws burst = Some prio"
    using client_prio [OF assms(1)] by blast
  define ec where "ec = \<lparr>ec_timeout_time_ms = clc_connection_timeout_ms config, ec_prio_config = prio\<rparr>"
  obtain ep where ep: "Endpoint_new ec = Some ep"
    using Endpoint_new_wf [of ws burst ec] prio(2) by (auto simp: ec_def)
  define a where "a = \<lparr>sd_ep = fst (endpoint_init ep), sd_timer = None, sd_sent = [], sd_rel = [], sd_unrel = [], sd_received = []\<rparr>"
  have fresh: "fresh_side ec a"
    using ep by (simp add: fresh_side_def a_def)
  have alpha: "handshake_frame (alpha_frame random)"
    using write_handshake_alpha_received [of CLIENT_FRAME_SIZE_MAX "\<lparr>ha_protocol_id = PROTOCOL_ID, ha_client_nonce = random\<rparr>"]
    by (auto simp: handshake_frame_def alpha_frame_def CLIENT_FRAME_SIZE_MAX_def)
  have "client_ec config ec" "prio_Config_new ws burst = Some (ec_prio_config ec)"
    using prio by (simp_all add: client_ec_def ec_def)
  moreover have "client_is ec [] [] cli a"
    using assms(2) client_new_exact [of random config] fresh alpha calculation(1) by (auto simp: client_is_def a_def)
  moreover have "client_inv [] cli"
    using assms client_new_exact [of random config] by (auto simp: client_inv_def)
  ultimately show thesis
    using that fresh by blast
qed

end
