(* ===== verification/Timer_Queue.thy ===== *)
theory Timer_Queue
  imports Redpine_Prelude
begin

text \<open>
  The timer queue of the server (\<^verbatim>\<open>src/timer_queue.rs\<close>): it tests at most \<open>limit\<close>
  timers per call, from the front, puts each back at the end and drops those whose object
  is gone. The weak references are identifiers \<open>'t\<close>; whether an upgrade succeeds is the
  predicate \<open>alive\<close>, the timers' own state is \<open>'s\<close>, and the calls of the callback are the
  list of the timers it is called with.
\<close>

section \<open>Operations\<close>

record 't TimerQueue =
  tq_queue :: "'t list"

definition TimerQueue_default :: "'t TimerQueue" where
  "TimerQueue_default = \<lparr>tq_queue = []\<rparr>"

definition add_timer :: "'t TimerQueue \<Rightarrow> 't \<Rightarrow> 't TimerQueue" where
  "add_timer tq timer = tq\<lparr>tq_queue := tq_queue tq @ [timer]\<rparr>"

fun timer_test_loop ::
    "('t \<Rightarrow> bool) \<Rightarrow> ('s \<Rightarrow> 't \<Rightarrow> 's \<times> bool) \<Rightarrow> nat \<Rightarrow> 's \<Rightarrow> 't list \<Rightarrow> ('s \<times> 't list \<times> 't list) rust" where
  "timer_test_loop alive test 0 s queue = Some (s, queue, [])"
| "timer_test_loop alive test (Suc n) s [] = None"
| "timer_test_loop alive test (Suc n) s (timer # queue) =
     (if alive timer then
        (case test s timer of (s, expired) \<Rightarrow> do {
           (s, queue, fired) \<leftarrow> timer_test_loop alive test n s (queue @ [timer]);
           Some (s, queue, if expired then timer # fired else fired) })
      else timer_test_loop alive test n s queue)"

definition timer_queue_test ::
    "('t \<Rightarrow> bool) \<Rightarrow> ('s \<Rightarrow> 't \<Rightarrow> 's \<times> bool) \<Rightarrow> nat \<Rightarrow> 's \<Rightarrow> 't TimerQueue \<Rightarrow>
      ('s \<times> 't TimerQueue \<times> 't list) rust" where
  "timer_queue_test alive test limit s tq = do {
     let max_iters = min limit (length (tq_queue tq));
     (s, queue, fired) \<leftarrow> timer_test_loop alive test max_iters s (tq_queue tq);
     Some (s, tq\<lparr>tq_queue := queue\<rparr>, fired) }"

definition timer_queue_len :: "'t TimerQueue \<Rightarrow> nat" where
  "timer_queue_len tq = length (tq_queue tq)"

section \<open>One call\<close>

fun test_each :: "('s \<Rightarrow> 't \<Rightarrow> 's \<times> bool) \<Rightarrow> 's \<Rightarrow> 't list \<Rightarrow> 's \<times> 't list" where
  "test_each test s [] = (s, [])"
| "test_each test s (t # ts) =
     (case test s t of (s, expired) \<Rightarrow>
      case test_each test s ts of (s, fired) \<Rightarrow> (s, if expired then t # fired else fired))"

lemma timer_test_loop_exact:
  "n \<le> length q \<Longrightarrow>
     timer_test_loop alive test n s q =
       (case test_each test s (filter alive (take n q)) of
          (s, fired) \<Rightarrow> Some (s, drop n q @ filter alive (take n q), fired))"
proof (induction n arbitrary: s q)
  case (Suc n)
  then obtain t q' where "q = t # q'"
    by (cases q) auto
  with Suc show ?case
    by (cases "alive t") (auto split: prod.splits)
qed simp

lemma timer_queue_test_exact:
  "timer_queue_test alive test limit s tq =
     (case test_each test s (filter alive (take limit (tq_queue tq))) of
        (s, fired) \<Rightarrow> Some (s, tq\<lparr>tq_queue := drop limit (tq_queue tq) @ filter alive (take limit (tq_queue tq))\<rparr>, fired))"
proof (cases "limit \<le> length (tq_queue tq)")
  case True
  then show ?thesis
    by (simp add: timer_queue_test_def timer_test_loop_exact min_absorb1 split: prod.splits)
next
  case False
  then show ?thesis
    by (simp add: timer_queue_test_def timer_test_loop_exact min_absorb2 split: prod.splits)
qed

section \<open>The interface of a timer\<close>

text \<open>
  A timer tells whether it is due, and testing it disarms it without touching another timer.
  Then a call fires exactly the timers that are due among those it tests.
\<close>

locale timer =
  fixes test :: "'s \<Rightarrow> 't \<Rightarrow> 's \<times> bool"
    and due :: "'s \<Rightarrow> 't \<Rightarrow> bool"
  assumes test_due: "snd (test s t) \<longleftrightarrow> due s t"
    and test_disarms: "\<not> due (fst (test s t)) t"
    and test_frame: "u \<noteq> t \<Longrightarrow> due (fst (test s t)) u \<longleftrightarrow> due s u"
begin

lemma test_each_fired:
  "distinct ts \<Longrightarrow> snd (test_each test s ts) = filter (due s) ts"
proof (induction ts arbitrary: s)
  case (Cons t ts)
  have "filter (due (fst (test s t))) ts = filter (due s) ts"
  proof (rule filter_cong [OF refl])
    fix u
    assume "u \<in> set ts"
    with Cons.prems have "u \<noteq> t" by auto
    then show "due (fst (test s t)) u = due s u" by (rule test_frame)
  qed
  moreover have "snd (test_each test (fst (test s t)) ts) = filter (due (fst (test s t))) ts"
    using Cons by simp
  ultimately show ?case
    using test_due [of s t] by (auto split: prod.splits)
qed simp

lemma test_each_due:
  "due (fst (test_each test s ts)) u \<longleftrightarrow> u \<notin> set ts \<and> due s u"
proof (induction ts arbitrary: s)
  case (Cons t ts)
  have "due (fst (test_each test s (t # ts))) u \<longleftrightarrow> due (fst (test_each test (fst (test s t)) ts)) u"
    by (simp split: prod.splits)
  also have "\<dots> \<longleftrightarrow> u \<notin> set ts \<and> due (fst (test s t)) u"
    by (rule Cons)
  finally show ?case
    using test_disarms [of s t] test_frame [of u t s] by auto
qed simp

lemma fires_due:
  assumes "distinct (tq_queue tq)"
  shows "\<exists>s'. timer_queue_test alive test limit s tq =
      Some (s', tq\<lparr>tq_queue := drop limit (tq_queue tq) @ filter alive (take limit (tq_queue tq))\<rparr>,
        filter (\<lambda>t. alive t \<and> due s t) (take limit (tq_queue tq))) \<and>
    (\<forall>u. due s' u \<longleftrightarrow> \<not> (alive u \<and> u \<in> set (take limit (tq_queue tq))) \<and> due s u)"
proof -
  let ?ts = "filter alive (take limit (tq_queue tq))"
  have "snd (test_each test s ?ts) = filter (\<lambda>t. alive t \<and> due s t) (take limit (tq_queue tq))"
    using assms by (simp add: test_each_fired conj_commute)
  moreover have "due (fst (test_each test s ?ts)) u \<longleftrightarrow>
      \<not> (alive u \<and> u \<in> set (take limit (tq_queue tq))) \<and> due s u" for u
    by (auto simp: test_each_due)
  ultimately show ?thesis
    by (intro exI [of _ "fst (test_each test s ?ts)"]) (auto simp: timer_queue_test_exact split: prod.splits)
qed

end

section \<open>Repeated calls\<close>

text \<open>
  Successive calls, new timers being added after each; the state is the list of the timers
  tested so far, and \<open>expired\<close> answers the tests in an arbitrary way.
\<close>

fun timer_calls ::
    "('t \<Rightarrow> bool) \<Rightarrow> ('t list \<Rightarrow> 't \<Rightarrow> bool) \<Rightarrow> nat \<Rightarrow> 't list list \<Rightarrow> 't list \<Rightarrow> 't TimerQueue \<Rightarrow>
      ('t list \<times> 't TimerQueue) rust" where
  "timer_calls alive expired limit [] log tq = Some (log, tq)"
| "timer_calls alive expired limit (new # rest) log tq = do {
     (log, tq, fired) \<leftarrow> timer_queue_test alive (\<lambda>log t. (log @ [t], expired log t)) limit log tq;
     timer_calls alive expired limit rest log (fold (\<lambda>t tq. add_timer tq t) new tq) }"

lemma test_each_log: "fst (test_each (\<lambda>log t. (log @ [t], e log t)) log ts) = log @ ts"
proof (induction ts arbitrary: log)
  case (Cons t ts)
  show ?case
    using Cons [of "log @ [t]"] by (auto split: prod.splits)
qed simp

lemma fold_add_timer: "tq_queue (fold (\<lambda>t tq. add_timer tq t) new tq) = tq_queue tq @ new"
  by (induction new arbitrary: tq) (simp_all add: add_timer_def)

lemma timer_calls_step:
  "timer_calls alive expired limit (new # rest) log tq =
     timer_calls alive expired limit rest (log @ filter alive (take limit (tq_queue tq)))
       (tq\<lparr>tq_queue := drop limit (tq_queue tq) @ filter alive (take limit (tq_queue tq)) @ new\<rparr>)"
proof -
  have "fold (\<lambda>t tq. add_timer tq t) new (tq\<lparr>tq_queue := q\<rparr>) = tq\<lparr>tq_queue := q @ new\<rparr>" for q
    using fold_add_timer [of new "tq\<lparr>tq_queue := q\<rparr>"] by simp
  then show ?thesis
    using test_each_log [of expired log "filter alive (take limit (tq_queue tq))"]
    by (auto simp: timer_queue_test_exact split: prod.splits)
qed

lemma timer_calls_monotone:
  "\<exists>log' tq'. timer_calls alive expired limit news log tq = Some (log', tq') \<and> set log \<subseteq> set log'"
proof (induction news arbitrary: log tq)
  case (Cons new rest)
  show ?case
    using Cons [of "log @ filter alive (take limit (tq_queue tq))"
        "tq\<lparr>tq_queue := drop limit (tq_queue tq) @ filter alive (take limit (tq_queue tq)) @ new\<rparr>"]
    by (auto simp: timer_calls_step simp del: timer_calls.simps)
qed simp

lemma timer_calls_reach:
  assumes "alive t" and "tq_queue tq = xs @ t # ys" and "length xs < length news * limit"
  shows "\<exists>log' tq'. timer_calls alive expired limit news log tq = Some (log', tq') \<and> t \<in> set log'"
  using assms(2,3)
proof (induction news arbitrary: log tq xs ys)
  case (Cons new rest)
  let ?log = "log @ filter alive (take limit (tq_queue tq))"
  let ?q = "drop limit (tq_queue tq) @ filter alive (take limit (tq_queue tq)) @ new"
  show ?case
  proof (cases "length xs < limit")
    case True
    then have "t \<in> set (filter alive (take limit (tq_queue tq)))"
      using Cons.prems(1) assms(1) by (cases "limit - length xs") auto
    then show ?thesis
      using timer_calls_monotone [of alive expired limit rest ?log "tq\<lparr>tq_queue := ?q\<rparr>"]
      by (auto simp: timer_calls_step simp del: timer_calls.simps)
  next
    case False
    then have "tq_queue (tq\<lparr>tq_queue := ?q\<rparr>) =
        drop limit xs @ t # ys @ filter alive (take limit (tq_queue tq)) @ new"
      using Cons.prems(1) by simp
    moreover have "length (drop limit xs) < length rest * limit"
      using Cons.prems(2) False by simp
    ultimately show ?thesis
      unfolding timer_calls_step by (rule Cons.IH)
  qed
qed simp

text \<open>
  C37: no timer starves: a timer in the queue whose object stays alive is tested within the
  next calls as soon as their number times the limit reaches the length of the queue,
  whatever the other timers do and however many are added meanwhile.
\<close>

theorem timers_do_not_starve:
  assumes "alive t" and "t \<in> set (tq_queue tq)" and "timer_queue_len tq \<le> length news * limit"
  shows "\<exists>log tq'. timer_calls alive expired limit news [] tq = Some (log, tq') \<and> t \<in> set log"
proof -
  obtain xs ys where "tq_queue tq = xs @ t # ys"
    using assms(2) by (meson split_list)
  then show ?thesis
    using timer_calls_reach [of alive t tq xs ys news limit expired "[]"] assms(1,3)
    by (simp add: timer_queue_len_def)
qed

theorem timers_do_not_starve_witness:
  "\<exists>log tq'. timer_calls (\<lambda>t. t \<noteq> 3) (\<lambda>log t. odd t) 2 [[9], [8, 7], []] [] \<lparr>tq_queue = [1, 2, 3, 4, 5 :: nat]\<rparr> =
     Some (log, tq') \<and> 5 \<in> set log"
  using timers_do_not_starve [of "\<lambda>t. t \<noteq> 3" 5 "\<lparr>tq_queue = [1, 2, 3, 4, 5 :: nat]\<rparr>" "[[9], [8, 7], []]" 2]
  by (simp add: timer_queue_len_def)

end
