(* ===== verification/Server.thy ===== *)
theory Server
  imports Host Timer_Queue
begin

text \<open>
  The server (\<^verbatim>\<open>src/server/mod.rs\<close>, \<^verbatim>\<open>src/server/peer.rs\<close>,
  \<^verbatim>\<open>src/server/handshake_mac.rs\<close>): the stateless handshake, the table of peers, the
  timers and the events. The reference-counted peers are a store indexed by allocation; the
  frames sent are a list. The keyed hash of the \<^verbatim>\<open>siphasher\<close> crate is a
  parameter \<open>sip\<close>; the readings of the clock and the random numbers are arguments.
\<close>

section \<open>Configuration\<close>

definition SERVER_FRAME_SIZE_MAX :: nat where "SERVER_FRAME_SIZE_MAX = 1472"
definition PEER_COUNT_MAX_DEFAULT :: nat where "PEER_COUNT_MAX_DEFAULT = 8"
definition PEER_COUNT_MAX_MAX :: nat where "PEER_COUNT_MAX_MAX = 65536"
definition HANDSHAKE_TIMEOUT_MS :: u32 where "HANDSHAKE_TIMEOUT_MS = 10000"
definition CONNECTION_TIMEOUT_DEFAULT_MS :: u64 where "CONNECTION_TIMEOUT_DEFAULT_MS = 10000"
definition CONNECTION_TIMEOUT_MIN_MS :: u64 where "CONNECTION_TIMEOUT_MIN_MS = 2000"
definition TIMER_TEST_LIMIT :: nat where "TIMER_TEST_LIMIT = 24"
definition TIMER_TEST_INTERVAL :: nat where "TIMER_TEST_INTERVAL = 250"

record ServerConfig =
  svc_peer_count_max :: nat
  svc_connection_timeout_ms :: u64
  svc_channel_balance :: ChannelBalanceConfig

definition ServerConfig_default :: ServerConfig where
  "ServerConfig_default =
     \<lparr>svc_peer_count_max = PEER_COUNT_MAX_DEFAULT,
      svc_connection_timeout_ms = CONNECTION_TIMEOUT_DEFAULT_MS,
      svc_channel_balance = ChannelBalanceConfig_default\<rparr>"

definition ServerConfig_validate :: "ServerConfig \<Rightarrow> unit rust" where
  "ServerConfig_validate config = do {
     rust_assert (svc_peer_count_max config > 0);
     rust_assert (svc_peer_count_max config \<le> PEER_COUNT_MAX_MAX);
     rust_assert (svc_connection_timeout_ms config \<ge> CONNECTION_TIMEOUT_MIN_MS);
     ChannelBalanceConfig_validate (svc_channel_balance config) }"

section \<open>The handshake code\<close>

text \<open>What the hasher is fed, and the keyed hash of all of it.\<close>

datatype HashWrite =
    HashBytes bytes
  | HashU16 u16
  | HashU32 u32

type_synonym SipHash = "bytes \<Rightarrow> HashWrite list \<Rightarrow> u64"

record HandshakeMacHasher =
  hm_key :: bytes

definition mac_compute :: "SipHash \<Rightarrow> HandshakeMacHasher \<Rightarrow> SocketAddr \<Rightarrow> u32 \<Rightarrow> u32 \<Rightarrow> u32 \<Rightarrow> u64" where
  "mac_compute sip hasher sender_addr client_nonce server_nonce server_timestamp =
     sip (hm_key hasher)
       ((case sender_addr of
           V4 octets port \<Rightarrow> [HashBytes octets, HashU16 port]
         | V6 octets port flow scope \<Rightarrow> [HashBytes octets, HashU16 port]) @
        [HashU32 client_nonce, HashU32 server_nonce, HashU32 server_timestamp])"

section \<open>Peers and events\<close>

text \<open>A reference to a peer is its index in the store; user data is an opaque reference.\<close>

type_synonym PeerRef = nat

record Peer =
  pe_addr :: SocketAddr
  pe_data :: "nat option"
  pe_rto_timer :: "u64 option"
  pe_endpoint :: Endpoint

datatype ServerEvent =
    SvConnect PeerRef
  | SvDisconnect PeerRef
  | SvReceive PeerRef bytes
  | SvError PeerRef ErrorKind

record Server =
  sv_config :: ServerConfig
  sv_hasher :: HandshakeMacHasher
  sv_store :: "Peer list"
  sv_peers :: "(SocketAddr \<times> PeerRef) list"
  sv_timer_queue :: "PeerRef TimerQueue"
  sv_events :: "ServerEvent list"
  sv_sent :: "(bytes \<times> SocketAddr) list"

definition Peer_new :: "SocketAddr \<Rightarrow> EndpointConfig \<Rightarrow> Peer rust" where
  "Peer_new addr endpoint_config = do {
     endpoint \<leftarrow> Endpoint_new endpoint_config;
     Some \<lparr>pe_addr = addr, pe_data = None, pe_rto_timer = None, pe_endpoint = endpoint\<rparr> }"

definition update_peer :: "PeerRef \<Rightarrow> (Peer \<Rightarrow> Peer) \<Rightarrow> Server \<Rightarrow> Server" where
  "update_peer pid f sv = sv\<lparr>sv_store := (sv_store sv)[pid := f (sv_store sv ! pid)]\<rparr>"

definition socket_send :: "bytes \<Rightarrow> SocketAddr \<Rightarrow> Server \<Rightarrow> Server" where
  "socket_send frame_bytes addr sv = sv\<lparr>sv_sent := sv_sent sv @ [(frame_bytes, addr)]\<rparr>"

definition push_event :: "ServerEvent \<Rightarrow> Server \<Rightarrow> Server" where
  "push_event event sv = sv\<lparr>sv_events := sv_events sv @ [event]\<rparr>"

text \<open>The methods of \<^verbatim>\<open>EndpointContext\<close>.\<close>

fun peer_context :: "PeerRef \<Rightarrow> Effect \<Rightarrow> Server \<Rightarrow> Server" where
  "peer_context pid (SendFrame frame_bytes) sv = socket_send frame_bytes (pe_addr (sv_store sv ! pid)) sv"
| "peer_context pid (SetRtoTimer time_ms) sv = update_peer pid (\<lambda>p. p\<lparr>pe_rto_timer := Some time_ms\<rparr>) sv"
| "peer_context pid UnsetRtoTimer sv = update_peer pid (\<lambda>p. p\<lparr>pe_rto_timer := None\<rparr>) sv"
| "peer_context pid OnConnect sv = push_event (SvConnect pid) sv"
| "peer_context pid OnDisconnect sv = push_event (SvDisconnect pid) sv"
| "peer_context pid (OnReceive packet_bytes) sv = push_event (SvReceive pid packet_bytes) sv"
| "peer_context pid OnTimeout sv = push_event (SvError pid Timeout) sv"

text \<open>An operation of the endpoint of a peer, in the context of the peer.\<close>

definition with_endpoint :: "PeerRef \<Rightarrow> Endpoint \<Rightarrow> Effect list \<Rightarrow> Server \<Rightarrow> Server" where
  "with_endpoint pid ep out sv = fold (peer_context pid) out (update_peer pid (\<lambda>p. p\<lparr>pe_endpoint := ep\<rparr>) sv)"

definition peer_init :: "PeerRef \<Rightarrow> Server \<Rightarrow> Server" where
  "peer_init pid sv = (let (ep, out) = endpoint_init (pe_endpoint (sv_store sv ! pid)) in with_endpoint pid ep out sv)"

definition peer_handle_frame :: "(nat \<Rightarrow> bool) \<Rightarrow> u64 \<Rightarrow> PeerRef \<Rightarrow> FrameType \<Rightarrow> bytes \<Rightarrow> Server \<Rightarrow> Server rust" where
  "peer_handle_frame coins now_ms pid frame_type payload_bytes sv = do {
     (ep, out) \<leftarrow> endpoint_handle_frame coins frame_type payload_bytes now_ms (pe_endpoint (sv_store sv ! pid));
     Some (with_endpoint pid ep out sv) }"

definition peer_handle_rto_timer :: "(nat \<Rightarrow> bool) \<Rightarrow> u64 \<Rightarrow> PeerRef \<Rightarrow> Server \<Rightarrow> (Server \<times> TimeoutAction) rust" where
  "peer_handle_rto_timer coins now_ms pid sv = do {
     (ep, action, out) \<leftarrow> endpoint_handle_rto_timer coins now_ms (pe_endpoint (sv_store sv ! pid));
     Some (with_endpoint pid ep out sv, action) }"

text \<open>The timer of a peer, as the timer queue tests it; an index outside the store is no peer.\<close>

definition peer_timer_due :: "u64 \<Rightarrow> Server \<Rightarrow> PeerRef \<Rightarrow> bool" where
  "peer_timer_due time_now sv pid \<longleftrightarrow> pid < length (sv_store sv) \<and>
     (case pe_rto_timer (sv_store sv ! pid) of Some t \<Rightarrow> t < time_now | None \<Rightarrow> False)"

definition peer_timer_test :: "u64 \<Rightarrow> Server \<Rightarrow> PeerRef \<Rightarrow> Server \<times> bool" where
  "peer_timer_test time_now sv pid =
     (if pid < length (sv_store sv) then
        case pe_rto_timer (sv_store sv ! pid) of
          Some t \<Rightarrow> if t < time_now then (update_peer pid (\<lambda>p. p\<lparr>pe_rto_timer := None\<rparr>) sv, True) else (sv, False)
        | None \<Rightarrow> (sv, False)
      else (sv, False))"

text \<open>The calls of the application on the handle of a peer.\<close>

definition handle_data :: "PeerRef \<Rightarrow> Server \<Rightarrow> nat option" where
  "handle_data pid sv = pe_data (sv_store sv ! pid)"

definition handle_set_data :: "PeerRef \<Rightarrow> nat option \<Rightarrow> Server \<Rightarrow> Server" where
  "handle_set_data pid data sv = update_peer pid (\<lambda>p. p\<lparr>pe_data := data\<rparr>) sv"

definition handle_enqueue :: "u64 \<Rightarrow> PeerRef \<Rightarrow> bytes \<Rightarrow> SendMode \<Rightarrow> Server \<Rightarrow> Server" where
  "handle_enqueue now_ms pid packet_bytes mode sv =
     update_peer pid (\<lambda>p. p\<lparr>pe_endpoint := endpoint_enqueue (pe_endpoint p) packet_bytes mode now_ms\<rparr>) sv"

definition handle_flush :: "(nat \<Rightarrow> bool) \<Rightarrow> u64 \<Rightarrow> PeerRef \<Rightarrow> Server \<Rightarrow> Server rust" where
  "handle_flush coins now_ms pid sv = do {
     (ep, out) \<leftarrow> endpoint_flush coins now_ms (pe_endpoint (sv_store sv ! pid));
     Some (with_endpoint pid ep out sv) }"

definition handle_send :: "(nat \<Rightarrow> bool) \<Rightarrow> u64 \<Rightarrow> PeerRef \<Rightarrow> bytes \<Rightarrow> SendMode \<Rightarrow> Server \<Rightarrow> Server rust" where
  "handle_send coins now_ms pid packet_bytes mode sv = do {
     (ep, out) \<leftarrow> endpoint_flush coins now_ms
       (endpoint_enqueue (pe_endpoint (sv_store sv ! pid)) packet_bytes mode now_ms);
     Some (with_endpoint pid ep out sv) }"

definition handle_disconnect :: "u64 \<Rightarrow> PeerRef \<Rightarrow> Server \<Rightarrow> Server rust" where
  "handle_disconnect now_ms pid sv = do {
     (ep, out) \<leftarrow> endpoint_disconnect now_ms (pe_endpoint (sv_store sv ! pid));
     Some (with_endpoint pid ep out sv) }"

section \<open>Handshakes\<close>

definition handle_handshake_alpha :: "SipHash \<Rightarrow> u32 \<Rightarrow> bytes \<Rightarrow> SocketAddr \<Rightarrow> u64 \<Rightarrow> Server \<Rightarrow> Server rust" where
  "handle_handshake_alpha sip random frame_bytes sender_addr now_ms sv = do {
     valid \<leftarrow> verify_handshake_alpha_size_and_crc frame_bytes SERVER_FRAME_SIZE_MAX;
     if \<not> valid then Some sv
     else do {
       payload_bytes \<leftarrow> payload frame_bytes;
       r \<leftarrow> SimplePayloadRead_read (Serial_read HANDSHAKE_ALPHA_SIZE HandshakeAlphaFrame_read) payload_bytes;
       case r of
         Some frame \<Rightarrow>
           if ha_protocol_id frame = PROTOCOL_ID then do {
             let server_params = \<lparr>packet_size_in_max = 0xFFFFFFFF, packet_size_out_max = 0xFFFFFFFF\<rparr>;
             let client_nonce = ha_client_nonce frame;
             let server_nonce = random;
             let server_timestamp = ucast now_ms;
             let ack_frame =
               \<lparr>haa_server_params = server_params, haa_client_nonce = client_nonce, haa_server_nonce = server_nonce,
                haa_server_timestamp = server_timestamp,
                haa_server_mac = mac_compute sip (sv_hasher sv) sender_addr client_nonce server_nonce server_timestamp\<rparr>;
             (_, ack_frame_bytes) \<leftarrow> SimpleFrameWrite_write HandshakeAlphaAck_SF
               (Serial_write HANDSHAKE_ALPHA_ACK_SIZE HandshakeAlphaAckFrame_write) ack_frame
               (replicate (FRAME_SIZE HandshakeAlphaAck_SF) 0);
             Some (socket_send ack_frame_bytes sender_addr sv) }
           else Some sv
       | None \<Rightarrow> Some sv } }"

text \<open>The new peer: its entry in the table and in the timer queue, and its initialisation.\<close>

definition add_peer :: "SocketAddr \<Rightarrow> Server \<Rightarrow> Server rust" where
  "add_peer sender_addr sv = do {
     prio_config \<leftarrow> prio_Config_from (svc_channel_balance (sv_config sv));
     let endpoint_config =
       \<lparr>ec_timeout_time_ms = svc_connection_timeout_ms (sv_config sv), ec_prio_config = prio_config\<rparr>;
     peer \<leftarrow> Peer_new sender_addr endpoint_config;
     let peer_ref = length (sv_store sv);
     let sv = sv\<lparr>sv_store := sv_store sv @ [peer]\<rparr>;
     let sv = sv\<lparr>sv_peers := AList.update sender_addr peer_ref (sv_peers sv)\<rparr>;
     let sv = sv\<lparr>sv_timer_queue := add_timer (sv_timer_queue sv) peer_ref\<rparr>;
     Some (peer_init peer_ref sv) }"

text \<open>The decision on a valid request: no error for a peer that exists or has been added.\<close>

definition beta_error :: "ConnectionParams \<Rightarrow> SocketAddr \<Rightarrow> Server \<Rightarrow> (Server \<times> HandshakeErrorKind option) rust" where
  "beta_error client_params sender_addr sv =
     (let server_params = \<lparr>packet_size_in_max = 0xFFFFFFFF, packet_size_out_max = 0xFFFFFFFF\<rparr>;
          params_compatible = connection_params_compatible client_params server_params
      in if map_of (sv_peers sv) sender_addr \<noteq> None then Some (sv, None)
         else if length (sv_peers sv) \<ge> svc_peer_count_max (sv_config sv) then Some (sv, Some HsCapacity)
         else if \<not> params_compatible then Some (sv, Some HsParameter)
         else map_option (\<lambda>sv. (sv, None)) (add_peer sender_addr sv))"

definition handle_handshake_beta :: "SipHash \<Rightarrow> bytes \<Rightarrow> SocketAddr \<Rightarrow> u64 \<Rightarrow> Server \<Rightarrow> Server rust" where
  "handle_handshake_beta sip frame_bytes sender_addr now_ms sv = do {
     valid \<leftarrow> verify_handshake_beta_size_and_crc frame_bytes;
     if \<not> valid then Some sv
     else do {
       payload_bytes \<leftarrow> payload frame_bytes;
       r \<leftarrow> SimplePayloadRead_read (Serial_read HANDSHAKE_BETA_SIZE HandshakeBetaFrame_read) payload_bytes;
       case r of
         Some frame \<Rightarrow> do {
           let timestamp_now = ucast now_ms;
           let computed_mac = mac_compute sip (sv_hasher sv) sender_addr (hb_client_nonce frame)
             (hb_server_nonce frame) (hb_server_timestamp frame);
           let mac_valid = (hb_server_mac frame = computed_mac);
           let timestamp_valid = (timestamp_now - hb_server_timestamp frame < HANDSHAKE_TIMEOUT_MS);
           if mac_valid \<and> timestamp_valid then do {
             (sv, error) \<leftarrow> beta_error (hb_client_params frame) sender_addr sv;
             (_, ack_frame_bytes) \<leftarrow> SimpleFrameWrite_write HandshakeBetaAck_SF
               (Serial_write HANDSHAKE_BETA_ACK_SIZE HandshakeBetaAckFrame_write)
               \<lparr>hba_error = error, hba_client_nonce = hb_client_nonce frame\<rparr>
               (replicate (FRAME_SIZE HandshakeBetaAck_SF) 0);
             Some (socket_send ack_frame_bytes sender_addr sv) }
           else Some sv }
       | None \<Rightarrow> Some sv } }"

section \<open>Frames and timeouts\<close>

definition server_handle_frame_other ::
    "(nat \<Rightarrow> bool) \<Rightarrow> u64 \<Rightarrow> FrameType \<Rightarrow> bytes \<Rightarrow> SocketAddr \<Rightarrow> Server \<Rightarrow> Server rust" where
  "server_handle_frame_other coins now_ms frame_type frame_bytes sender_addr sv =
     (case map_of (sv_peers sv) sender_addr of
        Some peer_ref \<Rightarrow> do {
          valid \<leftarrow> verify_crc frame_bytes;
          if \<not> valid then Some sv
          else do {
            payload_bytes \<leftarrow> payload frame_bytes;
            peer_handle_frame coins now_ms peer_ref frame_type payload_bytes sv } }
      | None \<Rightarrow> Some sv)"

text \<open>A received frame, with the clock and the random numbers its handling reads.\<close>

record Received =
  rc_bytes :: bytes
  rc_addr :: SocketAddr
  rc_now_ms :: u64
  rc_random :: u32
  rc_coins :: "nat \<Rightarrow> bool"

definition server_handle_frame :: "SipHash \<Rightarrow> Received \<Rightarrow> Server \<Rightarrow> Server rust" where
  "server_handle_frame sip rc sv =
     (if \<not> verify_minimum_size (rc_bytes rc) then Some sv
      else do {
        frame_type \<leftarrow> read_type (rc_bytes rc);
        case frame_type of
          Some HandshakeAlpha \<Rightarrow> handle_handshake_alpha sip (rc_random rc) (rc_bytes rc) (rc_addr rc) (rc_now_ms rc) sv
        | Some HandshakeBeta \<Rightarrow> handle_handshake_beta sip (rc_bytes rc) (rc_addr rc) (rc_now_ms rc) sv
        | Some ft \<Rightarrow> server_handle_frame_other (rc_coins rc) (rc_now_ms rc) ft (rc_bytes rc) (rc_addr rc) sv
        | None \<Rightarrow> Some sv })"

text \<open>
  The reading loop. \<open>answers\<close> is what the socket answers to its reads, \<open>env k\<close> the clock and the
  random numbers that the handling of the \<open>k\<close>-th frame reads.
\<close>

record FrameEnv =
  fe_now :: Instant
  fe_random :: u32
  fe_coins :: "nat \<Rightarrow> bool"

definition received :: "Epoch \<Rightarrow> FrameEnv \<Rightarrow> bytes \<times> SocketAddr \<Rightarrow> Received" where
  "received epoch fe frame =
     \<lparr>rc_bytes = fst frame, rc_addr = snd frame, rc_now_ms = time_now_ms epoch (fe_now fe),
      rc_random = fe_random fe, rc_coins = fe_coins fe\<rparr>"

function server_handle_frames ::
    "SipHash \<Rightarrow> Epoch \<Rightarrow> (nat \<Rightarrow> FrameEnv) \<Rightarrow> (bytes \<times> SocketAddr) io_result list \<Rightarrow> SocketRx \<Rightarrow> Server \<Rightarrow>
      (SocketRx \<times> Server) rust" where
  "server_handle_frames sip epoch env answers socket_rx sv =
     (case try_read_frame answers socket_rx of
        (answers, socket_rx, Inr (Some frame)) \<Rightarrow>
          server_handle_frame sip (received epoch (env 0) frame) sv \<bind> (\<lambda>sv.
          server_handle_frames sip epoch (env \<circ> Suc) answers socket_rx sv)
      | (answers, socket_rx, _) \<Rightarrow> Some (socket_rx, sv))"
  by pat_completeness auto
termination
  by (relation "measure (\<lambda>(sip, epoch, env, answers, rx, sv). length answers)")
    (auto dest: server_socket.read_shrinks [OF sym])

declare server_handle_frames.simps [simp del]

definition server_handle_frames_wait ::
    "SipHash \<Rightarrow> Epoch \<Rightarrow> (nat \<Rightarrow> FrameEnv) \<Rightarrow> PollOutcome \<Rightarrow> (bytes \<times> SocketAddr) io_result list \<Rightarrow> SocketRx \<Rightarrow>
      Server \<Rightarrow> (SocketRx \<times> Server) rust" where
  "server_handle_frames_wait sip epoch env poll answers socket_rx sv =
     (case wait_for_frame poll answers socket_rx of
        (answers, socket_rx, Inr (Some frame)) \<Rightarrow>
          server_handle_frame sip (received epoch (env 0) frame) sv \<bind>
          server_handle_frames sip epoch (env \<circ> Suc) answers socket_rx
      | (answers, socket_rx, _) \<Rightarrow> Some (socket_rx, sv))"

text \<open>
  A peer is alive as long as it is referred to: by the table, by an event in the queue, or
  by a handle the application holds (\<open>held\<close>).
\<close>

fun event_peer :: "ServerEvent \<Rightarrow> PeerRef" where
  "event_peer (SvConnect pid) = pid"
| "event_peer (SvDisconnect pid) = pid"
| "event_peer (SvReceive pid bs) = pid"
| "event_peer (SvError pid e) = pid"

definition peer_alive :: "(PeerRef \<Rightarrow> bool) \<Rightarrow> Server \<Rightarrow> PeerRef \<Rightarrow> bool" where
  "peer_alive held sv pid \<longleftrightarrow> pid \<in> snd ` set (sv_peers sv) \<or> pid \<in> event_peer ` set (sv_events sv) \<or> held pid"

definition step_timer_wheel :: "(PeerRef \<Rightarrow> bool) \<Rightarrow> u64 \<Rightarrow> Server \<Rightarrow> (Server \<times> PeerRef list) rust" where
  "step_timer_wheel held now_ms sv = do {
     (sv, timer_queue, timer_data_buffer) \<leftarrow> timer_queue_test (peer_alive held sv) (peer_timer_test now_ms)
       TIMER_TEST_LIMIT sv (sv_timer_queue sv);
     Some (sv\<lparr>sv_timer_queue := timer_queue\<rparr>, timer_data_buffer) }"

definition next_timer_timeout :: "Server \<Rightarrow> nat option" where
  "next_timer_timeout sv = (if timer_queue_len (sv_timer_queue sv) > 0 then Some TIMER_TEST_INTERVAL else None)"

text \<open>The clock is read, and nonces are drawn, for each timer that fired: \<open>clock k\<close>, \<open>coins k\<close>.\<close>

record Ticks =
  tk_now_ms :: u64
  tk_clock :: "PeerRef \<Rightarrow> u64"
  tk_coins :: "PeerRef \<Rightarrow> nat \<Rightarrow> bool"
  tk_held :: "PeerRef \<Rightarrow> bool"

fun handle_fired :: "Ticks \<Rightarrow> PeerRef list \<Rightarrow> Server \<Rightarrow> Server rust" where
  "handle_fired tk [] sv = Some sv"
| "handle_fired tk (pid # pids) sv = do {
     (sv, action) \<leftarrow> peer_handle_rto_timer (tk_coins tk pid) (tk_clock tk pid) pid sv;
     handle_fired tk pids
       (case action of
          Continue \<Rightarrow> sv
        | Terminate \<Rightarrow> sv\<lparr>sv_peers := AList.delete (pe_addr (sv_store sv ! pid)) (sv_peers sv)\<rparr>) }"

definition handle_timeouts :: "Ticks \<Rightarrow> Server \<Rightarrow> Server rust" where
  "handle_timeouts tk sv = do {
     (sv, timer_data_buffer) \<leftarrow> step_timer_wheel (tk_held tk) (tk_now_ms tk) sv;
     handle_fired tk timer_data_buffer sv }"

section \<open>The server object\<close>

definition ServerCore_new :: "bytes \<Rightarrow> ServerConfig \<Rightarrow> Server" where
  "ServerCore_new key config =
     \<lparr>sv_config = config, sv_hasher = \<lparr>hm_key = key\<rparr>, sv_store = [], sv_peers = [],
      sv_timer_queue = TimerQueue_default, sv_events = [], sv_sent = []\<rparr>"

record ServerObj =
  so_core :: Server
  so_epoch :: Epoch
  so_socket_rx :: SocketRx

text \<open>
  Binding panics on an invalid configuration and forwards the errors of the socket. \<open>key\<close> is
  the random key of the hasher, \<open>now\<close> the time of creation.
\<close>

definition Server_bind_with_config :: "SocketOs \<Rightarrow> Instant \<Rightarrow> bytes \<Rightarrow> ServerConfig \<Rightarrow> ServerObj io_result rust" where
  "Server_bind_with_config os now key config = do {
     ServerConfig_validate config;
     let epoch = Epoch_new now;
     Some (io_bind (socket_new os SERVER_FRAME_SIZE_MAX) (\<lambda>socket_rx.
       Inr \<lparr>so_core = ServerCore_new key config, so_epoch = epoch, so_socket_rx = socket_rx\<rparr>)) }"

definition Server_bind :: "SocketOs \<Rightarrow> Instant \<Rightarrow> bytes \<Rightarrow> ServerObj io_result rust" where
  "Server_bind os now key = Server_bind_with_config os now key ServerConfig_default"

definition pop_event :: "Server \<Rightarrow> Server \<times> ServerEvent option" where
  "pop_event sv = (case sv_events sv of [] \<Rightarrow> (sv, None) | e # es \<Rightarrow> (sv\<lparr>sv_events := es\<rparr>, Some e))"

definition server_pop_event :: "ServerObj \<Rightarrow> ServerObj \<times> ServerEvent option" where
  "server_pop_event so = (case pop_event (so_core so) of (core, event) \<Rightarrow> (so\<lparr>so_core := core\<rparr>, event))"

text \<open>
  What happens outside between two looks at the event queue: the answers of the socket and
  of the poller, the readings of the clock, random numbers, and the handles held.
\<close>

record Round =
  rd_answers :: "(bytes \<times> SocketAddr) io_result list"
  rd_poll :: PollOutcome
  rd_env :: "nat \<Rightarrow> FrameEnv"
  rd_now :: Instant
  rd_clock :: "PeerRef \<Rightarrow> Instant"
  rd_coins :: "PeerRef \<Rightarrow> nat \<Rightarrow> bool"
  rd_held :: "PeerRef \<Rightarrow> bool"

definition round_ticks :: "Epoch \<Rightarrow> Round \<Rightarrow> Ticks" where
  "round_ticks epoch r =
     \<lparr>tk_now_ms = time_now_ms epoch (rd_now r), tk_clock = time_now_ms epoch \<circ> rd_clock r,
      tk_coins = rd_coins r, tk_held = rd_held r\<rparr>"

text \<open>A round: the frames at hand, or those after a wait, then the timers.\<close>

definition server_round :: "SipHash \<Rightarrow> bool \<Rightarrow> Round \<Rightarrow> ServerObj \<Rightarrow> ServerObj rust" where
  "server_round sip wait r so = do {
     (socket_rx, core) \<leftarrow>
       (if wait then server_handle_frames_wait sip (so_epoch so) (rd_env r) (rd_poll r) (rd_answers r) (so_socket_rx so) (so_core so)
        else server_handle_frames sip (so_epoch so) (rd_env r) (rd_answers r) (so_socket_rx so) (so_core so));
     core \<leftarrow> handle_timeouts (round_ticks (so_epoch so) r) core;
     Some (so\<lparr>so_core := core, so_socket_rx := socket_rx\<rparr>) }"

definition poll_event :: "SipHash \<Rightarrow> Round \<Rightarrow> ServerObj \<Rightarrow> (ServerObj \<times> ServerEvent option) rust" where
  "poll_event sip r so = do {
     so \<leftarrow> (if sv_events (so_core so) = [] then server_round sip False r so else Some so);
     Some (server_pop_event so) }"

text \<open>
  The loop of \<^verbatim>\<open>wait_event\<close>; \<open>world k w\<close> is what happens in its \<open>k\<close>-th round when the
  socket is read with the timeout \<open>w\<close>. It may run for ever: \<open>fuel\<close> bounds the rounds, and
  the inner \<open>None\<close> says that they ran out.
\<close>

fun wait_event ::
    "nat \<Rightarrow> SipHash \<Rightarrow> (nat \<Rightarrow> nat option \<Rightarrow> Round) \<Rightarrow> nat \<Rightarrow> ServerObj \<Rightarrow> (ServerObj \<times> ServerEvent option) rust" where
  "wait_event 0 sip world k so = Some (so, None)"
| "wait_event (Suc fuel) sip world k so = do {
     so \<leftarrow> server_round sip True (world k (next_timer_timeout (so_core so))) so;
     case server_pop_event so of
       (so, Some event) \<Rightarrow> Some (so, Some event)
     | (so, None) \<Rightarrow> wait_event fuel sip world (Suc k) so }"

text \<open>
  The loop of \<^verbatim>\<open>wait_event_timeout\<close>: \<open>elapsed k\<close> is the duration of its \<open>k\<close>-th round. It
  ends when the durations reach the timeout; again \<open>fuel\<close> bounds the rounds.
\<close>

fun wait_timeout_loop ::
    "nat \<Rightarrow> SipHash \<Rightarrow> (nat \<Rightarrow> nat option \<Rightarrow> Round) \<Rightarrow> (nat \<Rightarrow> nat) \<Rightarrow> nat \<Rightarrow> nat \<Rightarrow> ServerObj \<Rightarrow> ServerObj option rust" where
  "wait_timeout_loop 0 sip world elapsed k remaining so = Some None"
| "wait_timeout_loop (Suc fuel) sip world elapsed k remaining so = do {
     let wait = (case next_timer_timeout (so_core so) of Some t \<Rightarrow> min remaining t | None \<Rightarrow> remaining);
     so \<leftarrow> server_round sip True (world k (Some wait)) so;
     if sv_events (so_core so) \<noteq> [] then Some (Some so)
     else if elapsed k \<ge> remaining then Some (Some so)
     else wait_timeout_loop fuel sip world elapsed (Suc k) (remaining - elapsed k) so }"

definition wait_event_timeout ::
    "nat \<Rightarrow> SipHash \<Rightarrow> (nat \<Rightarrow> nat option \<Rightarrow> Round) \<Rightarrow> (nat \<Rightarrow> nat) \<Rightarrow> nat \<Rightarrow> ServerObj \<Rightarrow>
      (ServerObj \<times> ServerEvent option) option rust" where
  "wait_event_timeout fuel sip world elapsed timeout so =
     (if sv_events (so_core so) = []
      then map_option (map_option server_pop_event) (wait_timeout_loop fuel sip world elapsed 0 timeout so)
      else Some (Some (server_pop_event so)))"

definition server_local_addr :: "ServerObj \<Rightarrow> SocketAddr" where
  "server_local_addr so = socket_local_addr (so_socket_rx so)"

definition peer_count :: "Server \<Rightarrow> nat" where
  "peer_count sv = length (sv_peers sv)"

end
