(* ===== verification/Server_Inv.thy ===== *)
theory Server_Inv
  imports Server
begin

text \<open>
  The invariant of the server, kept by every operation whatever frames arrive, and its
  histories: which events the application has seen of each peer.
\<close>

section \<open>A peer in its context\<close>

fun peer_events :: "PeerRef \<Rightarrow> Effect list \<Rightarrow> ServerEvent list" where
  "peer_events pid [] = []"
| "peer_events pid (OnConnect # out) = SvConnect pid # peer_events pid out"
| "peer_events pid (OnDisconnect # out) = SvDisconnect pid # peer_events pid out"
| "peer_events pid (OnReceive bs # out) = SvReceive pid bs # peer_events pid out"
| "peer_events pid (OnTimeout # out) = SvError pid Timeout # peer_events pid out"
| "peer_events pid (_ # out) = peer_events pid out"

lemma peer_events_simps [simp]:
  "peer_events pid (xs @ ys) = peer_events pid xs @ peer_events pid ys"
  "peer_events pid (map OnReceive ps) = map (SvReceive pid) ps"
  "peer_events pid (callbacks xs) = peer_events pid xs"
  "filter (\<lambda>e. event_peer e = q) (peer_events pid xs) = (if q = pid then peer_events pid xs else [])"
proof -
  show "peer_events pid (xs @ ys) = peer_events pid xs @ peer_events pid ys"
    by (induction pid xs rule: peer_events.induct) simp_all
  show "peer_events pid (map OnReceive ps) = map (SvReceive pid) ps"
    by (induction ps) simp_all
  show "peer_events pid (callbacks xs) = peer_events pid xs"
    by (induction pid xs rule: peer_events.induct) simp_all
  show "filter (\<lambda>e. event_peer e = q) (peer_events pid xs) = (if q = pid then peer_events pid xs else [])"
    by (induction pid xs rule: peer_events.induct) auto
qed

lemma event_peer_events: "e \<in> set (peer_events pid out) \<Longrightarrow> event_peer e = pid"
  by (induction pid out rule: peer_events.induct) auto

lemma peer_context_fold:
  "pid < length (sv_store sv) \<Longrightarrow>
   fold (peer_context pid) out sv = sv\<lparr>
     sv_store := (sv_store sv)[pid := (sv_store sv ! pid)
       \<lparr>pe_rto_timer := timer_after out (pe_rto_timer (sv_store sv ! pid))\<rparr>],
     sv_events := sv_events sv @ peer_events pid out,
     sv_sent := sv_sent sv @ map (\<lambda>bs. (bs, pe_addr (sv_store sv ! pid))) (sent_frames out)\<rparr>"
proof (induction out arbitrary: sv)
  case (Cons x out)
  then show ?case
    by (cases x) (simp_all add: socket_send_def push_event_def update_peer_def)
qed simp

lemma with_endpoint_exact:
  assumes "pid < length (sv_store sv)"
  shows "with_endpoint pid ep out sv = sv\<lparr>
     sv_store := (sv_store sv)[pid := (sv_store sv ! pid)
       \<lparr>pe_endpoint := ep, pe_rto_timer := timer_after out (pe_rto_timer (sv_store sv ! pid))\<rparr>],
     sv_events := sv_events sv @ peer_events pid out,
     sv_sent := sv_sent sv @ map (\<lambda>bs. (bs, pe_addr (sv_store sv ! pid))) (sent_frames out)\<rparr>"
  using assms by (simp add: with_endpoint_def peer_context_fold update_peer_def)

section \<open>The invariant\<close>

definition pe_state :: "Peer \<Rightarrow> StateId" where
  "pe_state p = ep_state_id (pe_endpoint p)"

text \<open>A peer, between operations, or when its timer has fired and it is still to be told.\<close>

definition peer_wf :: "bool \<Rightarrow> Peer \<Rightarrow> bool" where
  "peer_wf fired p \<longleftrightarrow> endpoint_wf (pe_endpoint p) \<and> pe_state p \<noteq> PreInit \<and>
     (if fired then pe_state p \<noteq> Zombie \<and> pe_rto_timer p = None \<and> (\<exists>t. timer_ok (Some t) (pe_endpoint p))
      else timer_ok (pe_rto_timer p) (pe_endpoint p) \<and> (pe_state p = Zombie \<longrightarrow> pe_rto_timer p = None))"

text \<open>The events of a peer so far follow the life cycle up to its state.\<close>

definition peer_history :: "PeerRef \<Rightarrow> ServerEvent list \<Rightarrow> StateId \<Rightarrow> bool" where
  "peer_history pid es s \<longleftrightarrow>
     (\<exists>xs. filter (\<lambda>e. event_peer e = pid) es = peer_events pid (OnConnect # xs) \<and> conn_steps Active xs s)"

text \<open>
  The invariant, with the events handed out already and the peers whose timer has fired: the
  table has one entry per address, no more than the configured number, and holds exactly the
  peers that are not yet dead; each of them is in the timer queue, once.
\<close>

definition server_inv_on :: "ServerEvent list \<Rightarrow> PeerRef set \<Rightarrow> Server \<Rightarrow> bool" where
  "server_inv_on hist F sv \<longleftrightarrow>
     ServerConfig_validate (sv_config sv) = Some () \<and>
     distinct (map fst (sv_peers sv)) \<and> length (sv_peers sv) \<le> svc_peer_count_max (sv_config sv) \<and>
     (\<forall>(a, pid) \<in> set (sv_peers sv). pid < length (sv_store sv) \<and> pe_addr (sv_store sv ! pid) = a) \<and>
     (\<forall>pid < length (sv_store sv). peer_wf (pid \<in> F) (sv_store sv ! pid) \<and>
        (pid \<in> snd ` set (sv_peers sv) \<longleftrightarrow> pe_state (sv_store sv ! pid) \<noteq> Zombie) \<and>
        peer_history pid (hist @ sv_events sv) (pe_state (sv_store sv ! pid))) \<and>
     distinct (tq_queue (sv_timer_queue sv)) \<and> snd ` set (sv_peers sv) \<subseteq> set (tq_queue (sv_timer_queue sv)) \<and>
     set (tq_queue (sv_timer_queue sv)) \<subseteq> {..<length (sv_store sv)} \<and>
     event_peer ` set (hist @ sv_events sv) \<subseteq> {..<length (sv_store sv)}"

lemma peer_history_step:
  assumes "peer_history pid es s" and "conn_step s (callbacks out) s'"
  shows "peer_history pid (es @ peer_events pid out) s'"
proof -
  obtain xs where "filter (\<lambda>e. event_peer e = pid) es = peer_events pid (OnConnect # xs)" "conn_steps Active xs s"
    using assms(1) by (auto simp: peer_history_def)
  with conn_steps_snoc [OF _ assms(2)] show ?thesis
    unfolding peer_history_def by (intro exI [of _ "xs @ callbacks out"]) simp
qed

lemma peer_history_other: "q \<noteq> pid \<Longrightarrow> peer_history q (es @ peer_events pid out) s = peer_history q es s"
  by (simp add: peer_history_def)

text \<open>A peer that has become a zombie has left the table, and it alone.\<close>

lemma table_update:
  assumes keys: "distinct (map fst al)" and entries: "\<And>a q. (a, q) \<in> set al \<Longrightarrow> q < length store \<and> pe_addr (store ! q) = a"
    and zombie: "\<And>q. q < length store \<Longrightarrow> q \<in> snd ` set al \<longleftrightarrow> pe_state (store ! q) \<noteq> Zombie"
    and pid: "pid < length store" and addr: "pe_addr p = pe_addr (store ! pid)"
    and dead: "pe_state (store ! pid) = Zombie \<Longrightarrow> pe_state p = Zombie"
    and peers: "peers = (if pe_state p = Zombie \<and> pe_state (store ! pid) \<noteq> Zombie then AList.delete (pe_addr p) al else al)"
    and q: "q < length store"
  shows "q \<in> snd ` set peers \<longleftrightarrow> pe_state (store[pid := p] ! q) \<noteq> Zombie"
proof (cases "pe_state p = Zombie \<and> pe_state (store ! pid) \<noteq> Zombie")
  case True
  then have "(pe_addr p, pid) \<in> set al"
    using zombie [OF pid] entries addr by fastforce
  then have "(a, r) \<in> set al \<Longrightarrow> a = pe_addr p \<longleftrightarrow> r = pid" for a r
    using keys entries addr by (metis eq_key_imp_eq_value)
  then have "q \<in> snd ` set peers \<longleftrightarrow> q \<in> snd ` set al \<and> q \<noteq> pid"
    using True by (force simp: peers AList.delete_eq)
  with True zombie [OF q] pid show ?thesis
    by (cases "q = pid") simp_all
next
  case False
  then have "peers = al"
    unfolding peers by (rule if_not_P)
  with zombie [OF q] False dead pid show ?thesis
    by (cases "q = pid") auto
qed

text \<open>An operation on one peer; when the peer dies its entry is taken out of the table.\<close>

lemma inv_update:
  assumes inv: "server_inv_on hist F sv" and pid: "pid < length (sv_store sv)"
    and p: "peer_wf (pid \<in> F') p" and addr: "pe_addr p = pe_addr (sv_store sv ! pid)"
    and step: "conn_step (pe_state (sv_store sv ! pid)) (callbacks out) (pe_state p)"
    and F: "F - {pid} = F' - {pid}"
    and peers: "peers = (if pe_state p = Zombie \<and> pe_state (sv_store sv ! pid) \<noteq> Zombie
      then AList.delete (pe_addr p) (sv_peers sv) else sv_peers sv)"
  shows "server_inv_on hist F' (sv\<lparr>sv_store := (sv_store sv)[pid := p],
    sv_events := sv_events sv @ peer_events pid out, sv_sent := snt, sv_peers := peers\<rparr>)"
proof -
  let ?al = "sv_peers sv" and ?p = "sv_store sv ! pid"
  have al: "distinct (map fst ?al)" "\<And>a q. (a, q) \<in> set ?al \<Longrightarrow> q < length (sv_store sv) \<and> pe_addr (sv_store sv ! q) = a"
    and zombie: "\<And>q. q < length (sv_store sv) \<Longrightarrow> q \<in> snd ` set ?al \<longleftrightarrow> pe_state (sv_store sv ! q) \<noteq> Zombie"
    and wf: "\<And>q. q < length (sv_store sv) \<Longrightarrow> peer_wf (q \<in> F) (sv_store sv ! q)"
    and hist: "\<And>q. q < length (sv_store sv) \<Longrightarrow> peer_history q (hist @ sv_events sv) (pe_state (sv_store sv ! q))"
    using inv by (auto simp: server_inv_on_def)
  have F': "q \<in> F' \<longleftrightarrow> q \<in> F" if "q \<noteq> pid" for q
    using F that by blast
  have sub: "set peers \<subseteq> set ?al" "distinct (map fst peers)" "length peers \<le> length ?al"
    using al(1) by (auto simp: peers AList.delete_eq length_filter_le intro: distinct_map_filter)
  have dead: "pe_state ?p = Zombie \<Longrightarrow> pe_state p = Zombie"
    using step by auto
  have table: "q \<in> snd ` set peers \<longleftrightarrow> pe_state ((sv_store sv)[pid := p] ! q) \<noteq> Zombie" if "q < length (sv_store sv)" for q
    using table_update [OF al zombie pid addr dead peers that] .
  have peer: "peer_wf (q \<in> F') ((sv_store sv)[pid := p] ! q) \<and>
      (q \<in> snd ` set peers \<longleftrightarrow> pe_state ((sv_store sv)[pid := p] ! q) \<noteq> Zombie) \<and>
      peer_history q (hist @ sv_events sv @ peer_events pid out) (pe_state ((sv_store sv)[pid := p] ! q))"
    if q: "q < length (sv_store sv)" for q
  proof (cases "q = pid")
    case True
    then show ?thesis
      using p pid peer_history_step [OF hist [OF pid] step] table [OF q] by simp
  next
    case False
    then show ?thesis
      using wf [OF q] hist [OF q] F' table [OF q] peer_history_other [of q pid "hist @ sv_events sv"] by simp
  qed
  have entries: "q < length (sv_store sv) \<and> pe_addr ((sv_store sv)[pid := p] ! q) = a" if "(a, q) \<in> set peers" for a q
    using that sub(1) al(2) [of a q] addr by (cases "q = pid") auto
  have events: "event_peer ` set (hist @ sv_events sv @ peer_events pid out) \<subseteq> {..<length (sv_store sv)}"
  proof -
    have "event_peer ` set (hist @ sv_events sv) \<subseteq> {..<length (sv_store sv)}"
      using inv by (simp add: server_inv_on_def)
    then show ?thesis
      using pid event_peer_events [of _ pid out] by (auto simp: image_Un)
  qed
  have queue: "snd ` set peers \<subseteq> set (tq_queue (sv_timer_queue sv))" "length peers \<le> svc_peer_count_max (sv_config sv)"
  proof -
    have "snd ` set peers \<subseteq> snd ` set ?al" "snd ` set ?al \<subseteq> set (tq_queue (sv_timer_queue sv))"
        "length ?al \<le> svc_peer_count_max (sv_config sv)"
      using inv image_mono [OF sub(1)] by (simp_all add: server_inv_on_def)
    with sub(3) show "snd ` set peers \<subseteq> set (tq_queue (sv_timer_queue sv))"
        "length peers \<le> svc_peer_count_max (sv_config sv)"
      by (blast, linarith)
  qed
  let ?sv = "sv\<lparr>sv_store := (sv_store sv)[pid := p], sv_events := sv_events sv @ peer_events pid out,
    sv_sent := snt, sv_peers := peers\<rparr>"
  have fields: "sv_config ?sv = sv_config sv" "sv_store ?sv = (sv_store sv)[pid := p]" "sv_peers ?sv = peers"
      "sv_timer_queue ?sv = sv_timer_queue sv" "sv_events ?sv = sv_events sv @ peer_events pid out"
      "length ((sv_store sv)[pid := p]) = length (sv_store sv)"
    by simp_all
  have rest: "ServerConfig_validate (sv_config sv) = Some ()" "distinct (tq_queue (sv_timer_queue sv))"
      "set (tq_queue (sv_timer_queue sv)) \<subseteq> {..<length (sv_store sv)}"
    using inv by (simp_all add: server_inv_on_def)
  show ?thesis
    unfolding server_inv_on_def fields
    by (intro conjI) (use rest peer entries events queue sub(2) in blast)+
qed

section \<open>Calls on a peer\<close>

text \<open>A call on a peer is the host call on its endpoint, with its timer.\<close>

definition peer_call :: "PeerRef \<Rightarrow> TimedCall \<Rightarrow> Server \<Rightarrow> Server rust" where
  "peer_call pid c sv =
     map_option (\<lambda>(ep, t, out). with_endpoint pid ep out sv)
       (host_step c (pe_endpoint (sv_store sv ! pid)) (pe_rto_timer (sv_store sv ! pid)))"

lemma peer_calls:
  "peer_handle_frame coins now pid ft bs sv = peer_call pid (CallFrame ft bs, now, coins) sv"
  "handle_flush coins now pid sv = peer_call pid (CallFlush, now, coins) sv"
  "handle_disconnect now pid sv = peer_call pid (CallDisconnect, now, coins) sv"
  "Some (handle_enqueue now pid bs mode sv) = peer_call pid (CallEnqueue bs mode, now, coins) sv"
  by (auto simp: peer_call_def peer_handle_frame_def handle_flush_def handle_disconnect_def handle_enqueue_def
      with_endpoint_def update_peer_def split: Option.bind_splits)

lemma handle_send_calls:
  assumes "pid < length (sv_store sv)"
  shows "handle_send coins now pid bs mode sv = handle_flush coins now pid (handle_enqueue now pid bs mode sv)"
  using assms by (simp add: handle_send_def handle_flush_def handle_enqueue_def update_peer_def with_endpoint_def)

lemma inv_peer_call:
  assumes inv: "server_inv_on hist F sv" and pid: "pid < length (sv_store sv)" "pid \<notin> F"
    and c: "call_fits c" "fst c \<noteq> CallTimer"
  shows "\<exists>sv'. peer_call pid c sv = Some sv' \<and> server_inv_on hist F sv' \<and> sv_peers sv' = sv_peers sv \<and>
    sv_config sv' = sv_config sv \<and> length (sv_store sv') = length (sv_store sv)"
proof -
  let ?p = "sv_store sv ! pid"
  have p: "peer_wf False ?p"
    using inv pid by (auto simp: server_inv_on_def)
  then have start: "endpoint_wf (pe_endpoint ?p)" "timer_ok (pe_rto_timer ?p) (pe_endpoint ?p)" "pe_state ?p \<noteq> PreInit"
      "ep_state_id (pe_endpoint ?p) = Zombie \<Longrightarrow> pe_rto_timer ?p = None"
    by (simp_all add: peer_wf_def pe_state_def)
  obtain ep t out where s: "host_step c (pe_endpoint ?p) (pe_rto_timer ?p) = Some (ep, t, out)" "endpoint_wf ep" "timer_ok t ep"
      "conn_step (ep_state_id (pe_endpoint ?p)) (callbacks out) (ep_state_id ep)"
    using host_step_ok [OF start(1,2) c(1)] by blast
  note z = host_step_zombie [OF start(1,2) c start(4) s(1)]
  have t: "t = timer_after out (pe_rto_timer ?p)"
    using s(1) c(2) by (cases "(c, pe_endpoint ?p, pe_rto_timer ?p)" rule: host_step.cases) auto
  let ?p' = "?p\<lparr>pe_endpoint := ep, pe_rto_timer := t\<rparr>"
  have wf: "peer_wf (pid \<in> F) ?p'"
    using s(2-4) z(2) start(3) pid(2) by (auto simp: peer_wf_def pe_state_def)
  have "with_endpoint pid ep out sv = sv\<lparr>sv_store := (sv_store sv)[pid := ?p'],
      sv_events := sv_events sv @ peer_events pid out,
      sv_sent := sv_sent sv @ map (\<lambda>bs. (bs, pe_addr ?p)) (sent_frames out)\<rparr>"
    using with_endpoint_exact [OF pid(1), of ep out] t by simp
  moreover have "server_inv_on hist F (sv\<lparr>sv_store := (sv_store sv)[pid := ?p'],
      sv_events := sv_events sv @ peer_events pid out,
      sv_sent := sv_sent sv @ map (\<lambda>bs. (bs, pe_addr ?p)) (sent_frames out), sv_peers := sv_peers sv\<rparr>)"
    by (rule inv_update [OF inv pid(1) wf]) (use s(4) z(1) in \<open>simp_all add: pe_state_def\<close>)
  ultimately show ?thesis
    using s(1) by (simp add: peer_call_def)
qed

section \<open>Timeouts\<close>

interpretation peer_timer: timer "peer_timer_test now" "peer_timer_due now"
proof unfold_locales
  show "snd (peer_timer_test now s t) \<longleftrightarrow> peer_timer_due now s t" for s t
    by (auto simp: peer_timer_test_def peer_timer_due_def split: option.splits)
  show "\<not> peer_timer_due now (fst (peer_timer_test now s t)) t" for s t
    by (auto simp: peer_timer_test_def peer_timer_due_def update_peer_def split: option.splits)
  show "u \<noteq> t \<Longrightarrow> peer_timer_due now (fst (peer_timer_test now s t)) u \<longleftrightarrow> peer_timer_due now s u" for s t u
    by (auto simp: peer_timer_test_def peer_timer_due_def update_peer_def split: option.splits)
qed

lemma inv_timer_test:
  assumes inv: "server_inv_on hist F sv" and r: "peer_timer_test now sv pid = (sv', expired)"
  shows "server_inv_on hist (if expired then insert pid F else F) sv'" "expired \<Longrightarrow> pid \<notin> F"
    "sv_timer_queue sv' = sv_timer_queue sv" "sv_peers sv' = sv_peers sv" "sv_events sv' = sv_events sv"
    "length (sv_store sv') = length (sv_store sv)" "sv_config sv' = sv_config sv"
proof -
  let ?p = "sv_store sv ! pid"
  show "sv_timer_queue sv' = sv_timer_queue sv" "sv_peers sv' = sv_peers sv" "sv_events sv' = sv_events sv"
      "length (sv_store sv') = length (sv_store sv)" "sv_config sv' = sv_config sv"
    using r by (auto simp: peer_timer_test_def update_peer_def split: if_splits option.splits)
  have "server_inv_on hist (if expired then insert pid F else F) sv' \<and> (expired \<longrightarrow> pid \<notin> F)"
  proof (cases expired)
    case True
    then obtain t where due: "pid < length (sv_store sv)" "pe_rto_timer ?p = Some t"
        and sv': "sv' = sv\<lparr>sv_store := (sv_store sv)[pid := ?p\<lparr>pe_rto_timer := None\<rparr>]\<rparr>"
      using r by (auto simp: peer_timer_test_def update_peer_def split: if_splits option.splits)
    have p: "peer_wf (pid \<in> F) ?p"
      using inv due(1) by (auto simp: server_inv_on_def)
    then have F: "pid \<notin> F"
      using due(2) by (auto simp: peer_wf_def)
    with p due(2) have wf: "peer_wf (pid \<in> insert pid F) (?p\<lparr>pe_rto_timer := None\<rparr>)"
      by (auto simp: peer_wf_def pe_state_def)
    have "server_inv_on hist (insert pid F) (sv\<lparr>sv_store := (sv_store sv)[pid := ?p\<lparr>pe_rto_timer := None\<rparr>],
        sv_events := sv_events sv @ peer_events pid [], sv_sent := sv_sent sv, sv_peers := sv_peers sv\<rparr>)"
      by (rule inv_update [OF inv due(1) wf]) (auto simp: pe_state_def)
    with F True sv' show ?thesis
      by simp
  next
    case False
    then have "sv' = sv"
      using r by (auto simp: peer_timer_test_def split: if_splits option.splits)
    with inv False show ?thesis
      by simp
  qed
  then show "server_inv_on hist (if expired then insert pid F else F) sv'" "expired \<Longrightarrow> pid \<notin> F"
    by auto
qed

lemma timer_test_expired: "peer_timer_test now sv pid = (sv', True) \<Longrightarrow> pid < length (sv_store sv)"
  by (auto simp: peer_timer_test_def split: if_splits)

lemma inv_test_each:
  "server_inv_on hist F sv \<Longrightarrow> test_each (peer_timer_test now) sv pids = (sv', fired) \<Longrightarrow>
   server_inv_on hist (F \<union> set fired) sv' \<and> distinct fired \<and> set fired \<inter> F = {} \<and>
   set fired \<subseteq> {..<length (sv_store sv)} \<and>
   sv_timer_queue sv' = sv_timer_queue sv \<and> sv_peers sv' = sv_peers sv \<and> sv_events sv' = sv_events sv \<and>
   length (sv_store sv') = length (sv_store sv) \<and> sv_config sv' = sv_config sv"
proof (induction pids arbitrary: sv F fired)
  case (Cons pid pids)
  obtain sv1 expired where t: "peer_timer_test now sv pid = (sv1, expired)"
    by fastforce
  obtain rest where r: "test_each (peer_timer_test now) sv1 pids = (sv', rest)"
      "fired = (if expired then pid # rest else rest)"
    using Cons.prems(2) t by (auto split: prod.splits)
  note step = inv_timer_test [OF Cons.prems(1) t]
  have "expired \<Longrightarrow> pid < length (sv_store sv)"
    using t timer_test_expired by (cases expired) auto
  with Cons.IH [OF step(1) r(1)] step(2-) r(2) show ?case
    by (cases expired) auto
qed simp

lemma inv_timer_queue:
  assumes "server_inv_on hist F sv" and "distinct q"
    and "snd ` set (sv_peers sv) \<subseteq> set q" and "set q \<subseteq> set (tq_queue (sv_timer_queue sv))"
  shows "server_inv_on hist F (sv\<lparr>sv_timer_queue := tq\<lparr>tq_queue := q\<rparr>\<rparr>)"
  using assms by (auto simp: server_inv_on_def)

lemma inv_step_timer_wheel:
  assumes inv: "server_inv_on hist {} sv"
  shows "\<exists>sv' fired. step_timer_wheel held now sv = Some (sv', fired) \<and> server_inv_on hist (set fired) sv' \<and>
    distinct fired \<and> set fired \<subseteq> {..<length (sv_store sv')} \<and> sv_peers sv' = sv_peers sv \<and> sv_config sv' = sv_config sv"
proof -
  let ?q = "tq_queue (sv_timer_queue sv)" and ?alive = "peer_alive held sv"
  let ?q' = "drop TIMER_TEST_LIMIT ?q @ filter ?alive (take TIMER_TEST_LIMIT ?q)"
  obtain sv1 fired where t: "test_each (peer_timer_test now) sv (filter ?alive (take TIMER_TEST_LIMIT ?q)) = (sv1, fired)"
    by fastforce
  from inv_test_each [OF inv t] have ok: "server_inv_on hist (set fired) sv1" "distinct fired"
      "set fired \<subseteq> {..<length (sv_store sv1)}"
      "sv_timer_queue sv1 = sv_timer_queue sv" "sv_peers sv1 = sv_peers sv" "sv_config sv1 = sv_config sv"
    by simp_all
  have q: "distinct ?q" "snd ` set (sv_peers sv) \<subseteq> set ?q"
    using inv by (simp_all add: server_inv_on_def)
  have split: "set ?q = set (take TIMER_TEST_LIMIT ?q) \<union> set (drop TIMER_TEST_LIMIT ?q)"
    by (metis append_take_drop_id set_append)
  have "distinct ?q'"
    using q(1) set_take_disj_set_drop_if_distinct [OF q(1), of TIMER_TEST_LIMIT TIMER_TEST_LIMIT] by auto
  moreover have "snd ` set (sv_peers sv) \<subseteq> set ?q'"
    using q(2) unfolding split by (auto simp: peer_alive_def)
  moreover have "set ?q' \<subseteq> set ?q"
    unfolding split by auto
  ultimately have "server_inv_on hist (set fired) (sv1\<lparr>sv_timer_queue := (sv_timer_queue sv)\<lparr>tq_queue := ?q'\<rparr>\<rparr>)"
    using inv_timer_queue [OF ok(1)] ok(4,5) by simp
  with t ok show ?thesis
    by (simp add: step_timer_wheel_def timer_queue_test_exact)
qed

lemma inv_handle_rto_timer:
  assumes inv: "server_inv_on hist F sv" and pid: "pid \<in> F" "pid < length (sv_store sv)"
  shows "\<exists>sv' act. peer_handle_rto_timer coins now pid sv = Some (sv', act) \<and>
    server_inv_on hist (F - {pid}) (case act of Continue \<Rightarrow> sv'
      | Terminate \<Rightarrow> sv'\<lparr>sv_peers := AList.delete (pe_addr (sv_store sv' ! pid)) (sv_peers sv')\<rparr>) \<and>
    length (sv_store sv') = length (sv_store sv) \<and> sv_config sv' = sv_config sv"
proof -
  let ?p = "sv_store sv ! pid"
  have p: "peer_wf True ?p"
    using inv pid by (auto simp: server_inv_on_def)
  then obtain t0 where t0: "timer_ok (Some t0) (pe_endpoint ?p)" "endpoint_wf (pe_endpoint ?p)" "pe_rto_timer ?p = None"
      "pe_state ?p \<noteq> Zombie"
    by (auto simp: peer_wf_def)
  obtain ep act out where r: "endpoint_handle_rto_timer coins now (pe_endpoint ?p) = Some (ep, act, out)"
      "op_ok None (pe_endpoint ?p) ep out"
    using endpoint_handle_rto_timer_ok [OF t0(2,1)] by blast
  note ends = handle_rto_timer_terminates [OF t0(2,1) r(1)]
  let ?p' = "?p\<lparr>pe_endpoint := ep, pe_rto_timer := timer_after out None\<rparr>"
  have wf: "peer_wf (pid \<in> F - {pid}) ?p'"
    using r(2) p ends t0(4) by (auto simp: peer_wf_def pe_state_def op_ok_def elim: conn_stepE)
  let ?sv = "sv\<lparr>sv_store := (sv_store sv)[pid := ?p'], sv_events := sv_events sv @ peer_events pid out,
      sv_sent := sv_sent sv @ map (\<lambda>bs. (bs, pe_addr ?p)) (sent_frames out)\<rparr>"
  have eq: "peer_handle_rto_timer coins now pid sv = Some (?sv, act)"
    using with_endpoint_exact [OF pid(2), of ep out] r(1) t0(3) by (simp add: peer_handle_rto_timer_def)
  have "server_inv_on hist (F - {pid}) (sv\<lparr>sv_store := (sv_store sv)[pid := ?p'],
      sv_events := sv_events sv @ peer_events pid out,
      sv_sent := sv_sent sv @ map (\<lambda>bs. (bs, pe_addr ?p)) (sent_frames out),
      sv_peers := (if act = Terminate then AList.delete (pe_addr ?p) (sv_peers sv) else sv_peers sv)\<rparr>)"
    by (rule inv_update [OF inv pid(2) wf]) (use r(2) ends(1) t0(4) in \<open>auto simp: pe_state_def op_ok_def\<close>)
  with eq pid(2) show ?thesis
    by (cases act) (simp_all cong: if_cong)
qed

lemma inv_handle_fired:
  "server_inv_on hist (set pids) sv \<Longrightarrow> distinct pids \<Longrightarrow> set pids \<subseteq> {..<length (sv_store sv)} \<Longrightarrow>
   \<exists>sv'. handle_fired tk pids sv = Some sv' \<and> server_inv_on hist {} sv' \<and> sv_config sv' = sv_config sv"
proof (induction pids arbitrary: sv)
  case (Cons pid pids)
  have pid: "pid \<in> set (pid # pids)" "pid < length (sv_store sv)" "set (pid # pids) - {pid} = set pids"
    using Cons.prems(2,3) by auto
  obtain sv1 act where r: "peer_handle_rto_timer (tk_coins tk pid) (tk_clock tk pid) pid sv = Some (sv1, act)"
      "server_inv_on hist (set pids) (case act of Continue \<Rightarrow> sv1
        | Terminate \<Rightarrow> sv1\<lparr>sv_peers := AList.delete (pe_addr (sv_store sv1 ! pid)) (sv_peers sv1)\<rparr>)"
      "length (sv_store sv1) = length (sv_store sv)" "sv_config sv1 = sv_config sv"
    using inv_handle_rto_timer [OF Cons.prems(1) pid(1,2)] unfolding pid(3) by blast
  define sv2 where "sv2 = (case act of Continue \<Rightarrow> sv1
    | Terminate \<Rightarrow> sv1\<lparr>sv_peers := AList.delete (pe_addr (sv_store sv1 ! pid)) (sv_peers sv1)\<rparr>)"
  have same: "length (sv_store sv2) = length (sv_store sv)" "sv_config sv2 = sv_config sv"
    using r(3,4) by (cases act; simp add: sv2_def)+
  from Cons.IH [of sv2] r(2) Cons.prems(2,3) same obtain sv' where "handle_fired tk pids sv2 = Some sv'"
      "server_inv_on hist {} sv'" "sv_config sv' = sv_config sv"
    by (auto simp flip: sv2_def)
  with r(1) show ?case
    by (simp flip: sv2_def)
qed simp

lemma inv_handle_timeouts:
  assumes "server_inv_on hist {} sv"
  shows "\<exists>sv'. handle_timeouts tk sv = Some sv' \<and> server_inv_on hist {} sv' \<and> sv_config sv' = sv_config sv"
proof -
  obtain sv1 fired where w: "step_timer_wheel (tk_held tk) (tk_now_ms tk) sv = Some (sv1, fired)"
      "server_inv_on hist (set fired) sv1" "distinct fired" "set fired \<subseteq> {..<length (sv_store sv1)}"
      "sv_config sv1 = sv_config sv"
    using inv_step_timer_wheel [OF assms] by blast
  from inv_handle_fired [OF w(2-4), of tk] w(1,5) show ?thesis
    by (auto simp: handle_timeouts_def)
qed

section \<open>Handshakes\<close>

lemma validated_prio:
  assumes "ServerConfig_validate config = Some ()"
  obtains prio ws burst where "prio_Config_from (svc_channel_balance config) = Some prio" "prio_Config_new ws burst = Some prio"
  using assms by (auto simp: ServerConfig_validate_def ChannelBalanceConfig_validate_def prio_Config_from_def
      bind_eq_Some_conv)

lemma update_new: "map_of al k = None \<Longrightarrow> AList.update k v al = al @ [(k, v)]"
  by (induction al) (auto split: if_splits)

lemma add_peer_inv:
  assumes inv: "server_inv_on hist {} sv" and new: "map_of (sv_peers sv) addr = None"
    and room: "length (sv_peers sv) < svc_peer_count_max (sv_config sv)"
  shows "\<exists>p. add_peer addr sv = Some (sv\<lparr>sv_peers := sv_peers sv @ [(addr, length (sv_store sv))],
      sv_timer_queue := add_timer (sv_timer_queue sv) (length (sv_store sv)),
      sv_store := sv_store sv @ [p], sv_events := sv_events sv @ [SvConnect (length (sv_store sv))]\<rparr>) \<and>
    server_inv_on hist {} (sv\<lparr>sv_peers := sv_peers sv @ [(addr, length (sv_store sv))],
      sv_timer_queue := add_timer (sv_timer_queue sv) (length (sv_store sv)),
      sv_store := sv_store sv @ [p], sv_events := sv_events sv @ [SvConnect (length (sv_store sv))]\<rparr>) \<and>
    pe_addr p = addr \<and> pe_state p = Active"
proof -
  let ?n = "length (sv_store sv)"
  have "ServerConfig_validate (sv_config sv) = Some ()"
    using inv by (simp add: server_inv_on_def)
  then obtain prio ws burst where prio: "prio_Config_from (svc_channel_balance (sv_config sv)) = Some prio"
      "prio_Config_new ws burst = Some prio"
    by (rule validated_prio)
  let ?ec = "\<lparr>ec_timeout_time_ms = svc_connection_timeout_ms (sv_config sv), ec_prio_config = prio\<rparr>"
  obtain ep where ep: "Endpoint_new ?ec = Some ep" "endpoint_wf ep" "ep_state_id ep = PreInit" "ep_rto_timer_state ep = None"
    using Endpoint_new_wf [of ws burst ?ec] prio(2) by auto
  let ?p = "\<lparr>pe_addr = addr, pe_data = None, pe_rto_timer = None, pe_endpoint = ep\<lparr>ep_state_id := Active\<rparr>\<rparr>"
  let ?sv = "sv\<lparr>sv_peers := sv_peers sv @ [(addr, ?n)],
      sv_timer_queue := add_timer (sv_timer_queue sv) ?n, sv_store := sv_store sv @ [?p], sv_events := sv_events sv @ [SvConnect ?n]\<rparr>"
  have eq: "add_peer addr sv = Some ?sv"
    using prio(1) ep(1) update_new [OF new]
    by (simp add: add_peer_def Peer_new_def peer_init_def with_endpoint_def endpoint_init_def update_peer_def push_event_def
        Let_def)
  have wf: "peer_wf False ?p"
    using ep(2-4) by (simp add: peer_wf_def pe_state_def timer_ok_def endpoint_wf_def)
  have old: "q < ?n" if "(a, q) \<in> set (sv_peers sv)" for a q
    using inv that by (auto simp: server_inv_on_def)
  have events: "event_peer ` set (hist @ sv_events sv) \<subseteq> {..<?n}"
    using inv by (simp add: server_inv_on_def)
  then have none: "filter (\<lambda>e. event_peer e = ?n) (hist @ sv_events sv) = []"
    by (auto simp: filter_empty_conv)
  have peer: "peer_wf (q \<in> {}) ((sv_store sv @ [?p]) ! q) \<and>
      (q \<in> snd ` set (sv_peers sv @ [(addr, ?n)]) \<longleftrightarrow> pe_state ((sv_store sv @ [?p]) ! q) \<noteq> Zombie) \<and>
      peer_history q (hist @ sv_events sv @ [SvConnect ?n]) (pe_state ((sv_store sv @ [?p]) ! q))"
    if q: "q < length (sv_store sv @ [?p])" for q
  proof (cases "q = ?n")
    case True
    have "peer_history ?n (hist @ sv_events sv @ [SvConnect ?n]) Active"
      unfolding peer_history_def using none conn_refl by (intro exI [of _ "[]"]) simp
    with True wf show ?thesis
      by (simp add: pe_state_def)
  next
    case False
    with q inv show ?thesis
      by (auto simp: server_inv_on_def nth_append peer_history_def)
  qed
  have addrs: "addr \<notin> set (map fst (sv_peers sv))"
    using new by (simp add: map_of_eq_None_iff)
  have entries: "q < length (sv_store sv @ [?p]) \<and> pe_addr ((sv_store sv @ [?p]) ! q) = a"
    if "(a, q) \<in> set (sv_peers sv @ [(addr, ?n)])" for a q
    using inv that by (auto simp: server_inv_on_def nth_append)
  have queue: "distinct (tq_queue (add_timer (sv_timer_queue sv) ?n))"
      "snd ` set (sv_peers sv @ [(addr, ?n)]) \<subseteq> set (tq_queue (add_timer (sv_timer_queue sv) ?n))"
      "set (tq_queue (add_timer (sv_timer_queue sv) ?n)) \<subseteq> {..<length (sv_store sv @ [?p])}"
    using inv by (auto simp: server_inv_on_def add_timer_def)
  have fields: "sv_config ?sv = sv_config sv" "sv_store ?sv = sv_store sv @ [?p]" "sv_peers ?sv = sv_peers sv @ [(addr, ?n)]"
      "sv_timer_queue ?sv = add_timer (sv_timer_queue sv) ?n" "sv_events ?sv = sv_events sv @ [SvConnect ?n]"
    by simp_all
  have keys: "distinct (map fst (sv_peers sv @ [(addr, ?n)]))" "length (sv_peers sv @ [(addr, ?n)]) \<le> svc_peer_count_max (sv_config sv)"
      "ServerConfig_validate (sv_config sv) = Some ()"
    using inv addrs room by (simp_all add: server_inv_on_def)
  have ev: "event_peer ` set (hist @ sv_events sv @ [SvConnect ?n]) \<subseteq> {..<length (sv_store sv @ [?p])}"
    using events by (auto simp: image_Un)
  have "server_inv_on hist {} ?sv"
    unfolding server_inv_on_def fields
    by (intro conjI) (use peer entries queue keys ev in blast)+
  with eq show ?thesis
    by (intro exI [of _ ?p]) (simp add: pe_state_def)
qed

lemma add_peer_facts: "add_peer addr sv = Some sv' \<Longrightarrow> sv_sent sv' = sv_sent sv \<and> sv_hasher sv' = sv_hasher sv"
  by (auto simp: add_peer_def peer_init_def with_endpoint_def endpoint_init_def update_peer_def push_event_def
      Let_def bind_eq_Some_conv)

text \<open>Frames that fit the receive buffer.\<close>

definition received_ok :: "Received \<Rightarrow> bool" where
  "received_ok rc \<longleftrightarrow> length (rc_bytes rc) \<le> SERVER_FRAME_SIZE_MAX"

lemma server_inv_send: "server_inv_on hist F (socket_send bs addr sv) \<longleftrightarrow> server_inv_on hist F sv"
  by (simp add: server_inv_on_def socket_send_def)

text \<open>The acknowledgements of the two phases.\<close>

definition alpha_ack :: "SipHash \<Rightarrow> u32 \<Rightarrow> u64 \<Rightarrow> SocketAddr \<Rightarrow> Server \<Rightarrow> u32 \<Rightarrow> HandshakeAlphaAckFrame" where
  "alpha_ack sip random now_ms addr sv client_nonce =
     \<lparr>haa_server_params = \<lparr>packet_size_in_max = 0xFFFFFFFF, packet_size_out_max = 0xFFFFFFFF\<rparr>,
      haa_client_nonce = client_nonce, haa_server_nonce = random, haa_server_timestamp = ucast now_ms,
      haa_server_mac = mac_compute sip (sv_hasher sv) addr client_nonce random (ucast now_ms)\<rparr>"

definition alpha_ack_bytes :: "HandshakeAlphaAckFrame \<Rightarrow> bytes" where
  "alpha_ack_bytes ack = finished_frame (frame_type_bits HandshakeAlphaAck # HandshakeAlphaAckFrame_enc ack)"

definition beta_ack_bytes :: "HandshakeErrorKind option \<Rightarrow> u32 \<Rightarrow> bytes" where
  "beta_ack_bytes error client_nonce = finished_frame (frame_type_bits HandshakeBetaAck #
     HandshakeBetaAckFrame_enc \<lparr>hba_error = error, hba_client_nonce = client_nonce\<rparr>)"

lemma length_acks: "length (alpha_ack_bytes ack) = 33" "length (beta_ack_bytes error n) = 10"
  by (simp_all add: alpha_ack_bytes_def beta_ack_bytes_def HandshakeAlphaAckFrame_enc_def HandshakeBetaAckFrame_enc_def)

definition alpha_request :: "bytes \<Rightarrow> HandshakeAlphaFrame \<Rightarrow> bool" where
  "alpha_request bs f \<longleftrightarrow> verify_handshake_alpha_size_and_crc bs SERVER_FRAME_SIZE_MAX = Some True \<and>
     (payload bs \<bind> SimplePayloadRead_read (Serial_read HANDSHAKE_ALPHA_SIZE HandshakeAlphaFrame_read)) = Some (Some f) \<and>
     ha_protocol_id f = PROTOCOL_ID"

lemma verify_handshake_total:
  "\<exists>v. verify_handshake_alpha_size_and_crc bs SERVER_FRAME_SIZE_MAX = Some v"
  "\<exists>v. verify_handshake_beta_size_and_crc bs = Some v"
proof -
  show "\<exists>v. verify_handshake_alpha_size_and_crc bs SERVER_FRAME_SIZE_MAX = Some v"
    by (cases "length bs = 1472")
      (auto simp: verify_handshake_alpha_size_and_crc_def verify_crc_def SERVER_FRAME_SIZE_MAX_def serial_consts Let_def)
  show "\<exists>v. verify_handshake_beta_size_and_crc bs = Some v"
    by (cases "length bs = 33") (auto simp: verify_handshake_beta_size_and_crc_def verify_crc_def serial_consts Let_def)
qed

lemma handle_handshake_alpha_cases:
  assumes "verify_minimum_size bs"
  obtains (Ignored) "handle_handshake_alpha sip random bs addr now sv = Some sv" "\<nexists>f. alpha_request bs f"
    | (Acked) f where "alpha_request bs f" "handle_handshake_alpha sip random bs addr now sv =
        Some (socket_send (alpha_ack_bytes (alpha_ack sip random now addr sv (ha_client_nonce f))) addr sv)"
proof -
  obtain body where body: "payload bs = Some body"
    using frame_checks_total [OF assms] by blast
  obtain r where r: "SimplePayloadRead_read (Serial_read HANDSHAKE_ALPHA_SIZE HandshakeAlphaFrame_read) body = Some r"
    using handshake_alpha.SimplePayloadRead_total by blast
  obtain v where v: "verify_handshake_alpha_size_and_crc bs SERVER_FRAME_SIZE_MAX = Some v"
    using verify_handshake_total by blast
  have request: "alpha_request bs f \<longleftrightarrow> v \<and> r = Some f \<and> ha_protocol_id f = PROTOCOL_ID" for f
    using body r v by (simp add: alpha_request_def)
  have written: "\<exists>buf. SimpleFrameWrite_write HandshakeAlphaAck_SF
      (Serial_write HANDSHAKE_ALPHA_ACK_SIZE HandshakeAlphaAckFrame_write) ack
      (replicate (FRAME_SIZE HandshakeAlphaAck_SF) 0) = Some (buf, alpha_ack_bytes ack)" for ack
    using handshake_alpha_ack.SimpleFrameWrite_write_buffer [of ack "replicate (FRAME_SIZE HandshakeAlphaAck_SF) 0" HandshakeAlphaAck_SF]
    by (simp add: alpha_ack_bytes_def HandshakeAlphaAck_SF_def FRAME_SIZE_def serial_consts HandshakeAlphaAckFrame_enc_def)
  show thesis
  proof (cases "\<exists>f. alpha_request bs f")
    case True
    then obtain f where f: "alpha_request bs f" ..
    then show thesis
      using written [of "alpha_ack sip random now addr sv (ha_client_nonce f)"] body r v
      by (intro Acked [OF f]) (auto simp: handle_handshake_alpha_def request alpha_ack_def Let_def)
  next
    case False
    then show thesis
      using body r v by (intro Ignored) (auto simp: handle_handshake_alpha_def request Let_def split: option.splits)
  qed
qed

definition beta_request :: "SipHash \<Rightarrow> u64 \<Rightarrow> SocketAddr \<Rightarrow> HandshakeMacHasher \<Rightarrow> bytes \<Rightarrow> HandshakeBetaFrame \<Rightarrow> bool" where
  "beta_request sip now_ms addr hasher bs f \<longleftrightarrow> verify_handshake_beta_size_and_crc bs = Some True \<and>
     (payload bs \<bind> SimplePayloadRead_read (Serial_read HANDSHAKE_BETA_SIZE HandshakeBetaFrame_read)) = Some (Some f) \<and>
     hb_server_mac f = mac_compute sip hasher addr (hb_client_nonce f) (hb_server_nonce f) (hb_server_timestamp f) \<and>
     ucast now_ms - hb_server_timestamp f < HANDSHAKE_TIMEOUT_MS"

lemma handle_handshake_beta_cases:
  assumes "verify_minimum_size bs"
  obtains (Ignored) "handle_handshake_beta sip bs addr now sv = Some sv" "\<nexists>f. beta_request sip now addr (sv_hasher sv) bs f"
    | (Acked) f where "beta_request sip now addr (sv_hasher sv) bs f" "handle_handshake_beta sip bs addr now sv =
        map_option (\<lambda>(sv, error). socket_send (beta_ack_bytes error (hb_client_nonce f)) addr sv)
          (beta_error (hb_client_params f) addr sv)"
proof -
  obtain body where body: "payload bs = Some body"
    using frame_checks_total [OF assms] by blast
  obtain r where r: "SimplePayloadRead_read (Serial_read HANDSHAKE_BETA_SIZE HandshakeBetaFrame_read) body = Some r"
    using handshake_beta.SimplePayloadRead_total by blast
  obtain v where v: "verify_handshake_beta_size_and_crc bs = Some v"
    using verify_handshake_total by blast
  have request: "beta_request sip now addr (sv_hasher sv) bs f \<longleftrightarrow> v \<and> r = Some f \<and>
      hb_server_mac f = mac_compute sip (sv_hasher sv) addr (hb_client_nonce f) (hb_server_nonce f) (hb_server_timestamp f) \<and>
      ucast now - hb_server_timestamp f < HANDSHAKE_TIMEOUT_MS" for f
    using body r v by (simp add: beta_request_def)
  have written: "\<exists>buf. SimpleFrameWrite_write HandshakeBetaAck_SF
      (Serial_write HANDSHAKE_BETA_ACK_SIZE HandshakeBetaAckFrame_write) \<lparr>hba_error = error, hba_client_nonce = n\<rparr>
      (replicate (FRAME_SIZE HandshakeBetaAck_SF) 0) = Some (buf, beta_ack_bytes error n)" for error n
    using handshake_beta_ack.SimpleFrameWrite_write_buffer [of "\<lparr>hba_error = error, hba_client_nonce = n\<rparr>"
        "replicate (FRAME_SIZE HandshakeBetaAck_SF) 0" HandshakeBetaAck_SF]
    by (simp add: beta_ack_bytes_def HandshakeBetaAck_SF_def FRAME_SIZE_def serial_consts HandshakeBetaAckFrame_enc_def)
  show thesis
  proof (cases "\<exists>f. beta_request sip now addr (sv_hasher sv) bs f")
    case True
    then obtain f where f: "beta_request sip now addr (sv_hasher sv) bs f" ..
    have "handle_handshake_beta sip bs addr now sv =
        map_option (\<lambda>(sv, error). socket_send (beta_ack_bytes error (hb_client_nonce f)) addr sv)
          (beta_error (hb_client_params f) addr sv)"
    proof (cases "beta_error (hb_client_params f) addr sv")
      case (Some p)
      with written [of "snd p" "hb_client_nonce f"] f body r v show ?thesis
        by (cases p) (auto simp: handle_handshake_beta_def request)
    qed (use f body r v in \<open>auto simp: handle_handshake_beta_def request\<close>)
    with f show thesis
      by (rule Acked)
  next
    case False
    then show thesis
      using body r v by (intro Ignored) (auto simp: handle_handshake_beta_def request split: option.splits)
  qed
qed

lemma inv_beta_error:
  assumes inv: "server_inv_on hist {} sv"
  shows "\<exists>sv' error. beta_error params addr sv = Some (sv', error) \<and> server_inv_on hist {} sv' \<and> sv_sent sv' = sv_sent sv"
proof (cases "map_of (sv_peers sv) addr = None \<and> length (sv_peers sv) < svc_peer_count_max (sv_config sv)")
  case True
  then obtain sv' where "add_peer addr sv = Some sv'" "server_inv_on hist {} sv'"
    using add_peer_inv [OF inv] by blast
  then show ?thesis
    using True inv add_peer_facts [of addr sv sv'] by (simp add: beta_error_def Let_def)
qed (use inv in \<open>auto simp: beta_error_def Let_def\<close>)

end
