(* ===== verification/Server_Props.thy ===== *)
theory Server_Props
  imports Server_Inv
begin

text \<open>
  Runs of a server against arbitrary frames, clocks and application calls: the invariant
  holds, nothing aborts; and the properties of the handshake, the peer table, the events
  and the timers.
\<close>

section \<open>Frames\<close>

lemma inv_handle_frame_other:
  assumes inv: "server_inv_on hist {} sv" and bs: "verify_minimum_size bs" "length bs \<le> SERVER_FRAME_SIZE_MAX"
  shows "\<exists>sv'. server_handle_frame_other coins now ft bs addr sv = Some sv' \<and> server_inv_on hist {} sv' \<and>
    sv_peers sv' = sv_peers sv \<and> length (sv_store sv') = length (sv_store sv) \<and>
    (map_of (sv_peers sv) addr = None \<longrightarrow> sv' = sv)"
proof (cases "map_of (sv_peers sv) addr")
  case (Some pid)
  have pid: "pid < length (sv_store sv)"
    using inv map_of_SomeD [OF Some] by (auto simp: server_inv_on_def)
  obtain b body where f: "verify_crc bs = Some b" "payload bs = Some body" "length body + 5 = length bs"
    using frame_checks_total [OF bs(1)] by blast
  have "call_fits (CallFrame ft body, now, coins)"
    using f(3) bs(2) by (simp add: SERVER_FRAME_SIZE_MAX_def FRAME_SIZE_MAX_def)
  from inv_peer_call [OF inv pid _ this] f(1,2) Some inv show ?thesis
    by (cases b) (auto simp: server_handle_frame_other_def peer_calls)
qed (use inv in \<open>simp add: server_handle_frame_other_def\<close>)

text \<open>What a frame does to the table: nothing, or it adds the sender after a valid request.\<close>

definition table_step :: "SipHash \<Rightarrow> Received \<Rightarrow> Server \<Rightarrow> Server \<Rightarrow> bool" where
  "table_step sip rc sv sv' \<longleftrightarrow>
     sv_peers sv' = sv_peers sv \<and> length (sv_store sv') = length (sv_store sv) \<and>
       tq_queue (sv_timer_queue sv') = tq_queue (sv_timer_queue sv) \<or>
     (\<exists>f. beta_request sip (rc_now_ms rc) (rc_addr rc) (sv_hasher sv) (rc_bytes rc) f \<and>
        map_of (sv_peers sv) (rc_addr rc) = None \<and>
        sv_peers sv' = sv_peers sv @ [(rc_addr rc, length (sv_store sv))] \<and>
        length (sv_store sv') = Suc (length (sv_store sv)))"

lemma peer_call_timer_queue: "peer_call pid c sv = Some sv' \<Longrightarrow> sv_timer_queue sv' = sv_timer_queue sv \<and> sv_hasher sv' = sv_hasher sv"
proof -
  have "sv_timer_queue (fold (peer_context pid) out s) = sv_timer_queue s \<and> sv_hasher (fold (peer_context pid) out s) = sv_hasher s"
    for out s
  proof (induction out arbitrary: s)
    case (Cons x out)
    then show ?case
      by (cases x) (simp_all add: socket_send_def push_event_def update_peer_def)
  qed simp
  then show "peer_call pid c sv = Some sv' \<Longrightarrow> sv_timer_queue sv' = sv_timer_queue sv \<and> sv_hasher sv' = sv_hasher sv"
    by (auto simp: peer_call_def with_endpoint_def update_peer_def)
qed

lemma handle_frame_other_timer_queue:
  "server_handle_frame_other coins now ft bs addr sv = Some sv' \<Longrightarrow>
     sv_timer_queue sv' = sv_timer_queue sv \<and> sv_hasher sv' = sv_hasher sv"
  by (auto simp: server_handle_frame_other_def peer_calls bind_eq_Some_conv dest: peer_call_timer_queue
      split: option.splits if_splits)

lemma beta_error_cases:
  assumes inv: "server_inv_on hist {} sv"
  obtains (Same) error where "beta_error params addr sv = Some (sv, error)"
    | (Added) p sv' where "beta_error params addr sv = Some (sv', None)" "map_of (sv_peers sv) addr = None"
      "sv_peers sv' = sv_peers sv @ [(addr, length (sv_store sv))]" "sv_store sv' = sv_store sv @ [p]"
      "pe_addr p = addr" "pe_state p = Active" "sv_events sv' = sv_events sv @ [SvConnect (length (sv_store sv))]"
      "server_inv_on hist {} sv'" "sv_sent sv' = sv_sent sv"
proof (cases "map_of (sv_peers sv) addr = None \<and> length (sv_peers sv) < svc_peer_count_max (sv_config sv) \<and>
    connection_params_compatible params \<lparr>packet_size_in_max = 0xFFFFFFFF, packet_size_out_max = 0xFFFFFFFF\<rparr>")
  case True
  obtain p where p: "add_peer addr sv = Some (sv\<lparr>sv_peers := sv_peers sv @ [(addr, length (sv_store sv))],
      sv_timer_queue := add_timer (sv_timer_queue sv) (length (sv_store sv)),
      sv_store := sv_store sv @ [p], sv_events := sv_events sv @ [SvConnect (length (sv_store sv))]\<rparr>)"
    "server_inv_on hist {} (sv\<lparr>sv_peers := sv_peers sv @ [(addr, length (sv_store sv))],
      sv_timer_queue := add_timer (sv_timer_queue sv) (length (sv_store sv)),
      sv_store := sv_store sv @ [p], sv_events := sv_events sv @ [SvConnect (length (sv_store sv))]\<rparr>)"
    "pe_addr p = addr" "pe_state p = Active"
    using add_peer_inv [OF inv] True by blast
  with True show thesis
    by (intro Added [OF _ _ _ _ p(3,4) _ p(2)]) (simp_all add: beta_error_def Let_def)
next
  case False
  then have "\<exists>error. beta_error params addr sv = Some (sv, error)"
    by (auto simp: beta_error_def Let_def not_less)
  with Same show thesis
    by blast
qed

text \<open>The result of handling one frame.\<close>

definition handled :: "ServerEvent list \<Rightarrow> SipHash \<Rightarrow> Received \<Rightarrow> Server \<Rightarrow> Server rust \<Rightarrow> bool" where
  "handled hist sip rc sv r \<longleftrightarrow> (\<exists>sv'. r = Some sv' \<and> server_inv_on hist {} sv' \<and> table_step sip rc sv sv' \<and>
    (map_of (sv_peers sv) (rc_addr rc) = None \<longrightarrow> (\<exists>sent. sv_sent sv' = sv_sent sv @ sent \<and>
      sum_list (map (length \<circ> fst) sent) \<le> length (rc_bytes rc) \<and> snd ` set sent \<subseteq> {rc_addr rc})))"

lemma handled_ignored: "server_inv_on hist {} sv \<Longrightarrow> handled hist sip rc sv (Some sv)"
  by (simp add: handled_def table_step_def)

lemma handshake_alpha_handled:
  assumes inv: "server_inv_on hist {} sv" and size: "verify_minimum_size (rc_bytes rc)"
  shows "handled hist sip rc sv (handle_handshake_alpha sip (rc_random rc) (rc_bytes rc) (rc_addr rc) (rc_now_ms rc) sv)"
  using size
proof (cases rule: handle_handshake_alpha_cases [of _ sip "rc_random rc" "rc_addr rc" "rc_now_ms rc" sv])
  case Ignored
  with handled_ignored [OF inv] show ?thesis
    by simp
next
  case (Acked f)
  then have "length (rc_bytes rc) = 1472"
    by (auto simp: alpha_request_def verify_handshake_alpha_size_and_crc_def serial_consts SERVER_FRAME_SIZE_MAX_def
        split: if_splits)
  with Acked(2) inv show ?thesis
    by (simp add: handled_def table_step_def server_inv_send) (simp add: socket_send_def length_acks)
qed

lemma handshake_beta_handled:
  assumes inv: "server_inv_on hist {} sv" and size: "verify_minimum_size (rc_bytes rc)"
  shows "handled hist sip rc sv (handle_handshake_beta sip (rc_bytes rc) (rc_addr rc) (rc_now_ms rc) sv)"
  using size
proof (cases rule: handle_handshake_beta_cases [of _ sip "rc_addr rc" "rc_now_ms rc" sv])
  case Ignored
  with handled_ignored [OF inv] show ?thesis
    by simp
next
  case (Acked f)
  then have len: "length (rc_bytes rc) = 33"
    by (auto simp: beta_request_def verify_handshake_beta_size_and_crc_def serial_consts split: if_splits)
  from inv show ?thesis
  proof (cases rule: beta_error_cases [of _ _ "hb_client_params f" "rc_addr rc"])
    case (Same error)
    with Acked(2) inv len show ?thesis
      by (simp add: handled_def table_step_def server_inv_send) (simp add: socket_send_def length_acks)
  next
    case (Added p sv')
    then have "table_step sip rc sv (socket_send (beta_ack_bytes None (hb_client_nonce f)) (rc_addr rc) sv')"
      using Acked(1) by (auto simp: table_step_def socket_send_def)
    with Added Acked(2) len show ?thesis
      by (simp add: handled_def server_inv_send) (simp add: socket_send_def length_acks)
  qed
qed

lemma frame_other_handled:
  assumes inv: "server_inv_on hist {} sv" and rc: "received_ok rc" and size: "verify_minimum_size (rc_bytes rc)"
  shows "handled hist sip rc sv (server_handle_frame_other (rc_coins rc) (rc_now_ms rc) ft (rc_bytes rc) (rc_addr rc) sv)"
proof -
  obtain sv' where "server_handle_frame_other (rc_coins rc) (rc_now_ms rc) ft (rc_bytes rc) (rc_addr rc) sv = Some sv'"
      "server_inv_on hist {} sv'" "sv_peers sv' = sv_peers sv" "length (sv_store sv') = length (sv_store sv)"
      "map_of (sv_peers sv) (rc_addr rc) = None \<longrightarrow> sv' = sv"
    using inv_handle_frame_other [OF inv size, of "rc_coins rc" "rc_now_ms rc" ft "rc_addr rc"] rc
    by (auto simp: received_ok_def)
  with handle_frame_other_timer_queue [OF this(1)] show ?thesis
    by (auto simp: handled_def table_step_def)
qed

lemma server_handle_frame_step:
  assumes inv: "server_inv_on hist {} sv" and rc: "received_ok rc"
  shows "\<exists>sv'. server_handle_frame sip rc sv = Some sv' \<and> server_inv_on hist {} sv' \<and> table_step sip rc sv sv' \<and>
    (map_of (sv_peers sv) (rc_addr rc) = None \<longrightarrow> (\<exists>sent. sv_sent sv' = sv_sent sv @ sent \<and>
      sum_list (map (length \<circ> fst) sent) \<le> length (rc_bytes rc) \<and> snd ` set sent \<subseteq> {rc_addr rc}))"
proof -
  have "handled hist sip rc sv (server_handle_frame sip rc sv)"
  proof (cases "verify_minimum_size (rc_bytes rc)")
    case True
    obtain ft where ft: "read_type (rc_bytes rc) = Some ft"
      using frame_checks_total [OF True] by blast
    note parts = handled_ignored [OF inv] handshake_alpha_handled [OF inv True] handshake_beta_handled [OF inv True]
      frame_other_handled [OF inv rc True]
    show ?thesis
    proof (cases ft)
      case (Some a)
      with True ft parts show ?thesis
        by (cases a) (simp_all add: server_handle_frame_def)
    qed (use True ft parts(1) in \<open>simp add: server_handle_frame_def\<close>)
  qed (simp add: server_handle_frame_def handled_ignored [OF inv])
  then show ?thesis
    by (simp add: handled_def)
qed

section \<open>A new server\<close>

lemma server_core_inv: "ServerConfig_validate config = Some () \<Longrightarrow> server_inv_on [] {} (ServerCore_new key config)"
  by (simp add: ServerCore_new_def server_inv_on_def TimerQueue_default_def)

text \<open>A concrete hash, configuration and frame.\<close>

definition demo_sip :: SipHash where
  "demo_sip key ws = word_of_nat (length key + length ws)"

lemma demo_server_config: "ServerConfig_validate ServerConfig_default = Some ()"
  by (simp add: ServerConfig_validate_def ServerConfig_default_def PEER_COUNT_MAX_DEFAULT_def PEER_COUNT_MAX_MAX_def
      CONNECTION_TIMEOUT_DEFAULT_MS_def CONNECTION_TIMEOUT_MIN_MS_def ChannelBalanceConfig_validate_def
      ChannelBalanceConfig_default_def prio_Config_from_def prio_Config_new_def CHANNEL_COUNT_def WEIGHT_MAX_def
      BURST_SIZE_MAX_def DATA_SIZE_MAX_def Let_def)

definition demo_received :: "bytes \<Rightarrow> Received" where
  "demo_received bs = \<lparr>rc_bytes = bs, rc_addr = V4 [127, 0, 0, 1] 5000, rc_now_ms = 7, rc_random = 9, rc_coins = (\<lambda>_. True)\<rparr>"

section \<open>What a frame can do\<close>

text \<open>
  C18: no amplification: to an address without a peer the server never sends, in answer to a
  frame, more bytes than it received, and it sends them to no other address.
\<close>

theorem no_amplification:
  assumes inv: "server_inv_on es {} sv" and rc: "received_ok rc" and unknown: "map_of (sv_peers sv) (rc_addr rc) = None"
  shows "\<exists>sv' sent. server_handle_frame sip rc sv = Some sv' \<and> sv_sent sv' = sv_sent sv @ sent \<and>
    sum_list (map (length \<circ> fst) sent) \<le> length (rc_bytes rc) \<and> snd ` set sent \<subseteq> {rc_addr rc}"
  using server_handle_frame_step [OF inv rc, of sip] unknown by blast

theorem no_amplification_witness:
  "\<exists>sv' sent. server_handle_frame demo_sip (demo_received (replicate 33 2)) (ServerCore_new [1, 2] ServerConfig_default) = Some sv' \<and>
    sv_sent sv' = sent \<and> sum_list (map (length \<circ> fst) sent) \<le> 33"
  using no_amplification [OF server_core_inv [OF demo_server_config], of "demo_received (replicate 33 2)" "[1, 2]" demo_sip]
  by (simp add: ServerCore_new_def received_ok_def demo_received_def SERVER_FRAME_SIZE_MAX_def) blast

text \<open>
  C11: a frame allocates nothing, and leaves the table and the timers alone, unless it is a
  handshake request that proves its origin: it comes from the address for which this server
  computed the code over the nonces, no more than ten seconds ago.
\<close>

theorem admission_authenticated:
  assumes inv: "server_inv_on es {} sv" and rc: "received_ok rc" and r: "server_handle_frame sip rc sv = Some sv'"
  shows "sv_peers sv' = sv_peers sv \<and> length (sv_store sv') = length (sv_store sv) \<and>
      tq_queue (sv_timer_queue sv') = tq_queue (sv_timer_queue sv) \<or>
    (\<exists>f. (payload (rc_bytes rc) \<bind> SimplePayloadRead_read (Serial_read HANDSHAKE_BETA_SIZE HandshakeBetaFrame_read)) =
          Some (Some f) \<and>
       hb_server_mac f = mac_compute sip (sv_hasher sv) (rc_addr rc) (hb_client_nonce f) (hb_server_nonce f) (hb_server_timestamp f) \<and>
       ucast (rc_now_ms rc) - hb_server_timestamp f < HANDSHAKE_TIMEOUT_MS \<and> map_of (sv_peers sv) (rc_addr rc) = None \<and>
       sv_peers sv' = sv_peers sv @ [(rc_addr rc, length (sv_store sv))])"
  using server_handle_frame_step [OF inv rc, of sip] r unfolding table_step_def beta_request_def by auto

text \<open>An honest request is recognised.\<close>

definition beta_frame :: "HandshakeBetaFrame \<Rightarrow> bytes" where
  "beta_frame f = finished_frame (frame_type_bits HandshakeBeta # HandshakeBetaFrame_enc f)"

lemma beta_frame_parses:
  "length (beta_frame f) = 33" "verify_minimum_size (beta_frame f)" "read_type (beta_frame f) = Some (Some HandshakeBeta)"
  "verify_handshake_beta_size_and_crc (beta_frame f) = Some True"
  "(payload (beta_frame f) \<bind> SimplePayloadRead_read (Serial_read HANDSHAKE_BETA_SIZE HandshakeBetaFrame_read)) = Some (Some f)"
proof -
  show len: "length (beta_frame f) = 33"
    by (simp add: beta_frame_def HandshakeBetaFrame_enc_def)
  then show "verify_minimum_size (beta_frame f)"
    by (simp add: verify_minimum_size_def serial_consts)
  show "read_type (beta_frame f) = Some (Some HandshakeBeta)"
    by (simp add: beta_frame_def finished_frame_checks)
  show "verify_handshake_beta_size_and_crc (beta_frame f) = Some True"
    using len finished_frame_checks(1) [of "frame_type_bits HandshakeBeta # HandshakeBetaFrame_enc f"]
    by (simp add: verify_handshake_beta_size_and_crc_def serial_consts beta_frame_def)
  show "(payload (beta_frame f) \<bind> SimplePayloadRead_read (Serial_read HANDSHAKE_BETA_SIZE HandshakeBetaFrame_read)) = Some (Some f)"
    using handshake_beta.SimplePayloadRead_enc [of f "[]"] by (simp add: beta_frame_def finished_frame_checks)
qed

lemma server_handle_beta_frame:
  assumes "rc_bytes rc = beta_frame f"
    and "hb_server_mac f = mac_compute sip (sv_hasher sv) (rc_addr rc) (hb_client_nonce f) (hb_server_nonce f) (hb_server_timestamp f)"
    and "ucast (rc_now_ms rc) - hb_server_timestamp f < HANDSHAKE_TIMEOUT_MS"
  shows "server_handle_frame sip rc sv =
    map_option (\<lambda>(sv, error). socket_send (beta_ack_bytes error (hb_client_nonce f)) (rc_addr rc) sv)
      (beta_error (hb_client_params f) (rc_addr rc) sv)"
proof -
  have "beta_request sip (rc_now_ms rc) (rc_addr rc) (sv_hasher sv) (beta_frame f) g \<longleftrightarrow> g = f" for g
    using assms(2,3) beta_frame_parses(4,5) [of f] by (auto simp: beta_request_def)
  then have "handle_handshake_beta sip (beta_frame f) (rc_addr rc) (rc_now_ms rc) sv =
    map_option (\<lambda>(sv, error). socket_send (beta_ack_bytes error (hb_client_nonce f)) (rc_addr rc) sv)
      (beta_error (hb_client_params f) (rc_addr rc) sv)"
    using handle_handshake_beta_cases [OF beta_frame_parses(2) [of f], of sip "rc_addr rc" "rc_now_ms rc" sv] by auto
  then show ?thesis
    using beta_frame_parses(2,3) [of f] assms(1) by (simp add: server_handle_frame_def)
qed

definition demo_beta :: HandshakeBetaFrame where
  "demo_beta = \<lparr>hb_client_params = \<lparr>packet_size_in_max = 0xFFFFFFFF, packet_size_out_max = 1000\<rparr>,
     hb_client_nonce = 1, hb_server_nonce = 2, hb_server_timestamp = 3,
     hb_server_mac = mac_compute demo_sip \<lparr>hm_key = [1, 2]\<rparr> (V4 [127, 0, 0, 1] 5000) 1 2 3\<rparr>"

lemma demo_beta_admitted:
  defines "sv \<equiv> ServerCore_new [1, 2] ServerConfig_default"
  shows "received_ok (demo_received (beta_frame demo_beta))"
    "\<exists>sv'. server_handle_frame demo_sip (demo_received (beta_frame demo_beta)) sv = Some sv' \<and>
      sv_peers sv' = [(V4 [127, 0, 0, 1] 5000, 0)]"
proof -
  let ?rc = "demo_received (beta_frame demo_beta)" and ?addr = "V4 [127, 0, 0, 1] 5000"
  show "received_ok ?rc"
    by (simp add: received_ok_def demo_received_def SERVER_FRAME_SIZE_MAX_def beta_frame_parses)
  have sv: "sv_peers sv = []" "sv_store sv = []" "sv_hasher sv = \<lparr>hm_key = [1, 2]\<rparr>" "sv_config sv = ServerConfig_default"
    by (simp_all add: sv_def ServerCore_new_def)
  have eq: "server_handle_frame demo_sip ?rc sv =
      map_option (\<lambda>(sv, error). socket_send (beta_ack_bytes error 1) ?addr sv) (beta_error (hb_client_params demo_beta) ?addr sv)"
    using server_handle_beta_frame [of ?rc demo_beta demo_sip sv] sv(3)
    by (simp add: demo_received_def demo_beta_def HANDSHAKE_TIMEOUT_MS_def)
  obtain p where "add_peer ?addr sv = Some (sv\<lparr>sv_peers := sv_peers sv @ [(?addr, length (sv_store sv))],
      sv_timer_queue := add_timer (sv_timer_queue sv) (length (sv_store sv)),
      sv_store := sv_store sv @ [p], sv_events := sv_events sv @ [SvConnect (length (sv_store sv))]\<rparr>)"
    using add_peer_inv [OF server_core_inv [OF demo_server_config], of "[1, 2]" ?addr] sv unfolding sv_def [symmetric] by (auto simp: ServerConfig_default_def PEER_COUNT_MAX_DEFAULT_def)
  with eq sv show "\<exists>sv'. server_handle_frame demo_sip ?rc sv = Some sv' \<and> sv_peers sv' = [(?addr, 0)]"
    by (simp add: beta_error_def Let_def connection_params_compatible_def demo_beta_def ServerConfig_default_def
        PEER_COUNT_MAX_DEFAULT_def socket_send_def)
qed

theorem admission_authenticated_witness:
  "\<exists>sv'. server_handle_frame demo_sip (demo_received (beta_frame demo_beta)) (ServerCore_new [1, 2] ServerConfig_default) = Some sv' \<and>
    sv_peers sv' = [(V4 [127, 0, 0, 1] 5000, 0)]"
proof -
  obtain sv' where r: "server_handle_frame demo_sip (demo_received (beta_frame demo_beta))
      (ServerCore_new [1, 2] ServerConfig_default) = Some sv'" "sv_peers sv' \<noteq> []"
    using demo_beta_admitted by fastforce
  from admission_authenticated [OF server_core_inv [OF demo_server_config] demo_beta_admitted(1) r(1)] r show ?thesis
    by (auto simp: ServerCore_new_def demo_received_def)
qed

section \<open>The timers\<close>

text \<open>
  A step of the timers fires exactly those that are due among the first
  \<^verbatim>\<open>TIMER_TEST_LIMIT\<close> of the queue, each once, disarms them and no other, drops the dead
  peers it meets and moves the rest to the end of the queue.
\<close>

lemma timers_fired_exactly:
  assumes "server_inv_on es {} sv"
  shows "\<exists>sv'. step_timer_wheel held now sv = Some (sv',
      filter (\<lambda>pid. peer_alive held sv pid \<and> peer_timer_due now sv pid) (take TIMER_TEST_LIMIT (tq_queue (sv_timer_queue sv)))) \<and>
    tq_queue (sv_timer_queue sv') = drop TIMER_TEST_LIMIT (tq_queue (sv_timer_queue sv)) @
      filter (peer_alive held sv) (take TIMER_TEST_LIMIT (tq_queue (sv_timer_queue sv))) \<and>
    (\<forall>pid. peer_timer_due now sv' pid \<longleftrightarrow> peer_timer_due now sv pid \<and>
      \<not> (peer_alive held sv pid \<and> pid \<in> set (take TIMER_TEST_LIMIT (tq_queue (sv_timer_queue sv)))))"
proof -
  let ?q = "tq_queue (sv_timer_queue sv)"
  have "distinct ?q"
    using assms by (simp add: server_inv_on_def)
  from peer_timer.fires_due [OF this, of "peer_alive held sv" now TIMER_TEST_LIMIT sv] obtain sv1 where
      t: "timer_queue_test (peer_alive held sv) (peer_timer_test now) TIMER_TEST_LIMIT sv (sv_timer_queue sv) =
        Some (sv1, (sv_timer_queue sv)\<lparr>tq_queue := drop TIMER_TEST_LIMIT ?q @ filter (peer_alive held sv) (take TIMER_TEST_LIMIT ?q)\<rparr>,
          filter (\<lambda>t. peer_alive held sv t \<and> peer_timer_due now sv t) (take TIMER_TEST_LIMIT ?q))"
      and due: "\<forall>u. peer_timer_due now sv1 u \<longleftrightarrow>
        \<not> (peer_alive held sv u \<and> u \<in> set (take TIMER_TEST_LIMIT ?q)) \<and> peer_timer_due now sv u"
    by blast
  have "peer_timer_due now (sv1\<lparr>sv_timer_queue := tq\<rparr>) u = peer_timer_due now sv1 u" for tq u
    by (simp add: peer_timer_due_def)
  with t due show ?thesis
    by (auto simp: step_timer_wheel_def)
qed

end
