(* ===== verification/Server_Runs.thy ===== *)
theory Server_Runs
  imports Server_Props
begin

text \<open>
  Runs of a server object against an arbitrary network, clock and application: the socket
  answers as it likes, datagrams of any length and errors included. The invariant holds,
  nothing aborts; and the properties of the peer table, the events and the waiting calls.
\<close>

section \<open>What the reading loop handles\<close>

fun server_process :: "SipHash \<Rightarrow> Received list \<Rightarrow> Server \<Rightarrow> Server rust" where
  "server_process sip [] sv = Some sv"
| "server_process sip (rc # rcs) sv = server_handle_frame sip rc sv \<bind> server_process sip rcs"

fun receive_all :: "Epoch \<Rightarrow> nat \<Rightarrow> (nat \<Rightarrow> FrameEnv) \<Rightarrow> (bytes \<times> SocketAddr) list \<Rightarrow> Received list" where
  "receive_all epoch n env [] = []"
| "receive_all epoch n env (d # ds) = received epoch (env 0) (take n (fst d), snd d) # receive_all epoch n (env \<circ> Suc) ds"

abbreviation socket_room :: "SocketRx \<Rightarrow> nat" where
  "socket_room rx \<equiv> length (rxs_recv_buffer rx)"

lemma server_handle_frames_exact:
  "\<exists>rx'. socket_room rx' = socket_room rx \<and> server_handle_frames sip epoch env answers rx sv =
     map_option (Pair rx') (server_process sip (receive_all epoch (socket_room rx) env (datagrams answers)) sv)"
proof (induction "datagrams answers" arbitrary: env answers rx sv)
  case Nil
  with server_socket.read_step [of answers rx] obtain as' r where
      "try_read_frame answers rx = (as', rx, r)" "\<forall>f. r \<noteq> Inr (Some f)"
    by auto
  with Nil show ?case
    by (intro exI [of _ rx]) (auto simp: server_handle_frames.simps [of sip epoch env answers rx sv] split: sum.splits option.splits)
next
  case (Cons d ds)
  then have eq: "datagrams answers = d # ds"
    by simp
  from server_socket.read_step [of answers rx, unfolded eq] obtain as' rx' where
      r: "try_read_frame answers rx = (as', rx', Inr (Some (take (socket_room rx) (fst d), snd d)))"
        "socket_room rx' = socket_room rx" "datagrams as' = ds"
    by (cases d) auto
  let ?rc = "received epoch (env 0) (take (socket_room rx) (fst d), snd d)"
  have step: "server_handle_frames sip epoch env answers rx sv =
      server_handle_frame sip ?rc sv \<bind> server_handle_frames sip epoch (env \<circ> Suc) as' rx'"
    by (simp add: server_handle_frames.simps [of sip epoch env answers rx sv] r(1))
  show ?case
  proof (cases "server_handle_frame sip ?rc sv")
    case None
    with step show ?thesis
      by (auto simp: eq)
  next
    case (Some sv1)
    with step Cons(1) [OF r(3) [symmetric], of rx' "env \<circ> Suc" sv1] r(2,3) show ?thesis
      by (auto simp: eq)
  qed
qed

lemma server_handle_frames_wait_exact:
  "\<exists>rx'. socket_room rx' = socket_room rx \<and> server_handle_frames_wait sip epoch env poll answers rx sv =
     map_option (Pair rx') (server_process sip (receive_all epoch (socket_room rx) env
       (if \<exists>n > 0. io_bind (po_modify poll) (\<lambda>_. po_wait poll) = Inr n then datagrams answers else [])) sv)"
proof (cases "\<exists>n > 0. io_bind (po_modify poll) (\<lambda>_. po_wait poll) = Inr n")
  case True
  then have "server_handle_frames_wait sip epoch env poll answers rx sv = server_handle_frames sip epoch env answers rx sv"
    by (auto simp: server_handle_frames_wait_def wait_for_frame_def server_handle_frames.simps [of sip epoch env answers rx sv])
  with True server_handle_frames_exact [of rx sip epoch env answers sv] show ?thesis
    by simp
next
  case False
  then have "server_handle_frames_wait sip epoch env poll answers rx sv = Some (rx, sv)"
    by (cases "io_bind (po_modify poll) (\<lambda>_. po_wait poll)")
      (auto simp: server_handle_frames_wait_def wait_for_frame_def simp del: io_bind_Inr)
  with False show ?thesis
    by (intro exI [of _ rx]) (simp only: if_False receive_all.simps server_process.simps option.map simp_thms)
qed

section \<open>The invariant of the server object\<close>

definition server_obj_inv :: "ServerEvent list \<Rightarrow> ServerObj \<Rightarrow> bool" where
  "server_obj_inv hist so \<longleftrightarrow>
     server_inv_on hist {} (so_core so) \<and> socket_room (so_socket_rx so) = SERVER_FRAME_SIZE_MAX"

lemma inv_server_process:
  "server_inv_on hist {} sv \<Longrightarrow> \<forall>rc \<in> set rcs. received_ok rc \<Longrightarrow>
     \<exists>sv'. server_process sip rcs sv = Some sv' \<and> server_inv_on hist {} sv'"
proof (induction rcs arbitrary: sv)
  case (Cons rc rcs)
  have "received_ok rc"
    using Cons.prems(2) by simp
  from server_handle_frame_step [OF Cons.prems(1) this] obtain sv1 where
      "server_handle_frame sip rc sv = Some sv1" "server_inv_on hist {} sv1"
    by blast
  with Cons.IH [of sv1] Cons.prems(2) show ?case
    by simp
qed simp

lemma received_all_fit: "\<forall>rc \<in> set (receive_all epoch SERVER_FRAME_SIZE_MAX env ds). received_ok rc"
  by (induction ds arbitrary: env) (simp_all add: received_ok_def received_def)

lemma inv_server_round:
  assumes "server_obj_inv hist so"
  shows "\<exists>so'. server_round sip wait r so = Some so' \<and> server_obj_inv hist so'"
proof -
  have inv: "server_inv_on hist {} (so_core so)" and room: "socket_room (so_socket_rx so) = SERVER_FRAME_SIZE_MAX"
    using assms by (simp_all add: server_obj_inv_def)
  obtain rx' ds where f: "socket_room rx' = SERVER_FRAME_SIZE_MAX"
      "(if wait then server_handle_frames_wait sip (so_epoch so) (rd_env r) (rd_poll r) (rd_answers r) (so_socket_rx so) (so_core so)
        else server_handle_frames sip (so_epoch so) (rd_env r) (rd_answers r) (so_socket_rx so) (so_core so)) =
       map_option (Pair rx') (server_process sip (receive_all (so_epoch so) SERVER_FRAME_SIZE_MAX (rd_env r) ds) (so_core so))"
    using server_handle_frames_exact [of "so_socket_rx so" sip "so_epoch so" "rd_env r" "rd_answers r" "so_core so"]
      server_handle_frames_wait_exact [of "so_socket_rx so" sip "so_epoch so" "rd_env r" "rd_poll r" "rd_answers r" "so_core so"] room
    by (cases wait) auto
  obtain sv1 where sv1: "server_process sip (receive_all (so_epoch so) SERVER_FRAME_SIZE_MAX (rd_env r) ds) (so_core so) = Some sv1"
      "server_inv_on hist {} sv1"
    using inv_server_process [OF inv received_all_fit] by blast
  from inv_handle_timeouts [OF sv1(2), of "round_ticks (so_epoch so) r"] obtain sv2 where
      "handle_timeouts (round_ticks (so_epoch so) r) sv1 = Some sv2" "server_inv_on hist {} sv2"
    by blast
  with f sv1(1) show ?thesis
    by (auto simp: server_round_def server_obj_inv_def simp del: if_split)
qed

lemma inv_pop_event:
  assumes "server_inv_on hist {} sv" and "pop_event sv = (sv', e)"
  shows "server_inv_on (hist @ (case e of Some e \<Rightarrow> [e] | None \<Rightarrow> [])) {} sv'"
proof (cases "sv_events sv")
  case Nil
  with assms show ?thesis
    by (simp add: pop_event_def)
next
  case (Cons x xs)
  then have sv': "sv' = sv\<lparr>sv_events := xs\<rparr>" "e = Some x"
    using assms(2) by (simp_all add: pop_event_def)
  have fields: "sv_config sv' = sv_config sv" "sv_store sv' = sv_store sv" "sv_peers sv' = sv_peers sv"
      "sv_timer_queue sv' = sv_timer_queue sv" "(hist @ [x]) @ sv_events sv' = hist @ sv_events sv"
    using sv' Cons by simp_all
  have "server_inv_on (hist @ [x]) {} sv'"
    using assms(1) unfolding server_inv_on_def fields .
  with sv'(2) show ?thesis
    by simp
qed

lemma inv_server_pop_event:
  assumes "server_obj_inv hist so" and "server_pop_event so = (so', e)"
  shows "server_obj_inv (hist @ (case e of Some e \<Rightarrow> [e] | None \<Rightarrow> [])) so'"
  using assms inv_pop_event [of hist "so_core so"]
  by (cases "pop_event (so_core so)") (auto simp: server_obj_inv_def server_pop_event_def)

lemma inv_poll_event:
  assumes inv: "server_obj_inv hist so"
  shows "\<exists>so' e. poll_event sip r so = Some (so', e) \<and> server_obj_inv (hist @ (case e of Some e \<Rightarrow> [e] | None \<Rightarrow> [])) so'"
proof -
  obtain so1 where "(if sv_events (so_core so) = [] then server_round sip False r so else Some so) = Some so1" "server_obj_inv hist so1"
    using inv_server_round [OF inv, of sip False r] inv by (cases "sv_events (so_core so) = []") auto
  then show ?thesis
    using inv_server_pop_event [of hist so1] by (cases "server_pop_event so1") (simp add: poll_event_def)
qed

lemma inv_wait_event:
  "server_obj_inv hist so \<Longrightarrow> \<exists>so' e. wait_event fuel sip world k so = Some (so', e) \<and>
     server_obj_inv (hist @ (case e of Some e \<Rightarrow> [e] | None \<Rightarrow> [])) so'"
proof (induction fuel arbitrary: k so)
  case (Suc fuel)
  obtain so1 where r: "server_round sip True (world k (next_timer_timeout (so_core so))) so = Some so1" "server_obj_inv hist so1"
    using inv_server_round [OF Suc.prems] by blast
  obtain so2 e where p: "server_pop_event so1 = (so2, e)"
    by fastforce
  with inv_server_pop_event [OF r(2) p] Suc.IH [of so2 "Suc k"] r(1) show ?case
    by (cases e) simp_all
qed simp

section \<open>Runs\<close>

text \<open>
  What can happen to a server: a poll, a wait, and the calls on the handles of its peers. A
  call on a reference that is not a peer cannot be made.
\<close>

datatype ServerInput =
    InPoll Round
  | InWait nat "nat \<Rightarrow> nat option \<Rightarrow> Round"
  | InEnqueue PeerRef bytes SendMode Instant
  | InFlush PeerRef "nat \<Rightarrow> bool" Instant
  | InSend PeerRef bytes SendMode "nat \<Rightarrow> bool" Instant
  | InDisconnect PeerRef Instant
  | InSetData PeerRef "nat option"

definition on_peer :: "PeerRef \<Rightarrow> (Server \<Rightarrow> Server rust) \<Rightarrow> Server \<Rightarrow> Server rust" where
  "on_peer pid op sv = (if pid < length (sv_store sv) then op sv else Some sv)"

definition on_core :: "(Server \<Rightarrow> Server rust) \<Rightarrow> ServerObj \<Rightarrow> (ServerObj \<times> ServerEvent list) rust" where
  "on_core op so = map_option (\<lambda>core. (so\<lparr>so_core := core\<rparr>, [])) (op (so_core so))"

definition event_list :: "(ServerObj \<times> ServerEvent option) rust \<Rightarrow> (ServerObj \<times> ServerEvent list) rust" where
  "event_list r = map_option (\<lambda>(so, e). (so, case e of Some e \<Rightarrow> [e] | None \<Rightarrow> [])) r"

fun server_step :: "SipHash \<Rightarrow> ServerInput \<Rightarrow> ServerObj \<Rightarrow> (ServerObj \<times> ServerEvent list) rust" where
  "server_step sip (InPoll r) so = event_list (poll_event sip r so)"
| "server_step sip (InWait fuel world) so = event_list (wait_event fuel sip world 0 so)"
| "server_step sip (InEnqueue pid bs mode now) so =
     on_core (on_peer pid (\<lambda>sv. Some (handle_enqueue (time_now_ms (so_epoch so) now) pid bs mode sv))) so"
| "server_step sip (InFlush pid coins now) so = on_core (on_peer pid (handle_flush coins (time_now_ms (so_epoch so) now) pid)) so"
| "server_step sip (InSend pid bs mode coins now) so =
     on_core (on_peer pid (handle_send coins (time_now_ms (so_epoch so) now) pid bs mode)) so"
| "server_step sip (InDisconnect pid now) so = on_core (on_peer pid (handle_disconnect (time_now_ms (so_epoch so) now) pid)) so"
| "server_step sip (InSetData pid data) so = on_core (on_peer pid (\<lambda>sv. Some (handle_set_data pid data sv))) so"

fun server_run :: "SipHash \<Rightarrow> ServerInput list \<Rightarrow> ServerObj \<Rightarrow> (ServerObj \<times> ServerEvent list) rust" where
  "server_run sip [] so = Some (so, [])"
| "server_run sip (i # is) so = do {
     (so, es) \<leftarrow> server_step sip i so;
     (so, es') \<leftarrow> server_run sip is so;
     Some (so, es @ es') }"

definition server_start ::
    "SipHash \<Rightarrow> SocketOs \<Rightarrow> Instant \<Rightarrow> bytes \<Rightarrow> ServerConfig \<Rightarrow> ServerInput list \<Rightarrow>
      (ServerObj \<times> ServerEvent list) io_result rust" where
  "server_start sip os now key config is = do {
     r \<leftarrow> Server_bind_with_config os now key config;
     case r of
       Inl err \<Rightarrow> Some (Inl err)
     | Inr so \<Rightarrow> map_option Inr (server_run sip is so) }"

lemma on_peer_call:
  assumes inv: "server_inv_on hist {} sv" and op: "\<And>sv. op sv = peer_call pid c sv" and c: "call_fits c" "fst c \<noteq> CallTimer"
  shows "\<exists>sv'. on_peer pid op sv = Some sv' \<and> server_inv_on hist {} sv'"
proof (cases "pid < length (sv_store sv)")
  case True
  from inv_peer_call [OF inv True _ c] True show ?thesis
    by (auto simp: on_peer_def op)
qed (use inv in \<open>simp add: on_peer_def\<close>)

lemma on_peer_send:
  assumes inv: "server_inv_on hist {} sv"
  shows "\<exists>sv'. on_peer pid (handle_send coins now pid bs mode) sv = Some sv' \<and> server_inv_on hist {} sv'"
proof (cases "pid < length (sv_store sv)")
  case True
  obtain sv1 where e: "peer_call pid (CallEnqueue bs mode, now, coins) sv = Some sv1" "server_inv_on hist {} sv1"
      "length (sv_store sv1) = length (sv_store sv)"
    using inv_peer_call [OF inv True, of "(CallEnqueue bs mode, now, coins)"] by auto
  then have "sv1 = handle_enqueue now pid bs mode sv"
    using peer_calls(4) [of now pid bs mode sv coins] by simp
  with e(2,3) True inv_peer_call [OF e(2), of pid "(CallFlush, now, coins)"] show ?thesis
    by (auto simp: on_peer_def handle_send_calls peer_calls)
qed (use inv in \<open>simp add: on_peer_def\<close>)

lemma on_peer_data:
  assumes inv: "server_inv_on hist {} sv"
  shows "\<exists>sv'. on_peer pid (\<lambda>sv. Some (handle_set_data pid data sv)) sv = Some sv' \<and> server_inv_on hist {} sv'"
proof (cases "pid < length (sv_store sv)")
  case True
  let ?p = "(sv_store sv ! pid)\<lparr>pe_data := data\<rparr>"
  have wf: "peer_wf (pid \<in> {}) ?p"
    using inv True by (auto simp: server_inv_on_def peer_wf_def pe_state_def)
  have "server_inv_on hist {} (sv\<lparr>sv_store := (sv_store sv)[pid := ?p], sv_events := sv_events sv @ peer_events pid [],
      sv_sent := sv_sent sv, sv_peers := sv_peers sv\<rparr>)"
    by (rule inv_update [OF inv True wf]) (auto simp: pe_state_def)
  with True show ?thesis
    by (simp add: on_peer_def handle_set_data_def update_peer_def)
qed (use inv in \<open>simp add: on_peer_def\<close>)

lemma on_core_inv:
  assumes "server_obj_inv hist so" and "\<exists>sv'. op (so_core so) = Some sv' \<and> server_inv_on hist {} sv'"
  shows "\<exists>so' es. on_core op so = Some (so', es) \<and> server_obj_inv (hist @ es) so'"
  using assms by (auto simp: on_core_def server_obj_inv_def)

lemma inv_server_step:
  assumes inv: "server_obj_inv hist so"
  shows "\<exists>so' es. server_step sip i so = Some (so', es) \<and> server_obj_inv (hist @ es) so'"
proof (cases i)
  case (InPoll r)
  with inv_poll_event [OF inv, of sip r] show ?thesis
    by (auto simp: event_list_def)
next
  case (InWait fuel world)
  with inv_wait_event [OF inv, of fuel sip world 0] show ?thesis
    by (auto simp: event_list_def)
next
  case (InEnqueue pid bs mode now)
  let ?now = "time_now_ms (so_epoch so) now"
  from InEnqueue on_core_inv [OF inv, of "on_peer pid (\<lambda>sv. Some (handle_enqueue ?now pid bs mode sv))"]
    on_peer_call [of hist "so_core so" "\<lambda>sv. Some (handle_enqueue ?now pid bs mode sv)" pid "(CallEnqueue bs mode, ?now, \<lambda>_. True)"] inv
  show ?thesis
    by (auto simp: peer_calls server_obj_inv_def)
next
  case (InFlush pid coins now)
  let ?now = "time_now_ms (so_epoch so) now"
  from InFlush on_core_inv [OF inv, of "on_peer pid (handle_flush coins ?now pid)"]
    on_peer_call [of hist "so_core so" "handle_flush coins ?now pid" pid "(CallFlush, ?now, coins)"] inv
  show ?thesis
    by (auto simp: peer_calls server_obj_inv_def)
next
  case (InSend pid bs mode coins now)
  let ?now = "time_now_ms (so_epoch so) now"
  from InSend on_core_inv [OF inv, of "on_peer pid (handle_send coins ?now pid bs mode)"]
    on_peer_send [of hist "so_core so" pid coins ?now bs mode] inv
  show ?thesis
    by (auto simp: server_obj_inv_def)
next
  case (InDisconnect pid now)
  let ?now = "time_now_ms (so_epoch so) now"
  from InDisconnect on_core_inv [OF inv, of "on_peer pid (handle_disconnect ?now pid)"]
    on_peer_call [of hist "so_core so" "handle_disconnect ?now pid" pid "(CallDisconnect, ?now, \<lambda>_. True)"] inv
  show ?thesis
    by (auto simp: peer_calls server_obj_inv_def)
next
  case (InSetData pid data)
  with on_core_inv [OF inv, of "on_peer pid (\<lambda>sv. Some (handle_set_data pid data sv))"]
    on_peer_data [of hist "so_core so" pid data] inv
  show ?thesis
    by (auto simp: server_obj_inv_def)
qed

lemma inv_server_run:
  "server_obj_inv hist so \<Longrightarrow> \<exists>so' es. server_run sip is so = Some (so', es) \<and> server_obj_inv (hist @ es) so'"
proof (induction "is" arbitrary: so hist)
  case (Cons i "is")
  obtain so1 es where s: "server_step sip i so = Some (so1, es)" "server_obj_inv (hist @ es) so1"
    using inv_server_step [OF Cons.prems] by blast
  obtain so2 es' where "server_run sip is so1 = Some (so2, es')" "server_obj_inv ((hist @ es) @ es') so2"
    using Cons.IH [OF s(2)] by blast
  with s(1) show ?case
    by simp
qed simp

lemma server_start_inv:
  assumes "ServerConfig_validate config = Some ()" and "socket_new os SERVER_FRAME_SIZE_MAX = Inr rx"
  shows "\<exists>so es. server_start sip os now key config is = Some (Inr (so, es)) \<and> server_obj_inv es so"
proof -
  let ?so = "\<lparr>so_core = ServerCore_new key config, so_epoch = Epoch_new now, so_socket_rx = rx\<rparr>"
  have "socket_room rx = SERVER_FRAME_SIZE_MAX"
    using assms(2) by (auto simp: socket_new_def)
  then have "server_obj_inv [] ?so"
    using server_core_inv [OF assms(1)] by (simp add: server_obj_inv_def)
  from inv_server_run [OF this, of sip "is"] assms show ?thesis
    by (auto simp: server_start_def Server_bind_with_config_def)
qed

text \<open>A run with junk, an oversized datagram, a failing read and a forged request.\<close>

definition demo_round :: "(bytes \<times> SocketAddr) io_result list \<Rightarrow> Round" where
  "demo_round answers = \<lparr>rd_answers = answers, rd_poll = \<lparr>po_modify = Inr (), po_wait = Inr 1\<rparr>,
     rd_env = (\<lambda>k. \<lparr>fe_now = 7000000, fe_random = 9, fe_coins = (\<lambda>_. True)\<rparr>), rd_now = 8000000, rd_clock = (\<lambda>_. 8000000),
     rd_coins = (\<lambda>_ _. False), rd_held = (\<lambda>_. False)\<rparr>"

definition demo_inputs :: "ServerInput list" where
  "demo_inputs =
     [InPoll (demo_round [Inr ([1, 2, 3], V4 [10, 0, 0, 1] 5000), Inr (replicate 33 2, V4 [10, 0, 0, 1] 5000),
        Inr (replicate 9000 0, V4 [10, 0, 0, 2] 5000), Inl (OtherError 104)]),
      InSend 0 [1, 2] SendReliable (\<lambda>_. True) 9000000, InDisconnect 0 10000000, InWait 3 (\<lambda>_ _. demo_round [])]"

section \<open>Safety\<close>

text \<open>
  C4: a server with a valid configuration is type safe: the errors of creating its socket go
  to the caller; otherwise, whatever the socket answers (datagrams of any length from any
  address, errors) and whatever the application calls, it never aborts, and its invariant
  holds after every run: every endpoint and timer is in order, references stay within the store.
\<close>

theorem server_type_safe:
  assumes "ServerConfig_validate config = Some ()"
  shows "case socket_new os SERVER_FRAME_SIZE_MAX of
      Inl err \<Rightarrow> server_start sip os now key config is = Some (Inl err)
    | Inr rx \<Rightarrow> \<exists>so es. server_start sip os now key config is = Some (Inr (so, es)) \<and> server_obj_inv es so"
proof (cases "socket_new os SERVER_FRAME_SIZE_MAX")
  case (Inl err)
  with assms show ?thesis
    by (simp add: server_start_def Server_bind_with_config_def)
next
  case (Inr rx)
  with server_start_inv [OF assms Inr] show ?thesis
    by simp
qed

theorem server_type_safe_witness:
  "\<exists>so es. server_start demo_sip demo_os 0 [1, 2] ServerConfig_default demo_inputs = Some (Inr (so, es)) \<and> server_obj_inv es so"
  using server_type_safe [OF demo_server_config, of demo_sip demo_os 0 "[1, 2]" demo_inputs] by (simp add: demo_os_ok)

text \<open>
  C12: the peer table stays within the configured size, has one entry for an address, and holds
  exactly the peers that are still alive: an entry is removed with its own peer and never
  with an older connection of the same address. No peer of the table is lost to the timer queue.
\<close>

theorem peer_table_exact:
  assumes "ServerConfig_validate config = Some ()" and "socket_new os SERVER_FRAME_SIZE_MAX = Inr rx"
  shows "\<exists>so es sv. server_start sip os now key config is = Some (Inr (so, es)) \<and> sv = so_core so \<and>
    peer_count sv \<le> svc_peer_count_max (sv_config sv) \<and> distinct (map fst (sv_peers sv)) \<and>
    (\<forall>pid < length (sv_store sv). pid \<in> snd ` set (sv_peers sv) \<longleftrightarrow> pe_state (sv_store sv ! pid) \<noteq> Zombie) \<and>
    (\<forall>(a, pid) \<in> set (sv_peers sv). pe_addr (sv_store sv ! pid) = a \<and> pid \<in> set (tq_queue (sv_timer_queue sv)))"
proof -
  obtain so es where run: "server_start sip os now key config is = Some (Inr (so, es))" "server_inv_on es {} (so_core so)"
    using server_start_inv [OF assms] unfolding server_obj_inv_def by blast
  have "\<forall>(a, pid) \<in> set (sv_peers (so_core so)).
      pe_addr (sv_store (so_core so) ! pid) = a \<and> pid \<in> set (tq_queue (sv_timer_queue (so_core so)))"
    using run(2) by (force simp: server_inv_on_def)
  with run show ?thesis
    by (intro exI [of _ so] exI [of _ es] exI [of _ "so_core so"]) (simp add: server_inv_on_def peer_count_def)
qed

theorem peer_table_exact_witness:
  "\<exists>so es. server_start demo_sip demo_os 0 [1, 2] ServerConfig_default demo_inputs = Some (Inr (so, es)) \<and>
    peer_count (so_core so) \<le> svc_peer_count_max (sv_config (so_core so)) \<and> distinct (map fst (sv_peers (so_core so)))"
  using peer_table_exact [OF demo_server_config demo_os_ok(1), of demo_sip 0 "[1, 2]" demo_inputs] by blast

lemma inv_events_shape:
  assumes "server_inv_on es {} sv"
  shows "\<forall>pid < length (sv_store sv). \<exists>ps fin.
    filter (\<lambda>e. event_peer e = pid) (es @ sv_events sv) = SvConnect pid # map (SvReceive pid) ps @ fin \<and>
    fin \<in> {[], [SvDisconnect pid], [SvError pid Timeout]} \<and> (fin = [] \<longleftrightarrow> conn_open (pe_state (sv_store sv ! pid)))"
proof (intro allI impI)
  fix pid
  assume pid: "pid < length (sv_store sv)"
  show "\<exists>ps fin. filter (\<lambda>e. event_peer e = pid) (es @ sv_events sv) = SvConnect pid # map (SvReceive pid) ps @ fin \<and>
    fin \<in> {[], [SvDisconnect pid], [SvError pid Timeout]} \<and> (fin = [] \<longleftrightarrow> conn_open (pe_state (sv_store sv ! pid)))"
  proof -
    obtain xs where xs: "filter (\<lambda>e. event_peer e = pid) (es @ sv_events sv) = peer_events pid (OnConnect # xs)"
        "conn_steps Active xs (pe_state (sv_store sv ! pid))"
    proof -
      have "peer_history pid (es @ sv_events sv) (pe_state (sv_store sv ! pid))"
        using assms pid by (simp add: server_inv_on_def)
      then show thesis
        using that unfolding peer_history_def by blast
    qed
    obtain ps fin where "xs = map OnReceive ps @ fin" "fin = [] \<or> fin = [OnDisconnect] \<or> fin = [OnTimeout]"
        "(fin = []) = conn_open (pe_state (sv_store sv ! pid))"
      using conn_steps_shape [OF xs(2)] by (auto simp: conn_open_def)
    moreover from this(2) have "peer_events pid fin \<in> {[], [SvDisconnect pid], [SvError pid Timeout]}"
        "peer_events pid fin = [] \<longleftrightarrow> fin = []"
      by auto
    ultimately show ?thesis
      using xs(1) by (intro exI [of _ ps] exI [of _ "peer_events pid fin"]) simp
  qed
qed

text \<open>
  C15: of each peer the application sees, over all polls, one connect event, then packets, then
  at most one end, a disconnection or a timeout, and nothing after it; the end has been
  queued exactly when the peer is neither active nor closing.
\<close>

theorem peer_event_order:
  assumes "ServerConfig_validate config = Some ()" and "socket_new os SERVER_FRAME_SIZE_MAX = Inr rx"
  shows "\<exists>so es sv. server_start sip os now key config is = Some (Inr (so, es)) \<and> sv = so_core so \<and>
    (\<forall>pid < length (sv_store sv). \<exists>ps fin.
       filter (\<lambda>e. event_peer e = pid) (es @ sv_events sv) = SvConnect pid # map (SvReceive pid) ps @ fin \<and>
       fin \<in> {[], [SvDisconnect pid], [SvError pid Timeout]} \<and> (fin = [] \<longleftrightarrow> conn_open (pe_state (sv_store sv ! pid))))"
proof -
  obtain so es where run: "server_start sip os now key config is = Some (Inr (so, es))" "server_inv_on es {} (so_core so)"
    using server_start_inv [OF assms] unfolding server_obj_inv_def by blast
  from run(1) inv_events_shape [OF run(2)] show ?thesis
    by blast
qed

theorem peer_event_order_witness:
  "\<exists>so es. server_start demo_sip demo_os 0 [1, 2] ServerConfig_default demo_inputs = Some (Inr (so, es))"
  using peer_event_order [OF demo_server_config demo_os_ok(1), of demo_sip 0 "[1, 2]" demo_inputs] by blast

section \<open>Waiting\<close>

lemma wait_timeout_loop_returns:
  "server_obj_inv es so \<Longrightarrow> remaining \<le> sum elapsed {k..<k + fuel} \<Longrightarrow> 0 < fuel \<Longrightarrow>
     \<exists>so'. wait_timeout_loop fuel sip world elapsed k remaining so = Some (Some so') \<and> server_obj_inv es so'"
proof (induction fuel arbitrary: k remaining so)
  case (Suc fuel)
  let ?wait = "case next_timer_timeout (so_core so) of Some t \<Rightarrow> min remaining t | None \<Rightarrow> remaining"
  from inv_server_round [OF Suc.prems(1), of sip True] obtain so1 where
      r: "server_round sip True (world k (Some ?wait)) so = Some so1" "server_obj_inv es so1"
    by blast
  show ?case
  proof (cases "sv_events (so_core so1) = [] \<and> elapsed k < remaining")
    case True
    then have "remaining - elapsed k \<le> sum elapsed {Suc k..<Suc k + fuel}" "0 < fuel"
      using time_left [OF Suc.prems(2)] by simp_all
    from Suc.IH [OF r(2) this] True r(1) show ?thesis
      by simp
  next
    case False
    with r show ?thesis
      by (auto simp: not_less)
  qed
qed simp

text \<open>Waiting with a timeout returns once the rounds have lasted that long, and leaves the server in order.\<close>

lemma server_wait_timeout:
  assumes inv: "server_obj_inv es so" and enough: "timeout \<le> sum elapsed {..<fuel}" "0 < fuel"
  shows "\<exists>so' event. wait_event_timeout fuel sip world elapsed timeout so = Some (Some (so', event)) \<and>
    server_obj_inv (es @ (case event of Some e \<Rightarrow> [e] | None \<Rightarrow> [])) so'"
proof -
  have "timeout \<le> sum elapsed {0..<0 + fuel}"
    using enough(1) by (simp add: atLeast0LessThan)
  from wait_timeout_loop_returns [OF inv this enough(2), of sip world] obtain so1 where
      so1: "(if sv_events (so_core so) = [] then wait_timeout_loop fuel sip world elapsed 0 timeout so else Some (Some so)) = Some (Some so1)"
        "server_obj_inv es so1"
    using inv by (cases "sv_events (so_core so) = []") auto
  obtain so' e where p: "server_pop_event so1 = (so', e)"
    by fastforce
  with inv_server_pop_event [OF so1(2) p] so1(1) show ?thesis
    by (auto simp: wait_event_timeout_def split: if_splits)
qed

text \<open>
  C38: waiting for an event with a timeout terminates: as soon as the rounds have lasted the
  timeout together, the call has returned, with an event or without, and with the server in order.
\<close>

theorem wait_event_timeout_returns:
  assumes inv: "server_obj_inv es so" and enough: "timeout \<le> sum elapsed {..<fuel}" "0 < fuel"
  shows "\<exists>so' event. wait_event_timeout fuel sip world elapsed timeout so = Some (Some (so', event)) \<and>
    server_obj_inv (es @ (case event of Some e \<Rightarrow> [e] | None \<Rightarrow> [])) so'"
  using server_wait_timeout [OF assms] .

theorem wait_event_timeout_returns_witness:
  "\<exists>so so' event. Server_bind demo_os 0 [1, 2] = Some (Inr so) \<and>
    wait_event_timeout 3 demo_sip (\<lambda>k w. demo_round [Inr ([1, 2, 3], V4 [10, 0, 0, 1] 5000)]) (\<lambda>k. 100) 250 so = Some (Some (so', event))"
proof -
  obtain so where so: "server_start demo_sip demo_os 0 [1, 2] ServerConfig_default [] = Some (Inr (so, []))" "server_obj_inv [] so"
    using server_start_inv [OF demo_server_config demo_os_ok(1), of demo_sip 0 "[1, 2]" "[]"]
    by (auto simp: server_start_def Server_bind_with_config_def demo_server_config demo_os_ok)
  then have "Server_bind demo_os 0 [1, 2] = Some (Inr so)"
    by (auto simp: server_start_def Server_bind_def Server_bind_with_config_def demo_server_config demo_os_ok)
  with wait_event_timeout_returns [OF so(2), of 250 "\<lambda>k. 100" 3 demo_sip "\<lambda>k w. demo_round [Inr ([1, 2, 3], V4 [10, 0, 0, 1] 5000)]"]
  show ?thesis
    by auto
qed

end
