(* ===== verification/Server_Side.thy ===== *)
theory Server_Side
  imports Client_Side Server_Runs
begin

text \<open>
  A server as the other side of the connection with one address: what it does for its other
  peers does not matter, and what it does for the peer at that address are calls on its endpoint.
\<close>

section \<open>Operations\<close>

text \<open>What a server does in one piece: it handles a frame or the timers, is called, or hands out an event.\<close>

datatype ServerOp =
    SoFrame Received
  | SoTimeouts Ticks
  | SoEnqueue PeerRef u64 bytes SendMode
  | SoSend PeerRef "nat \<Rightarrow> bool" u64 bytes SendMode
  | SoFlush PeerRef "nat \<Rightarrow> bool" u64
  | SoDisconnect PeerRef u64
  | SoSetData PeerRef "nat option"
  | SoPop

fun server_op :: "SipHash \<Rightarrow> ServerOp \<Rightarrow> Server \<Rightarrow> (Server \<times> ServerEvent list) rust" where
  "server_op sip (SoFrame rc) sv = no_events (server_handle_frame sip rc sv)"
| "server_op sip (SoTimeouts tk) sv = no_events (handle_timeouts tk sv)"
| "server_op sip (SoEnqueue pid now p mode) sv = no_events (on_peer pid (\<lambda>sv. Some (handle_enqueue now pid p mode sv)) sv)"
| "server_op sip (SoSend pid coins now p mode) sv = no_events (on_peer pid (handle_send coins now pid p mode) sv)"
| "server_op sip (SoFlush pid coins now) sv = no_events (on_peer pid (handle_flush coins now pid) sv)"
| "server_op sip (SoDisconnect pid now) sv = no_events (on_peer pid (handle_disconnect now pid) sv)"
| "server_op sip (SoSetData pid data) sv = no_events (on_peer pid (\<lambda>sv. Some (handle_set_data pid data sv)) sv)"
| "server_op sip SoPop sv = Some (case pop_event sv of (sv, e) \<Rightarrow> (sv, case e of Some e \<Rightarrow> [e] | None \<Rightarrow> []))"

lemma inv_server_op:
  assumes inv: "server_inv_on hist {} sv" and fits: "\<And>rc. op = SoFrame rc \<Longrightarrow> received_ok rc"
  shows "\<exists>sv' es. server_op sip op sv = Some (sv', es) \<and> server_inv_on (hist @ es) {} sv'"
proof (cases op)
  case (SoFrame rc)
  with server_handle_frame_step [OF inv fits, of rc sip] show ?thesis
    by auto
next
  case (SoTimeouts tk)
  with inv_handle_timeouts [OF inv, of tk] show ?thesis
    by auto
next
  case (SoEnqueue pid now p mode)
  with on_peer_call [OF inv, of "\<lambda>sv. Some (handle_enqueue now pid p mode sv)" pid "(CallEnqueue p mode, now, \<lambda>_. True)"] show ?thesis
    by (auto simp: peer_calls)
next
  case (SoSend pid coins now p mode)
  with on_peer_send [OF inv, of pid coins now p mode] show ?thesis
    by auto
next
  case (SoFlush pid coins now)
  with on_peer_call [OF inv, of "handle_flush coins now pid" pid "(CallFlush, now, coins)"] show ?thesis
    by (auto simp: peer_calls)
next
  case (SoDisconnect pid now)
  with on_peer_call [OF inv, of "handle_disconnect now pid" pid "(CallDisconnect, now, \<lambda>_. True)"] show ?thesis
    by (auto simp: peer_calls)
next
  case (SoSetData pid data)
  with on_peer_data [OF inv, of pid data] show ?thesis
    by auto
next
  case SoPop
  obtain sv' e where "pop_event sv = (sv', e)"
    by fastforce
  with inv_pop_event [OF inv this] SoPop show ?thesis
    by simp
qed

section \<open>The peer at an address\<close>

definition at_addr :: "SocketAddr \<Rightarrow> Server \<Rightarrow> PeerRef \<Rightarrow> bool" where
  "at_addr addr sv pid \<longleftrightarrow> pid < length (sv_store sv) \<and> pe_addr (sv_store sv ! pid) = addr"

text \<open>No two connections from the same address, one after the other: frames do not say to which they belong.\<close>

definition one_peer :: "SocketAddr \<Rightarrow> Server \<Rightarrow> bool" where
  "one_peer addr sv \<longleftrightarrow> (\<forall>p q. at_addr addr sv p \<and> at_addr addr sv q \<longrightarrow> p = q)"

fun packets_from :: "(PeerRef \<Rightarrow> bool) \<Rightarrow> ServerEvent list \<Rightarrow> bytes list" where
  "packets_from P [] = []"
| "packets_from P (SvReceive pid p # es) = (if P pid then [p] else []) @ packets_from P es"
| "packets_from P (_ # es) = packets_from P es"

lemma packets_from_append [simp]: "packets_from P (xs @ ys) = packets_from P xs @ packets_from P ys"
  by (induction P xs rule: packets_from.induct) simp_all

lemma packets_from_events [simp]: "packets_from P (peer_events pid out) = (if P pid then packets_out out else [])"
  by (induction pid out rule: peer_events.induct) simp_all

lemma packets_from_cong: "(\<And>e. e \<in> set es \<Longrightarrow> P (event_peer e) = Q (event_peer e)) \<Longrightarrow> packets_from P es = packets_from Q es"
proof (induction P es rule: packets_from.induct)
  case (2 P pid p es)
  then have "P pid = Q pid" "packets_from P es = packets_from Q es"
    using 2(2) [of "SvReceive pid p"] by auto
  then show ?case
    by simp
qed auto

definition server_ec :: "ServerConfig \<Rightarrow> EndpointConfig \<Rightarrow> bool" where
  "server_ec config ec \<longleftrightarrow> prio_Config_from (svc_channel_balance config) = Some (ec_prio_config ec) \<and>
     ec_timeout_time_ms ec = svc_connection_timeout_ms config"

text \<open>
  The packets the application sends to the peer at the address, while its connection is open.
\<close>

definition peer_takes :: "SocketAddr \<Rightarrow> PeerRef \<Rightarrow> Server \<Rightarrow> HostCall \<Rightarrow> (bytes \<times> SendMode) list" where
  "peer_takes addr pid sv c = (if at_addr addr sv pid then taken (pe_endpoint (sv_store sv ! pid)) c else [])"

fun server_takes :: "SocketAddr \<Rightarrow> ServerOp \<Rightarrow> Server \<Rightarrow> (bytes \<times> SendMode) list" where
  "server_takes addr (SoEnqueue pid now p mode) sv = peer_takes addr pid sv (CallEnqueue p mode)"
| "server_takes addr (SoSend pid coins now p mode) sv = peer_takes addr pid sv (CallEnqueue p mode)"
| "server_takes addr _ sv = []"

text \<open>The side of a server, with the peers whose timer has fired.\<close>

definition server_is ::
    "EndpointConfig \<Rightarrow> SocketAddr \<Rightarrow> PeerRef set \<Rightarrow> ServerEvent list \<Rightarrow> (bytes \<times> SendMode) list \<Rightarrow> Server \<Rightarrow> Side \<Rightarrow> bool" where
  "server_is ec addr F hist q sv b \<longleftrightarrow>
     server_ec (sv_config sv) ec \<and>
     (\<forall>pid. at_addr addr sv pid \<longrightarrow> sd_ep b = pe_endpoint (sv_store sv ! pid) \<and>
        (if pid \<in> F then sd_timer b \<noteq> None else sd_timer b = pe_rto_timer (sv_store sv ! pid))) \<and>
     ((\<forall>pid. \<not> at_addr addr sv pid) \<longrightarrow> fresh_side ec b) \<and>
     length (sd_sent b) \<le> length (filter (\<lambda>f. snd f = addr) (sv_sent sv)) \<and>
     (\<forall>bs. (bs, addr) \<in> set (sv_sent sv) \<longrightarrow> bs \<in> set (sd_sent b) \<or> handshake_ack bs) \<and>
     sd_received b = packets_from (at_addr addr sv) (hist @ sv_events sv) \<and>
     sd_rel b = reliable_of q \<and> sd_unrel b = unreliable_of q"

lemma server_is_peer:
  assumes "server_is ec addr F hist q sv b" and "at_addr addr sv pid"
  shows "sd_ep b = pe_endpoint (sv_store sv ! pid) \<and>
    (if pid \<in> F then sd_timer b \<noteq> None else sd_timer b = pe_rto_timer (sv_store sv ! pid))"
  using assms by (simp add: server_is_def)

text \<open>A server in which one peer has changed, and its effects have been carried out.\<close>

definition peer_changed :: "PeerRef \<Rightarrow> Peer \<Rightarrow> Effect list \<Rightarrow> Server \<Rightarrow> Server \<Rightarrow> bool" where
  "peer_changed pid p out sv sv' \<longleftrightarrow> pid < length (sv_store sv) \<and> pe_addr p = pe_addr (sv_store sv ! pid) \<and>
     sv_store sv' = (sv_store sv)[pid := p] \<and> sv_events sv' = sv_events sv @ peer_events pid out \<and>
     sv_sent sv' = sv_sent sv @ map (\<lambda>bs. (bs, pe_addr (sv_store sv ! pid))) (sent_frames out) \<and> sv_config sv' = sv_config sv"

lemma peer_changed_at: "peer_changed pid p out sv sv' \<Longrightarrow> at_addr addr sv' = at_addr addr sv"
  by (auto simp: fun_eq_iff peer_changed_def at_addr_def nth_list_update)

lemma peer_changed_elsewhere:
  assumes ch: "peer_changed pid p out sv sv'" and F: "F - {pid} = F' - {pid}" and other: "\<not> at_addr addr sv pid"
    and b: "server_is ec addr F hist q sv b"
  shows "server_is ec addr F' hist q sv' b"
proof -
  have addr: "pe_addr (sv_store sv ! pid) \<noteq> addr" and same: "sv_config sv' = sv_config sv"
      "sv_sent sv' = sv_sent sv @ map (\<lambda>bs. (bs, pe_addr (sv_store sv ! pid))) (sent_frames out)"
      "sv_events sv' = sv_events sv @ peer_events pid out"
    using ch other by (simp_all add: peer_changed_def at_addr_def)
  have peers: "sd_ep b = pe_endpoint (sv_store sv' ! r) \<and>
      (if r \<in> F' then sd_timer b \<noteq> None else sd_timer b = pe_rto_timer (sv_store sv' ! r))" if r: "at_addr addr sv r" for r
  proof -
    have "r \<noteq> pid"
      using r other by blast
    then have "r \<in> F' \<longleftrightarrow> r \<in> F" "sv_store sv' ! r = sv_store sv ! r"
      using F ch by (auto simp: peer_changed_def)
    with b r show ?thesis
      by (simp add: server_is_def)
  qed
  have frames: "filter (\<lambda>f. snd f = addr) (sv_sent sv') = filter (\<lambda>f. snd f = addr) (sv_sent sv)"
      "(bs, addr) \<in> set (sv_sent sv') \<longleftrightarrow> (bs, addr) \<in> set (sv_sent sv)" for bs
    using addr by (auto simp: same(2) filter_empty_conv)
  have "packets_from (at_addr addr sv) (hist @ sv_events sv') = packets_from (at_addr addr sv) (hist @ sv_events sv)"
    using other by (simp add: same(3))
  with b peers frames show ?thesis
    unfolding server_is_def peer_changed_at [OF ch] same(1) by simp
qed

lemma peer_changed_here:
  assumes ch: "peer_changed pid p out sv sv'" and F: "F - {pid} = F' - {pid}" "pid \<notin> F'" and here: "at_addr addr sv pid"
    and one: "one_peer addr sv" and p: "pe_endpoint p = ep" "pe_rto_timer p = t"
    and b: "server_is ec addr F hist q sv b"
  shows "server_is ec addr F' hist (q @ taken (sd_ep b) (fst c)) sv' (side_after c ep t out b)"
proof -
  have only: "at_addr addr sv r \<longleftrightarrow> r = pid" for r
    using here one by (auto simp: one_peer_def)
  have sv': "sv_store sv' ! pid = p" "sv_config sv' = sv_config sv" "pe_addr (sv_store sv ! pid) = addr"
      "sv_sent sv' = sv_sent sv @ map (\<lambda>bs. (bs, pe_addr (sv_store sv ! pid))) (sent_frames out)"
      "sv_events sv' = sv_events sv @ peer_events pid out"
    using ch here by (simp_all add: peer_changed_def at_addr_def)
  then have "length (filter (\<lambda>f. snd f = addr) (sv_sent sv')) = length (filter (\<lambda>f. snd f = addr) (sv_sent sv)) + length (sent_frames out)"
    by (simp add: comp_def)
  with b sv' p F(2) show ?thesis
    unfolding server_is_def peer_changed_at [OF ch] only
    by (auto simp: side_after_def taken_channels)
qed

section \<open>Addresses\<close>

text \<open>The store only grows, and an address stays: what belongs to the address at the end has always done so.\<close>

definition addrs :: "Server \<Rightarrow> SocketAddr list" where
  "addrs sv = map pe_addr (sv_store sv)"

lemma at_addr_addrs: "at_addr addr sv pid \<longleftrightarrow> pid < length (addrs sv) \<and> addrs sv ! pid = addr"
  by (auto simp: at_addr_def addrs_def)

lemma at_addr_grows: "prefix (addrs sv) (addrs sv') \<Longrightarrow> at_addr addr sv pid \<Longrightarrow> at_addr addr sv' pid"
  by (auto simp: at_addr_addrs prefix_def nth_append)

lemma one_peer_earlier: "prefix (addrs sv) (addrs sv') \<Longrightarrow> one_peer addr sv' \<Longrightarrow> one_peer addr sv"
  by (auto simp: one_peer_def dest: at_addr_grows)

lemma one_peer_same: "addrs sv' = addrs sv \<Longrightarrow> one_peer addr sv' = one_peer addr sv"
  by (simp add: one_peer_def at_addr_addrs)

lemma addrs_update [simp]: "(\<And>p. pe_addr (f p) = pe_addr p) \<Longrightarrow> addrs (update_peer pid f sv) = addrs sv"
  by (simp add: addrs_def update_peer_def map_update) (metis length_map list_update_beyond list_update_id not_le nth_map)

lemma addrs_simps [simp]:
  "addrs (socket_send bs a sv) = addrs sv" "addrs (push_event e sv) = addrs sv" "addrs (sv\<lparr>sv_timer_queue := tq\<rparr>) = addrs sv"
  "addrs (sv\<lparr>sv_peers := ps\<rparr>) = addrs sv" "addrs (sv\<lparr>sv_events := es\<rparr>) = addrs sv"
  by (simp_all add: addrs_def socket_send_def push_event_def)

lemma at_addr_same: "addrs sv' = addrs sv \<Longrightarrow> at_addr addr sv' = at_addr addr sv"
  by (simp add: fun_eq_iff at_addr_addrs)

lemma addrs_context [simp]: "addrs (peer_context pid x sv) = addrs sv"
  by (cases x) simp_all

lemma addrs_fold [simp]: "addrs (fold (peer_context pid) out sv) = addrs sv"
  by (induction out arbitrary: sv) simp_all

lemma addrs_with_endpoint [simp]: "addrs (with_endpoint pid ep out sv) = addrs sv"
  by (simp add: with_endpoint_def)

lemma addrs_call: "peer_call pid c sv = Some sv' \<Longrightarrow> addrs sv' = addrs sv"
  by (auto simp: peer_call_def)

lemma addrs_timer_test: "peer_timer_test now sv pid = (sv', expired) \<Longrightarrow> addrs sv' = addrs sv"
  by (auto simp: peer_timer_test_def split: if_splits option.splits)

lemma addrs_test_each: "test_each (peer_timer_test now) sv pids = (sv', fired) \<Longrightarrow> addrs sv' = addrs sv"
  by (induction pids arbitrary: sv fired) (auto split: prod.splits dest: addrs_timer_test)

lemma addrs_rto_timer: "peer_handle_rto_timer coins now pid sv = Some (sv', act) \<Longrightarrow> addrs sv' = addrs sv"
  by (auto simp: peer_handle_rto_timer_def bind_eq_Some_conv)

lemma addrs_fired: "handle_fired tk pids sv = Some sv' \<Longrightarrow> addrs sv' = addrs sv"
proof (induction pids arbitrary: sv)
  case (Cons pid pids)
  then obtain sv1 act where "peer_handle_rto_timer (tk_coins tk pid) (tk_clock tk pid) pid sv = Some (sv1, act)"
      "handle_fired tk pids (case act of Continue \<Rightarrow> sv1
        | Terminate \<Rightarrow> sv1\<lparr>sv_peers := AList.delete (pe_addr (sv_store sv1 ! pid)) (sv_peers sv1)\<rparr>) = Some sv'"
    by (auto simp: bind_eq_Some_conv)
  with Cons.IH [OF this(2)] addrs_rto_timer [OF this(1)] show ?case
    by (cases act) simp_all
qed simp

lemma addrs_timeouts: "handle_timeouts tk sv = Some sv' \<Longrightarrow> addrs sv' = addrs sv"
  by (auto simp: handle_timeouts_def step_timer_wheel_def timer_queue_test_exact bind_eq_Some_conv split: prod.splits
      dest!: addrs_fired addrs_test_each)

lemma add_peer_exact:
  assumes "add_peer a sv = Some sv'" and "server_ec (sv_config sv) ec"
  obtains ep where "Endpoint_new ec = Some ep" "sv_config sv' = sv_config sv" "sv_sent sv' = sv_sent sv"
    "sv_store sv' = sv_store sv @ [\<lparr>pe_addr = a, pe_data = None, pe_rto_timer = None, pe_endpoint = fst (endpoint_init ep)\<rparr>]"
    "sv_events sv' = sv_events sv @ [SvConnect (length (sv_store sv))]"
    "sv_peers sv' = AList.update a (length (sv_store sv)) (sv_peers sv)"
proof -
  have ec: "\<lparr>ec_timeout_time_ms = svc_connection_timeout_ms (sv_config sv), ec_prio_config = ec_prio_config ec\<rparr> = ec"
      "prio_Config_from (svc_channel_balance (sv_config sv)) = Some (ec_prio_config ec)"
    using assms(2) by (simp_all add: server_ec_def)
  with assms(1) obtain ep where "Endpoint_new ec = Some ep"
    by (auto simp: add_peer_def Peer_new_def bind_eq_Some_conv Let_def)
  with assms(1) ec that show thesis
    by (auto simp: add_peer_def Peer_new_def peer_init_def with_endpoint_def endpoint_init_def update_peer_def push_event_def Let_def)
qed

lemma addrs_add_peer: "add_peer a sv = Some sv' \<Longrightarrow> prefix (addrs sv) (addrs sv')"
  by (auto simp: add_peer_def peer_init_def addrs_def with_endpoint_def endpoint_init_def update_peer_def push_event_def
      Peer_new_def Let_def bind_eq_Some_conv)

lemma addrs_beta_error: "beta_error params a sv = Some (sv', error) \<Longrightarrow> prefix (addrs sv) (addrs sv')"
  by (auto simp: beta_error_def Let_def split: if_splits dest: addrs_add_peer)

section \<open>Calls on a peer\<close>

lemma peer_call_changed:
  assumes "pid < length (sv_store sv)" and "fst c \<noteq> CallTimer" and "peer_call pid c sv = Some sv'"
  obtains ep t out where "host_step c (pe_endpoint (sv_store sv ! pid)) (pe_rto_timer (sv_store sv ! pid)) = Some (ep, t, out)"
    "peer_changed pid ((sv_store sv ! pid)\<lparr>pe_endpoint := ep, pe_rto_timer := t\<rparr>) out sv sv'"
proof -
  let ?p = "sv_store sv ! pid"
  obtain ep t out where s: "host_step c (pe_endpoint ?p) (pe_rto_timer ?p) = Some (ep, t, out)" "sv' = with_endpoint pid ep out sv"
    using assms(3) by (auto simp: peer_call_def)
  have "t = timer_after out (pe_rto_timer ?p)"
    using s(1) assms(2) by (cases "(c, pe_endpoint ?p, pe_rto_timer ?p)" rule: host_step.cases) auto
  with assms(1) s(2) have "peer_changed pid (?p\<lparr>pe_endpoint := ep, pe_rto_timer := t\<rparr>) out sv sv'"
    by (simp add: peer_changed_def with_endpoint_exact)
  with s(1) show thesis
    by (rule that)
qed

lemma peer_call_side:
  assumes b: "server_is ec addr F hist q sv b" and one: "one_peer addr sv" and pid: "pid < length (sv_store sv)" "pid \<notin> F"
    and c: "fst c \<noteq> CallTimer" "at_addr addr sv pid \<Longrightarrow> genuine wire c" and r: "peer_call pid c sv = Some sv'"
  shows "\<exists>b'. side_steps wire b b' \<and> server_is ec addr F hist (q @ peer_takes addr pid sv (fst c)) sv' b'"
proof -
  let ?p = "sv_store sv ! pid"
  obtain ep t out where s: "host_step c (pe_endpoint ?p) (pe_rto_timer ?p) = Some (ep, t, out)"
      "peer_changed pid (?p\<lparr>pe_endpoint := ep, pe_rto_timer := t\<rparr>) out sv sv'"
    using peer_call_changed [OF pid(1) c(1) r] by blast
  show ?thesis
  proof (cases "at_addr addr sv pid")
    case True
    then have b_ep: "sd_ep b = pe_endpoint ?p" "sd_timer b = pe_rto_timer ?p"
      using b pid(2) by (auto simp: server_is_def)
    have "server_is ec addr F hist (q @ taken (sd_ep b) (fst c)) sv' (side_after c ep t out b)"
      by (rule peer_changed_here [OF s(2) _ pid(2) True one _ _ b]) simp_all
    moreover have "side_step wire b (side_after c ep t out b)"
      using s(1) b_ep by (intro side_call [OF c(2) [OF True]]) simp
    ultimately show ?thesis
      using True b_ep(1) by (auto simp: peer_takes_def)
  next
    case False
    with peer_changed_elsewhere [OF s(2) refl False b] show ?thesis
      by (auto simp: peer_takes_def)
  qed
qed

text \<open>A frame that is no part of a handshake.\<close>

lemma server_other_side:
  assumes b: "server_is ec addr {} hist q sv b" and one: "one_peer addr sv" and inv: "server_inv_on hist {} sv"
    and bs: "verify_minimum_size bs" "read_type bs = Some (Some ft)" "a = addr \<Longrightarrow> bs \<in> set wire"
    and r: "server_handle_frame_other coins now ft bs a sv = Some sv'"
  shows "\<exists>b'. side_steps wire b b' \<and> server_is ec addr {} hist q sv' b'"
proof (cases "map_of (sv_peers sv) a")
  case None
  with r b show ?thesis
    by (auto simp: server_handle_frame_other_def)
next
  case (Some pid)
  then have pid: "pid < length (sv_store sv)" "pe_addr (sv_store sv ! pid) = a"
    using inv map_of_SomeD [OF Some] by (auto simp: server_inv_on_def)
  obtain v body where f: "verify_crc bs = Some v" "payload bs = Some body"
    using frame_checks_total [OF bs(1)] by blast
  let ?c = "(CallFrame ft body, now, coins)"
  show ?thesis
  proof (cases v)
    case True
    have "genuine wire ?c" if "at_addr addr sv pid"
      using bs f True pid that by (auto simp: genuine_def at_addr_def)
    moreover have "peer_call pid ?c sv = Some sv'"
      using r Some f True by (simp add: server_handle_frame_other_def peer_calls)
    moreover have "peer_takes addr pid sv (fst ?c) = []"
      by (simp add: peer_takes_def taken_def)
    ultimately show ?thesis
      using peer_call_side [OF b one pid(1), of ?c wire sv'] by simp
  next
    case False
    with r Some f b show ?thesis
      by (auto simp: server_handle_frame_other_def)
  qed
qed

section \<open>Timers\<close>

lemma timer_test_side:
  assumes b: "server_is ec addr F hist q sv b" and F: "expired \<Longrightarrow> pid \<notin> F" and r: "peer_timer_test now sv pid = (sv', expired)"
  shows "server_is ec addr (if expired then insert pid F else F) hist q sv' b"
proof (cases expired)
  case True
  then obtain t where t: "pe_rto_timer (sv_store sv ! pid) = Some t" "pid < length (sv_store sv)"
      and sv': "sv' = sv\<lparr>sv_store := (sv_store sv)[pid := (sv_store sv ! pid)\<lparr>pe_rto_timer := None\<rparr>]\<rparr>"
    using r by (auto simp: peer_timer_test_def update_peer_def split: if_splits option.splits)
  have at: "at_addr addr sv' = at_addr addr sv"
    using addrs_timer_test [OF r] by (rule at_addr_same)
  have "sd_ep b = pe_endpoint (sv_store sv' ! u) \<and>
      (if u \<in> insert pid F then sd_timer b \<noteq> None else sd_timer b = pe_rto_timer (sv_store sv' ! u))" if "at_addr addr sv u" for u
    using b F [OF True] that t sv' by (cases "u = pid") (auto simp: server_is_def at_addr_def)
  with b True sv' show ?thesis
    unfolding server_is_def at by simp
next
  case False
  then have "sv' = sv"
    using r by (auto simp: peer_timer_test_def split: if_splits option.splits)
  with b False show ?thesis
    by simp
qed

lemma test_each_side:
  "server_is ec addr F hist q sv b \<Longrightarrow> server_inv_on hist F sv \<Longrightarrow> test_each (peer_timer_test now) sv pids = (sv', fired) \<Longrightarrow>
     server_is ec addr (F \<union> set fired) hist q sv' b"
proof (induction pids arbitrary: sv F fired)
  case (Cons pid pids)
  obtain sv1 expired where t: "peer_timer_test now sv pid = (sv1, expired)"
    by fastforce
  obtain rest where r: "test_each (peer_timer_test now) sv1 pids = (sv', rest)" "fired = (if expired then pid # rest else rest)"
    using Cons.prems(3) t by (auto split: prod.splits)
  note step = inv_timer_test [OF Cons.prems(2) t]
  from Cons.IH [OF timer_test_side [OF Cons.prems(1) step(2) t] step(1) r(1)] r(2) show ?case
    by (cases expired) simp_all
qed simp

lemma server_is_update [simp]:
  "server_is ec addr F hist q (sv\<lparr>sv_timer_queue := tq\<rparr>) b = server_is ec addr F hist q sv b"
  "server_is ec addr F hist q (sv\<lparr>sv_peers := ps\<rparr>) b = server_is ec addr F hist q sv b"
  unfolding server_is_def using at_addr_same [of "sv\<lparr>sv_timer_queue := tq\<rparr>" sv] at_addr_same [of "sv\<lparr>sv_peers := ps\<rparr>" sv]
  by simp_all

lemma rto_timer_side:
  assumes b: "server_is ec addr F hist q sv b" and one: "one_peer addr sv" and inv: "server_inv_on hist F sv"
    and pid: "pid \<in> F" "pid < length (sv_store sv)" and r: "peer_handle_rto_timer coins now pid sv = Some (sv', act)"
  shows "\<exists>b'. side_steps wire b b' \<and> server_is ec addr (F - {pid}) hist q sv' b'"
proof -
  let ?p = "sv_store sv ! pid" and ?c = "(CallTimer, now, coins)"
  have none: "pe_rto_timer ?p = None"
    using inv pid by (auto simp: server_inv_on_def peer_wf_def)
  obtain ep out where s: "endpoint_handle_rto_timer coins now (pe_endpoint ?p) = Some (ep, act, out)" "sv' = with_endpoint pid ep out sv"
    using r by (auto simp: peer_handle_rto_timer_def bind_eq_Some_conv)
  then have ch: "peer_changed pid (?p\<lparr>pe_endpoint := ep, pe_rto_timer := timer_after out None\<rparr>) out sv sv'"
    using pid(2) none by (simp add: peer_changed_def with_endpoint_exact)
  show ?thesis
  proof (cases "at_addr addr sv pid")
    case True
    then obtain t where b_ep: "sd_ep b = pe_endpoint ?p" "sd_timer b = Some t"
      using server_is_peer [OF b True] pid(1) by auto
    have "server_is ec addr (F - {pid}) hist (q @ taken (sd_ep b) (fst ?c)) sv' (side_after ?c ep (timer_after out None) out b)"
      by (rule peer_changed_here [OF ch _ _ True one _ _ b]) auto
    moreover have "side_step wire b (side_after ?c ep (timer_after out None) out b)"
      using s(1) b_ep by (intro side_call genuine_other) simp_all
    ultimately show ?thesis
      by (auto simp: taken_def)
  next
    case False
    with peer_changed_elsewhere [OF ch _ False b, of "F - {pid}"] show ?thesis
      by auto
  qed
qed

lemma fired_side:
  "server_is ec addr (set pids) hist q sv b \<Longrightarrow> one_peer addr sv \<Longrightarrow> server_inv_on hist (set pids) sv \<Longrightarrow> distinct pids \<Longrightarrow>
     set pids \<subseteq> {..<length (sv_store sv)} \<Longrightarrow> handle_fired tk pids sv = Some sv' \<Longrightarrow>
     \<exists>b'. side_steps wire b b' \<and> server_is ec addr {} hist q sv' b'"
proof (induction pids arbitrary: sv b)
  case (Cons pid pids)
  have pid: "pid \<in> set (pid # pids)" "pid < length (sv_store sv)" "set (pid # pids) - {pid} = set pids"
    using Cons.prems(4,5) by auto
  let ?next = "\<lambda>act sv1. case act of Continue \<Rightarrow> sv1
    | Terminate \<Rightarrow> sv1\<lparr>sv_peers := AList.delete (pe_addr (sv_store sv1 ! pid)) (sv_peers sv1)\<rparr>"
  obtain sv1 act where r: "peer_handle_rto_timer (tk_coins tk pid) (tk_clock tk pid) pid sv = Some (sv1, act)"
      "server_inv_on hist (set pids) (?next act sv1)" "length (sv_store sv1) = length (sv_store sv)"
    using inv_handle_rto_timer [OF Cons.prems(3) pid(1,2)] unfolding pid(3) by blast
  obtain b1 where b1: "side_steps wire b b1" "server_is ec addr (set pids) hist q sv1 b1"
    using rto_timer_side [OF Cons.prems(1,2,3) pid(1,2) r(1)] unfolding pid(3) by blast
  have same: "addrs (?next act sv1) = addrs sv" "length (sv_store (?next act sv1)) = length (sv_store sv)"
      "server_is ec addr (set pids) hist q (?next act sv1) b1"
    using addrs_rto_timer [OF r(1)] r(3) b1(2) by (cases act; simp)+
  have "handle_fired tk pids (?next act sv1) = Some sv'"
    using Cons.prems(6) r(1) by simp
  with Cons.IH [OF same(3) _ r(2)] one_peer_same [OF same(1)] Cons.prems(2,4,5) same(2) b1(1) show ?case
    by (auto intro: rtranclp_trans)
qed auto

lemma timeouts_side:
  assumes b: "server_is ec addr {} hist q sv b" and one: "one_peer addr sv" and inv: "server_inv_on hist {} sv"
    and r: "handle_timeouts tk sv = Some sv'"
  shows "\<exists>b'. side_steps wire b b' \<and> server_is ec addr {} hist q sv' b'"
proof -
  obtain sv1 fired where w: "step_timer_wheel (tk_held tk) (tk_now_ms tk) sv = Some (sv1, fired)"
      "server_inv_on hist (set fired) sv1" "distinct fired" "set fired \<subseteq> {..<length (sv_store sv1)}"
    using inv_step_timer_wheel [OF inv] by blast
  then obtain sv0 pids tq where t: "test_each (peer_timer_test (tk_now_ms tk)) sv pids = (sv0, fired)" "sv1 = sv0\<lparr>sv_timer_queue := tq\<rparr>"
    by (auto simp: step_timer_wheel_def timer_queue_test_exact split: prod.splits)
  have "server_is ec addr (set fired) hist q sv1 b"
    using test_each_side [OF b inv t(1)] t(2) by simp
  moreover have "one_peer addr sv1"
    using one addrs_test_each [OF t(1)] t(2) one_peer_same [of sv1 sv] by simp
  moreover have "handle_fired tk fired sv1 = Some sv'"
    using r w(1) by (simp add: handle_timeouts_def)
  ultimately show ?thesis
    using fired_side [OF _ _ w(2-4)] by blast
qed

section \<open>Handshakes\<close>

lemma send_ack_side:
  assumes "server_is ec addr F hist q sv b" and "handshake_ack bs"
  shows "server_is ec addr F hist q (socket_send bs a sv) b"
proof -
  have "length (filter (\<lambda>f. snd f = addr) (sv_sent sv)) \<le> length (filter (\<lambda>f. snd f = addr) (sv_sent (socket_send bs a sv)))"
      "(cs, addr) \<in> set (sv_sent (socket_send bs a sv)) \<longleftrightarrow> (cs, addr) \<in> set (sv_sent sv) \<or> cs = bs \<and> a = addr" for cs
    by (auto simp: socket_send_def)
  moreover have "sv_store (socket_send bs a sv) = sv_store sv" "sv_config (socket_send bs a sv) = sv_config sv"
      "sv_events (socket_send bs a sv) = sv_events sv"
    by (simp_all add: socket_send_def)
  moreover have "at_addr addr (socket_send bs a sv) = at_addr addr sv"
    by (rule at_addr_same) simp
  ultimately show ?thesis
    using assms unfolding server_is_def by (auto intro: order_trans)
qed

lemma acks_are_acks: "handshake_ack (alpha_ack_bytes ack)" "handshake_ack (beta_ack_bytes error n)"
  by (simp_all add: handshake_ack_def alpha_ack_bytes_def beta_ack_bytes_def finished_frame_checks)

text \<open>A new peer at the address is the first there, and its endpoint is fresh.\<close>

lemma add_peer_side:
  assumes b: "server_is ec addr {} hist q sv b" and inv: "server_inv_on hist {} sv" and r: "add_peer a sv = Some sv'"
    and one: "one_peer addr sv'"
  shows "server_is ec addr {} hist q sv' b"
proof -
  let ?n = "length (sv_store sv)"
  have "server_ec (sv_config sv) ec"
    using b by (simp add: server_is_def)
  then obtain ep where ep: "Endpoint_new ec = Some ep" and sv': "sv_config sv' = sv_config sv" "sv_sent sv' = sv_sent sv"
      "sv_store sv' = sv_store sv @ [\<lparr>pe_addr = a, pe_data = None, pe_rto_timer = None, pe_endpoint = fst (endpoint_init ep)\<rparr>]"
      "sv_events sv' = sv_events sv @ [SvConnect ?n]"
    using add_peer_exact [OF r] by blast
  have at: "at_addr addr sv' u \<longleftrightarrow> at_addr addr sv u \<or> u = ?n \<and> a = addr" for u
    by (auto simp: at_addr_def sv'(3) nth_append less_Suc_eq)
  have "event_peer e < ?n" if "e \<in> set (hist @ sv_events sv)" for e
    using inv that by (auto simp: server_inv_on_def)
  then have events: "packets_from (at_addr addr sv') (hist @ sv_events sv') = packets_from (at_addr addr sv) (hist @ sv_events sv)"
    using packets_from_cong [of "hist @ sv_events sv" "at_addr addr sv'" "at_addr addr sv"] by (fastforce simp: at sv'(4))
  have peers: "sd_ep b = pe_endpoint (sv_store sv' ! u) \<and> sd_timer b = pe_rto_timer (sv_store sv' ! u)" if u: "at_addr addr sv' u" for u
  proof (cases "at_addr addr sv u")
    case True
    with b show ?thesis
      by (auto simp: server_is_def at_addr_def sv'(3) nth_append)
  next
    case False
    with u at have n: "u = ?n" "a = addr"
      by auto
    have "\<not> at_addr addr sv v" for v
      using one n u at [of v] by (auto simp: one_peer_def at_addr_def)
    then have "fresh_side ec b"
      using b by (auto simp: server_is_def)
    with ep n show ?thesis
      by (auto simp: fresh_side_def sv'(3))
  qed
  have none: "(\<forall>u. \<not> at_addr addr sv' u) \<Longrightarrow> fresh_side ec b"
    using b at by (auto simp: server_is_def)
  have kept: "server_ec (sv_config sv) ec" "length (sd_sent b) \<le> length (filter (\<lambda>f. snd f = addr) (sv_sent sv))"
      "\<forall>bs. (bs, addr) \<in> set (sv_sent sv) \<longrightarrow> bs \<in> set (sd_sent b) \<or> handshake_ack bs"
      "sd_received b = packets_from (at_addr addr sv) (hist @ sv_events sv)" "sd_rel b = reliable_of q" "sd_unrel b = unreliable_of q"
    using b unfolding server_is_def by blast+
  show ?thesis
    unfolding server_is_def events sv'(1,2) using peers none kept by simp
qed

lemma alpha_side:
  assumes b: "server_is ec addr {} hist q sv b" and size: "verify_minimum_size bs"
    and r: "handle_handshake_alpha sip random bs a now sv = Some sv'"
  shows "server_is ec addr {} hist q sv' b"
  using size
proof (cases rule: handle_handshake_alpha_cases [of _ sip random a now sv])
  case Ignored
  with r b show ?thesis
    by simp
next
  case (Acked f)
  then have "sv' = socket_send (alpha_ack_bytes (alpha_ack sip random now a sv (ha_client_nonce f))) a sv"
    using r by simp
  with send_ack_side [OF b acks_are_acks(1)] show ?thesis
    by simp
qed

lemma beta_side:
  assumes b: "server_is ec addr {} hist q sv b" and inv: "server_inv_on hist {} sv" and size: "verify_minimum_size bs"
    and r: "handle_handshake_beta sip bs a now sv = Some sv'" and one: "one_peer addr sv'"
  shows "server_is ec addr {} hist q sv' b"
  using size
proof (cases rule: handle_handshake_beta_cases [of _ sip a now sv])
  case Ignored
  with r b show ?thesis
    by simp
next
  case (Acked f)
  obtain sv1 error where e: "beta_error (hb_client_params f) a sv = Some (sv1, error)"
      "sv' = socket_send (beta_ack_bytes error (hb_client_nonce f)) a sv1"
    using r unfolding Acked(2) by auto
  have one1: "one_peer addr sv1"
    using one one_peer_same [of sv' sv1] e(2) by simp
  have "sv1 = sv \<or> add_peer a sv = Some sv1"
    using e(1) by (auto simp: beta_error_def Let_def split: if_splits)
  then have "server_is ec addr {} hist q sv1 b"
    using b add_peer_side [OF b inv _ one1] by blast
  with send_ack_side [OF _ acks_are_acks(2)] e(2) show ?thesis
    by simp
qed

lemma server_frame_side:
  assumes b: "server_is ec addr {} hist q sv b" and inv: "server_inv_on hist {} sv" and one: "one_peer addr sv" "one_peer addr sv'"
    and wire: "rc_addr rc = addr \<Longrightarrow> rc_bytes rc \<in> set wire \<or> handshake_frame (rc_bytes rc)"
    and r: "server_handle_frame sip rc sv = Some sv'"
  shows "\<exists>b'. side_steps wire b b' \<and> server_is ec addr {} hist q sv' b'"
proof (cases "verify_minimum_size (rc_bytes rc)")
  case True
  obtain x where x: "read_type (rc_bytes rc) = Some x"
    using frame_checks_total [OF True] by blast
  show ?thesis
  proof (cases "x = Some HandshakeAlpha \<or> x = Some HandshakeBeta \<or> x = None")
    case shake: True
    then have "server_is ec addr {} hist q sv' b"
      using r x True alpha_side [OF b True, of sip "rc_random rc" "rc_addr rc" "rc_now_ms rc" sv'] b
        beta_side [OF b inv True _ one(2), of sip "rc_addr rc" "rc_now_ms rc"] by (auto simp: server_handle_frame_def)
    then show ?thesis
      by blast
  next
    case False
    then obtain ft where ft: "x = Some ft" "ft \<noteq> HandshakeAlpha" "ft \<noteq> HandshakeBeta"
      by blast
    then have "server_handle_frame_other (rc_coins rc) (rc_now_ms rc) ft (rc_bytes rc) (rc_addr rc) sv = Some sv'"
      using r x True by (cases ft) (simp_all add: server_handle_frame_def)
    with server_other_side [OF b one(1) inv True _ _ this] x ft wire show ?thesis
      by (auto simp: handshake_frame_def)
  qed
next
  case False
  with r b show ?thesis
    by (auto simp: server_handle_frame_def)
qed

section \<open>Every operation\<close>

text \<open>Frames that claim to be from the address are frames of the other side, or of its handshake.\<close>

definition server_hears :: "bytes list \<Rightarrow> SocketAddr \<Rightarrow> ServerOp \<Rightarrow> bool" where
  "server_hears wire addr op \<longleftrightarrow> (\<forall>rc. op = SoFrame rc \<longrightarrow> received_ok rc \<and>
     (rc_addr rc = addr \<longrightarrow> rc_bytes rc \<in> set wire \<or> handshake_frame (rc_bytes rc)))"

lemma addrs_frame:
  assumes r: "server_handle_frame sip rc sv = Some sv'"
  shows "prefix (addrs sv) (addrs sv')"
proof (cases "verify_minimum_size (rc_bytes rc)")
  case True
  have alpha: "prefix (addrs sv) (addrs sv')"
    if alpha: "handle_handshake_alpha sip (rc_random rc) (rc_bytes rc) (rc_addr rc) (rc_now_ms rc) sv = Some sv'"
    using True
  proof (cases rule: handle_handshake_alpha_cases [of _ sip "rc_random rc" "rc_addr rc" "rc_now_ms rc" sv])
    case (Acked f)
    show ?thesis
      using alpha unfolding Acked(2) by auto
  qed (use alpha in simp)
  have beta: "prefix (addrs sv) (addrs sv')" if beta: "handle_handshake_beta sip (rc_bytes rc) (rc_addr rc) (rc_now_ms rc) sv = Some sv'"
    using True
  proof (cases rule: handle_handshake_beta_cases [of _ sip "rc_addr rc" "rc_now_ms rc" sv])
    case (Acked f)
    show ?thesis
      using beta unfolding Acked(2) by (auto dest: addrs_beta_error)
  qed (use beta in simp)
  have other: "prefix (addrs sv) (addrs sv')" if "server_handle_frame_other coins now ft bs a sv = Some sv'" for coins now ft bs a
    using that by (auto simp: server_handle_frame_other_def peer_calls bind_eq_Some_conv split: option.splits if_splits dest: addrs_call)
  obtain x where "read_type (rc_bytes rc) = Some x"
    using frame_checks_total [OF True] by blast
  with r True alpha beta other show ?thesis
    by (simp add: server_handle_frame_def split: option.splits FrameType.splits)
qed (use r in \<open>simp add: server_handle_frame_def\<close>)

lemma addrs_op:
  assumes r: "server_op sip op sv = Some (sv', es)"
  shows "prefix (addrs sv) (addrs sv')"
proof (cases op)
  case (SoSend pid coins now p mode)
  with r show ?thesis
    by (auto simp: on_peer_def handle_send_def bind_eq_Some_conv split: if_splits)
next
  case SoPop
  with r show ?thesis
    by (cases "sv_events sv") (auto simp: pop_event_def)
qed (use r in \<open>auto simp: on_peer_def handle_enqueue_def handle_flush_def handle_disconnect_def handle_set_data_def
    bind_eq_Some_conv split: if_splits dest: addrs_frame addrs_timeouts\<close>)

lemma on_peer_side:
  assumes b: "server_is ec addr {} hist q sv b" and one: "one_peer addr sv" and op: "\<And>sv. f sv = peer_call pid c sv"
    and c: "fst c \<noteq> CallTimer" "genuine wire c" and r: "on_peer pid f sv = Some sv'"
  shows "\<exists>b'. side_steps wire b b' \<and> server_is ec addr {} hist (q @ peer_takes addr pid sv (fst c)) sv' b'"
proof (cases "pid < length (sv_store sv)")
  case True
  with peer_call_side [OF b one True _ c(1,2), of sv'] r op show ?thesis
    by (simp add: on_peer_def)
next
  case False
  with b r show ?thesis
    by (auto simp: on_peer_def peer_takes_def at_addr_def)
qed

lemma no_packets:
  assumes "\<And>p mode. c \<noteq> CallEnqueue p mode"
  shows "peer_takes addr pid sv c = []"
proof (cases c)
  case (CallEnqueue p mode)
  with assms show ?thesis
    by blast
qed (simp_all add: peer_takes_def taken_def)

lemma send_side:
  assumes b: "server_is ec addr {} hist q sv b" and one: "one_peer addr sv"
    and r: "on_peer pid (handle_send coins now pid p mode) sv = Some sv'"
  shows "\<exists>b'. side_steps wire b b' \<and> server_is ec addr {} hist (q @ peer_takes addr pid sv (CallEnqueue p mode)) sv' b'"
proof (cases "pid < length (sv_store sv)")
  case True
  let ?sv = "handle_enqueue now pid p mode sv"
  have call: "peer_call pid (CallEnqueue p mode, now, coins) sv = Some ?sv"
    by (simp flip: peer_calls(4))
  obtain b1 where b1: "side_steps wire b b1" "server_is ec addr {} hist (q @ peer_takes addr pid sv (CallEnqueue p mode)) ?sv b1"
    using peer_call_side [OF b one True _ _ _ call, of wire] by (auto simp: genuine_other)
  have "pid < length (sv_store ?sv)" "one_peer addr ?sv"
    using True one one_peer_same [OF addrs_call [OF call]] by (simp_all add: handle_enqueue_def update_peer_def)
  moreover have "peer_call pid (CallFlush, now, coins) ?sv = Some sv'"
    using r True by (simp add: on_peer_def handle_send_calls peer_calls)
  moreover have "peer_takes addr pid ?sv (fst (CallFlush, now, coins)) = []"
    by (rule no_packets) simp
  ultimately obtain b2 where "side_steps wire b1 b2" "server_is ec addr {} hist (q @ peer_takes addr pid sv (CallEnqueue p mode)) sv' b2"
    using peer_call_side [OF b1(2), of pid "(CallFlush, now, coins)" wire sv'] by (auto simp: genuine_other)
  with b1(1) show ?thesis
    by (meson rtranclp_trans)
next
  case False
  with b r show ?thesis
    by (auto simp: on_peer_def peer_takes_def at_addr_def)
qed

lemma set_data_side:
  assumes b: "server_is ec addr {} hist q sv b" and r: "on_peer pid (\<lambda>sv. Some (handle_set_data pid data sv)) sv = Some sv'"
  shows "server_is ec addr {} hist q sv' b"
proof (cases "pid < length (sv_store sv)")
  case True
  let ?p = "(sv_store sv ! pid)\<lparr>pe_data := data\<rparr>"
  have sv': "sv' = sv\<lparr>sv_store := (sv_store sv)[pid := ?p]\<rparr>"
    using r True by (simp add: on_peer_def handle_set_data_def update_peer_def)
  have at: "at_addr addr sv' = at_addr addr sv"
    using r True by (auto simp: on_peer_def handle_set_data_def intro!: at_addr_same)
  have same: "pe_endpoint (sv_store sv' ! u) = pe_endpoint (sv_store sv ! u)" "pe_rto_timer (sv_store sv' ! u) = pe_rto_timer (sv_store sv ! u)" for u
    using True by (cases "u = pid"; simp add: sv')+
  show ?thesis
    using b unfolding server_is_def at same by (simp add: sv')
qed (use b r in \<open>simp add: on_peer_def\<close>)

lemma pop_side:
  assumes "server_is ec addr {} hist q sv b" and "server_op sip SoPop sv = Some (sv', es)"
  shows "server_is ec addr {} (hist @ es) q sv' b"
proof -
  have "hist @ sv_events sv = (hist @ es) @ sv_events sv'" "sv_store sv' = sv_store sv" "sv_config sv' = sv_config sv" "sv_sent sv' = sv_sent sv"
    using assms(2) by (cases "sv_events sv"; auto simp: pop_event_def)+
  moreover have "at_addr addr sv' = at_addr addr sv"
    using calculation(2) by (intro at_addr_same) (simp add: addrs_def)
  ultimately show ?thesis
    using assms(1) by (simp only: server_is_def) blast
qed

lemma server_op_side:
  assumes b: "server_is ec addr {} hist q sv b" and inv: "server_inv_on hist {} sv" and one: "one_peer addr sv'"
    and wire: "server_hears wire addr op" and r: "server_op sip op sv = Some (sv', es)"
  shows "\<exists>b'. side_steps wire b b' \<and> server_is ec addr {} (hist @ es) (q @ server_takes addr op sv) sv' b'"
proof -
  note earlier = one_peer_earlier [OF addrs_op [OF r] one]
  show ?thesis
  proof (cases op)
    case (SoFrame rc)
    with server_frame_side [OF b inv earlier one, of rc wire sip] wire r show ?thesis
      by (auto simp: server_hears_def)
  next
    case (SoTimeouts tk)
    with timeouts_side [OF b earlier inv] r show ?thesis
      by auto
  next
    case (SoEnqueue pid now p mode)
    with on_peer_side [OF b earlier, of "\<lambda>sv. Some (handle_enqueue now pid p mode sv)" pid "(CallEnqueue p mode, now, \<lambda>_. True)" wire sv'] r show ?thesis
      by (auto simp: peer_calls genuine_other)
  next
    case (SoSend pid coins now p mode)
    with send_side [OF b earlier] r show ?thesis
      by auto
  next
    case (SoFlush pid coins now)
    with on_peer_side [OF b earlier, of "handle_flush coins now pid" pid "(CallFlush, now, coins)" wire sv'] r show ?thesis
      by (auto simp: peer_calls genuine_other no_packets)
  next
    case (SoDisconnect pid now)
    with on_peer_side [OF b earlier, of "handle_disconnect now pid" pid "(CallDisconnect, now, \<lambda>_. True)" wire sv'] r show ?thesis
      by (auto simp: peer_calls(3) [of now _ _ "\<lambda>_. True"] genuine_other no_packets)
  next
    case (SoSetData pid data)
    with set_data_side [OF b] r show ?thesis
      by auto
  next
    case SoPop
    with pop_side [OF b, of sip sv' es] r show ?thesis
      by auto
  qed
qed

text \<open>A new server.\<close>

lemma server_is_new:
  assumes "ServerConfig_validate config = Some ()"
  obtains ec b ws burst where "prio_Config_new ws burst = Some (ec_prio_config ec)" "fresh_side ec b"
    "server_is ec addr {} [] [] (ServerCore_new key config) b"
proof -
  obtain prio ws burst where prio: "prio_Config_from (svc_channel_balance config) = Some prio" "prio_Config_new ws burst = Some prio"
    using validated_prio [OF assms] by blast
  define ec where "ec = \<lparr>ec_timeout_time_ms = svc_connection_timeout_ms config, ec_prio_config = prio\<rparr>"
  obtain ep where ep: "Endpoint_new ec = Some ep"
    using Endpoint_new_wf [of ws burst ec] prio(2) by (auto simp: ec_def)
  define b where "b = \<lparr>sd_ep = fst (endpoint_init ep), sd_timer = None, sd_sent = [], sd_rel = [], sd_unrel = [], sd_received = []\<rparr>"
  have "fresh_side ec b"
    using ep by (simp add: fresh_side_def b_def)
  moreover from this have "server_is ec addr {} [] [] (ServerCore_new key config) b"
    using prio(1) by (auto simp: server_is_def server_ec_def ServerCore_new_def at_addr_def b_def ec_def)
  ultimately show thesis
    using that [of ws burst ec] prio(2) by (simp add: ec_def)
qed

end
