(* ===== verification/Handshake.thy ===== *)
theory Handshake
  imports Client_Props Server_Props
begin

text \<open>
  The handshake between a client and a server, frame by frame.
\<close>

section \<open>Frames of the other side\<close>

definition from_client :: "SocketAddr \<Rightarrow> u64 \<Rightarrow> u32 \<Rightarrow> bytes \<Rightarrow> Received" where
  "from_client addr now random bs =
     \<lparr>rc_bytes = bs, rc_addr = addr, rc_now_ms = now, rc_random = random, rc_coins = (\<lambda>_. True)\<rparr>"

definition from_server :: "u64 \<Rightarrow> bytes \<Rightarrow> ClientReceived" where
  "from_server now bs = \<lparr>cr_bytes = bs, cr_now_ms = now, cr_coins = (\<lambda>_. True)\<rparr>"

lemma server_answers_alpha:
  "server_handle_frame sip (from_client addr now random (alpha_frame n)) sv =
     Some (socket_send (alpha_ack_bytes (alpha_ack sip random now addr sv n)) addr sv)"
proof -
  let ?f = "\<lparr>ha_protocol_id = PROTOCOL_ID, ha_client_nonce = n\<rparr>"
  obtain bs where bs: "write_handshake_alpha ?f CLIENT_FRAME_SIZE_MAX = Some bs" "verify_minimum_size bs"
      "read_type bs = Some (Some HandshakeAlpha)" "verify_handshake_alpha_size_and_crc bs CLIENT_FRAME_SIZE_MAX = Some True"
      "(payload bs \<bind> SimplePayloadRead_read (Serial_read HANDSHAKE_ALPHA_SIZE HandshakeAlphaFrame_read)) = Some (Some ?f)"
    using write_handshake_alpha_received [of CLIENT_FRAME_SIZE_MAX ?f] by (auto simp: CLIENT_FRAME_SIZE_MAX_def)
  then have "alpha_frame n = bs"
    by (simp add: alpha_frame_def)
  moreover have "alpha_request bs f \<longleftrightarrow> f = ?f" for f
    using bs(4,5) by (auto simp: alpha_request_def SERVER_FRAME_SIZE_MAX_def CLIENT_FRAME_SIZE_MAX_def)
  then have "handle_handshake_alpha sip random bs addr now sv =
      Some (socket_send (alpha_ack_bytes (alpha_ack sip random now addr sv n)) addr sv)"
    using handle_handshake_alpha_cases [OF bs(2), of sip random addr now sv] by auto
  ultimately show ?thesis
    using bs(2,3) by (simp add: server_handle_frame_def from_client_def)
qed

text \<open>What the client takes from the acknowledgement.\<close>

definition client_answer :: "HandshakeAlphaAckFrame \<Rightarrow> HandshakeBetaFrame" where
  "client_answer ack =
     \<lparr>hb_client_params = \<lparr>packet_size_in_max = 0xFFFFFFFF, packet_size_out_max = 0xFFFFFFFF\<rparr>,
      hb_client_nonce = haa_client_nonce ack, hb_server_nonce = haa_server_nonce ack,
      hb_server_timestamp = haa_server_timestamp ack, hb_server_mac = haa_server_mac ack\<rparr>"

lemma finished_frame_received:
  "verify_minimum_size (finished_frame (frame_type_bits ft # body))"
  "read_type (finished_frame (frame_type_bits ft # body)) = Some (Some ft)"
proof -
  show "verify_minimum_size (finished_frame (frame_type_bits ft # body))"
    by (simp add: verify_minimum_size_def serial_consts)
  show "read_type (finished_frame (frame_type_bits ft # body)) = Some (Some ft)"
    by (simp add: finished_frame_checks)
qed

lemma client_answers_alpha_ack:
  assumes st: "cli_state cli = CsHandshake hs" "hs_phase hs = PhaseAlpha" and nonce: "haa_client_nonce ack = hs_local_nonce hs"
    and params: "haa_server_params ack = \<lparr>packet_size_in_max = 0xFFFFFFFF, packet_size_out_max = 0xFFFFFFFF\<rparr>"
  shows "client_handle_frame (from_server now (alpha_ack_bytes ack)) cli =
    Some (client_send_frame (beta_frame (client_answer ack)) (cli\<lparr>cli_state := CsHandshake (hs\<lparr>hs_phase := PhaseBeta,
        hs_timeout_time_ms := now + hs_timeout_ms hs, hs_frame := beta_frame (client_answer ack)\<rparr>),
      cli_rto_timer := Some (now + HANDSHAKE_RESEND_TIMEOUT_MS)\<rparr>))"
proof -
  have "client_handle_frame (from_server now (alpha_ack_bytes ack)) cli =
      handle_handshake_alpha_ack (HandshakeAlphaAckFrame_enc ack) now cli"
    by (simp add: client_handle_frame_def from_server_def alpha_ack_bytes_def finished_frame_received finished_frame_checks(1,2))
  with st nonce params handshake_alpha_ack.SimplePayloadRead_enc [of ack "[]"] show ?thesis
    by (simp add: handle_handshake_alpha_ack_def beta_boxed beta_frame_def client_answer_def connection_params_compatible_def Let_def)
qed

lemma client_accepts_beta_ack:
  assumes st: "cli_state cli = CsHandshake hs" "hs_phase hs = PhaseBeta" "hs_local_nonce hs = n"
  shows "client_handle_frame (from_server now (beta_ack_bytes None n)) cli = client_connected (\<lambda>_. True) now hs cli"
proof -
  have "client_handle_frame (from_server now (beta_ack_bytes None n)) cli =
      handle_handshake_beta_ack (\<lambda>_. True) (HandshakeBetaAckFrame_enc \<lparr>hba_error = None, hba_client_nonce = n\<rparr>) now cli"
    by (simp add: client_handle_frame_def from_server_def beta_ack_bytes_def finished_frame_received finished_frame_checks(1,2))
  with st handshake_beta_ack.SimplePayloadRead_enc [of "\<lparr>hba_error = None, hba_client_nonce = n\<rparr>" "[]"] show ?thesis
    by (simp add: handle_handshake_beta_ack_def)
qed

lemma timestamp_fresh:
  fixes t1 t2 :: u64
  assumes "t1 \<le> t2" and "t2 - t1 < 10000"
  shows "(ucast t2 :: u32) - ucast t1 < HANDSHAKE_TIMEOUT_MS"
proof -
  have low: "take_bit 32 (take_bit 64 a - take_bit 64 b) = take_bit 32 (a - b)" for a b :: int
  proof -
    have "take_bit 32 (take_bit 64 a - take_bit 64 b) = take_bit 32 (take_bit 32 (take_bit 64 a) - take_bit 32 (take_bit 64 b))"
      by (simp only: take_bit_diff)
    also have "\<dots> = take_bit 32 (take_bit 32 a - take_bit 32 b)"
      by (simp add: take_bit_take_bit)
    finally show ?thesis
      by (simp only: take_bit_diff)
  qed
  have "(ucast t2 :: u32) - ucast t1 = ucast (t2 - t1)"
    by transfer (simp add: low take_bit_diff)
  moreover have "unat (ucast (t2 - t1) :: u32) = unat (t2 - t1)"
    using assms(2) by (simp add: unsigned_ucast_eq word_less_nat_alt take_bit_nat_eq_self)
  ultimately show ?thesis
    using assms(2) by (simp add: HANDSHAKE_TIMEOUT_MS_def word_less_nat_alt)
qed

text \<open>A request with the code the server gave out, in time, from a new address: the server has room and adds a peer.\<close>

lemma server_admits_beta:
  assumes new: "map_of (sv_peers sv) addr = None" and room: "length (sv_peers sv) < svc_peer_count_max (sv_config sv)"
    and time: "t1 \<le> t2" "t2 - t1 < 10000" and ack: "ack = alpha_ack sip r1 t1 addr sv n"
  shows "server_handle_frame sip (from_client addr t2 r2 (beta_frame (client_answer ack))) (socket_send (alpha_ack_bytes ack) addr sv) =
    map_option (socket_send (beta_ack_bytes None n) addr) (add_peer addr (socket_send (alpha_ack_bytes ack) addr sv))"
proof -
  let ?sv1 = "socket_send (alpha_ack_bytes ack) addr sv" and ?beta = "client_answer ack"
  have "beta_error (hb_client_params ?beta) addr ?sv1 = map_option (\<lambda>sv. (sv, None)) (add_peer addr ?sv1)"
    using new room by (simp add: beta_error_def client_answer_def connection_params_compatible_def socket_send_def)
  moreover have "server_handle_frame sip (from_client addr t2 r2 (beta_frame ?beta)) ?sv1 =
      map_option (\<lambda>(sv, error). socket_send (beta_ack_bytes error n) addr sv) (beta_error (hb_client_params ?beta) addr ?sv1)"
    using server_handle_beta_frame [of "from_client addr t2 r2 (beta_frame ?beta)" ?beta sip ?sv1] timestamp_fresh [OF time]
    by (simp add: from_client_def client_answer_def alpha_ack_def ack socket_send_def)
  ultimately show ?thesis
    by (simp add: option.map_comp comp_def)
qed

text \<open>
  C6: an honest handshake succeeds: a new client and a server with room, over a network that
  delivers their four frames and brings the answer back within ten seconds of the server's
  clock, end up connected to each other, each side with its connect event; in between the
  server has kept no state.
\<close>

theorem handshake_completes:
  assumes config: "ClientConfig_validate config = Some ()" and cli: "Client_new n config = Some cli"
    and inv: "server_inv_on es {} sv" and new: "map_of (sv_peers sv) addr = None"
    and room: "length (sv_peers sv) < svc_peer_count_max (sv_config sv)" and time: "t1 \<le> t2" "t2 - t1 < 10000"
  shows "\<exists>alpha ack cli1 beta sv2 pid final cli2 ep.
    cli_sent cli = [alpha] \<and>
    server_handle_frame sip (from_client addr t1 r1 alpha) sv = Some (sv\<lparr>sv_sent := sv_sent sv @ [(ack, addr)]\<rparr>) \<and>
    client_handle_frame (from_server u1 ack) cli = Some cli1 \<and> cli_sent cli1 = [alpha, beta] \<and>
    server_handle_frame sip (from_client addr t2 r2 beta) (sv\<lparr>sv_sent := sv_sent sv @ [(ack, addr)]\<rparr>) = Some sv2 \<and>
    sv_sent sv2 = sv_sent sv @ [(ack, addr), (final, addr)] \<and>
    map_of (sv_peers sv2) addr = Some pid \<and> pe_state (sv_store sv2 ! pid) = Active \<and>
    sv_events sv2 = sv_events sv @ [SvConnect pid] \<and>
    client_handle_frame (from_server u2 final) cli1 = Some cli2 \<and> cli_state cli2 = CsActive ep \<and>
    ep_state_id ep = Active \<and> cli_events cli2 = [ClConnect]"
proof -
  let ?ack = "alpha_ack sip r1 t1 addr sv n"
  let ?sv1 = "socket_send (alpha_ack_bytes ?ack) addr sv" and ?beta = "client_answer ?ack"
  obtain hs where hs: "cli_state cli = CsHandshake hs" "hs_phase hs = PhaseAlpha" "hs_local_nonce hs = n"
      "cli_sent cli = [alpha_frame n]" "cli_events cli = []" "cli_config cli = config"
    using cli client_new_exact [of n config] by auto
  define hs1 where "hs1 = hs\<lparr>hs_phase := PhaseBeta, hs_timeout_time_ms := u1 + hs_timeout_ms hs, hs_frame := beta_frame ?beta\<rparr>"
  define cli1 where "cli1 = client_send_frame (beta_frame ?beta) (cli\<lparr>cli_state := CsHandshake hs1,
      cli_rto_timer := Some (u1 + HANDSHAKE_RESEND_TIMEOUT_MS)\<rparr>)"
  have c1: "client_handle_frame (from_server u1 (alpha_ack_bytes ?ack)) cli = Some cli1"
    using client_answers_alpha_ack [OF hs(1,2), of ?ack u1] hs(3) by (simp add: alpha_ack_def cli1_def hs1_def)
  have cli1: "cli_state cli1 = CsHandshake hs1" "hs_phase hs1 = PhaseBeta" "hs_local_nonce hs1 = n"
      "cli_sent cli1 = [alpha_frame n, beta_frame ?beta]" "cli_events cli1 = []" "ClientConfig_validate (cli_config cli1) = Some ()"
    using hs config by (simp_all add: cli1_def hs1_def client_send_frame_def)
  have inv1: "server_inv_on es {} ?sv1"
    using inv by (simp add: server_inv_send)
  obtain p where p: "add_peer addr ?sv1 = Some (?sv1\<lparr>sv_peers := sv_peers ?sv1 @ [(addr, length (sv_store ?sv1))],
      sv_timer_queue := add_timer (sv_timer_queue ?sv1) (length (sv_store ?sv1)),
      sv_store := sv_store ?sv1 @ [p], sv_events := sv_events ?sv1 @ [SvConnect (length (sv_store ?sv1))]\<rparr>)" "pe_state p = Active"
    using add_peer_inv [OF inv1, of addr] new room by (auto simp: socket_send_def)
  with server_admits_beta [OF new room time refl] have s2: "server_handle_frame sip (from_client addr t2 r2 (beta_frame ?beta)) ?sv1 =
      Some (socket_send (beta_ack_bytes None n) addr (?sv1\<lparr>sv_peers := sv_peers sv @ [(addr, length (sv_store sv))],
        sv_timer_queue := add_timer (sv_timer_queue sv) (length (sv_store sv)),
        sv_store := sv_store sv @ [p], sv_events := sv_events sv @ [SvConnect (length (sv_store sv))]\<rparr>))" (is "_ = Some ?sv2")
    by (simp add: socket_send_def)
  have table: "map_of (sv_peers sv @ [(addr, length (sv_store sv))]) addr = Some (length (sv_store sv))"
    using new by (simp add: map_add_def)
  obtain ep t sent where c2: "client_handle_frame (from_server u2 (beta_ack_bytes None n)) cli1 =
      Some (cli1\<lparr>cli_state := CsActive ep, cli_rto_timer := t, cli_events := cli_events cli1 @ [ClConnect],
        cli_sent := cli_sent cli1 @ sent\<rparr>)" "ep_state_id ep = Active"
    using client_accepts_beta_ack [OF cli1(1-3), of u2] client_connected_ok [OF cli1(6), of "\<lambda>_. True" u2 hs1] by auto
  show ?thesis
    using server_answers_alpha [of sip addr t1 r1 n sv] c1 c2 s2 hs(4) cli1(4,5) p(2) table
    by (intro exI [of _ "alpha_frame n"] exI [of _ "alpha_ack_bytes ?ack"] exI [of _ cli1]
        exI [of _ "beta_frame ?beta"] exI [of _ ?sv2] exI [of _ "length (sv_store sv)"] exI [of _ "beta_ack_bytes None n"]
        exI [of _ "cli1\<lparr>cli_state := CsActive ep, cli_rto_timer := t, cli_events := cli_events cli1 @ [ClConnect],
          cli_sent := cli_sent cli1 @ sent\<rparr>"] exI [of _ ep]) (simp add: socket_send_def)
qed

theorem handshake_completes_witness:
  "\<exists>cli sv alpha ack cli1 final cli2 ep.
    Client_new 77 ClientConfig_default = Some cli \<and> sv = ServerCore_new [1, 2] ServerConfig_default \<and> cli_sent cli = [alpha] \<and>
    server_handle_frame demo_sip (from_client (V4 [10, 0, 0, 1] 40000) 500 3 alpha) sv =
      Some (sv\<lparr>sv_sent := sv_sent sv @ [(ack, V4 [10, 0, 0, 1] 40000)]\<rparr>) \<and>
    client_handle_frame (from_server 30 ack) cli = Some cli1 \<and> client_handle_frame (from_server 60 final) cli1 = Some cli2 \<and>
    cli_state cli2 = CsActive ep \<and> cli_events cli2 = [ClConnect]"
proof -
  define sv where "sv = ServerCore_new [1, 2] ServerConfig_default"
  obtain cli where cli: "Client_new 77 ClientConfig_default = Some cli"
    using client_new_exact by blast
  have inv: "server_inv_on [] {} sv"
    by (simp add: sv_def server_core_inv demo_server_config)
  have table: "map_of (sv_peers sv) (V4 [10, 0, 0, 1] 40000) = None" "length (sv_peers sv) < svc_peer_count_max (sv_config sv)"
    by (simp_all add: sv_def ServerCore_new_def ServerConfig_default_def PEER_COUNT_MAX_DEFAULT_def)
  have time: "(500 :: u64) \<le> 900" "(900 :: u64) - 500 < 10000"
    by simp_all
  show ?thesis
    using handshake_completes [OF demo_client_config cli inv table time, of demo_sip 3 30 4 60] cli sv_def
    by blast
qed

section \<open>The nonce\<close>

text \<open>An acknowledgement with the nonce the client drew, and one that moves the client.\<close>

definition demo_ack :: HandshakeAlphaAckFrame where
  "demo_ack = \<lparr>haa_server_params = \<lparr>packet_size_in_max = 0xFFFFFFFF, packet_size_out_max = 0xFFFFFFFF\<rparr>,
     haa_client_nonce = 77, haa_server_nonce = 5, haa_server_timestamp = 6, haa_server_mac = 7\<rparr>"

theorem handshake_needs_nonce_witness:
  "\<exists>cli cli' f. Client_new 77 ClientConfig_default = Some cli \<and>
    client_handle_frame (from_server 30 (alpha_ack_bytes demo_ack)) cli = Some cli' \<and> cli' \<noteq> cli \<and>
    (payload (alpha_ack_bytes demo_ack) \<bind>
      SimplePayloadRead_read (Serial_read HANDSHAKE_ALPHA_ACK_SIZE HandshakeAlphaAckFrame_read)) = Some (Some f) \<and>
    haa_client_nonce f = 77"
proof -
  obtain cli hs where cli: "Client_new 77 ClientConfig_default = Some cli" "cli_state cli = CsHandshake hs"
      "hs_phase hs = PhaseAlpha" "hs_local_nonce hs = 77"
    using client_new_exact [of 77 ClientConfig_default] by auto
  obtain cli' where r: "client_handle_frame (from_server 30 (alpha_ack_bytes demo_ack)) cli = Some cli'"
      "cli_sent cli' = cli_sent cli @ [beta_frame (client_answer demo_ack)]"
    using client_answers_alpha_ack [OF cli(2,3), of demo_ack 30] cli(4) by (simp add: demo_ack_def client_send_frame_def)
  then have "cli' \<noteq> cli"
    by auto
  with handshake_needs_nonce [OF cli(2) r(1)] cli(1,3,4) r(1) show ?thesis
    by (auto simp: from_server_def)
qed

end
