(* ===== verification/Session.thy ===== *)
theory Session
  imports Server_Side Handshake
begin

text \<open>
  A client and a server, with any number of other peers, over a network between them: the
  packets that the application of one side hands over, and those that the other is given.
\<close>

section \<open>The system\<close>

text \<open>
  The client and the server, with the events handed to their applications and the packets taken
  from them. A frame that reaches the client was sent by the server to the client's address;
  one that reaches the server with that address was sent by the client. The network may lose,
  repeat, delay and reorder frames, and others may send what they like from other addresses.
\<close>

record Session =
  se_client :: Client
  se_client_seen :: "ClientEvent list"
  se_client_taken :: "(bytes \<times> SendMode) list"
  se_server :: Server
  se_server_seen :: "ServerEvent list"
  se_server_taken :: "(bytes \<times> SendMode) list"

definition session_start :: "bytes \<Rightarrow> ServerConfig \<Rightarrow> u32 \<Rightarrow> ClientConfig \<Rightarrow> Session rust" where
  "session_start key server_config random client_config =
     map_option (\<lambda>cli. \<lparr>se_client = cli, se_client_seen = [], se_client_taken = [],
       se_server = ServerCore_new key server_config, se_server_seen = [], se_server_taken = []\<rparr>)
     (Client_new random client_config)"

inductive session_step :: "SipHash \<Rightarrow> SocketAddr \<Rightarrow> Session \<Rightarrow> Session \<Rightarrow> bool" for sip addr where
  client_acts: "client_op op (se_client s) = Some (cli, es) \<Longrightarrow>
     (\<And>cr. op = CoFrame cr \<Longrightarrow> client_received_ok cr \<and> (cr_bytes cr, addr) \<in> set (sv_sent (se_server s))) \<Longrightarrow>
     session_step sip addr s (s\<lparr>se_client := cli, se_client_seen := se_client_seen s @ es,
       se_client_taken := se_client_taken s @ client_takes op (se_client s)\<rparr>)"
| server_acts: "server_op sip op (se_server s) = Some (sv, es) \<Longrightarrow>
     (\<And>rc. op = SoFrame rc \<Longrightarrow> received_ok rc \<and> (rc_addr rc = addr \<longrightarrow> rc_bytes rc \<in> set (cli_sent (se_client s)))) \<Longrightarrow>
     session_step sip addr s (s\<lparr>se_server := sv, se_server_seen := se_server_seen s @ es,
       se_server_taken := se_server_taken s @ server_takes addr op (se_server s)\<rparr>)"

abbreviation session_steps :: "SipHash \<Rightarrow> SocketAddr \<Rightarrow> Session \<Rightarrow> Session \<Rightarrow> bool" where
  "session_steps sip addr \<equiv> (session_step sip addr)\<^sup>*\<^sup>*"

text \<open>The packets that have arrived at each side, handed out or waiting in its event queue.\<close>

definition to_server :: "SocketAddr \<Rightarrow> Session \<Rightarrow> bytes list" where
  "to_server addr s = packets_from (at_addr addr (se_server s)) (se_server_seen s @ sv_events (se_server s))"

definition to_client :: "Session \<Rightarrow> bytes list" where
  "to_client s = client_packets (se_client_seen s @ cli_events (se_client s))"

definition delivers :: "(bytes \<times> SendMode) list \<Rightarrow> bytes list \<Rightarrow> bool" where
  "delivers q rs \<longleftrightarrow> (\<exists>ps us. rs \<in> shuffles ps us \<and> prefix ps (reliable_of q) \<and> subseq us (unreliable_of q))"

text \<open>Fewer fragments and frames than the 32-bit identifiers can number.\<close>

definition few :: "(bytes \<times> SendMode) list \<Rightarrow> nat \<Rightarrow> bool" where
  "few q frames \<longleftrightarrow> fragment_count (reliable_of q) + unat FRAGMENT_WINDOW_SIZE < 2 ^ 32 \<and>
     fragment_count (unreliable_of q) < 2 ^ 32 \<and> frames + unat SEGMENT_WINDOW_SIZE < 2 ^ 32"

definition session_young :: "SocketAddr \<Rightarrow> Session \<Rightarrow> bool" where
  "session_young addr s \<longleftrightarrow> few (se_client_taken s) (length (cli_sent (se_client s))) \<and>
     few (se_server_taken s) (length (filter (\<lambda>f. snd f = addr) (sv_sent (se_server s))))"

section \<open>The two sides\<close>

definition session_inv :: "EndpointConfig \<Rightarrow> EndpointConfig \<Rightarrow> SocketAddr \<Rightarrow> Session \<Rightarrow> bool" where
  "session_inv ca cb addr s \<longleftrightarrow> client_inv (se_client_seen s) (se_client s) \<and> server_inv_on (se_server_seen s) {} (se_server s) \<and>
     (one_peer addr (se_server s) \<longrightarrow> (\<exists>a b. paired ca cb a b \<and> client_is ca (se_client_seen s) (se_client_taken s) (se_client s) a \<and>
        server_is cb addr {} (se_server_seen s) (se_server_taken s) (se_server s) b))"

lemma session_inv_sides:
  assumes "session_inv ca cb addr s" and "one_peer addr (se_server s)"
  shows "\<exists>a b. paired ca cb a b \<and> client_is ca (se_client_seen s) (se_client_taken s) (se_client s) a \<and>
    server_is cb addr {} (se_server_seen s) (se_server_taken s) (se_server s) b"
  using assms unfolding session_inv_def by blast

lemma session_inv_step:
  assumes "session_step sip addr s s'" and "session_inv ca cb addr s"
  shows "session_inv ca cb addr s'"
  using assms
proof (cases rule: session_step.cases)
  case (client_acts op cli es)
  have inv: "client_inv (se_client_seen s) (se_client s)"
    using assms(2) by (simp add: session_inv_def)
  have "client_inv (se_client_seen s @ es) cli"
    using inv_client_op [OF inv, of op] client_acts(2,3) by auto
  moreover have "\<exists>a' b. paired ca cb a' b \<and> client_is ca (se_client_seen s @ es) (se_client_taken s @ client_takes op (se_client s)) cli a' \<and>
      server_is cb addr {} (se_server_seen s) (se_server_taken s) (se_server s) b" if one: "one_peer addr (se_server s)"
  proof -
    obtain a b where ab: "paired ca cb a b" "client_is ca (se_client_seen s) (se_client_taken s) (se_client s) a"
        "server_is cb addr {} (se_server_seen s) (se_server_taken s) (se_server s) b"
      using session_inv_sides [OF assms(2) one] by blast
    have "client_hears (sd_sent b) op"
      using client_acts(3) ab(3) by (auto simp: client_hears_def server_is_def)
    then obtain a' where "side_steps (sd_sent b) a a'"
        "client_is ca (se_client_seen s @ es) (se_client_taken s @ client_takes op (se_client s)) cli a'"
      using client_op_side [OF ab(2) inv _ client_acts(2)] by blast
    with paired_steps [OF _ ab(1)] ab(3) show ?thesis
      by blast
  qed
  ultimately show ?thesis
    using assms(2) client_acts(1) by (simp add: session_inv_def)
next
  case (server_acts op sv es)
  have inv: "server_inv_on (se_server_seen s) {} (se_server s)"
    using assms(2) by (simp add: session_inv_def)
  have "server_inv_on (se_server_seen s @ es) {} sv"
    using inv_server_op [OF inv, of op sip] server_acts(2,3) by auto
  moreover have "\<exists>a b'. paired ca cb a b' \<and> client_is ca (se_client_seen s) (se_client_taken s) (se_client s) a \<and>
      server_is cb addr {} (se_server_seen s @ es) (se_server_taken s @ server_takes addr op (se_server s)) sv b'" if one: "one_peer addr sv"
  proof -
    obtain a b where ab: "paired ca cb a b" "client_is ca (se_client_seen s) (se_client_taken s) (se_client s) a"
        "server_is cb addr {} (se_server_seen s) (se_server_taken s) (se_server s) b"
      using session_inv_sides [OF assms(2) one_peer_earlier [OF addrs_op [OF server_acts(2)] one]] by blast
    have "server_hears (sd_sent a) addr op"
      using server_acts(3) ab(2) by (auto simp: server_hears_def client_is_def)
    then obtain b' where "side_steps (sd_sent a) b b'"
        "server_is cb addr {} (se_server_seen s @ es) (se_server_taken s @ server_takes addr op (se_server s)) sv b'"
      using server_op_side [OF ab(3) inv one _ server_acts(2)] by blast
    with paired_steps [of a b b' cb ca] ab(1,2) show ?thesis
      by (auto simp: paired_sym [of ca cb])
  qed
  ultimately show ?thesis
    using assms(2) server_acts(1) by (simp add: session_inv_def)
qed

lemma session_inv_steps: "session_steps sip addr s s' \<Longrightarrow> session_inv ca cb addr s \<Longrightarrow> session_inv ca cb addr s'"
  by (induction rule: rtranclp_induct) (auto intro: session_inv_step)

lemma session_inv_start:
  assumes "ServerConfig_validate sc = Some ()" and "ClientConfig_validate cc = Some ()" and "session_start key sc random cc = Some s"
  obtains ca cb ws_a burst_a ws_b burst_b where "prio_Config_new ws_a burst_a = Some (ec_prio_config ca)"
    "prio_Config_new ws_b burst_b = Some (ec_prio_config cb)" "session_inv ca cb addr s"
proof -
  obtain cli where cli: "Client_new random cc = Some cli" "s = \<lparr>se_client = cli, se_client_seen = [], se_client_taken = [],
       se_server = ServerCore_new key sc, se_server_seen = [], se_server_taken = []\<rparr>"
    using assms(3) by (auto simp: session_start_def)
  obtain ca a ws_a burst_a where a: "client_ec cc ca" "prio_Config_new ws_a burst_a = Some (ec_prio_config ca)" "fresh_side ca a"
      "client_is ca [] [] cli a" "client_inv [] cli"
    by (rule client_is_new [OF assms(2) cli(1)])
  obtain cb b ws_b burst_b where b: "prio_Config_new ws_b burst_b = Some (ec_prio_config cb)" "fresh_side cb b"
      "server_is cb addr {} [] [] (ServerCore_new key sc) b"
    by (rule server_is_new [OF assms(1)])
  have "session_inv ca cb addr s"
    unfolding session_inv_def cli(2) using a(4,5) b(3) paired_start [OF a(3) b(2)] server_core_inv [OF assms(1), of key]
    by (intro conjI impI exI [of _ a] exI [of _ b]) simp_all
  with a(2) b(1) show thesis
    by (rule that)
qed

section \<open>Delivery\<close>

lemma fragment_count_mono: "subseq ps qs \<Longrightarrow> fragment_count ps \<le> fragment_count qs"
  by (induction rule: list_emb.induct) (auto simp: fragment_count_def)

lemma delivery_mono:
  assumes "\<exists>ps us. r \<in> shuffles ps us \<and> prefix ps rel \<and> subseq us unrel" and "prefix rel (reliable_of q)" and "subseq unrel (unreliable_of q)"
  shows "delivers q r"
  using assms unfolding delivers_def by (meson prefix_order.trans subseq_order.trans)

lemma side_delivers:
  assumes "paired ca cb a b" and "prio_Config_new ws_a burst_a = Some (ec_prio_config ca)"
    and "prio_Config_new ws_b burst_b = Some (ec_prio_config cb)"
    and sub: "prefix (sd_rel a) (reliable_of q)" "subseq (sd_unrel a) (unreliable_of q)" and "few q n" and "length (sd_sent a) \<le> n"
  shows "delivers q (sd_received b)"
proof -
  have "cn_young (view a b)"
    using assms(6,7) fragment_count_mono [OF prefix_imp_subseq [OF sub(1)]] fragment_count_mono [OF sub(2)]
    by (simp add: cn_young_def view_def few_def)
  from delivery_mono [OF paired_delivery [OF assms(1-3) this] sub] show ?thesis .
qed

lemma client_is_sub: "client_is ec hist q cli a \<Longrightarrow> prefix (sd_rel a) (reliable_of q) \<and> subseq (sd_unrel a) (unreliable_of q)"
  by (auto simp: client_is_def fresh_side_def split: ClientState.splits)

lemma core_delivery:
  assumes "ServerConfig_validate server_config = Some ()" and "ClientConfig_validate client_config = Some ()"
    and "session_start key server_config random client_config = Some s0" and "session_steps sip addr s0 s"
    and "one_peer addr (se_server s)" and "session_young addr s"
  shows "delivers (se_client_taken s) (to_server addr s) \<and> delivers (se_server_taken s) (to_client s)"
proof -
  obtain ca cb ws_a burst_a ws_b burst_b where c: "prio_Config_new ws_a burst_a = Some (ec_prio_config ca)"
      "prio_Config_new ws_b burst_b = Some (ec_prio_config cb)" "session_inv ca cb addr s0"
    by (rule session_inv_start [OF assms(1-3)])
  obtain a b where ab: "paired ca cb a b" "client_is ca (se_client_seen s) (se_client_taken s) (se_client s) a"
      "server_is cb addr {} (se_server_seen s) (se_server_taken s) (se_server s) b"
    using session_inv_sides [OF session_inv_steps [OF assms(4) c(3)] assms(5)] by blast
  have young: "few (se_client_taken s) (length (cli_sent (se_client s)))"
      "few (se_server_taken s) (length (filter (\<lambda>f. snd f = addr) (sv_sent (se_server s))))"
    using assms(6) by (simp_all add: session_young_def)
  have "sd_received b = to_server addr s" "sd_received a = to_client s" "length (sd_sent a) \<le> length (cli_sent (se_client s))"
    using ab(2,3) by (simp_all add: to_server_def to_client_def client_is_def server_is_def)
  moreover have "length (sd_sent b) \<le> length (filter (\<lambda>f. snd f = addr) (sv_sent (se_server s)))"
      "sd_rel b = reliable_of (se_server_taken s)" "sd_unrel b = unreliable_of (se_server_taken s)"
    using ab(3) by (simp_all add: server_is_def)
  ultimately show ?thesis
    using side_delivers [OF ab(1) c(1,2) _ _ young(1)] client_is_sub [OF ab(2)]
      side_delivers [OF ab(1) [unfolded paired_sym [of ca cb]] c(2,1) _ _ young(2)] by simp
qed

text \<open>
  Why only one connection: a handshake request is good for ten seconds and nothing marks it as
  used. When the peer it made is gone (a connection can time out sooner), the same request
  repeated by the network makes a second peer, which knows nothing of the first and would take
  the repeated frames of the first connection for its own.
\<close>

lemma replayed_request_second_peer:
  assumes inv: "server_inv_on hist {} sv" and rc: "rc_bytes rc = beta_frame f"
    and old: "at_addr (rc_addr rc) sv pid" and gone: "map_of (sv_peers sv) (rc_addr rc) = None"
    and room: "length (sv_peers sv) < svc_peer_count_max (sv_config sv)"
    and params: "connection_params_compatible (hb_client_params f)
      \<lparr>packet_size_in_max = 0xFFFFFFFF, packet_size_out_max = 0xFFFFFFFF\<rparr>"
    and mac: "hb_server_mac f =
      mac_compute sip (sv_hasher sv) (rc_addr rc) (hb_client_nonce f) (hb_server_nonce f) (hb_server_timestamp f)"
    and fresh: "ucast (rc_now_ms rc) - hb_server_timestamp f < HANDSHAKE_TIMEOUT_MS"
  shows "\<exists>sv'. server_handle_frame sip rc sv = Some sv' \<and>
    map_of (sv_peers sv') (rc_addr rc) = Some (length (sv_store sv)) \<and>
    sv_events sv' = sv_events sv @ [SvConnect (length (sv_store sv))] \<and> \<not> one_peer (rc_addr rc) sv'"
proof -
  let ?n = "length (sv_store sv)"
  obtain p where p: "add_peer (rc_addr rc) sv = Some (sv\<lparr>sv_peers := sv_peers sv @ [(rc_addr rc, ?n)],
      sv_timer_queue := add_timer (sv_timer_queue sv) ?n,
      sv_store := sv_store sv @ [p], sv_events := sv_events sv @ [SvConnect ?n]\<rparr>)" "pe_addr p = rc_addr rc"
    using add_peer_inv [OF inv gone room] by blast
  define sv' where "sv' = socket_send (beta_ack_bytes None (hb_client_nonce f)) (rc_addr rc)
    (sv\<lparr>sv_peers := sv_peers sv @ [(rc_addr rc, ?n)], sv_timer_queue := add_timer (sv_timer_queue sv) ?n,
      sv_store := sv_store sv @ [p], sv_events := sv_events sv @ [SvConnect ?n]\<rparr>)"
  have "server_handle_frame sip rc sv = Some sv'"
    using server_handle_beta_frame [OF rc mac fresh] p(1) gone room params by (simp add: beta_error_def sv'_def)
  moreover have "sv_store sv' = sv_store sv @ [p]" "sv_peers sv' = sv_peers sv @ [(rc_addr rc, ?n)]"
      "sv_events sv' = sv_events sv @ [SvConnect ?n]"
    by (simp_all add: sv'_def socket_send_def)
  moreover from this old p(2) have "at_addr (rc_addr rc) sv' pid" "at_addr (rc_addr rc) sv' ?n" "pid \<noteq> ?n"
    by (auto simp: at_addr_def nth_append)
  ultimately show ?thesis
    using gone by (auto simp: one_peer_def map_add_def)
qed

text \<open>
  C2: the delivery of C1 for every interleaving of single frames, timers and calls. Start a server and a
  client and let them do anything, in any order: calls of the applications, frames and timers,
  a handshake that is repeated or fails, other peers of the server, a network that loses,
  repeats, delays and reorders frames but does not invent any between these two. As long as the
  server has accepted no more than one connection from the client's address (see the lemma above)
  and the identifiers have not gone round their 32 bits, the packets that arrive in both directions are
  those the other application sent as reliable, from the first on, in order, without a gap and
  without a repetition, and between them packets it sent as unreliable, each whole, in order
  and at most once.
\<close>

theorem session_delivery:
  assumes "ServerConfig_validate server_config = Some ()" and "ClientConfig_validate client_config = Some ()"
    and "session_start key server_config random client_config = Some s0" and "session_steps sip addr s0 s"
    and "one_peer addr (se_server s)" and "session_young addr s"
  shows "delivers (se_client_taken s) (to_server addr s) \<and> delivers (se_server_taken s) (to_client s)"
  using core_delivery [OF assms] .

section \<open>A session with a packet\<close>

text \<open>
  A client takes a packet before it is connected; the four frames of the handshake arrive, and
  then the frame with the packet.
\<close>

abbreviation demo_addr :: SocketAddr where
  "demo_addr \<equiv> V4 [10, 0, 0, 1] 40000"

lemma demo_ec: "client_ec ClientConfig_default demo_endpoint_config" "server_ec ServerConfig_default demo_endpoint_config"
  using demo_prio
  by (simp_all add: client_ec_def server_ec_def demo_endpoint_config_def ClientConfig_default_def ServerConfig_default_def
      ChannelBalanceConfig_default_def prio_Config_from_def CLIENT_TIMEOUT_DEFAULT_MS_def CONNECTION_TIMEOUT_DEFAULT_MS_def)

lemma demo_client_connects:
  assumes "Endpoint_new demo_endpoint_config = Some ep" and "endpoint_flush (\<lambda>k. True) 0 (demo_sender ep) = Some (a', out)"
    and "hs_packet_buffer hs = [(demo_packet, SendReliable)]" and "cli_config cli = ClientConfig_default"
  shows "client_connected (\<lambda>k. True) 0 hs cli = Some (client_with a' (OnConnect # out) (cli\<lparr>cli_rto_timer := None\<rparr>))"
proof -
  have "\<lparr>ec_timeout_time_ms = clc_connection_timeout_ms ClientConfig_default, ec_prio_config = ec_prio_config demo_endpoint_config\<rparr> =
      demo_endpoint_config"
    using demo_ec(1) by (simp add: client_ec_def)
  moreover have "prio_Config_from (clc_channel_balance ClientConfig_default) = Some (ec_prio_config demo_endpoint_config)"
    using demo_ec(1) by (simp add: client_ec_def)
  ultimately show ?thesis
    using assms by (simp add: client_connected_def demo_sender_def endpoint_init_def)
qed

lemma demo_server_receives:
  assumes "map_of (sv_peers sv) addr = Some pid" and "verify_minimum_size frame" "verify_crc frame = Some True"
      "read_type frame = Some (Some ft)" "payload frame = Some bs"
    and "endpoint_handle_frame (\<lambda>k. True) ft bs now (pe_endpoint (sv_store sv ! pid)) = Some (b', out)" and "packets_out out \<noteq> []"
  shows "server_handle_frame sip (from_client addr now r frame) sv = Some (with_endpoint pid b' out sv)"
proof -
  have "ft \<noteq> HandshakeAlpha" "ft \<noteq> HandshakeBeta"
    using assms(6,7) by (auto simp: endpoint_handle_frame_def split: StateId.splits)
  with assms(1-6) show ?thesis
    by (cases ft) (simp_all add: server_handle_frame_def server_handle_frame_other_def peer_handle_frame_def from_client_def)
qed

lemma demo_client_run:
  assumes new: "Endpoint_new demo_endpoint_config = Some ep" "endpoint_flush (\<lambda>k. True) 0 (demo_sender ep) = Some (a', out)"
    and ack: "haa_client_nonce ack = 77" "haa_server_params ack = \<lparr>packet_size_in_max = 0xFFFFFFFF, packet_size_out_max = 0xFFFFFFFF\<rparr>"
  obtains cli0 cli1 cli2 cli3 where "Client_new 77 ClientConfig_default = Some cli0" "client_accepts cli0"
    "client_op (CoEnqueue 0 demo_packet SendReliable) cli0 = Some (cli1, [])"
    "client_op (CoFrame (from_server 0 (alpha_ack_bytes ack))) cli1 = Some (cli2, [])"
    "client_op (CoFrame (from_server 0 (beta_ack_bytes None 77))) cli2 = Some (cli3, [])"
    "cli_sent cli1 = [alpha_frame 77]" "cli_sent cli2 = [alpha_frame 77, beta_frame (client_answer ack)]"
    "cli_sent cli3 = [alpha_frame 77, beta_frame (client_answer ack)] @ sent_frames out"
proof -
  obtain cli0 hs where cli0: "Client_new 77 ClientConfig_default = Some cli0" "cli_state cli0 = CsHandshake hs" "hs_phase hs = PhaseAlpha"
      "hs_local_nonce hs = 77" "hs_packet_buffer hs = []" "cli_sent cli0 = [alpha_frame 77]" "cli_config cli0 = ClientConfig_default"
    using client_new_exact [of 77 ClientConfig_default] by auto
  define hs1 where "hs1 = hs\<lparr>hs_packet_buffer := [(demo_packet, SendReliable)]\<rparr>"
  define cli1 where "cli1 = client_enqueue 0 demo_packet SendReliable cli0"
  have cli1: "cli_state cli1 = CsHandshake hs1" "hs_phase hs1 = PhaseAlpha" "hs_local_nonce hs1 = 77" "cli_sent cli1 = [alpha_frame 77]"
      "cli_config cli1 = ClientConfig_default"
    using cli0 by (simp_all add: cli1_def hs1_def client_enqueue_def)
  obtain cli2 hs2 where cli2: "client_handle_frame (from_server 0 (alpha_ack_bytes ack)) cli1 = Some cli2" "cli_state cli2 = CsHandshake hs2"
      "hs_phase hs2 = PhaseBeta" "hs_local_nonce hs2 = 77" "hs_packet_buffer hs2 = [(demo_packet, SendReliable)]"
      "cli_sent cli2 = [alpha_frame 77, beta_frame (client_answer ack)]" "cli_config cli2 = ClientConfig_default"
    using client_answers_alpha_ack [OF cli1(1,2), of ack 0] ack cli1 by (auto simp: client_send_frame_def hs1_def)
  have "client_handle_frame (from_server 0 (beta_ack_bytes None 77)) cli2 =
      Some (client_with a' (OnConnect # out) (cli2\<lparr>cli_rto_timer := None\<rparr>))"
    using client_accepts_beta_ack [OF cli2(2-4), of 0] demo_client_connects [OF new cli2(5,7)] by simp
  then show thesis
    using cli0(1,2,6) cli1(4) cli2(1,6)
    by (intro that [of cli0 cli1 cli2 "client_with a' (OnConnect # out) (cli2\<lparr>cli_rto_timer := None\<rparr>)"]) (simp_all add: cli1_def client_accepts_def client_with_exact)
qed

lemma demo_server_run:
  fixes sv0 :: Server
  defines "sv0 \<equiv> ServerCore_new [1, 2] ServerConfig_default"
  assumes new: "Endpoint_new demo_endpoint_config = Some ep"
    and frame: "verify_minimum_size frame" "verify_crc frame = Some True" "read_type frame = Some (Some ft)" "payload frame = Some bs"
      "endpoint_handle_frame (\<lambda>k. True) ft bs 905 (fst (endpoint_init ep)) = Some (b', out)" "packets_out out \<noteq> []"
    and ack: "ack = alpha_ack demo_sip 3 500 demo_addr sv0 77"
  obtains sv1 sv2 sv3 where
    "server_op demo_sip (SoFrame (from_client demo_addr 500 3 (alpha_frame 77))) sv0 = Some (sv1, [])"
    "server_op demo_sip (SoFrame (from_client demo_addr 900 4 (beta_frame (client_answer ack)))) sv1 = Some (sv2, [])"
    "server_op demo_sip (SoFrame (from_client demo_addr 905 5 frame)) sv2 = Some (sv3, [])"
    "sv_sent sv1 = [(alpha_ack_bytes ack, demo_addr)]"
    "sv_sent sv2 = [(alpha_ack_bytes ack, demo_addr), (beta_ack_bytes None 77, demo_addr)]"
    "addrs sv3 = [demo_addr]" "sv_events sv3 = SvConnect 0 # peer_events 0 out" "length (sv_sent sv3) = length (sent_frames out) + 2"
proof -
  let ?sv1 = "socket_send (alpha_ack_bytes ack) demo_addr sv0"
  have sv0: "sv_peers sv0 = []" "sv_store sv0 = []" "sv_events sv0 = []" "sv_sent sv0 = []" "sv_config sv0 = ServerConfig_default"
      "0 < svc_peer_count_max ServerConfig_default"
    by (simp_all add: sv0_def ServerCore_new_def ServerConfig_default_def PEER_COUNT_MAX_DEFAULT_def)
  have "server_inv_on [] {} ?sv1"
    by (simp add: sv0_def server_core_inv demo_server_config server_inv_send)
  then obtain sv where sv: "add_peer demo_addr ?sv1 = Some sv"
    using add_peer_inv [of "[]" ?sv1 demo_addr] sv0 by (auto simp: socket_send_def)
  have "server_ec (sv_config ?sv1) demo_endpoint_config"
    using demo_ec(2) sv0(5) by (simp add: socket_send_def)
  then have peer: "sv_sent sv = [(alpha_ack_bytes ack, demo_addr)]" "sv_peers sv = [(demo_addr, 0)]" "sv_events sv = [SvConnect 0]"
      "sv_store sv = [\<lparr>pe_addr = demo_addr, pe_data = None, pe_rto_timer = None, pe_endpoint = fst (endpoint_init ep)\<rparr>]"
    using add_peer_exact [OF sv] new sv0 by (force simp: socket_send_def)+
  define sv2 where "sv2 = socket_send (beta_ack_bytes None 77) demo_addr sv"
  have "server_handle_frame demo_sip (from_client demo_addr 900 4 (beta_frame (client_answer ack))) ?sv1 = Some sv2"
    using server_admits_beta [of sv0 demo_addr 500 900 ack demo_sip 3 77 4] sv0 ack sv by (simp add: sv2_def)
  moreover have "server_handle_frame demo_sip (from_client demo_addr 905 5 frame) sv2 = Some (with_endpoint 0 b' out sv2)"
    by (rule demo_server_receives [OF _ frame(1-4)]) (use frame(5,6) peer in \<open>simp_all add: sv2_def socket_send_def\<close>)
  moreover have "server_handle_frame demo_sip (from_client demo_addr 500 3 (alpha_frame 77)) sv0 = Some ?sv1"
    using server_answers_alpha [of demo_sip demo_addr 500 3 77 sv0] ack by simp
  moreover have "addrs sv2 = [demo_addr]" "0 < length (sv_store sv2)" "sv_events sv2 = [SvConnect 0]"
      "sv_sent sv2 = [(alpha_ack_bytes ack, demo_addr), (beta_ack_bytes None 77, demo_addr)]" "sv_sent ?sv1 = [(alpha_ack_bytes ack, demo_addr)]"
    using peer sv0(4) by (simp_all add: sv2_def socket_send_def addrs_def)
  moreover from this have "addrs (with_endpoint 0 b' out sv2) = [demo_addr]" "sv_events (with_endpoint 0 b' out sv2) = SvConnect 0 # peer_events 0 out"
      "length (sv_sent (with_endpoint 0 b' out sv2)) = length (sent_frames out) + 2"
    by (simp, simp_all add: with_endpoint_exact)
  ultimately show thesis
    by (intro that [of ?sv1 sv2 "with_endpoint 0 b' out sv2"]) (simp_all only: server_op.simps option.map)
qed

lemma alpha_frame_length: "length (alpha_frame n) = 1472"
proof -
  obtain bs where "write_handshake_alpha \<lparr>ha_protocol_id = PROTOCOL_ID, ha_client_nonce = n\<rparr> CLIENT_FRAME_SIZE_MAX = Some bs"
      "verify_handshake_alpha_size_and_crc bs CLIENT_FRAME_SIZE_MAX = Some True"
    using write_handshake_alpha_received [of CLIENT_FRAME_SIZE_MAX "\<lparr>ha_protocol_id = PROTOCOL_ID, ha_client_nonce = n\<rparr>"]
    by (auto simp: CLIENT_FRAME_SIZE_MAX_def)
  then show ?thesis
    by (auto simp: alpha_frame_def verify_handshake_alpha_size_and_crc_def CLIENT_FRAME_SIZE_MAX_def serial_consts split: if_splits)
qed

lemma demo_frames_fit:
  "received_ok (from_client addr now r (alpha_frame n))" "received_ok (from_client addr now r (beta_frame f))"
  "client_received_ok (from_server now (alpha_ack_bytes ack))" "client_received_ok (from_server now (beta_ack_bytes error n))"
  by (simp_all add: received_ok_def client_received_ok_def from_client_def from_server_def alpha_frame_length beta_frame_def
      HandshakeBetaFrame_enc_def length_acks SERVER_FRAME_SIZE_MAX_def CLIENT_FRAME_SIZE_MAX_def)

lemma frames_fit_sent: "frames_fit out \<Longrightarrow> bs \<in> set (sent_frames out) \<Longrightarrow> length bs \<le> FRAME_SIZE_MAX"
  by (induction out rule: sent_frames.induct) (auto simp: frames_fit_def)

lemma demo_session:
  obtains s0 s where "session_start [1, 2] ServerConfig_default 77 ClientConfig_default = Some s0" "session_steps demo_sip demo_addr s0 s"
    "se_client_taken s = [(demo_packet, SendReliable)]" "se_server_taken s = []" "to_server demo_addr s = [demo_packet]"
    "one_peer demo_addr (se_server s)" "length (cli_sent (se_client s)) \<le> 4098" "length (sv_sent (se_server s)) \<le> 4099"
proof -
  define sv0 where "sv0 = ServerCore_new [1, 2] ServerConfig_default"
  define ack where "ack = alpha_ack demo_sip 3 500 demo_addr sv0 77"
  obtain ep where new: "Endpoint_new demo_endpoint_config = Some ep"
    using Endpoint_new_wf [OF demo_endpoint_prio] by blast
  obtain a' out_a frame ft bs b' out_b where ex: "endpoint_flush (\<lambda>k. True) 0 (demo_sender ep) = Some (a', out_a)"
      "frame \<in> set (sent_frames out_a)" "length (sent_frames out_a) \<le> 4096" "frames_fit out_a" "packets_out out_a = []"
      "verify_minimum_size frame" "verify_crc frame = Some True" "read_type frame = Some (Some ft)" "payload frame = Some bs"
      "endpoint_handle_frame (\<lambda>k. True) ft bs 905 (fst (endpoint_init ep)) = Some (b', out_b)" "packets_out out_b = [demo_packet]"
      "length (sent_frames out_b) \<le> 4097"
    by (rule demo_exchange [OF new])
  have ack: "haa_client_nonce ack = 77" "haa_server_params ack = \<lparr>packet_size_in_max = 0xFFFFFFFF, packet_size_out_max = 0xFFFFFFFF\<rparr>"
    by (simp_all add: ack_def alpha_ack_def)
  obtain cli0 cli1 cli2 cli3 where cli: "Client_new 77 ClientConfig_default = Some cli0" "client_accepts cli0"
      "client_op (CoEnqueue 0 demo_packet SendReliable) cli0 = Some (cli1, [])"
      "client_op (CoFrame (from_server 0 (alpha_ack_bytes ack))) cli1 = Some (cli2, [])"
      "client_op (CoFrame (from_server 0 (beta_ack_bytes None 77))) cli2 = Some (cli3, [])"
      "cli_sent cli1 = [alpha_frame 77]" "cli_sent cli2 = [alpha_frame 77, beta_frame (client_answer ack)]"
      "cli_sent cli3 = [alpha_frame 77, beta_frame (client_answer ack)] @ sent_frames out_a"
    by (rule demo_client_run [OF new ex(1) ack])
  have "packets_out out_b \<noteq> []"
    by (simp add: ex(11))
  from demo_server_run [OF new ex(6-10) this ack_def [unfolded sv0_def]]
  obtain sv1 sv2 sv3 where sv:
      "server_op demo_sip (SoFrame (from_client demo_addr 500 3 (alpha_frame 77))) sv0 = Some (sv1, [])"
      "server_op demo_sip (SoFrame (from_client demo_addr 900 4 (beta_frame (client_answer ack)))) sv1 = Some (sv2, [])"
      "server_op demo_sip (SoFrame (from_client demo_addr 905 5 frame)) sv2 = Some (sv3, [])"
      "sv_sent sv1 = [(alpha_ack_bytes ack, demo_addr)]"
      "sv_sent sv2 = [(alpha_ack_bytes ack, demo_addr), (beta_ack_bytes None 77, demo_addr)]"
      "addrs sv3 = [demo_addr]" "sv_events sv3 = SvConnect 0 # peer_events 0 out_b" "length (sv_sent sv3) = length (sent_frames out_b) + 2"
    unfolding sv0_def by blast
  have "length frame \<le> SERVER_FRAME_SIZE_MAX"
    using frames_fit_sent [OF ex(4,2)] by (simp add: SERVER_FRAME_SIZE_MAX_def FRAME_SIZE_MAX_def)
  then have fits: "received_ok (from_client demo_addr 905 5 frame)"
    by (simp add: received_ok_def from_client_def)
  let ?s = "\<lambda>cli q sv. \<lparr>se_client = cli, se_client_seen = [], se_client_taken = q, se_server = sv, se_server_seen = [], se_server_taken = []\<rparr>"
  let ?q = "[(demo_packet, SendReliable)]" and ?step = "session_step demo_sip demo_addr"
  have "?step (?s cli0 [] sv0) (?s cli1 ?q sv0)"
    using client_acts [of "CoEnqueue 0 demo_packet SendReliable" "?s cli0 [] sv0" cli1 "[]"] cli(2,3) by simp
  moreover have "?step (?s cli1 ?q sv0) (?s cli1 ?q sv1)"
    using server_acts [of _ "SoFrame (from_client demo_addr 500 3 (alpha_frame 77))" "?s cli1 ?q sv0" sv1 "[]"] sv(1) cli(6) demo_frames_fit(1)
    by (simp add: from_client_def)
  moreover have "?step (?s cli1 ?q sv1) (?s cli2 ?q sv1)"
    using client_acts [of "CoFrame (from_server 0 (alpha_ack_bytes ack))" "?s cli1 ?q sv1" cli2 "[]"] cli(4) sv(4) demo_frames_fit(3)
    by (simp add: from_server_def)
  moreover have "?step (?s cli2 ?q sv1) (?s cli2 ?q sv2)"
    using server_acts [of _ "SoFrame (from_client demo_addr 900 4 (beta_frame (client_answer ack)))" "?s cli2 ?q sv1" sv2 "[]"] sv(2) cli(7)
      demo_frames_fit(2) by (simp add: from_client_def)
  moreover have "?step (?s cli2 ?q sv2) (?s cli3 ?q sv2)"
    using client_acts [of "CoFrame (from_server 0 (beta_ack_bytes None 77))" "?s cli2 ?q sv2" cli3 "[]"] cli(5) sv(5) demo_frames_fit(4)
    by (simp add: from_server_def)
  moreover have "?step (?s cli3 ?q sv2) (?s cli3 ?q sv3)"
    using server_acts [of _ "SoFrame (from_client demo_addr 905 5 frame)" "?s cli3 ?q sv2" sv3 "[]"] sv(3) cli(8) fits ex(2)
    by (simp add: from_client_def)
  ultimately have "session_steps demo_sip demo_addr (?s cli0 [] sv0) (?s cli3 ?q sv3)"
    by (meson converse_rtranclp_into_rtranclp rtranclp.rtrancl_refl)
  moreover have "session_start [1, 2] ServerConfig_default 77 ClientConfig_default = Some (?s cli0 [] sv0)"
    using cli(1) by (simp add: session_start_def sv0_def)
  moreover have "to_server demo_addr (?s cli3 ?q sv3) = [demo_packet]" "one_peer demo_addr sv3"
    using sv(6,7) ex(11) by (simp_all add: to_server_def at_addr_addrs one_peer_def)
  ultimately show thesis
    using cli(8) ex(3,12) sv(8) by (intro that [of "?s cli0 [] sv0" "?s cli3 ?q sv3"]) simp_all
qed

theorem session_delivery_witness:
  "\<exists>s0 s. session_start [1, 2] ServerConfig_default 77 ClientConfig_default = Some s0 \<and> session_steps demo_sip demo_addr s0 s \<and>
     to_server demo_addr s = [demo_packet] \<and> delivers (se_client_taken s) (to_server demo_addr s) \<and>
     delivers (se_server_taken s) (to_client s)"
proof -
  obtain s0 s where s: "session_start [1, 2] ServerConfig_default 77 ClientConfig_default = Some s0" "session_steps demo_sip demo_addr s0 s"
      "se_client_taken s = [(demo_packet, SendReliable)]" "se_server_taken s = []" "to_server demo_addr s = [demo_packet]"
      "one_peer demo_addr (se_server s)" "length (cli_sent (se_client s)) \<le> 4098" "length (sv_sent (se_server s)) \<le> 4099"
    by (rule demo_session)
  have "length (filter (\<lambda>f. snd f = demo_addr) (sv_sent (se_server s))) \<le> 4099"
    using s(8) length_filter_le order_trans by blast
  then have "session_young demo_addr s"
    using s(7) by (simp add: session_young_def few_def s(3,4) reliable_of_def unreliable_of_def fragment_count_def demo_cut
        FRAGMENT_WINDOW_SIZE_def SEGMENT_WINDOW_SIZE_def)
  from session_delivery [OF demo_server_config demo_client_config s(1,2,6) this] s(1,2,5) show ?thesis
    by blast
qed

end
