(* ===== verification/Session_Calls.thy ===== *)
theory Session_Calls
  imports Session Client_Runs
begin

text \<open>
  The same system at the interface of the library: a bound server and a connecting client, whose
  applications poll, wait and call. Every such call is a sequence of the pieces of \<open>Session\<close>.
\<close>

section \<open>Calls of the server\<close>

text \<open>What the socket hands over under the client's address was sent by the client.\<close>

definition server_reads :: "SocketAddr \<Rightarrow> bytes list \<Rightarrow> Round \<Rightarrow> bool" where
  "server_reads addr wire r \<longleftrightarrow>
     (\<forall>d \<in> set (datagrams (rd_answers r)). snd d = addr \<longrightarrow> take SERVER_FRAME_SIZE_MAX (fst d) \<in> set wire)"

fun server_input_reads :: "SocketAddr \<Rightarrow> bytes list \<Rightarrow> ServerInput \<Rightarrow> bool" where
  "server_input_reads addr wire (InPoll r) = server_reads addr wire r"
| "server_input_reads addr wire (InWait fuel world) = (\<forall>k w. server_reads addr wire (world k w))"
| "server_input_reads addr wire _ = True"

fun server_input_takes :: "SocketAddr \<Rightarrow> ServerInput \<Rightarrow> Server \<Rightarrow> (bytes \<times> SendMode) list" where
  "server_input_takes addr (InEnqueue pid p mode now) sv = peer_takes addr pid sv (CallEnqueue p mode)"
| "server_input_takes addr (InSend pid p mode coins now) sv = peer_takes addr pid sv (CallEnqueue p mode)"
| "server_input_takes addr _ sv = []"

lemma server_piece:
  assumes "server_op sip op (se_server s) = Some (sv, es)" and "\<And>rc. op \<noteq> SoFrame rc" and "server_takes addr op (se_server s) = q"
  shows "session_steps sip addr s (s\<lparr>se_server := sv, se_server_seen := se_server_seen s @ es, se_server_taken := se_server_taken s @ q\<rparr>)"
  using server_acts [OF assms(1), of addr] assms(2,3) by auto

definition server_delivered :: "SocketAddr \<Rightarrow> Session \<Rightarrow> Received \<Rightarrow> bool" where
  "server_delivered addr s rc \<longleftrightarrow> received_ok rc \<and> (rc_addr rc = addr \<longrightarrow> rc_bytes rc \<in> set (cli_sent (se_client s)))"

lemma server_process_steps:
  "server_process sip rcs (se_server s) = Some sv \<Longrightarrow> \<forall>rc \<in> set rcs. server_delivered addr s rc \<Longrightarrow>
     session_steps sip addr s (s\<lparr>se_server := sv\<rparr>)"
proof (induction rcs arbitrary: s)
  case Nil
  then show ?case
    by (cases s) simp
next
  case (Cons rc rcs)
  obtain sv1 where sv1: "server_handle_frame sip rc (se_server s) = Some sv1" "server_process sip rcs sv1 = Some sv"
    using Cons.prems(1) by (auto simp: bind_eq_Some_conv)
  have "session_step sip addr s (s\<lparr>se_server := sv1\<rparr>)"
    using server_acts [of sip "SoFrame rc" s sv1 "[]" addr] sv1(1) Cons.prems(2) by (auto simp: server_delivered_def)
  moreover have "session_steps sip addr (s\<lparr>se_server := sv1\<rparr>) (s\<lparr>se_server := sv\<rparr>)"
    using Cons.IH [of "s\<lparr>se_server := sv1\<rparr>"] sv1(2) Cons.prems(2) by (simp add: server_delivered_def)
  ultimately show ?case
    by (rule converse_rtranclp_into_rtranclp)
qed

lemma receive_all_reads:
  "rc \<in> set (receive_all epoch n env ds) \<Longrightarrow> \<exists>d \<in> set ds. rc_bytes rc = take n (fst d) \<and> rc_addr rc = snd d"
  by (induction epoch n env ds rule: receive_all.induct) (auto simp: Server.received_def)

lemma server_round_steps:
  assumes room: "socket_room (so_socket_rx so) = SERVER_FRAME_SIZE_MAX" and core: "so_core so = se_server s"
    and reads: "server_reads addr (cli_sent (se_client s)) r" and run: "server_round sip wait r so = Some so'"
  shows "session_steps sip addr s (s\<lparr>se_server := so_core so'\<rparr>)"
proof -
  obtain rx' ds where f: "set ds \<subseteq> set (datagrams (rd_answers r))"
      "(if wait then server_handle_frames_wait sip (so_epoch so) (rd_env r) (rd_poll r) (rd_answers r) (so_socket_rx so) (so_core so)
        else server_handle_frames sip (so_epoch so) (rd_env r) (rd_answers r) (so_socket_rx so) (so_core so)) =
       map_option (Pair rx') (server_process sip (receive_all (so_epoch so) SERVER_FRAME_SIZE_MAX (rd_env r) ds) (so_core so))"
  proof (cases wait)
    case True
    define ds where "ds = (if \<exists>n > 0. io_bind (po_modify (rd_poll r)) (\<lambda>_. po_wait (rd_poll r)) = Inr n then datagrams (rd_answers r) else [])"
    have sub: "set ds \<subseteq> set (datagrams (rd_answers r))"
      by (auto simp: ds_def)
    obtain rx' where "server_handle_frames_wait sip (so_epoch so) (rd_env r) (rd_poll r) (rd_answers r) (so_socket_rx so) (so_core so) =
        map_option (Pair rx') (server_process sip (receive_all (so_epoch so) SERVER_FRAME_SIZE_MAX (rd_env r) ds) (so_core so))"
      using server_handle_frames_wait_exact [of "so_socket_rx so" sip "so_epoch so" "rd_env r" "rd_poll r" "rd_answers r" "so_core so"]
      unfolding room ds_def by blast
    then show thesis
      by (intro that [OF sub]) (simp only: True if_True)
  next
    case False
    obtain rx' where "server_handle_frames sip (so_epoch so) (rd_env r) (rd_answers r) (so_socket_rx so) (so_core so) =
        map_option (Pair rx') (server_process sip (receive_all (so_epoch so) SERVER_FRAME_SIZE_MAX (rd_env r) (datagrams (rd_answers r))) (so_core so))"
      using server_handle_frames_exact [of "so_socket_rx so" sip "so_epoch so" "rd_env r" "rd_answers r" "so_core so"]
      unfolding room by blast
    then show thesis
      using False by (intro that [of "datagrams (rd_answers r)" rx']) simp_all
  qed
  then obtain sv1 sv2 where sv: "server_process sip (receive_all (so_epoch so) SERVER_FRAME_SIZE_MAX (rd_env r) ds) (se_server s) = Some sv1"
      "handle_timeouts (round_ticks (so_epoch so) r) sv1 = Some sv2" "so_core so' = sv2"
    using run core by (auto simp: server_round_def bind_eq_Some_conv simp del: if_split)
  have "server_delivered addr s rc" if rc: "rc \<in> set (receive_all (so_epoch so) SERVER_FRAME_SIZE_MAX (rd_env r) ds)" for rc
    using receive_all_reads [OF rc] received_all_fit rc reads f(1) by (fastforce simp: server_delivered_def server_reads_def)
  then have "session_steps sip addr s (s\<lparr>se_server := sv1\<rparr>)"
    using server_process_steps [OF sv(1)] by blast
  moreover have "session_steps sip addr (s\<lparr>se_server := sv1\<rparr>) (s\<lparr>se_server := sv2\<rparr>)"
    using server_piece [of sip "SoTimeouts (round_ticks (so_epoch so) r)" "s\<lparr>se_server := sv1\<rparr>" sv2 "[]" addr "[]"] sv(2) by simp
  ultimately show ?thesis
    using sv(3) by (simp add: rtranclp_trans)
qed

lemma server_pop_steps:
  assumes "so_core so = se_server s" and "server_pop_event so = (so', e)"
  shows "session_steps sip addr s (s\<lparr>se_server := so_core so',
    se_server_seen := se_server_seen s @ (case e of Some e \<Rightarrow> [e] | None \<Rightarrow> [])\<rparr>)"
proof -
  have "server_op sip SoPop (se_server s) = Some (so_core so', case e of Some e \<Rightarrow> [e] | None \<Rightarrow> [])"
    using assms by (auto simp: server_pop_event_def split: prod.splits)
  from server_piece [OF this, of addr "[]"] show ?thesis
    by simp
qed

lemma server_wait_steps:
  "server_obj_inv hist so \<Longrightarrow> so_core so = se_server s \<Longrightarrow> \<forall>k w. server_reads addr (cli_sent (se_client s)) (world k w) \<Longrightarrow>
   wait_event fuel sip world k so = Some (so', e) \<Longrightarrow>
   session_steps sip addr s (s\<lparr>se_server := so_core so', se_server_seen := se_server_seen s @ (case e of Some e \<Rightarrow> [e] | None \<Rightarrow> [])\<rparr>)"
proof (induction fuel arbitrary: k so s)
  case (Suc fuel)
  let ?r = "world k (next_timer_timeout (so_core so))"
  obtain so1 where r: "server_round sip True ?r so = Some so1" "server_obj_inv hist so1"
    using inv_server_round [OF Suc.prems(1)] by blast
  obtain so2 e1 where p: "server_pop_event so1 = (so2, e1)"
    by fastforce
  have room: "socket_room (so_socket_rx so) = SERVER_FRAME_SIZE_MAX"
    using Suc.prems(1) by (simp add: server_obj_inv_def)
  let ?s1 = "s\<lparr>se_server := so_core so1\<rparr>"
  let ?s2 = "?s1\<lparr>se_server := so_core so2, se_server_seen := se_server_seen s @ (case e1 of Some e \<Rightarrow> [e] | None \<Rightarrow> [])\<rparr>"
  have s1: "session_steps sip addr s ?s1"
    using Suc.prems(2,3) by (intro server_round_steps [OF room _ _ r(1)]) simp_all
  have s2: "session_steps sip addr ?s1 ?s2"
    using server_pop_steps [OF _ p, of ?s1 sip addr] by simp
  show ?case
  proof (cases e1)
    case None
    have "session_steps sip addr ?s2 (?s2\<lparr>se_server := so_core so',
        se_server_seen := se_server_seen ?s2 @ (case e of Some e \<Rightarrow> [e] | None \<Rightarrow> [])\<rparr>)"
    proof (rule Suc.IH)
      show "server_obj_inv hist so2"
        using inv_server_pop_event [OF r(2) p] None by simp
      show "wait_event fuel sip world (Suc k) so2 = Some (so', e)"
        using Suc.prems(4) r(1) p None by simp
    qed (use Suc.prems(3) in simp_all)
    with s1 s2 None show ?thesis
      by (auto intro: rtranclp_trans)
  next
    case (Some x)
    then have "so' = so2" "e = Some x"
      using Suc.prems(4) r(1) p by simp_all
    with s1 s2 Some show ?thesis
      by (auto intro: rtranclp_trans)
  qed
qed simp

lemma server_input_steps:
  assumes inv: "server_obj_inv hist so" and core: "so_core so = se_server s"
    and reads: "server_input_reads addr (cli_sent (se_client s)) i" and run: "server_step sip i so = Some (so', es)"
  shows "session_steps sip addr s (s\<lparr>se_server := so_core so', se_server_seen := se_server_seen s @ es,
    se_server_taken := se_server_taken s @ server_input_takes addr i (se_server s)\<rparr>)"
proof (cases i)
  case (InPoll r)
  have room: "socket_room (so_socket_rx so) = SERVER_FRAME_SIZE_MAX"
    using inv by (simp add: server_obj_inv_def)
  obtain so1 e where p: "(if sv_events (so_core so) = [] then server_round sip False r so else Some so) = Some so1"
      "server_pop_event so1 = (so', e)" "es = (case e of Some e \<Rightarrow> [e] | None \<Rightarrow> [])"
    using run InPoll by (auto simp: event_list_def poll_event_def bind_eq_Some_conv simp del: if_split)
  have "session_steps sip addr s (s\<lparr>se_server := so_core so1\<rparr>)"
    using p(1) core server_round_steps [OF room core _, of addr r sip False so1] reads InPoll by (auto split: if_splits)
  moreover have "session_steps sip addr (s\<lparr>se_server := so_core so1\<rparr>) (s\<lparr>se_server := so_core so', se_server_seen := se_server_seen s @ es\<rparr>)"
    using server_pop_steps [OF _ p(2), of "s\<lparr>se_server := so_core so1\<rparr>" sip addr] p(3) by simp
  ultimately show ?thesis
    using InPoll by (simp add: rtranclp_trans)
next
  case (InWait fuel world)
  obtain e where "wait_event fuel sip world 0 so = Some (so', e)" "es = (case e of Some e \<Rightarrow> [e] | None \<Rightarrow> [])"
    using run InWait by (auto simp: event_list_def)
  with server_wait_steps [OF inv core _ this(1)] reads InWait show ?thesis
    by simp
next
  case (InEnqueue pid p mode now)
  with server_piece [of sip "SoEnqueue pid (time_now_ms (so_epoch so) now) p mode" s "so_core so'" es addr] run core show ?thesis
    by (auto simp: on_core_def)
next
  case (InFlush pid coins now)
  with server_piece [of sip "SoFlush pid coins (time_now_ms (so_epoch so) now)" s "so_core so'" es addr] run core show ?thesis
    by (auto simp: on_core_def)
next
  case (InSend pid p mode coins now)
  with server_piece [of sip "SoSend pid coins (time_now_ms (so_epoch so) now) p mode" s "so_core so'" es addr] run core show ?thesis
    by (auto simp: on_core_def)
next
  case (InDisconnect pid now)
  with server_piece [of sip "SoDisconnect pid (time_now_ms (so_epoch so) now)" s "so_core so'" es addr] run core show ?thesis
    by (auto simp: on_core_def)
next
  case (InSetData pid data)
  with server_piece [of sip "SoSetData pid data" s "so_core so'" es addr] run core show ?thesis
    by (auto simp: on_core_def)
qed

section \<open>Calls of the client\<close>

definition client_reads :: "SocketAddr \<Rightarrow> (bytes \<times> SocketAddr) list \<Rightarrow> ClientRound \<Rightarrow> bool" where
  "client_reads addr wire r \<longleftrightarrow> (\<forall>d \<in> set (datagrams (cw_answers r)). (take CLIENT_FRAME_SIZE_MAX d, addr) \<in> set wire)"

fun client_input_reads :: "SocketAddr \<Rightarrow> (bytes \<times> SocketAddr) list \<Rightarrow> ClientInput \<Rightarrow> bool" where
  "client_input_reads addr wire (CiPoll r) = client_reads addr wire r"
| "client_input_reads addr wire (CiWait fuel world clock) = (\<forall>k w. client_reads addr wire (world k w))"
| "client_input_reads addr wire _ = True"

fun client_input_takes :: "ClientInput \<Rightarrow> Client \<Rightarrow> (bytes \<times> SendMode) list" where
  "client_input_takes (CiEnqueue p mode now) cli = (if client_accepts cli then [(p, mode)] else [])"
| "client_input_takes (CiSend p mode coins now) cli = (if client_accepts cli then [(p, mode)] else [])"
| "client_input_takes _ cli = []"

lemma client_piece:
  assumes "client_op op (se_client s) = Some (cli, es)" and "\<And>cr. op \<noteq> CoFrame cr" and "client_takes op (se_client s) = q"
  shows "session_steps sip addr s (s\<lparr>se_client := cli, se_client_seen := se_client_seen s @ es, se_client_taken := se_client_taken s @ q\<rparr>)"
  using client_acts [OF assms(1), of addr sip] assms(2,3) by auto

definition client_delivered :: "SocketAddr \<Rightarrow> Session \<Rightarrow> ClientReceived \<Rightarrow> bool" where
  "client_delivered addr s cr \<longleftrightarrow> client_received_ok cr \<and> (cr_bytes cr, addr) \<in> set (sv_sent (se_server s))"

lemma client_process_steps:
  "client_process crs (se_client s) = Some cli \<Longrightarrow> \<forall>cr \<in> set crs. client_delivered addr s cr \<Longrightarrow>
     session_steps sip addr s (s\<lparr>se_client := cli\<rparr>)"
proof (induction crs arbitrary: s)
  case Nil
  then show ?case
    by (cases s) simp
next
  case (Cons cr crs)
  obtain cli1 where cli1: "client_handle_frame cr (se_client s) = Some cli1" "client_process crs cli1 = Some cli"
    using Cons.prems(1) by (auto simp: bind_eq_Some_conv)
  have "session_step sip addr s (s\<lparr>se_client := cli1\<rparr>)"
    using client_acts [of "CoFrame cr" s cli1 "[]" addr sip] cli1(1) Cons.prems(2) by (auto simp: client_delivered_def)
  moreover have "session_steps sip addr (s\<lparr>se_client := cli1\<rparr>) (s\<lparr>se_client := cli\<rparr>)"
    using Cons.IH [of "s\<lparr>se_client := cli1\<rparr>"] cli1(2) Cons.prems(2) by (simp add: client_delivered_def)
  ultimately show ?case
    by (rule converse_rtranclp_into_rtranclp)
qed

lemma client_receive_all_reads: "cr \<in> set (client_receive_all time_ref n env ds) \<Longrightarrow> \<exists>d \<in> set ds. cr_bytes cr = take n d"
  by (induction time_ref n env ds rule: client_receive_all.induct) (auto simp: client_received_def)

lemma client_round_steps:
  assumes room: "connected_room (co_socket_rx co) = CLIENT_FRAME_SIZE_MAX" and core: "co_core co = se_client s"
    and reads: "client_reads addr (sv_sent (se_server s)) r" and run: "client_round wait r co = Some co'"
  shows "session_steps sip addr s (s\<lparr>se_client := co_core co'\<rparr>)"
proof -
  let ?t = "co_time_ref co"
  obtain rx' ds where f: "set ds \<subseteq> set (datagrams (cw_answers r))"
      "(if wait then client_handle_frames_wait ?t (cw_env r) (cw_poll r) (cw_answers r) (co_socket_rx co) (co_core co)
        else client_handle_frames ?t (cw_env r) (cw_answers r) (co_socket_rx co) (co_core co)) =
       map_option (Pair rx') (client_process (client_receive_all ?t CLIENT_FRAME_SIZE_MAX (cw_env r) ds) (co_core co))"
  proof (cases wait)
    case True
    define ds where "ds = (if \<exists>n > 0. io_bind (po_modify (cw_poll r)) (\<lambda>_. po_wait (cw_poll r)) = Inr n then datagrams (cw_answers r) else [])"
    have sub: "set ds \<subseteq> set (datagrams (cw_answers r))"
      by (auto simp: ds_def)
    obtain rx' where "client_handle_frames_wait ?t (cw_env r) (cw_poll r) (cw_answers r) (co_socket_rx co) (co_core co) =
        map_option (Pair rx') (client_process (client_receive_all ?t CLIENT_FRAME_SIZE_MAX (cw_env r) ds) (co_core co))"
      using client_handle_frames_wait_exact [of "co_socket_rx co" ?t "cw_env r" "cw_poll r" "cw_answers r" "co_core co"]
      unfolding room ds_def by blast
    then show thesis
      by (intro that [OF sub]) (simp only: True if_True)
  next
    case False
    obtain rx' where "client_handle_frames ?t (cw_env r) (cw_answers r) (co_socket_rx co) (co_core co) =
        map_option (Pair rx') (client_process (client_receive_all ?t CLIENT_FRAME_SIZE_MAX (cw_env r) (datagrams (cw_answers r))) (co_core co))"
      using client_handle_frames_exact [of "co_socket_rx co" ?t "cw_env r" "cw_answers r" "co_core co"] unfolding room by blast
    then show thesis
      using False by (intro that [of "datagrams (cw_answers r)" rx']) simp_all
  qed
  then obtain cli1 cli2 where cli: "client_process (client_receive_all ?t CLIENT_FRAME_SIZE_MAX (cw_env r) ds) (se_client s) = Some cli1"
      "process_timeouts (cw_coins r) (client_time_now_ms ?t (cw_now r)) cli1 = Some cli2" "co_core co' = cli2"
    using run core by (auto simp: client_round_def bind_eq_Some_conv simp del: if_split)
  have "client_delivered addr s cr" if cr: "cr \<in> set (client_receive_all ?t CLIENT_FRAME_SIZE_MAX (cw_env r) ds)" for cr
    using client_receive_all_reads [OF cr] client_received_all_fit cr reads f(1) by (fastforce simp: client_delivered_def client_reads_def)
  then have "session_steps sip addr s (s\<lparr>se_client := cli1\<rparr>)"
    using client_process_steps [OF cli(1)] by blast
  moreover have "session_steps sip addr (s\<lparr>se_client := cli1\<rparr>) (s\<lparr>se_client := cli2\<rparr>)"
    using client_piece [of "CoTimeouts (cw_coins r) (client_time_now_ms ?t (cw_now r))" "s\<lparr>se_client := cli1\<rparr>" cli2 "[]" "[]" sip addr] cli(2)
    by simp
  ultimately show ?thesis
    using cli(3) by (simp add: rtranclp_trans)
qed

lemma client_pop_steps:
  assumes "co_core co = se_client s" and "client_obj_pop_event co = (co', e)"
  shows "session_steps sip addr s (s\<lparr>se_client := co_core co',
    se_client_seen := se_client_seen s @ (case e of Some e \<Rightarrow> [e] | None \<Rightarrow> [])\<rparr>)"
proof -
  have "client_op CoPop (se_client s) = Some (co_core co', case e of Some e \<Rightarrow> [e] | None \<Rightarrow> [])"
    using assms by (auto simp: client_obj_pop_event_def split: prod.splits)
  from client_piece [OF this, of "[]" sip addr] show ?thesis
    by simp
qed

lemma client_wait_steps:
  "client_obj_inv hist co \<Longrightarrow> co_core co = se_client s \<Longrightarrow> \<forall>k w. client_reads addr (sv_sent (se_server s)) (world k w) \<Longrightarrow>
   client_wait_event fuel world clock k co = Some (co', e) \<Longrightarrow>
   session_steps sip addr s (s\<lparr>se_client := co_core co', se_client_seen := se_client_seen s @ (case e of Some e \<Rightarrow> [e] | None \<Rightarrow> [])\<rparr>)"
proof (induction fuel arbitrary: k co s)
  case (Suc fuel)
  let ?r = "world k (client_wait_limit (clock k) co)"
  obtain co1 where r: "client_round True ?r co = Some co1" "client_obj_inv hist co1"
    using inv_client_round [OF Suc.prems(1)] by blast
  obtain co2 e1 where p: "client_obj_pop_event co1 = (co2, e1)"
    by fastforce
  have room: "connected_room (co_socket_rx co) = CLIENT_FRAME_SIZE_MAX"
    using Suc.prems(1) by (simp add: client_obj_inv_def)
  let ?s1 = "s\<lparr>se_client := co_core co1\<rparr>"
  let ?s2 = "?s1\<lparr>se_client := co_core co2, se_client_seen := se_client_seen s @ (case e1 of Some e \<Rightarrow> [e] | None \<Rightarrow> [])\<rparr>"
  have s1: "session_steps sip addr s ?s1"
    using Suc.prems(2,3) by (intro client_round_steps [OF room _ _ r(1)]) simp_all
  have s2: "session_steps sip addr ?s1 ?s2"
    using client_pop_steps [OF _ p, of ?s1 sip addr] by simp
  show ?case
  proof (cases e1)
    case None
    have "session_steps sip addr ?s2 (?s2\<lparr>se_client := co_core co',
        se_client_seen := se_client_seen ?s2 @ (case e of Some e \<Rightarrow> [e] | None \<Rightarrow> [])\<rparr>)"
    proof (rule Suc.IH)
      show "client_obj_inv hist co2"
        using inv_client_pop_event [OF r(2) p] None by simp
      show "client_wait_event fuel world clock (Suc k) co2 = Some (co', e)"
        using Suc.prems(4) r(1) p None by simp
    qed (use Suc.prems(3) in simp_all)
    with s1 s2 None show ?thesis
      by (auto intro: rtranclp_trans)
  next
    case (Some x)
    then have "co' = co2" "e = Some x"
      using Suc.prems(4) r(1) p by simp_all
    with s1 s2 Some show ?thesis
      by (auto intro: rtranclp_trans)
  qed
qed simp

lemma client_input_steps:
  assumes inv: "client_obj_inv hist co" and core: "co_core co = se_client s"
    and reads: "client_input_reads addr (sv_sent (se_server s)) i" and run: "client_step i co = Some (co', es)"
  shows "session_steps sip addr s (s\<lparr>se_client := co_core co', se_client_seen := se_client_seen s @ es,
    se_client_taken := se_client_taken s @ client_input_takes i (se_client s)\<rparr>)"
proof (cases i)
  case (CiPoll r)
  have room: "connected_room (co_socket_rx co) = CLIENT_FRAME_SIZE_MAX"
    using inv by (simp add: client_obj_inv_def)
  obtain co1 e where p: "(if cli_events (co_core co) = [] then client_round False r co else Some co) = Some co1"
      "client_obj_pop_event co1 = (co', e)" "es = (case e of Some e \<Rightarrow> [e] | None \<Rightarrow> [])"
    using run CiPoll by (auto simp: client_event_list_def client_poll_event_def bind_eq_Some_conv simp del: if_split)
  have "session_steps sip addr s (s\<lparr>se_client := co_core co1\<rparr>)"
    using p(1) core client_round_steps [OF room core _, of addr r False co1 sip] reads CiPoll by (auto split: if_splits)
  moreover have "session_steps sip addr (s\<lparr>se_client := co_core co1\<rparr>) (s\<lparr>se_client := co_core co', se_client_seen := se_client_seen s @ es\<rparr>)"
    using client_pop_steps [OF _ p(2), of "s\<lparr>se_client := co_core co1\<rparr>" sip addr] p(3) by simp
  ultimately show ?thesis
    using CiPoll by (simp add: rtranclp_trans)
next
  case (CiWait fuel world clock)
  obtain e where "client_wait_event fuel world clock 0 co = Some (co', e)" "es = (case e of Some e \<Rightarrow> [e] | None \<Rightarrow> [])"
    using run CiWait by (auto simp: client_event_list_def)
  with client_wait_steps [OF inv core _ this(1)] reads CiWait show ?thesis
    by simp
next
  case (CiEnqueue p mode now)
  with client_piece [of "CoEnqueue (client_time_now_ms (co_time_ref co) now) p mode" s "co_core co'" es _ sip addr] run core show ?thesis
    by (auto simp: on_client_def)
next
  case (CiFlush coins now)
  with client_piece [of "CoFlush coins (client_time_now_ms (co_time_ref co) now)" s "co_core co'" es _ sip addr] run core show ?thesis
    by (auto simp: on_client_def)
next
  case (CiSend p mode coins now)
  with client_piece [of "CoSend coins (client_time_now_ms (co_time_ref co) now) p mode" s "co_core co'" es _ sip addr] run core show ?thesis
    by (auto simp: on_client_def)
next
  case (CiDisconnect now)
  with client_piece [of "CoDisconnect (client_time_now_ms (co_time_ref co) now)" s "co_core co'" es _ sip addr] run core show ?thesis
    by (auto simp: on_client_def)
qed

section \<open>Waiting with a timeout\<close>

lemma server_timeout_loop_steps:
  "server_obj_inv hist so \<Longrightarrow> so_core so = se_server s \<Longrightarrow> \<forall>k w. server_reads addr (cli_sent (se_client s)) (world k w) \<Longrightarrow>
   wait_timeout_loop fuel sip world elapsed k remaining so = Some (Some so') \<Longrightarrow>
   session_steps sip addr s (s\<lparr>se_server := so_core so'\<rparr>) \<and> server_obj_inv hist so'"
proof (induction fuel arbitrary: k remaining so s)
  case (Suc fuel)
  let ?r = "world k (Some (case next_timer_timeout (so_core so) of Some t \<Rightarrow> min remaining t | None \<Rightarrow> remaining))"
  obtain so1 where r: "server_round sip True ?r so = Some so1" "server_obj_inv hist so1"
    using inv_server_round [OF Suc.prems(1)] by blast
  have room: "socket_room (so_socket_rx so) = SERVER_FRAME_SIZE_MAX"
    using Suc.prems(1) by (simp add: server_obj_inv_def)
  let ?s1 = "s\<lparr>se_server := so_core so1\<rparr>"
  have s1: "session_steps sip addr s ?s1"
    using Suc.prems(2,3) by (intro server_round_steps [OF room _ _ r(1)]) simp_all
  show ?case
  proof (cases "sv_events (so_core so1) \<noteq> [] \<or> elapsed k \<ge> remaining")
    case True
    then have "so' = so1"
      using Suc.prems(4) r(1) by (auto simp: Let_def split: if_splits)
    with s1 r(2) show ?thesis
      by simp
  next
    case False
    then have "wait_timeout_loop fuel sip world elapsed (Suc k) (remaining - elapsed k) so1 = Some (Some so')"
      using Suc.prems(4) r(1) by (simp add: Let_def)
    from Suc.IH [OF r(2) _ _ this, of ?s1] Suc.prems(3) s1 show ?thesis
      by (auto intro: rtranclp_trans)
  qed
qed simp

lemma server_wait_timeout_steps:
  assumes inv: "server_obj_inv hist so" and core: "so_core so = se_server s"
    and reads: "\<forall>k w. server_reads addr (cli_sent (se_client s)) (world k w)"
    and run: "wait_event_timeout fuel sip world elapsed timeout so = Some (Some (so', e))"
  shows "session_steps sip addr s (s\<lparr>se_server := so_core so',
    se_server_seen := se_server_seen s @ (case e of Some e \<Rightarrow> [e] | None \<Rightarrow> [])\<rparr>) \<and>
    server_obj_inv (hist @ (case e of Some e \<Rightarrow> [e] | None \<Rightarrow> [])) so'"
proof -
  obtain so1 where so1: "server_pop_event so1 = (so', e)" "session_steps sip addr s (s\<lparr>se_server := so_core so1\<rparr>)" "server_obj_inv hist so1"
  proof (cases "sv_events (so_core so) = []")
    case True
    with run obtain so1 where "wait_timeout_loop fuel sip world elapsed 0 timeout so = Some (Some so1)" "server_pop_event so1 = (so', e)"
      by (auto simp: wait_event_timeout_def)
    with server_timeout_loop_steps [OF inv core reads this(1)] that show thesis
      by blast
  next
    case False
    have "s\<lparr>se_server := so_core so\<rparr> = s"
      using core by (cases s) simp
    with False run inv that [of so] show thesis
      by (simp add: wait_event_timeout_def)
  qed
  from server_pop_steps [OF _ so1(1), of "s\<lparr>se_server := so_core so1\<rparr>" sip addr] so1(2) inv_server_pop_event [OF so1(3,1)] show ?thesis
    by (auto intro: rtranclp_trans)
qed

lemma client_timeout_loop_steps:
  "client_obj_inv hist co \<Longrightarrow> co_core co = se_client s \<Longrightarrow> \<forall>k w. client_reads addr (sv_sent (se_server s)) (world k w) \<Longrightarrow>
   client_wait_timeout_loop fuel world clock elapsed k remaining co = Some (Some co') \<Longrightarrow>
   session_steps sip addr s (s\<lparr>se_client := co_core co'\<rparr>) \<and> client_obj_inv hist co'"
proof (induction fuel arbitrary: k remaining co s)
  case (Suc fuel)
  let ?r = "world k (Some (case client_wait_limit (clock k) co of Some t \<Rightarrow> min remaining t | None \<Rightarrow> remaining))"
  obtain co1 where r: "client_round True ?r co = Some co1" "client_obj_inv hist co1"
    using inv_client_round [OF Suc.prems(1)] by blast
  have room: "connected_room (co_socket_rx co) = CLIENT_FRAME_SIZE_MAX"
    using Suc.prems(1) by (simp add: client_obj_inv_def)
  let ?s1 = "s\<lparr>se_client := co_core co1\<rparr>"
  have s1: "session_steps sip addr s ?s1"
    using Suc.prems(2,3) by (intro client_round_steps [OF room _ _ r(1)]) simp_all
  show ?case
  proof (cases "cli_events (co_core co1) \<noteq> [] \<or> elapsed k \<ge> remaining")
    case True
    then have "co' = co1"
      using Suc.prems(4) r(1) by (auto simp: Let_def split: if_splits)
    with s1 r(2) show ?thesis
      by simp
  next
    case False
    then have "client_wait_timeout_loop fuel world clock elapsed (Suc k) (remaining - elapsed k) co1 = Some (Some co')"
      using Suc.prems(4) r(1) by (simp add: Let_def)
    from Suc.IH [OF r(2) _ _ this, of ?s1] Suc.prems(3) s1 show ?thesis
      by (auto intro: rtranclp_trans)
  qed
qed simp

lemma client_wait_timeout_steps:
  assumes inv: "client_obj_inv hist co" and core: "co_core co = se_client s"
    and reads: "\<forall>k w. client_reads addr (sv_sent (se_server s)) (world k w)"
    and run: "client_wait_event_timeout fuel world clock elapsed timeout co = Some (Some (co', e))"
  shows "session_steps sip addr s (s\<lparr>se_client := co_core co',
    se_client_seen := se_client_seen s @ (case e of Some e \<Rightarrow> [e] | None \<Rightarrow> [])\<rparr>) \<and>
    client_obj_inv (hist @ (case e of Some e \<Rightarrow> [e] | None \<Rightarrow> [])) co'"
proof -
  obtain co1 where co1: "client_obj_pop_event co1 = (co', e)" "session_steps sip addr s (s\<lparr>se_client := co_core co1\<rparr>)" "client_obj_inv hist co1"
  proof (cases "cli_events (co_core co) = []")
    case True
    with run obtain co1 where "client_wait_timeout_loop fuel world clock elapsed 0 timeout co = Some (Some co1)"
        "client_obj_pop_event co1 = (co', e)"
      by (auto simp: client_wait_event_timeout_def)
    with client_timeout_loop_steps [OF inv core reads this(1)] that show thesis
      by blast
  next
    case False
    have "s\<lparr>se_client := co_core co\<rparr> = s"
      using core by (cases s) simp
    with False run inv that [of co] show thesis
      by (simp add: client_wait_event_timeout_def)
  qed
  from client_pop_steps [OF _ co1(1), of "s\<lparr>se_client := co_core co1\<rparr>" sip addr] co1(2) inv_client_pop_event [OF co1(3,1)] show ?thesis
    by (auto intro: rtranclp_trans)
qed

section \<open>Applications\<close>

text \<open>
  Two applications with a bound server and a connecting client, the events they have been given
  and the packets they have sent.
\<close>

record Apps =
  ap_client :: ClientObj
  ap_client_seen :: "ClientEvent list"
  ap_client_taken :: "(bytes \<times> SendMode) list"
  ap_server :: ServerObj
  ap_server_seen :: "ServerEvent list"
  ap_server_taken :: "(bytes \<times> SendMode) list"

definition apps_start :: "ClientObj \<Rightarrow> ServerObj \<Rightarrow> Apps" where
  "apps_start co so = \<lparr>ap_client = co, ap_client_seen = [], ap_client_taken = [], ap_server = so, ap_server_seen = [], ap_server_taken = []\<rparr>"

definition cores :: "Apps \<Rightarrow> Session" where
  "cores a = \<lparr>se_client = co_core (ap_client a), se_client_seen = ap_client_seen a, se_client_taken = ap_client_taken a,
     se_server = so_core (ap_server a), se_server_seen = ap_server_seen a, se_server_taken = ap_server_taken a\<rparr>"

text \<open>
  A call of one of them: a poll, a wait, a call on a connection, or a wait with a timeout that
  returns. What its socket hands over is what the network made of the frames of the other.
\<close>

inductive apps_step :: "SipHash \<Rightarrow> SocketAddr \<Rightarrow> Apps \<Rightarrow> Apps \<Rightarrow> bool" for sip addr where
  client_calls: "client_step i (ap_client a) = Some (co, es) \<Longrightarrow> client_input_reads addr (sv_sent (so_core (ap_server a))) i \<Longrightarrow>
     apps_step sip addr a (a\<lparr>ap_client := co, ap_client_seen := ap_client_seen a @ es,
       ap_client_taken := ap_client_taken a @ client_input_takes i (co_core (ap_client a))\<rparr>)"
| client_waits: "client_wait_event_timeout fuel world clock elapsed timeout (ap_client a) = Some (Some (co, e)) \<Longrightarrow>
     \<forall>k w. client_reads addr (sv_sent (so_core (ap_server a))) (world k w) \<Longrightarrow>
     apps_step sip addr a (a\<lparr>ap_client := co, ap_client_seen := ap_client_seen a @ (case e of Some e \<Rightarrow> [e] | None \<Rightarrow> [])\<rparr>)"
| server_calls: "server_step sip i (ap_server a) = Some (so, es) \<Longrightarrow> server_input_reads addr (cli_sent (co_core (ap_client a))) i \<Longrightarrow>
     apps_step sip addr a (a\<lparr>ap_server := so, ap_server_seen := ap_server_seen a @ es,
       ap_server_taken := ap_server_taken a @ server_input_takes addr i (so_core (ap_server a))\<rparr>)"
| server_waits: "wait_event_timeout fuel sip world elapsed timeout (ap_server a) = Some (Some (so, e)) \<Longrightarrow>
     \<forall>k w. server_reads addr (cli_sent (co_core (ap_client a))) (world k w) \<Longrightarrow>
     apps_step sip addr a (a\<lparr>ap_server := so, ap_server_seen := ap_server_seen a @ (case e of Some e \<Rightarrow> [e] | None \<Rightarrow> [])\<rparr>)"

definition apps_inv :: "Apps \<Rightarrow> bool" where
  "apps_inv a \<longleftrightarrow> client_obj_inv (ap_client_seen a) (ap_client a) \<and> server_obj_inv (ap_server_seen a) (ap_server a)"

lemma apps_step_session:
  assumes "apps_step sip addr a a'" and "apps_inv a"
  shows "session_steps sip addr (cores a) (cores a') \<and> apps_inv a'"
  using assms
proof (cases rule: apps_step.cases)
  case (client_calls i co es)
  have inv: "client_obj_inv (ap_client_seen a) (ap_client a)"
    using assms(2) by (simp add: apps_inv_def)
  from client_input_steps [OF inv, of "cores a" addr i co es sip] inv_client_step [OF inv, of i] client_calls assms(2) show ?thesis
    by (simp add: cores_def apps_inv_def)
next
  case (client_waits fuel world clock elapsed timeout co e)
  have inv: "client_obj_inv (ap_client_seen a) (ap_client a)"
    using assms(2) by (simp add: apps_inv_def)
  from client_wait_timeout_steps [OF inv, of "cores a" addr world fuel clock elapsed timeout co e sip] client_waits assms(2) show ?thesis
    by (simp add: cores_def apps_inv_def)
next
  case (server_calls i so es)
  have inv: "server_obj_inv (ap_server_seen a) (ap_server a)"
    using assms(2) by (simp add: apps_inv_def)
  from server_input_steps [OF inv, of "cores a" addr i sip so es] inv_server_step [OF inv, of sip i] server_calls assms(2) show ?thesis
    by (simp add: cores_def apps_inv_def)
next
  case (server_waits fuel world elapsed timeout so e)
  have inv: "server_obj_inv (ap_server_seen a) (ap_server a)"
    using assms(2) by (simp add: apps_inv_def)
  from server_wait_timeout_steps [OF inv, of "cores a" addr world fuel sip elapsed timeout so e] server_waits assms(2) show ?thesis
    by (simp add: cores_def apps_inv_def)
qed

lemma apps_steps_session:
  "(apps_step sip addr)\<^sup>*\<^sup>* a a' \<Longrightarrow> apps_inv a \<Longrightarrow> session_steps sip addr (cores a) (cores a') \<and> apps_inv a'"
proof (induction rule: rtranclp_induct)
  case (step b c)
  with apps_step_session [OF step(2)] show ?case
    by (meson rtranclp_trans)
qed simp

text \<open>
  C1: the library from end to end. Bind a server and connect a client to it, with any
  configurations the library accepts; let the two applications poll, wait and call as they like,
  with other peers and any other datagrams reaching the server, over a network that loses,
  repeats, delays and reorders the frames between the two but does not invent any. As long as
  the server has accepted no more than one connection from the client's address (frames do not
  say to which connection they belong, and a repeated handshake request can make a second one,
  \<open>replayed_request_second_peer\<close>) and the identifiers have not gone round their 32 bits, the packets one
  application is given are, in both directions and from the first call on, those the other sent as
  reliable, in order, without a gap and without a repetition, and between them packets sent as
  unreliable, each whole, in order and at most once.
\<close>

theorem apps_delivery:
  assumes "Server_bind_with_config server_os server_now key server_config = Some (Inr so)"
    and "Client_connect_with_config client_os client_now random client_config = Some (Inr co)"
    and "(apps_step sip addr)\<^sup>*\<^sup>* (apps_start co so) a"
    and "one_peer addr (so_core (ap_server a))" and "session_young addr (cores a)"
  shows "delivers (ap_client_taken a) (to_server addr (cores a)) \<and> delivers (ap_server_taken a) (to_client (cores a))"
proof -
  obtain rx where server: "ServerConfig_validate server_config = Some ()" "socket_new server_os SERVER_FRAME_SIZE_MAX = Inr rx"
      "so = \<lparr>so_core = ServerCore_new key server_config, so_epoch = Epoch_new server_now, so_socket_rx = rx\<rparr>"
    using assms(1) by (cases "socket_new server_os SERVER_FRAME_SIZE_MAX") (auto simp: Server_bind_with_config_def bind_eq_Some_conv)
  obtain crx cli where client: "ClientConfig_validate client_config = Some ()" "socket_new_connected client_os CLIENT_FRAME_SIZE_MAX = Inr crx"
      "Client_new random client_config = Some cli" "co = \<lparr>co_core = cli, co_time_ref = client_now, co_socket_rx = crx\<rparr>"
    using assms(2)
    by (cases "socket_new_connected client_os CLIENT_FRAME_SIZE_MAX") (auto simp: Client_connect_with_config_def bind_eq_Some_conv)
  have "client_inv [] cli"
    using client_is_new [OF client(1,3)] by metis
  then have "client_obj_inv [] co"
    using client(2,4) by (auto simp: client_obj_inv_def socket_new_connected_def)
  moreover have "server_obj_inv [] so"
    using server server_core_inv [OF server(1), of key] by (auto simp: server_obj_inv_def socket_new_def)
  ultimately have "session_steps sip addr (cores (apps_start co so)) (cores a)"
    using apps_steps_session [OF assms(3)] by (simp add: apps_inv_def apps_start_def)
  moreover have "session_start key server_config random client_config = Some (cores (apps_start co so))"
    using server(3) client(3,4) by (simp add: session_start_def cores_def apps_start_def)
  moreover have "one_peer addr (se_server (cores a))"
    using assms(4) by (simp add: cores_def)
  ultimately have "delivers (se_client_taken (cores a)) (to_server addr (cores a)) \<and> delivers (se_server_taken (cores a)) (to_client (cores a))"
    using core_delivery [OF server(1) client(1) _ _ _ assms(5)] by blast
  then show ?thesis
    by (simp add: cores_def)
qed

text \<open>A client sends a packet while it is connecting, and its first frame reaches the server, which answers.\<close>

lemma demo_poll:
  assumes so: "so_core so = ServerCore_new key config" "so_epoch so = Epoch_new 0" "socket_room (so_socket_rx so) = SERVER_FRAME_SIZE_MAX"
  obtains so' where "poll_event sip (demo_round [Inr (alpha_frame n, demo_addr)]) so = Some (so', None)"
    "sv_store (so_core so') = []" "length (sv_sent (so_core so')) = 1"
proof -
  let ?r = "demo_round [Inr (alpha_frame n, demo_addr)]" and ?rc = "from_client demo_addr 7 9 (alpha_frame n)"
  define sv1 where "sv1 = socket_send (alpha_ack_bytes (alpha_ack sip 9 7 demo_addr (so_core so) n)) demo_addr (so_core so)"
  have rc: "receive_all (Epoch_new 0) SERVER_FRAME_SIZE_MAX (rd_env ?r) (datagrams (rd_answers ?r)) = [?rc]"
    by (simp add: demo_round_def Server.received_def from_client_def time_now_ms_def Epoch_new_def alpha_frame_length SERVER_FRAME_SIZE_MAX_def)
  obtain rx where "server_handle_frames sip (Epoch_new 0) (rd_env ?r) (rd_answers ?r) (so_socket_rx so) (so_core so) = Some (rx, sv1)"
    using server_handle_frames_exact [of "so_socket_rx so" sip "Epoch_new 0" "rd_env ?r" "rd_answers ?r" "so_core so", unfolded so(3) rc]
      server_answers_alpha [of sip demo_addr 7 9 n "so_core so"] by (auto simp: sv1_def)
  moreover have "handle_timeouts tk sv1 = Some sv1" for tk
    using so(1) by (simp add: handle_timeouts_def step_timer_wheel_def timer_queue_test_exact sv1_def socket_send_def ServerCore_new_def
        TimerQueue_default_def)
  ultimately have "poll_event sip ?r so = Some (so\<lparr>so_core := sv1, so_socket_rx := rx\<rparr>, None)"
    using so(1,2) by (simp add: poll_event_def server_round_def server_pop_event_def pop_event_def sv1_def socket_send_def ServerCore_new_def)
  then show thesis
    using so(1) by (intro that [of "so\<lparr>so_core := sv1, so_socket_rx := rx\<rparr>"]) (simp_all add: sv1_def socket_send_def ServerCore_new_def)
qed

theorem apps_delivery_witness:
  "\<exists>so co a. Server_bind_with_config demo_os 0 [1, 2] ServerConfig_default = Some (Inr so) \<and>
     Client_connect_with_config demo_os 0 77 ClientConfig_default = Some (Inr co) \<and>
     (apps_step demo_sip demo_addr)\<^sup>*\<^sup>* (apps_start co so) a \<and> ap_client_taken a = [(demo_packet, SendReliable)] \<and>
     length (sv_sent (so_core (ap_server a))) = 1 \<and>
     delivers (ap_client_taken a) (to_server demo_addr (cores a)) \<and> delivers (ap_server_taken a) (to_client (cores a))"
proof -
  define so where "so = \<lparr>so_core = ServerCore_new [1, 2] ServerConfig_default, so_epoch = Epoch_new 0,
    so_socket_rx = \<lparr>rxs_local_addr = V4 [127, 0, 0, 1] 8888, rxs_recv_buffer = replicate SERVER_FRAME_SIZE_MAX 0\<rparr>\<rparr>"
  have server: "Server_bind_with_config demo_os 0 [1, 2] ServerConfig_default = Some (Inr so)"
    by (simp add: Server_bind_with_config_def demo_server_config demo_os_ok so_def)
  obtain cli hs where cli: "Client_new 77 ClientConfig_default = Some cli" "cli_state cli = CsHandshake hs" "cli_sent cli = [alpha_frame 77]"
    using client_new_exact [of 77 ClientConfig_default] by auto
  define co where "co = \<lparr>co_core = cli, co_time_ref = 0, co_socket_rx = \<lparr>crx_local_addr = V4 [127, 0, 0, 1] 8888,
    crx_peer_addr = V4 [127, 0, 0, 1] 8889, crx_recv_buffer = replicate CLIENT_FRAME_SIZE_MAX 0\<rparr>\<rparr>"
  have client: "Client_connect_with_config demo_os 0 77 ClientConfig_default = Some (Inr co)"
    by (simp add: Client_connect_with_config_def demo_client_config demo_os_ok cli(1) co_def)
  define co1 where "co1 = co\<lparr>co_core := client_enqueue (client_time_now_ms 0 0) demo_packet SendReliable cli\<rparr>"
  let ?i = "CiEnqueue demo_packet SendReliable 0"
  have co1: "client_step ?i co = Some (co1, [])" "client_input_takes ?i (co_core co) = [(demo_packet, SendReliable)]"
      "cli_sent (co_core co1) = [alpha_frame 77]"
    using cli(2,3) by (simp_all add: on_client_def co1_def co_def client_enqueue_def client_accepts_def)
  obtain so1 where so1: "poll_event demo_sip (demo_round [Inr (alpha_frame 77, demo_addr)]) so = Some (so1, None)"
      "sv_store (so_core so1) = []" "length (sv_sent (so_core so1)) = 1"
    by (rule demo_poll [of so "[1, 2]" ServerConfig_default demo_sip 77]) (simp_all add: so_def)
  define a1 where "a1 = (apps_start co so)\<lparr>ap_client := co1, ap_client_taken := [(demo_packet, SendReliable)]\<rparr>"
  define a2 where "a2 = a1\<lparr>ap_server := so1\<rparr>"
  have "apps_step demo_sip demo_addr (apps_start co so) a1"
    using client_calls [of ?i "apps_start co so" co1 "[]" demo_addr demo_sip] co1(1,2) by (simp add: a1_def apps_start_def)
  moreover have "apps_step demo_sip demo_addr a1 a2"
    using server_calls [of demo_sip "InPoll (demo_round [Inr (alpha_frame 77, demo_addr)])" a1 so1 "[]" demo_addr] so1(1) co1(3)
    by (simp add: a2_def a1_def apps_start_def event_list_def server_reads_def demo_round_def alpha_frame_length SERVER_FRAME_SIZE_MAX_def)
  ultimately have run: "(apps_step demo_sip demo_addr)\<^sup>*\<^sup>* (apps_start co so) a2"
    by (meson converse_rtranclp_into_rtranclp rtranclp.rtrancl_refl)
  have one: "one_peer demo_addr (so_core (ap_server a2))"
    using so1(2) by (simp add: a2_def one_peer_def at_addr_def)
  have "length (filter (\<lambda>f. snd f = demo_addr) (sv_sent (so_core so1))) \<le> 1"
    using so1(3) length_filter_le by metis
  then have "session_young demo_addr (cores a2)"
    using co1(3) by (simp add: session_young_def few_def cores_def a2_def a1_def apps_start_def reliable_of_def unreliable_of_def
        fragment_count_def demo_cut FRAGMENT_WINDOW_SIZE_def SEGMENT_WINDOW_SIZE_def)
  from apps_delivery [OF server client run one this] server client run so1(3) show ?thesis
    by (intro exI [of _ so] exI [of _ co] exI [of _ a2]) (simp add: a2_def a1_def)
qed

end
