(* ===== verification/Programs.thy ===== *)
theory Programs
  imports Server_Runs Client_Runs
begin

text \<open>
  The two example programs (\<^verbatim>\<open>src/bin/server.rs\<close>, \<^verbatim>\<open>src/bin/client.rs\<close>): a server that
  sends every packet back and a client that keeps sending one. They run for ever; a list of
  turns, one for each call of \<^verbatim>\<open>wait_event_timeout\<close>, says what happens and how long to look.
  The lines they print are part of the result.
\<close>

definition EVENT_TIMEOUT :: nat where "EVENT_TIMEOUT = 1000"

section \<open>Printing\<close>

definition hex_byte :: "u8 \<Rightarrow> string" where
  "hex_byte b = [''0123456789ABCDEF'' ! (unat b div 16), ''0123456789ABCDEF'' ! (unat b mod 16)]"

fun comma_separated :: "string list \<Rightarrow> string" where
  "comma_separated [] = []"
| "comma_separated [x] = x"
| "comma_separated (x # xs) = x @ '', '' @ comma_separated xs"

text \<open>The format \<^verbatim>\<open>{:02X?}\<close> of a packet.\<close>

definition debug_bytes :: "bytes \<Rightarrow> string" where
  "debug_bytes bs = ''['' @ comma_separated (map hex_byte bs) @ '']''"

section \<open>The server\<close>

definition main_server_config :: ServerConfig where
  "main_server_config = ServerConfig_default\<lparr>svc_peer_count_max := 1, svc_connection_timeout_ms := 4000\<rparr>"

fun server_event_line :: "ServerEvent \<Rightarrow> string" where
  "server_event_line (SvConnect peer) = ''ServerEvent::Connect''"
| "server_event_line (SvDisconnect peer) = ''ServerEvent::Disconnect''"
| "server_event_line (SvReceive peer packet_bytes) = ''ServerEvent::Receive '' @ debug_bytes packet_bytes"
| "server_event_line (SvError peer Timeout) = ''ServerEvent::Error(redpine::ErrorKind::Timeout)''"
| "server_event_line (SvError peer Capacity) = ''ServerEvent::Error(redpine::ErrorKind::Capacity)''"
| "server_event_line (SvError peer Parameter) = ''ServerEvent::Error(redpine::ErrorKind::Parameter)''"

text \<open>
  One call of \<^verbatim>\<open>wait_event_timeout\<close>, with what it meets, and the clock and random bits of the
  answer.
\<close>

record ServerTurn =
  st_fuel :: nat
  st_world :: "nat \<Rightarrow> nat option \<Rightarrow> Round"
  st_elapsed :: "nat \<Rightarrow> nat"
  st_now :: Instant
  st_coins :: "nat \<Rightarrow> bool"

definition server_main_event :: "ServerTurn \<Rightarrow> ServerEvent \<Rightarrow> ServerObj \<Rightarrow> ServerObj rust" where
  "server_main_event t event so =
     (case event of
        SvReceive peer packet_bytes \<Rightarrow>
          map_option (\<lambda>core. so\<lparr>so_core := core\<rparr>)
            (handle_send (st_coins t) (time_now_ms (so_epoch so) (st_now t)) peer packet_bytes (SendUnreliable 0) (so_core so))
      | _ \<Rightarrow> Some so)"

text \<open>
  The two nested loops call \<^verbatim>\<open>wait_event_timeout\<close> again whatever it returned. The inner
  \<open>None\<close> says that a call had not returned when its rounds ran out.
\<close>

fun server_main_loop :: "SipHash \<Rightarrow> ServerTurn list \<Rightarrow> ServerObj \<Rightarrow> (ServerObj \<times> string list) option rust" where
  "server_main_loop sip [] so = Some (Some (so, []))"
| "server_main_loop sip (t # ts) so = do {
     r \<leftarrow> wait_event_timeout (st_fuel t) sip (st_world t) (st_elapsed t) EVENT_TIMEOUT so;
     case r of
       None \<Rightarrow> Some None
     | Some (so, None) \<Rightarrow> server_main_loop sip ts so
     | Some (so, Some event) \<Rightarrow> do {
         so \<leftarrow> server_main_event t event so;
         r \<leftarrow> server_main_loop sip ts so;
         Some (map_option (map_prod id (Cons (server_event_line event))) r) } }"

text \<open>\<^verbatim>\<open>expect\<close> makes a failure to bind a panic.\<close>

definition server_main :: "SipHash \<Rightarrow> SocketOs \<Rightarrow> Instant \<Rightarrow> bytes \<Rightarrow> ServerTurn list \<Rightarrow> (ServerObj \<times> string list) option rust" where
  "server_main sip os now key ts = do {
     r \<leftarrow> Server_bind_with_config os now key main_server_config;
     case r of
       Inl err \<Rightarrow> None
     | Inr so \<Rightarrow> server_main_loop sip ts so }"

section \<open>The client\<close>

definition main_client_config :: ClientConfig where
  "main_client_config = ClientConfig_default\<lparr>clc_handshake_timeout_ms := 4000, clc_connection_timeout_ms := 4000\<rparr>"

fun client_event_line :: "ClientEvent \<Rightarrow> string" where
  "client_event_line ClConnect = ''ClientEvent::Connect''"
| "client_event_line ClDisconnect = ''ClientEvent::Disconnect''"
| "client_event_line (ClReceive packet_bytes) = ''ClientEvent::Receive '' @ debug_bytes packet_bytes"
| "client_event_line (ClError Timeout) = ''ClientEvent::Error(redpine::ErrorKind::Timeout)''"
| "client_event_line (ClError Capacity) = ''ClientEvent::Error(redpine::ErrorKind::Capacity)''"
| "client_event_line (ClError Parameter) = ''ClientEvent::Error(redpine::ErrorKind::Parameter)''"

record ClientTurn =
  ct_fuel :: nat
  ct_world :: "nat \<Rightarrow> nat option \<Rightarrow> ClientRound"
  ct_clock :: "nat \<Rightarrow> Instant"
  ct_elapsed :: "nat \<Rightarrow> nat"
  ct_now :: Instant
  ct_coins :: "nat \<Rightarrow> bool"

definition client_main_send :: "ClientTurn \<Rightarrow> ClientObj \<Rightarrow> ClientObj rust" where
  "client_main_send t co =
     map_option (\<lambda>core. co\<lparr>co_core := core\<rparr>)
       (client_send (ct_coins t) (client_time_now_ms (co_time_ref co) (ct_now t)) [0x00, 0x01, 0x02] (SendUnreliable 0) (co_core co))"

text \<open>A packet is sent at the start of the outer loop (\<open>outer\<close>), that is, after every call without an event.\<close>

fun client_main_loop :: "bool \<Rightarrow> ClientTurn list \<Rightarrow> ClientObj \<Rightarrow> (ClientObj \<times> string list) option rust" where
  "client_main_loop outer [] co = Some (Some (co, []))"
| "client_main_loop outer (t # ts) co = do {
     co \<leftarrow> (if outer then client_main_send t co else Some co);
     r \<leftarrow> client_wait_event_timeout (ct_fuel t) (ct_world t) (ct_clock t) (ct_elapsed t) EVENT_TIMEOUT co;
     case r of
       None \<Rightarrow> Some None
     | Some (co, None) \<Rightarrow> client_main_loop True ts co
     | Some (co, Some event) \<Rightarrow> do {
         r \<leftarrow> client_main_loop False ts co;
         Some (map_option (map_prod id (Cons (client_event_line event))) r) } }"

definition client_main :: "SocketOs \<Rightarrow> Instant \<Rightarrow> u32 \<Rightarrow> ClientTurn list \<Rightarrow> (ClientObj \<times> string list) option rust" where
  "client_main os now random ts = do {
     r \<leftarrow> Client_connect_with_config os now random main_client_config;
     case r of
       Inl err \<Rightarrow> None
     | Inr co \<Rightarrow> client_main_loop True ts co }"

section \<open>What they do\<close>

text \<open>The turns are long enough for the calls to return.\<close>

definition long_enough :: "nat \<Rightarrow> (nat \<Rightarrow> nat) \<Rightarrow> bool" where
  "long_enough fuel elapsed \<longleftrightarrow> 0 < fuel \<and> EVENT_TIMEOUT \<le> sum elapsed {..<fuel}"

lemma main_configs:
  "ServerConfig_validate main_server_config = Some ()" "ClientConfig_validate main_client_config = Some ()"
  using demo_server_config demo_client_config
  by (simp_all add: main_server_config_def main_client_config_def ServerConfig_validate_def ClientConfig_validate_def
      ServerConfig_default_def ClientConfig_default_def PEER_COUNT_MAX_MAX_def CONNECTION_TIMEOUT_MIN_MS_def
      HANDSHAKE_TIMEOUT_MIN_MS_def CLIENT_TIMEOUT_MIN_MS_def bind_eq_Some_conv)

lemma inv_server_main_event:
  assumes "server_obj_inv (hist @ [event]) so"
  shows "\<exists>so'. server_main_event t event so = Some so' \<and> server_obj_inv (hist @ [event]) so'"
proof (cases event)
  case (SvReceive peer packet)
  have inv: "server_inv_on (hist @ [event]) {} (so_core so)"
    using assms by (simp add: server_obj_inv_def)
  then have "peer < length (sv_store (so_core so))"
    using SvReceive by (simp add: server_inv_on_def)
  with on_peer_send [OF inv, of peer "st_coins t" "time_now_ms (so_epoch so) (st_now t)" packet "SendUnreliable 0"]
  obtain core where "handle_send (st_coins t) (time_now_ms (so_epoch so) (st_now t)) peer packet (SendUnreliable 0) (so_core so) = Some core"
      "server_inv_on (hist @ [event]) {} core"
    by (auto simp: on_peer_def)
  with assms SvReceive show ?thesis
    by (simp add: server_main_event_def server_obj_inv_def)
qed (use assms in \<open>simp_all add: server_main_event_def\<close>)

lemma server_main_loop_runs:
  "server_obj_inv hist so \<Longrightarrow> \<forall>t \<in> set ts. long_enough (st_fuel t) (st_elapsed t) \<Longrightarrow>
     \<exists>so' es. server_main_loop sip ts so = Some (Some (so', map server_event_line es)) \<and> server_obj_inv (hist @ es) so'"
proof (induction ts arbitrary: so hist)
  case Nil
  then show ?case
    by (intro exI [of _ so] exI [of _ "[]"]) simp
next
  case (Cons t ts)
  have enough: "EVENT_TIMEOUT \<le> sum (st_elapsed t) {..<st_fuel t}" "0 < st_fuel t"
    using Cons.prems(2) by (simp_all add: long_enough_def)
  obtain so1 event where w: "wait_event_timeout (st_fuel t) sip (st_world t) (st_elapsed t) EVENT_TIMEOUT so = Some (Some (so1, event))"
      "server_obj_inv (hist @ (case event of Some e \<Rightarrow> [e] | None \<Rightarrow> [])) so1"
    using server_wait_timeout [OF Cons.prems(1) enough] by blast
  show ?case
  proof (cases event)
    case None
    with w Cons.IH [of hist so1] Cons.prems(2) show ?thesis
      by simp
  next
    case (Some e)
    then obtain so2 where so2: "server_main_event t e so1 = Some so2" "server_obj_inv (hist @ [e]) so2"
      using inv_server_main_event [of hist e so1 t] w(2) by auto
    obtain so' es where "server_main_loop sip ts so2 = Some (Some (so', map server_event_line es))"
        "server_obj_inv ((hist @ [e]) @ es) so'"
      using Cons.IH [OF so2(2)] Cons.prems(2) by auto
    with w(1) so2(1) Some show ?thesis
      by (intro exI [of _ so'] exI [of _ "e # es"]) simp
  qed
qed

lemma inv_client_main_send:
  assumes "client_obj_inv hist co"
  shows "\<exists>co'. client_main_send t co = Some co' \<and> client_obj_inv hist co'"
  using inv_client_step [OF assms, of "CiSend [0x00, 0x01, 0x02] (SendUnreliable 0) (ct_coins t) (ct_now t)"]
  by (auto simp: on_client_def client_main_send_def)

lemma client_main_loop_runs:
  "client_obj_inv hist co \<Longrightarrow> \<forall>t \<in> set ts. long_enough (ct_fuel t) (ct_elapsed t) \<Longrightarrow>
     \<exists>co' es. client_main_loop outer ts co = Some (Some (co', map client_event_line es)) \<and> client_obj_inv (hist @ es) co'"
proof (induction ts arbitrary: outer co hist)
  case Nil
  then show ?case
    by (intro exI [of _ co] exI [of _ "[]"]) simp
next
  case (Cons t ts)
  have enough: "EVENT_TIMEOUT \<le> sum (ct_elapsed t) {..<ct_fuel t}" "0 < ct_fuel t"
    using Cons.prems(2) by (simp_all add: long_enough_def)
  obtain co1 where co1: "(if outer then client_main_send t co else Some co) = Some co1" "client_obj_inv hist co1"
    using inv_client_main_send [OF Cons.prems(1), of t] Cons.prems(1) by (cases outer) auto
  obtain co2 event where
      w: "client_wait_event_timeout (ct_fuel t) (ct_world t) (ct_clock t) (ct_elapsed t) EVENT_TIMEOUT co1 = Some (Some (co2, event))"
      "client_obj_inv (hist @ (case event of Some e \<Rightarrow> [e] | None \<Rightarrow> [])) co2"
    using client_wait_event_timeout_returns [OF co1(2) enough] by blast
  show ?case
  proof (cases event)
    case None
    with w co1(1) Cons.IH [of hist co2 True] Cons.prems(2) show ?thesis
      by simp
  next
    case (Some e)
    obtain co' es where "client_main_loop False ts co2 = Some (Some (co', map client_event_line es))"
        "client_obj_inv ((hist @ [e]) @ es) co'"
      using Cons.IH [of "hist @ [e]" co2 False] w(2) Some Cons.prems(2) by auto
    with w(1) co1(1) Some show ?thesis
      by (intro exI [of _ co'] exI [of _ "e # es"]) simp
  qed
qed

text \<open>
  C39: the example server never panics once its socket is there, whatever arrives and however
  long it runs, and each of its calls returns: it prints the events in the order they are
  handed out, for each peer a connection, packets and at most one end.
\<close>

theorem server_main_runs:
  assumes "socket_new os SERVER_FRAME_SIZE_MAX = Inr rx" and "\<forall>t \<in> set ts. long_enough (st_fuel t) (st_elapsed t)"
  shows "\<exists>so es. server_main sip os now key ts = Some (Some (so, map server_event_line es)) \<and>
    (\<forall>pid < length (sv_store (so_core so)). \<exists>ps fin.
       filter (\<lambda>e. event_peer e = pid) (es @ sv_events (so_core so)) = SvConnect pid # map (SvReceive pid) ps @ fin \<and>
       fin \<in> {[], [SvDisconnect pid], [SvError pid Timeout]})"
proof -
  let ?so = "\<lparr>so_core = ServerCore_new key main_server_config, so_epoch = Epoch_new now, so_socket_rx = rx\<rparr>"
  have bind: "Server_bind_with_config os now key main_server_config = Some (Inr ?so)"
    using main_configs(1) assms(1) by (simp add: Server_bind_with_config_def)
  have "server_obj_inv [] ?so"
    using server_core_inv [OF main_configs(1), of key] assms(1) by (auto simp: server_obj_inv_def socket_new_def)
  then obtain so es where run: "server_main_loop sip ts ?so = Some (Some (so, map server_event_line es))"
      "server_inv_on es {} (so_core so)"
    using server_main_loop_runs [of "[]" ?so ts sip] assms(2) by (auto simp: server_obj_inv_def)
  have "server_main sip os now key ts = Some (Some (so, map server_event_line es))"
    by (simp add: server_main_def bind run(1))
  with inv_events_shape [OF run(2)] show ?thesis
    by blast
qed

definition demo_server_turn :: "(bytes \<times> SocketAddr) io_result list \<Rightarrow> ServerTurn" where
  "demo_server_turn answers = \<lparr>st_fuel = 4, st_world = (\<lambda>k w. demo_round answers), st_elapsed = (\<lambda>k. 250), st_now = 0,
     st_coins = (\<lambda>k. True)\<rparr>"

theorem server_main_runs_witness:
  "\<exists>so es. server_main demo_sip demo_os 0 [1, 2] [demo_server_turn [], demo_server_turn [Inr ([1, 2, 3], V4 [10, 0, 0, 1] 5000)]] =
     Some (Some (so, map server_event_line es))"
proof -
  have "long_enough (st_fuel (demo_server_turn as)) (st_elapsed (demo_server_turn as))" for as
    by (simp add: long_enough_def demo_server_turn_def EVENT_TIMEOUT_def)
  then show ?thesis
    using server_main_runs [OF demo_os_ok(1), of "[demo_server_turn [], demo_server_turn [Inr ([1, 2, 3], V4 [10, 0, 0, 1] 5000)]]"
        demo_sip 0 "[1, 2]"] by auto
qed

text \<open>
  The example client never panics once its socket is there, and each of its calls returns;
  the events it prints are none, or one error of the handshake, or a connection, packets and at
  most one end.
\<close>

lemma client_main_runs:
  assumes "socket_new_connected os CLIENT_FRAME_SIZE_MAX = Inr rx" and "\<forall>t \<in> set ts. long_enough (ct_fuel t) (ct_elapsed t)"
  shows "\<exists>co es. client_main os now random ts = Some (Some (co, map client_event_line es)) \<and>
    (es @ cli_events (co_core co) = [] \<or> (\<exists>k. es @ cli_events (co_core co) = [ClError k]) \<or>
     (\<exists>ps fin. es @ cli_events (co_core co) = ClConnect # map ClReceive ps @ fin \<and> fin \<in> {[], [ClDisconnect], [ClError Timeout]}))"
proof -
  obtain cli where cli: "Client_new random main_client_config = Some cli" "client_inv [] cli"
    using client_new_exact [of random main_client_config] main_configs(2) by (simp add: client_inv_def)
  let ?co = "\<lparr>co_core = cli, co_time_ref = now, co_socket_rx = rx\<rparr>"
  have connect: "Client_connect_with_config os now random main_client_config = Some (Inr ?co)"
    using main_configs(2) assms(1) cli(1) by (simp add: Client_connect_with_config_def)
  have "client_obj_inv [] ?co"
    using cli(2) assms(1) by (auto simp: client_obj_inv_def socket_new_connected_def)
  then obtain co es where run: "client_main_loop True ts ?co = Some (Some (co, map client_event_line es))" "client_inv es (co_core co)"
    using client_main_loop_runs [of "[]" ?co ts True] assms(2) by (auto simp: client_obj_inv_def)
  have "client_main os now random ts = Some (Some (co, map client_event_line es))"
    by (simp add: client_main_def connect run(1))
  with client_inv_shape [OF run(2)] show ?thesis
    by (auto split: ClientState.splits)
qed

definition demo_client_turn :: "bytes io_result list \<Rightarrow> ClientTurn" where
  "demo_client_turn answers = \<lparr>ct_fuel = 4, ct_world = (\<lambda>k w. demo_client_round answers 0), ct_clock = (\<lambda>k. 0), ct_elapsed = (\<lambda>k. 250),
     ct_now = 0, ct_coins = (\<lambda>k. True)\<rparr>"

lemma demo_client_runs:
  "\<exists>co es. client_main demo_os 0 77 [demo_client_turn [], demo_client_turn [Inr [1, 2, 3]]] =
     Some (Some (co, map client_event_line es))"
proof -
  have "long_enough (ct_fuel (demo_client_turn as)) (ct_elapsed (demo_client_turn as))" for as
    by (simp add: long_enough_def demo_client_turn_def EVENT_TIMEOUT_def)
  then show ?thesis
    using client_main_runs [OF demo_os_ok(2), of "[demo_client_turn [], demo_client_turn [Inr [1, 2, 3]]]" 0 77] by auto
qed

end
