(* ===== verification/Spec2Isabelle.thy ===== *)
theory Spec2Isabelle
  imports Serial Prio Cc Segment_Link Session_Calls Programs
begin

text \<open>
  Verification of redpine-rs, a protocol library over UDP with reliable and unreliable
  channels, congestion control and a stateless handshake. File names below are those under
  \<^verbatim>\<open>src/\<close> of the crate.

  \<^bold>\<open>The program.\<close> An application holds a \<^verbatim>\<open>Client\<close> or a \<^verbatim>\<open>Server\<close>. Both polls read frames
  from a socket and test timers. A handshake of four frames, during which the server keeps no
  state (it recognises its own answers by a keyed hash), gives each side an \<^verbatim>\<open>Endpoint\<close>. The
  endpoint cuts packets into fragments (\<^verbatim>\<open>buffer/\<close>), lets a scheduler choose between the
  reliable and the unreliable queue (\<^verbatim>\<open>endpoint/prio.rs\<close>), and packs the fragments into
  numbered segments, as many as congestion control (\<^verbatim>\<open>endpoint/cc.rs\<close>) and the segment
  window (\<^verbatim>\<open>endpoint/segment_tx.rs\<close>) allow. The receiving endpoint puts the segments back in
  order (\<^verbatim>\<open>endpoint/segment_rx.rs\<close>), acknowledges them with a checksum of their random nonce
  bits, and reassembles packets. Every frame ends with a checksum (\<^verbatim>\<open>frame/serial/\<close>). The
  endpoint talks back to its host, the client or a peer of the server, through callbacks that
  send frames, arm its timer and queue events.

  \<^bold>\<open>The theories and the code.\<close>

  \<^item> \<open>Redpine_Prelude\<close>: machine integers (\<open>u8\<close> to \<open>u64\<close> are words, which wrap; \<^verbatim>\<open>usize\<close> is
    \<open>nat\<close>), the outcome type \<open>rust\<close> (an option whose \<open>None\<close> is a panic, an overflow trap or a
    memory access out of bounds), sequence-number arithmetic.
  \<^item> \<open>Crc\<close>, \<open>Frame\<close>, \<open>Serial\<close>: \<^verbatim>\<open>frame/serial/crc.rs\<close>, \<^verbatim>\<open>frame/mod.rs\<close>,
    \<^verbatim>\<open>frame/serial/mod.rs\<close>. Readers and writers keep a buffer and a position, as the raw
    pointers of the code do. The locales \<open>serial\<close> and \<open>block_serial\<close> are its traits, interpreted
    for each frame.
  \<^item> \<open>Buffer\<close>, \<open>Reliable\<close>, \<open>Unreliable\<close>: \<^verbatim>\<open>buffer/mod.rs\<close>, \<^verbatim>\<open>buffer/reliable.rs\<close>,
    \<^verbatim>\<open>buffer/unreliable.rs\<close>. The locales \<open>send_queue\<close> and \<open>reassembler\<close> are what the endpoint
    relies on, interpreted for both kinds of buffer. \<open>Reliable_Net\<close> joins the two reliable
    buffers by a network that loses, repeats and reorders; \<open>Unreliable_Net\<close> joins the two
    unreliable ones by the segment layer, which loses but keeps the order.
  \<^item> \<open>Prio\<close>, \<open>Cc\<close>, \<open>Segment_Tx\<close>, \<open>Segment_Rx\<close>, \<open>Segment_Link\<close>: the parts of an endpoint, one file
    of \<^verbatim>\<open>endpoint/\<close> each; the last joins the two ends of the segment protocol.
  \<^item> \<open>Rtt\<close>, \<open>Fragment_Tx\<close>, \<open>Endpoint\<close>: \<^verbatim>\<open>endpoint/mod.rs\<close>. The first has the single-precision
    arithmetic of \<^verbatim>\<open>update_rtt\<close>, the second \<^verbatim>\<open>FragmentTxBuffers\<close>, the third the state machine.
    An operation takes the endpoint to a new one and the list of its callbacks.
    \<open>Endpoint_Inv\<close>, \<open>Endpoint_Step\<close>, \<open>Endpoint_Props\<close> and \<open>Endpoint_Flow\<close> hold its invariant,
    the step relation \<open>conn_step\<close> it implements, and its properties. \<open>Stream_Moves\<close> says what
    each call of a host does to the queues and the receivers of an endpoint, \<open>Stream_Buffers\<close>
    what that means for the buffers at both ends, and \<open>Stream_Net\<close> joins two endpoints by a
    network: a run of theirs contains a run of the segment protocol and of each channel.
  \<^item> \<open>Socket\<close>: \<^verbatim>\<open>socket.rs\<close> and \<^verbatim>\<open>server/epoch.rs\<close>. The answers of the system calls (datagrams,
    their errors, the results of polling and of creating a socket) are a list the operations
    consume. The locale \<open>frame_source\<close> is what the reading loops rely on, interpreted for the
    sockets of both hosts.
  \<^item> \<open>Timer_Queue\<close>, \<open>Host\<close>, \<open>Server\<close>, \<open>Client\<close>: \<^verbatim>\<open>timer_queue.rs\<close>, what both hosts share,
    \<^verbatim>\<open>server/\<close>, \<^verbatim>\<open>client.rs\<close>. A reference-counted peer is an index into a store of the
    server; a weak reference is dead once the peer has left the table. The locale \<open>timer\<close> is
    the trait the queue tests, interpreted for peers. \<open>Server_Inv\<close>, \<open>Server_Props\<close> and
    \<open>Client_Props\<close> hold the invariants of the hosts and what they do with one frame,
    \<open>Server_Runs\<close> and \<open>Client_Runs\<close> their properties over whole runs, from the socket on, and
    \<open>Handshake\<close> those of a client and a server together.
  \<^item> \<open>Pair_Net\<close>, \<open>Client_Side\<close>, \<open>Server_Side\<close>, \<open>Session\<close>, \<open>Session_Calls\<close>: the whole system. The first is the
    network of \<open>Stream_Net\<close> seen from both ends; the next two show that every operation of a
    client, and of a server with any number of other peers, is a sequence of calls on the endpoint
    of the one connection or a step of its handshake (the abstraction is \<open>client_is\<close>,
    \<open>server_is\<close>); \<open>Session\<close> runs a client and a server together, one frame, timer or call at a
    time, and carries the delivery of \<open>Stream_Net\<close> over to what their applications see; the last
    says the same of the calls of the library, each of which is a sequence of such pieces.
  \<^item> \<open>Programs\<close>: the two programs of \<^verbatim>\<open>bin/\<close>, with the lines they print.

  \<^bold>\<open>What the lemmas show.\<close>

  \<^item> No abort: whatever bytes arrive, whatever the clocks say and whatever the application
    calls, no operation of an endpoint, a server or a client panics, overflows or reads out of
    bounds, and every component keeps its invariant.
  \<^item> Delivery: between the applications of a client and a server, from the start of the handshake
    on and in both directions, the packets of the reliable channel come out in order,
    without a gap and without a repetition, and between them whole packets of the
    unreliable one, in order and at most once, as long as the server has accepted no more than
    one connection from the client's address and the 32-bit identifiers have not gone round.
    (Frames do not name their connection, and \<open>replayed_request_second_peer\<close> shows that a handshake
    request repeated within ten seconds, after its peer is gone, makes a second one.) So they do
    between any two endpoints; a reliable channel can always be completed;
    segments are delivered in order and once; a stream frame is understood as it was meant;
    frames read back what was written (\<open>Serial\<close> says which ways of writing are meant) and
    corruption within four bytes is found.
  \<^item> Control: the bytes in transit, the drop detection (no drop is seen while nothing is lost
    and each acknowledgement reports at most five new segments), the nonce checks, the windows
    of congestion control, the fairness of the scheduler for bursts of at least two fragments,
    and the bounds of the timeout.
  \<^item> Connections: an honest handshake completes, only a valid and fresh code admits a peer, an
    address without a peer is never sent more than it sent, the peer table is exact, each side
    sees a connect, packets and at most one end, and a silent peer is given up.

  \<^bold>\<open>Recursion.\<close> The loops of the code are structural recursions or functions with a measure:
  the bytes left of a packet, the fragments left in the queues (\<open>ftb_flush_loop\<close>), the room left
  in the segment window (\<open>flush_stream\<close>), the slots of the receiver, the unread bytes of a frame;
  they need no bound. The loops that read a socket end with its answers, of which a poll sees
  finitely many. Only the wait loops of the hosts may run for ever. They take their rounds
  from an input \<open>world\<close>, and \<open>fuel\<close> bounds the number of rounds:
  \<open>wait_event_timeout_returns\<close> shows that as many rounds as last the timeout are enough.

  \<^bold>\<open>What is a parameter.\<close> The keyed hash of the \<^verbatim>\<open>siphasher\<close> crate (\<open>sip\<close>), of which nothing
  is assumed; random numbers, the readings of the clock, and the answers of
  the socket: the bytes received, their order and the errors.

  \<^bold>\<open>What is not modelled.\<close> The module declarations, re-exports and comments of \<^verbatim>\<open>lib.rs\<close>
  (its two enumerations are \<open>SendMode\<close> and \<open>ErrorKind\<close>), the tests, locks (every operation of a
  host runs under its exclusive reference or its lock, from one thread), allocation failure, and
  debug assertions where a release build goes on.
\<close>

end
